(* ===== verification/Prelude.thy ===== *)
theory Prelude
  imports Main "HOL-Library.Word"
begin

text \<open>
  Shared vocabulary of the development: the byte and string conventions of C, the widths
  of its integers on an LP64 platform, the memory allocator as an environment parameter,
  the decimal notation that the protocol uses for lengths and counts, and the list lemmas
  that the components' proofs share.
\<close>

named_theorems width_simps \<open>equations that remove a wrap-around once the value fits\<close>

section \<open>Bytes and C strings\<close>

text \<open>A byte is a HOL \<^typ>\<open>char\<close> (256 values); a pointer/length pair is the list of its bytes.\<close>

type_synonym bytes = "char list"

abbreviation NUL :: char where "NUL \<equiv> CHR 0x00"
abbreviation CR :: char where "CR \<equiv> CHR 0x0D"
abbreviation LF :: char where "LF \<equiv> CHR 0x0A"

text \<open>The bytes that a \<open>char*\<close> denotes to \<open>str*\<close> functions: those before the first NUL.\<close>

definition cstr :: "bytes \<Rightarrow> bytes" where
  "cstr s = takeWhile (\<lambda>c. c \<noteq> NUL) s"

definition strlen :: "bytes \<Rightarrow> nat" where
  "strlen s = length (cstr s)"

text \<open>\<open>strchr(cset, c) != NULL\<close>: the terminator counts as part of the string.\<close>

definition strchr :: "bytes \<Rightarrow> char \<Rightarrow> bool" where
  "strchr cset c \<longleftrightarrow> c = NUL \<or> c \<in> set (cstr cset)"

text \<open>The classification functions of \<open>ctype.h\<close> in the C locale.\<close>

definition byte_code :: "char \<Rightarrow> nat" where
  "byte_code c = of_char c"

definition isdigit :: "char \<Rightarrow> bool" where
  "isdigit c \<longleftrightarrow> 48 \<le> byte_code c \<and> byte_code c \<le> 57"

definition isprint :: "char \<Rightarrow> bool" where
  "isprint c \<longleftrightarrow> 32 \<le> byte_code c \<and> byte_code c \<le> 126"

definition isspace :: "char \<Rightarrow> bool" where
  "isspace c \<longleftrightarrow> byte_code c = 32 \<or> 9 \<le> byte_code c \<and> byte_code c \<le> 13"

definition isxdigit :: "char \<Rightarrow> bool" where
  "isxdigit c \<longleftrightarrow> isdigit c \<or> 65 \<le> byte_code c \<and> byte_code c \<le> 70
     \<or> 97 \<le> byte_code c \<and> byte_code c \<le> 102"

definition tolower :: "char \<Rightarrow> char" where
  "tolower c = (if 65 \<le> byte_code c \<and> byte_code c \<le> 90 then char_of (byte_code c + 32) else c)"

definition toupper :: "char \<Rightarrow> char" where
  "toupper c = (if 97 \<le> byte_code c \<and> byte_code c \<le> 122 then char_of (byte_code c - 32) else c)"

text \<open>\<open>strcasecmp(a, b) == 0\<close> and \<open>strncasecmp(a, b, n) == 0\<close>.\<close>

definition strcaseeq :: "bytes \<Rightarrow> bytes \<Rightarrow> bool" where
  "strcaseeq a b \<longleftrightarrow> map tolower (cstr a) = map tolower (cstr b)"

definition strncaseeq :: "bytes \<Rightarrow> bytes \<Rightarrow> nat \<Rightarrow> bool" where
  "strncaseeq a b n \<longleftrightarrow> map tolower (take n (cstr a)) = map tolower (take n (cstr b))"

text \<open>\<open>memcpy(dst + i, t, n)\<close> on the bytes of \<open>dst\<close>. A write past the end would lengthen the
  list, so an operation that keeps the length of its buffer has stayed inside it.\<close>

definition memcpy_at :: "bytes \<Rightarrow> nat \<Rightarrow> bytes \<Rightarrow> bytes" where
  "memcpy_at dst i t = take i dst @ t @ drop (i + length t) dst"

text \<open>\<open>memcmp\<close>: the difference of the first bytes that differ, 0 when there is none.\<close>

fun memcmp :: "bytes \<Rightarrow> bytes \<Rightarrow> int" where
  "memcmp (a # as) (b # bs) =
     (if a = b then memcmp as bs else int (byte_code a) - int (byte_code b))"
| "memcmp _ _ = 0"

text \<open>\<open>snprintf(buf, n, ...)\<close> where the whole text would be \<open>t\<close>: what is stored in the buffer.\<close>

definition snprintf_buf :: "nat \<Rightarrow> bytes \<Rightarrow> bytes" where
  "snprintf_buf n t = (if n = 0 then [] else take (n - 1) t @ [NUL])"

section \<open>Integer widths\<close>

text \<open>\<open>size_t\<close> and \<open>unsigned long\<close> have 64 bits, \<open>int\<close> 32, \<open>long long\<close> and \<open>ssize_t\<close> 64.
  Unsigned results are reduced modulo \<open>2^w\<close>; \<open>sbits w\<close> is the conversion to a signed type.\<close>

definition ubits :: "nat \<Rightarrow> nat \<Rightarrow> nat" where
  "ubits w n = n mod 2 ^ w"

definition usub :: "nat \<Rightarrow> nat \<Rightarrow> nat \<Rightarrow> nat" where
  "usub w a b = nat ((int a - int b) mod 2 ^ w)"

definition sbits :: "nat \<Rightarrow> int \<Rightarrow> int" where
  "sbits w x = (x + 2 ^ (w - 1)) mod 2 ^ w - 2 ^ (w - 1)"

definition SIZE_MAX :: nat where "SIZE_MAX = 2 ^ 64 - 1"
definition SSIZE_MAX :: nat where "SSIZE_MAX = 2 ^ 63 - 1"
definition LLONG_MAX :: int where "LLONG_MAX = 2 ^ 63 - 1"
definition LLONG_MIN :: int where "LLONG_MIN = - (2 ^ 63)"
definition INT_MAX :: int where "INT_MAX = 2 ^ 31 - 1"

section \<open>The allocator\<close>

text \<open>
  The allocator is part of the environment: \<open>granted M n\<close> says whether a request for \<open>n\<close>
  bytes made during a call succeeds, and \<open>junk M\<close> gives the indeterminate contents of fresh
  memory. Every theorem holds for all allocators unless it says otherwise.
\<close>

record mem =
  granted :: "nat \<Rightarrow> bool"
  junk :: "nat \<Rightarrow> char"

definition malloc_bytes :: "mem \<Rightarrow> nat \<Rightarrow> bytes option" where
  "malloc_bytes M n = (if granted M n then Some (map (junk M) [0..<n]) else None)"

text \<open>\<open>realloc\<close>: the old contents up to the smaller size, then indeterminate bytes.\<close>

definition realloc_bytes :: "mem \<Rightarrow> bytes \<Rightarrow> nat \<Rightarrow> bytes option" where
  "realloc_bytes M old n = map_option (\<lambda>b. take n old @ drop (length old) b) (malloc_bytes M n)"

definition mem_ok :: mem where
  "mem_ok = \<lparr>granted = (\<lambda>_. True), junk = (\<lambda>_. CHR ''?'')\<rparr>"

definition mem_none :: mem where
  "mem_none = \<lparr>granted = (\<lambda>_. False), junk = (\<lambda>_. CHR ''?'')\<rparr>"

text \<open>How a call that returns a pointer can end: with a value, with NULL, or undefined (a NULL
  pointer dereferenced, a variadic argument missing or of the wrong type).\<close>

datatype 'a outcome = Ret 'a | Null | Undef

section \<open>Decimal notation\<close>

definition digit_char :: "nat \<Rightarrow> char" where
  "digit_char d = char_of (48 + d)"

definition digit_val :: "char \<Rightarrow> nat" where
  "digit_val c = byte_code c - 48"

text \<open>The decimal numeral of a number, most significant digit first (\<open>%zu\<close>, \<open>%u\<close> of \<open>printf\<close>).\<close>

fun dec :: "nat \<Rightarrow> bytes" where
  "dec n = (if n < 10 then [digit_char n] else dec (n div 10) @ [digit_char (n mod 10)])"

declare dec.simps [simp del]

definition dec_int :: "int \<Rightarrow> bytes" where
  "dec_int x = (if x < 0 then CHR ''-'' # dec (nat (- x)) else dec (nat x))"

text \<open>A hexadecimal digit as \<open>%x\<close> prints it.\<close>

definition hex_char :: "nat \<Rightarrow> char" where
  "hex_char d = (if d < 10 then char_of (48 + d) else char_of (87 + d))"

text \<open>The value of a digit string read from the left.\<close>

definition digits_val :: "nat \<Rightarrow> bytes \<Rightarrow> nat" where
  "digits_val acc ds = foldl (\<lambda>v c. 10 * v + digit_val c) acc ds"

section \<open>Lemmas on bytes and buffers\<close>

lemma byte_code_less [simp]: "byte_code c < 256"
  by (simp add: byte_code_def)

lemma byte_code_inject [simp]: "byte_code a = byte_code b \<longleftrightarrow> a = b"
  by (simp add: byte_code_def)

lemma byte_code_char_of [simp]: "byte_code (char_of n) = n mod 256"
  by (simp add: byte_code_def)

lemma cstr_id [simp]: "NUL \<notin> set s \<Longrightarrow> cstr s = s"
  by (auto simp: cstr_def takeWhile_eq_all_conv)

lemma cstr_append_NUL [simp]: "cstr (s @ NUL # t) = cstr s"
  by (induction s) (simp_all add: cstr_def)

lemma cstr_append_in: "NUL \<in> set s \<Longrightarrow> cstr (s @ t) = cstr s"
  by (induction s) (auto simp: cstr_def)

lemma NUL_notin_cstr [simp]: "NUL \<notin> set (cstr s)"
  by (auto simp: cstr_def dest: set_takeWhileD)

lemma length_memcpy_at [simp]:
  "i + length t \<le> length b \<Longrightarrow> length (memcpy_at b i t) = length b"
  by (simp add: memcpy_at_def)

lemma take_memcpy_at_before: "n \<le> i \<Longrightarrow> i \<le> length b \<Longrightarrow> take n (memcpy_at b i t) = take n b"
  by (simp add: memcpy_at_def min_def)

lemma take_memcpy_at_end:
  "i \<le> length b \<Longrightarrow> n = i + length t \<Longrightarrow> take n (memcpy_at b i t) = take i b @ t"
  by (simp add: memcpy_at_def min_def)

lemma nth_memcpy_at_inside:
  "i \<le> length b \<Longrightarrow> j < length t \<Longrightarrow> memcpy_at b i t ! (i + j) = t ! j"
  by (simp add: memcpy_at_def nth_append min_def)

lemma nth_memcpy_at_single [simp]: "i \<le> length b \<Longrightarrow> memcpy_at b i [c] ! i = c"
  using nth_memcpy_at_inside [of i b 0 "[c]"] by simp

lemma memcpy_at_Nil [simp]: "memcpy_at b i [] = b"
  by (simp add: memcpy_at_def)

lemma nth_take_snoc: "n < length b \<Longrightarrow> take (Suc n) b = take n b @ [b ! n]"
  by (simp add: take_Suc_conv_app_nth)

section \<open>Lemmas on widths\<close>

lemma ubits_id [simp, width_simps]: "n < 2 ^ w \<Longrightarrow> ubits w n = n"
  by (simp add: ubits_def)

lemma ubits_le [simp]: "ubits w n \<le> n"
  by (simp add: ubits_def)

lemma ubits_less [simp]: "ubits w n < 2 ^ w"
  by (simp add: ubits_def)

lemma usub_id [width_simps]:
  assumes "b \<le> a" and "a < 2 ^ w" shows "usub w a b = a - b"
proof -
  have "int a - int b < 2 ^ w"
    using assms(2) by (metis diff_ge_0_iff_ge diff_le_eq le_add_same_cancel1 of_nat_0_le_iff
        of_nat_less_numeral_power_cancel_iff order_le_less_trans)
  with assms(1) show ?thesis by (simp add: usub_def)
qed

lemma sbits_id [width_simps]:
  assumes "0 < w" and "- (2 ^ (w - 1)) \<le> x" and "x < 2 ^ (w - 1)" shows "sbits w x = x"
proof -
  have "(2::int) ^ w = 2 ^ (w - 1) + 2 ^ (w - 1)"
    using assms(1) by (metis mult_2 power_eq_if gr_implies_not0)
  with assms(2,3) show ?thesis by (simp add: sbits_def)
qed

lemma sbits32_id [simp, width_simps]: "- 2147483648 \<le> x \<Longrightarrow> x < 2147483648 \<Longrightarrow> sbits 32 x = x"
  by (rule sbits_id) simp_all

lemma sbits64_id [simp, width_simps]:
  "- 9223372036854775808 \<le> x \<Longrightarrow> x < 9223372036854775808 \<Longrightarrow> sbits 64 x = x"
  by (rule sbits_id) simp_all

section \<open>Lemmas on the allocator\<close>

lemma malloc_bytes_Some: "malloc_bytes M n = Some b \<Longrightarrow> length b = n"
  by (auto simp: malloc_bytes_def split: if_splits)

lemma realloc_bytes_Some:
  assumes "realloc_bytes M old n = Some b"
  shows "length b = n" and "k \<le> length old \<Longrightarrow> k \<le> n \<Longrightarrow> take k b = take k old"
    and "i < length old \<Longrightarrow> i < n \<Longrightarrow> b ! i = old ! i"
  using assms by (auto simp: realloc_bytes_def nth_append dest: malloc_bytes_Some)

lemma malloc_bytes_granted: "granted M n \<Longrightarrow> malloc_bytes M n \<noteq> None"
  by (simp add: malloc_bytes_def)

lemma realloc_bytes_granted: "granted M n \<Longrightarrow> realloc_bytes M old n \<noteq> None"
  by (simp add: realloc_bytes_def malloc_bytes_granted)

lemma mem_ok_granted [simp]: "granted mem_ok n"
  by (simp add: mem_ok_def)

section \<open>Lemmas on decimal notation\<close>

lemma isdigit_digit_char [simp]: "d < 10 \<Longrightarrow> isdigit (digit_char d)"
  by (simp add: isdigit_def digit_char_def)

lemma digit_val_digit_char [simp]: "d < 10 \<Longrightarrow> digit_val (digit_char d) = d"
  by (simp add: digit_val_def digit_char_def)

lemma digit_val_less: "isdigit c \<Longrightarrow> digit_val c < 10"
  by (auto simp: isdigit_def digit_val_def)

lemma digit_char_digit_val [simp]: "isdigit c \<Longrightarrow> digit_char (digit_val c) = c"
  by (simp add: isdigit_def digit_val_def digit_char_def byte_code_def)

lemma dec_small: "n < 10 \<Longrightarrow> dec n = [digit_char n]"
  by (subst dec.simps) simp

lemma dec_large: "10 \<le> n \<Longrightarrow> dec n = dec (n div 10) @ [digit_char (n mod 10)]"
  by (subst dec.simps) simp

lemma dec_nonempty [simp]: "dec n \<noteq> []"
  by (subst dec.simps) simp

lemma dec_isdigit: "c \<in> set (dec n) \<Longrightarrow> isdigit c"
proof (induction n rule: dec.induct)
  case (1 n)
  then show ?case by (cases "n < 10") (auto simp: dec_small dec_large)
qed

lemma digits_val_append [simp]:
  "digits_val acc (xs @ ys) = digits_val (digits_val acc xs) ys"
  by (simp add: digits_val_def)

lemma digits_val_Nil [simp]: "digits_val acc [] = acc"
  by (simp add: digits_val_def)

lemma digits_val_Cons: "digits_val acc (c # cs) = digits_val (10 * acc + digit_val c) cs"
  by (simp add: digits_val_def)

lemma digits_val_dec [simp]: "digits_val 0 (dec n) = n"
proof (induction n rule: dec.induct)
  case (1 n)
  then show ?case by (cases "n < 10") (simp_all add: dec_small dec_large digits_val_Cons)
qed

lemma hd_dec_pos: "0 < n \<Longrightarrow> hd (dec n) \<noteq> CHR ''0''"
proof (induction n rule: dec.induct)
  case (1 n)
  show ?case
  proof (cases "n < 10")
    case True
    have "digit_val CHR ''0'' = 0" by (simp add: digit_val_def byte_code_def)
    with True "1.prems" have "digit_val (digit_char n) \<noteq> digit_val CHR ''0''" by simp
    then have "digit_char n \<noteq> CHR ''0''" by metis
    with True show ?thesis by (simp add: dec_small)
  next
    case False
    with "1.IH" have "hd (dec (n div 10)) \<noteq> CHR ''0''" by simp
    with False show ?thesis by (simp add: dec_large hd_append)
  qed
qed

lemma digit_not_CR: "isdigit c \<Longrightarrow> c \<noteq> CR"
  by (auto simp: isdigit_def byte_code_def)

lemma digits_val_mono: "acc \<le> digits_val acc ds"
proof (induction ds arbitrary: acc)
  case (Cons d ds)
  have "acc \<le> 10 * acc + digit_val d" by simp
  also have "\<dots> \<le> digits_val (10 * acc + digit_val d) ds" by (rule Cons.IH)
  finally show ?case by (simp add: digits_val_Cons)
qed simp

lemma digits_val_pos:
  assumes "ds \<noteq> []" and "\<forall>d \<in> set ds. isdigit d" and "hd ds \<noteq> CHR ''0''"
  shows "0 < digits_val 0 ds"
proof -
  obtain d ds' where ds: "ds = d # ds'" using assms(1) by (cases ds) auto
  have "digit_char 0 = CHR ''0''" by (simp add: digit_char_def char_of_eq_iff)
  then have "digit_val d \<noteq> 0" using assms(2,3) digit_char_digit_val [of d] ds
    by (metis list.sel(1) list.set_intros(1))
  with digits_val_mono [of "digit_val d" ds'] show ?thesis by (simp add: ds digits_val_Cons)
qed

text \<open>The numeral of a value is the only digit string without a leading zero that has it.\<close>

lemma dec_digits_val:
  assumes "ds \<noteq> []" and "\<forall>d \<in> set ds. isdigit d" and "hd ds \<noteq> CHR ''0''"
  shows "dec (digits_val 0 ds) = ds"
  using assms
proof (induction ds rule: rev_induct)
  case (snoc d ds)
  have d: "digit_val d < 10" "digit_char (digit_val d) = d" using snoc.prems(2) digit_val_less by auto
  show ?case
  proof (cases "ds = []")
    case True
    with d show ?thesis by (simp add: digits_val_Cons dec_small)
  next
    case False
    then have "dec (digits_val 0 ds) = ds" "0 < digits_val 0 ds"
      using snoc digits_val_pos [of ds] by (auto simp: hd_append)
    with d show ?thesis
      by (simp add: digits_val_Cons dec_large [of "10 * digits_val 0 ds + digit_val d"])
  qed
qed simp

end
