(* ===== verification/Sds.thy ===== *)
theory Sds
  imports Prelude
begin

text \<open>
  The dynamic strings of \<open>src/src/hiredis/sds.h\<close> and \<open>sds.c\<close>. A string is a header of one of
  five layouts, chosen by the length it has to hold, followed by the allocated bytes. The
  model keeps the header fields at their widths (\<open>sdssetlen\<close> truncates exactly as the C
  casts do) and the whole allocated area, so that a wrong header type, a lost terminator or
  a write past the allocation is visible. The abstraction \<open>sdsval\<close> is the string's bytes;
  \<open>sds_wf\<close> is the representation invariant. The locale \<open>byte_buffer\<close> states what the
  clients of a growable buffer rely on and is interpreted on these definitions.
\<close>

section \<open>Headers (sds.h)\<close>

datatype sds_type = SDS_TYPE_5 | SDS_TYPE_8 | SDS_TYPE_16 | SDS_TYPE_32 | SDS_TYPE_64

text \<open>\<open>sds_hlen\<close> is the \<open>len\<close> field (the five high bits of the flags byte for type 5),
  \<open>sds_halloc\<close> the \<open>alloc\<close> field (absent in type 5), \<open>sds_buf\<close> the bytes from \<open>s[0]\<close> to the
  end of the allocation.\<close>

record sds =
  sds_flags :: sds_type
  sds_hlen :: nat
  sds_halloc :: nat
  sds_buf :: bytes

definition SDS_MAX_PREALLOC :: nat where
  "SDS_MAX_PREALLOC = 1024 * 1024"

fun sds_bits :: "sds_type \<Rightarrow> nat" where
  "sds_bits SDS_TYPE_5 = 5"
| "sds_bits SDS_TYPE_8 = 8"
| "sds_bits SDS_TYPE_16 = 16"
| "sds_bits SDS_TYPE_32 = 32"
| "sds_bits SDS_TYPE_64 = 64"

definition sdslen :: "sds \<Rightarrow> nat" where
  "sdslen s = sds_hlen s"

definition sdsavail :: "sds \<Rightarrow> nat" where
  "sdsavail s = (case sds_flags s of
       SDS_TYPE_5 \<Rightarrow> 0
     | SDS_TYPE_8 \<Rightarrow> usub 64 (sds_halloc s) (sds_hlen s)
     | SDS_TYPE_16 \<Rightarrow> usub 64 (sds_halloc s) (sds_hlen s)
     | SDS_TYPE_32 \<Rightarrow> usub 32 (sds_halloc s) (sds_hlen s)
     | SDS_TYPE_64 \<Rightarrow> usub 64 (sds_halloc s) (sds_hlen s))"

definition sdssetlen :: "sds \<Rightarrow> nat \<Rightarrow> sds" where
  "sdssetlen s newlen = s\<lparr>sds_hlen := ubits (sds_bits (sds_flags s)) newlen\<rparr>"

definition sdsinclen :: "sds \<Rightarrow> nat \<Rightarrow> sds" where
  "sdsinclen s inc = s\<lparr>sds_hlen := ubits (sds_bits (sds_flags s)) (sds_hlen s + inc)\<rparr>"

definition sdsalloc :: "sds \<Rightarrow> nat" where
  "sdsalloc s = (if sds_flags s = SDS_TYPE_5 then sds_hlen s else sds_halloc s)"

definition sdssetalloc :: "sds \<Rightarrow> nat \<Rightarrow> sds" where
  "sdssetalloc s newlen =
     (if sds_flags s = SDS_TYPE_5 then s
      else s\<lparr>sds_halloc := ubits (sds_bits (sds_flags s)) newlen\<rparr>)"

section \<open>Creation and growth (sds.c)\<close>

fun sdsHdrSize :: "sds_type \<Rightarrow> nat" where
  "sdsHdrSize SDS_TYPE_5 = 1"
| "sdsHdrSize SDS_TYPE_8 = 3"
| "sdsHdrSize SDS_TYPE_16 = 5"
| "sdsHdrSize SDS_TYPE_32 = 9"
| "sdsHdrSize SDS_TYPE_64 = 17"

definition sdsReqType :: "nat \<Rightarrow> sds_type" where
  "sdsReqType string_size =
     (if string_size < 32 then SDS_TYPE_5
      else if string_size < 0xff then SDS_TYPE_8
      else if string_size < 0xffff then SDS_TYPE_16
      else if string_size < 0xffffffff then SDS_TYPE_32
      else SDS_TYPE_64)"

text \<open>\<open>init = None\<close> is the NULL pointer: the new string is then all zero bytes.\<close>

definition sdsnewlen :: "mem \<Rightarrow> bytes option \<Rightarrow> nat \<Rightarrow> sds option" where
  "sdsnewlen M init initlen =
     (let ty0 = sdsReqType initlen;
          ty = (if ty0 = SDS_TYPE_5 \<and> initlen = 0 then SDS_TYPE_8 else ty0);
          hdrlen = sdsHdrSize ty
      in case malloc_bytes M (ubits 64 (hdrlen + initlen + 1)) of
           None \<Rightarrow> None
         | Some sh \<Rightarrow>
             let area = (if init = None then replicate (length sh - hdrlen) NUL
                         else drop hdrlen sh);
                 s = \<lparr>sds_flags = ty, sds_hlen = 0, sds_halloc = 0, sds_buf = area\<rparr>;
                 s = sdssetalloc (sdssetlen s initlen) initlen;
                 s = (case init of
                        Some t \<Rightarrow> s\<lparr>sds_buf := memcpy_at (sds_buf s) 0 (take initlen t)\<rparr>
                      | None \<Rightarrow> s)
             in Some (s\<lparr>sds_buf := memcpy_at (sds_buf s) initlen [NUL]\<rparr>))"

definition sdsempty :: "mem \<Rightarrow> sds option" where
  "sdsempty M = sdsnewlen M (Some []) 0"

definition sdsnew :: "mem \<Rightarrow> bytes option \<Rightarrow> sds option" where
  "sdsnew M init = sdsnewlen M init (case init of None \<Rightarrow> 0 | Some t \<Rightarrow> strlen t)"

definition sdsdup :: "mem \<Rightarrow> sds \<Rightarrow> sds option" where
  "sdsdup M s = sdsnewlen M (Some (sds_buf s)) (sdslen s)"

definition sdsupdatelen :: "sds \<Rightarrow> sds" where
  "sdsupdatelen s = sdssetlen s (nat (sbits 32 (int (strlen (sds_buf s))) mod 2 ^ 64))"

definition sdsclear :: "sds \<Rightarrow> sds" where
  "sdsclear s = (sdssetlen s 0)\<lparr>sds_buf := memcpy_at (sds_buf s) 0 [NUL]\<rparr>"

definition sdsMakeRoomFor :: "mem \<Rightarrow> sds \<Rightarrow> nat \<Rightarrow> sds option" where
  "sdsMakeRoomFor M s addlen =
     (if addlen \<le> sdsavail s then Some s
      else
        let len = sdslen s;
            newlen = ubits 64 (len + addlen);
            newlen = (if newlen < SDS_MAX_PREALLOC then newlen * 2
                      else ubits 64 (newlen + SDS_MAX_PREALLOC));
            ty0 = sdsReqType newlen;
            ty = (if ty0 = SDS_TYPE_5 then SDS_TYPE_8 else ty0);
            hdrlen = sdsHdrSize ty
        in if sds_flags s = ty then
             (case realloc_bytes M (replicate hdrlen NUL @ sds_buf s)
                     (ubits 64 (hdrlen + newlen + 1)) of
                None \<Rightarrow> None
              | Some newsh \<Rightarrow> Some (sdssetalloc (s\<lparr>sds_buf := drop hdrlen newsh\<rparr>) newlen))
           else
             (case malloc_bytes M (ubits 64 (hdrlen + newlen + 1)) of
                None \<Rightarrow> None
              | Some newsh \<Rightarrow>
                  let s' = \<lparr>sds_flags = ty, sds_hlen = 0, sds_halloc = 0,
                            sds_buf = memcpy_at (drop hdrlen newsh) 0 (take (len + 1) (sds_buf s))\<rparr>
                  in Some (sdssetalloc (sdssetlen s' len) newlen)))"

definition sdsRemoveFreeSpace :: "mem \<Rightarrow> sds \<Rightarrow> sds option" where
  "sdsRemoveFreeSpace M s =
     (let len = sdslen s;
          ty = sdsReqType len;
          hdrlen = sdsHdrSize ty
      in if sds_flags s = ty then
           (case realloc_bytes M (replicate hdrlen NUL @ sds_buf s)
                   (ubits 64 (hdrlen + len + 1)) of
              None \<Rightarrow> None
            | Some newsh \<Rightarrow> Some (sdssetalloc (s\<lparr>sds_buf := drop hdrlen newsh\<rparr>) len))
         else
           (case malloc_bytes M (ubits 64 (hdrlen + len + 1)) of
              None \<Rightarrow> None
            | Some newsh \<Rightarrow>
                let s' = \<lparr>sds_flags = ty, sds_hlen = 0, sds_halloc = 0,
                          sds_buf = memcpy_at (drop hdrlen newsh) 0 (take (len + 1) (sds_buf s))\<rparr>
                in Some (sdssetalloc (sdssetlen s' len) len)))"

definition sdsAllocSize :: "sds \<Rightarrow> nat" where
  "sdsAllocSize s = ubits 64 (sdsHdrSize (sds_flags s) + sdsalloc s + 1)"

text \<open>\<open>None\<close> is a failed assertion. Type 5 refuses a zero increment, the others accept it.\<close>

definition sdsIncrLen :: "sds \<Rightarrow> int \<Rightarrow> sds option" where
  "sdsIncrLen s incr =
     (let l = int (sds_hlen s);
          free = (case sds_flags s of
                    SDS_TYPE_32 \<Rightarrow> int (usub 32 (sds_halloc s) (sds_hlen s))
                  | SDS_TYPE_64 \<Rightarrow> int (usub 64 (sds_halloc s) (sds_hlen s))
                  | _ \<Rightarrow> int (sds_halloc s) - l);
          fits = (if sds_flags s = SDS_TYPE_5 then 0 < incr \<and> l + incr < 32 \<or> incr < 0 \<and> - incr \<le> l
                  else 0 \<le> incr \<and> incr \<le> free \<or> incr < 0 \<and> - incr \<le> l);
          newlen = ubits (sds_bits (sds_flags s)) (nat (l + incr))
      in if fits
         then Some (s\<lparr>sds_hlen := newlen, sds_buf := memcpy_at (sds_buf s) newlen [NUL]\<rparr>)
         else None)"

definition sdsgrowzero :: "mem \<Rightarrow> sds \<Rightarrow> nat \<Rightarrow> sds option" where
  "sdsgrowzero M s len =
     (let curlen = sdslen s
      in if len \<le> curlen then Some s
         else case sdsMakeRoomFor M s (len - curlen) of
                None \<Rightarrow> None
              | Some s \<Rightarrow>
                  Some (sdssetlen
                    (s\<lparr>sds_buf := memcpy_at (sds_buf s) curlen (replicate (len - curlen + 1) NUL)\<rparr>)
                    len))"

definition sdscatlen :: "mem \<Rightarrow> sds \<Rightarrow> bytes \<Rightarrow> sds option" where
  "sdscatlen M s t =
     (let curlen = sdslen s; len = length t
      in case sdsMakeRoomFor M s len of
           None \<Rightarrow> None
         | Some s \<Rightarrow>
             let s = s\<lparr>sds_buf := memcpy_at (sds_buf s) curlen t\<rparr>;
                 s = sdssetlen s (ubits 64 (curlen + len))
             in Some (s\<lparr>sds_buf := memcpy_at (sds_buf s) (ubits 64 (curlen + len)) [NUL]\<rparr>))"

definition sdscat :: "mem \<Rightarrow> sds \<Rightarrow> bytes \<Rightarrow> sds option" where
  "sdscat M s t = sdscatlen M s (cstr t)"

definition sdscatsds :: "mem \<Rightarrow> sds \<Rightarrow> sds \<Rightarrow> sds option" where
  "sdscatsds M s t = sdscatlen M s (take (sdslen t) (sds_buf t))"

definition sdscpylen :: "mem \<Rightarrow> sds \<Rightarrow> bytes \<Rightarrow> sds option" where
  "sdscpylen M s t =
     (let len = length t
      in case (if sdsalloc s < len then sdsMakeRoomFor M s (usub 64 len (sdslen s)) else Some s) of
           None \<Rightarrow> None
         | Some s \<Rightarrow>
             let s = s\<lparr>sds_buf := memcpy_at (memcpy_at (sds_buf s) 0 t) len [NUL]\<rparr>
             in Some (sdssetlen s len))"

definition sdscpy :: "mem \<Rightarrow> sds \<Rightarrow> bytes \<Rightarrow> sds option" where
  "sdscpy M s t = sdscpylen M s (cstr t)"

section \<open>Operations that keep the allocation (sds.c)\<close>

text \<open>The two pointer loops of \<open>sdstrim\<close>, as offsets from \<open>s\<close>: \<open>sp\<close> moves right while it is
  at most \<open>end\<close>, then \<open>ep\<close> moves left while it is above \<open>sp\<close>. The pointer \<open>s-1\<close> of an empty
  string is the offset \<open>-1\<close>, hence integers.\<close>

function trim_left :: "bytes \<Rightarrow> bytes \<Rightarrow> int \<Rightarrow> int \<Rightarrow> int" where
  "trim_left cset b fin sp =
     (if sp \<le> fin \<and> strchr cset (b ! nat sp) then trim_left cset b fin (sp + 1) else sp)"
  by pat_completeness auto
termination
  by (relation "measure (\<lambda>(cset, b, fin, sp). nat (fin + 1 - sp))") auto

function trim_right :: "bytes \<Rightarrow> bytes \<Rightarrow> int \<Rightarrow> int \<Rightarrow> int" where
  "trim_right cset b sp ep =
     (if sp < ep \<and> strchr cset (b ! nat ep) then trim_right cset b sp (ep - 1) else ep)"
  by pat_completeness auto
termination
  by (relation "measure (\<lambda>(cset, b, sp, ep). nat (ep - sp))") auto

declare trim_left.simps [simp del] trim_right.simps [simp del]

definition sdstrim :: "sds \<Rightarrow> bytes \<Rightarrow> sds" where
  "sdstrim s cset =
     (let fin = int (sdslen s) - 1;
          sp = trim_left cset (sds_buf s) fin 0;
          ep = trim_right cset (sds_buf s) sp fin;
          len = (if ep < sp then 0 else nat (ep - sp + 1));
          s = (if sp \<noteq> 0 then s\<lparr>sds_buf := memcpy_at (sds_buf s) 0 (take len (drop (nat sp) (sds_buf s)))\<rparr>
               else s)
      in sdssetlen (s\<lparr>sds_buf := memcpy_at (sds_buf s) len [NUL]\<rparr>) len)"

text \<open>The result is the C return value (0 or -1) and the string.\<close>

definition sdsrange :: "sds \<Rightarrow> int \<Rightarrow> int \<Rightarrow> int \<times> sds" where
  "sdsrange s start fin =
     (let len = sdslen s
      in if SSIZE_MAX < len then (-1, s)
         else if len = 0 then (0, s)
         else
           let start = (if start < 0 then max 0 (sbits 64 (int len + start)) else start);
               fin = (if fin < 0 then max 0 (sbits 64 (int len + fin)) else fin);
               newlen = (if fin < start then 0 else nat ((fin - start + 1) mod 2 ^ 64));
               newlen' = (if newlen = 0 then 0
                          else if int len \<le> start then 0
                          else if int len \<le> fin then nat (int len - 1 - start + 1)
                          else newlen);
               start = (if newlen = 0 then 0 else start);
               b = (if start \<noteq> 0 \<and> newlen' \<noteq> 0
                    then memcpy_at (sds_buf s) 0 (take newlen' (drop (nat start) (sds_buf s)))
                    else sds_buf s)
           in (0, sdssetlen (s\<lparr>sds_buf := memcpy_at b newlen' [NUL]\<rparr>) newlen'))"

definition sdstolower :: "sds \<Rightarrow> sds" where
  "sdstolower s =
     (let len = nat (sbits 32 (int (sdslen s)))
      in s\<lparr>sds_buf := map tolower (take len (sds_buf s)) @ drop len (sds_buf s)\<rparr>)"

definition sdstoupper :: "sds \<Rightarrow> sds" where
  "sdstoupper s =
     (let len = nat (sbits 32 (int (sdslen s)))
      in s\<lparr>sds_buf := map toupper (take len (sds_buf s)) @ drop len (sds_buf s)\<rparr>)"

text \<open>The difference of two \<open>size_t\<close> lengths is returned as an \<open>int\<close>.\<close>

definition sdscmp :: "sds \<Rightarrow> sds \<Rightarrow> int" where
  "sdscmp s1 s2 =
     (let l1 = sdslen s1; l2 = sdslen s2; minlen = (if l1 < l2 then l1 else l2);
          cmp = memcmp (take minlen (sds_buf s1)) (take minlen (sds_buf s2))
      in if cmp = 0 then sbits 32 (int l1 - int l2) else cmp)"

text \<open>\<open>sdsmapchars\<close>: the first \<open>i\<close> with \<open>from[i] == s[j]\<close> decides; \<open>from\<close> and \<open>to\<close> hold \<open>setlen\<close>
  bytes each.\<close>

fun mapchar :: "bytes \<Rightarrow> bytes \<Rightarrow> char \<Rightarrow> char" where
  "mapchar (f # from) (t # to) c = (if c = f then t else mapchar from to c)"
| "mapchar _ _ c = c"

definition sdsmapchars :: "sds \<Rightarrow> bytes \<Rightarrow> bytes \<Rightarrow> nat \<Rightarrow> sds" where
  "sdsmapchars s from to setlen =
     s\<lparr>sds_buf := map (mapchar (take setlen from) (take setlen to)) (take (sdslen s) (sds_buf s))
                 @ drop (sdslen s) (sds_buf s)\<rparr>"

section \<open>Abstraction and invariant\<close>

definition sdsval :: "sds \<Rightarrow> bytes" where
  "sdsval s = take (sdslen s) (sds_buf s)"

definition sds_shape :: "sds \<Rightarrow> bool" where
  "sds_shape s \<longleftrightarrow>
     sds_hlen s < 2 ^ sds_bits (sds_flags s) \<and>
     (sds_flags s \<noteq> SDS_TYPE_5 \<longrightarrow>
        sds_halloc s < 2 ^ sds_bits (sds_flags s) \<and> sds_hlen s \<le> sds_halloc s \<and>
        length (sds_buf s) = Suc (sds_halloc s)) \<and>
     (sds_flags s = SDS_TYPE_5 \<longrightarrow> sds_hlen s < length (sds_buf s))"

definition sds_wf :: "sds \<Rightarrow> bool" where
  "sds_wf s \<longleftrightarrow> sds_shape s \<and> sds_buf s ! sds_hlen s = NUL"

text \<open>\<open>sds_shape\<close> is the part of the invariant that also holds in the middle of an operation,
  before the terminator is written.\<close>

text \<open>The trimming that \<open>sdstrim\<close> promises, on plain lists.\<close>

definition trim_spec :: "bytes \<Rightarrow> bytes \<Rightarrow> bytes" where
  "trim_spec cset v = rev (dropWhile (strchr cset) (rev (dropWhile (strchr cset) v)))"

text \<open>The inclusive slice that \<open>sdsrange\<close> promises, with negative indices counted from the
  end.\<close>

definition range_spec :: "bytes \<Rightarrow> int \<Rightarrow> int \<Rightarrow> bytes" where
  "range_spec v start fin =
     (let n = int (length v);
          i = (if start < 0 then max 0 (n + start) else start);
          j = (if fin < 0 then max 0 (n + fin) else fin)
      in take (nat (j - i + 1)) (drop (nat i) v))"

text \<open>A small string with two bytes of free space, for the concrete instances below.\<close>

definition sds_example :: sds where
  "sds_example = \<lparr>sds_flags = SDS_TYPE_8, sds_hlen = 4, sds_halloc = 6, sds_buf = '' ab '' @ [NUL, CHR ''?'', CHR ''?'']\<rparr>"

section \<open>Header lemmas\<close>

lemma sdsReqType_fits: "n < 2 ^ 64 \<Longrightarrow> n < 2 ^ sds_bits (sdsReqType n)"
  by (simp add: sdsReqType_def)

lemma sds_bits_le: "sds_bits t \<le> 64"
  by (cases t) simp_all

lemma sds_bits_power_le: "(2::nat) ^ sds_bits t \<le> 2 ^ 64"
  by (rule power_increasing [OF sds_bits_le]) simp

lemma sdsHdrSize_bounds: "1 \<le> sdsHdrSize t" "sdsHdrSize t \<le> 17"
  by (cases t, simp_all)+

lemma sdssetlen_simps [simp]:
  "sds_flags (sdssetlen s n) = sds_flags s" "sds_halloc (sdssetlen s n) = sds_halloc s"
  "sds_buf (sdssetlen s n) = sds_buf s"
  "sds_hlen (sdssetlen s n) = ubits (sds_bits (sds_flags s)) n"
  by (simp_all add: sdssetlen_def)

lemma sdssetalloc_simps [simp]:
  "sds_flags (sdssetalloc s n) = sds_flags s" "sds_hlen (sdssetalloc s n) = sds_hlen s"
  "sds_buf (sdssetalloc s n) = sds_buf s"
  "sds_halloc (sdssetalloc s n) =
     (if sds_flags s = SDS_TYPE_5 then sds_halloc s else ubits (sds_bits (sds_flags s)) n)"
  by (simp_all add: sdssetalloc_def)

lemma sds_wf_shape: "sds_wf s \<Longrightarrow> sds_shape s"
  by (simp add: sds_wf_def)

lemma sds_shape_len: "sds_shape s \<Longrightarrow> sdslen s < length (sds_buf s)"
  by (cases "sds_flags s = SDS_TYPE_5") (auto simp: sds_shape_def sdslen_def)

lemma sds_shape_less: "sds_shape s \<Longrightarrow> sdslen s < 2 ^ 64"
  using sds_bits_power_le [of "sds_flags s"] by (auto simp: sds_shape_def sdslen_def)

lemma length_sdsval_shape: "sds_shape s \<Longrightarrow> length (sdsval s) = sdslen s"
  using sds_shape_len [of s] by (simp add: sdsval_def)

lemma sdsavail_shape:
  assumes "sds_shape s"
  shows "sdsavail s = (if sds_flags s = SDS_TYPE_5 then 0 else sds_halloc s - sds_hlen s)"
  using assms by (cases "sds_flags s") (auto simp: sdsavail_def sds_shape_def usub_id)

lemma sdsalloc_shape: "sds_shape s \<Longrightarrow> sdsalloc s = sdsavail s + sdslen s"
  by (auto simp: sdsalloc_def sdsavail_shape sdslen_def sds_shape_def)

lemma sdsalloc_less_shape: "sds_shape s \<Longrightarrow> sdsalloc s < length (sds_buf s)"
  by (auto simp: sdsalloc_def sds_shape_def)

lemma sdsavail_room_shape:
  assumes "sds_shape s" and "n \<le> sdsavail s"
  shows "sdslen s + n < length (sds_buf s)" and "sdslen s + n < 2 ^ sds_bits (sds_flags s)"
  using assms by (cases "sds_flags s = SDS_TYPE_5"; auto simp: sdsavail_shape sds_shape_def sdslen_def)+

lemmas sds_wf_len = sds_shape_len [OF sds_wf_shape]
lemmas sds_wf_less = sds_shape_less [OF sds_wf_shape]
lemmas length_sdsval [simp] = length_sdsval_shape [OF sds_wf_shape]
lemmas sdsavail_wf = sdsavail_shape [OF sds_wf_shape]
lemmas sdsalloc_eq = sdsalloc_shape [OF sds_wf_shape]
lemmas sdsalloc_less = sdsalloc_less_shape [OF sds_wf_shape]
lemmas sdsavail_room = sdsavail_room_shape [OF sds_wf_shape]

text \<open>Cutting or extending a well-formed string within its allocation.\<close>

lemma sds_wf_setlen:
  assumes "sds_wf s" and "n \<le> sdsalloc s" and "length b = length (sds_buf s)" and "b ! n = NUL"
  shows "sds_wf (sdssetlen (s\<lparr>sds_buf := b\<rparr>) n)"
    and "sdsval (sdssetlen (s\<lparr>sds_buf := b\<rparr>) n) = take n b"
    and "sdslen (sdssetlen (s\<lparr>sds_buf := b\<rparr>) n) = n"
proof -
  have n: "n < 2 ^ sds_bits (sds_flags s)"
    using assms(1,2) by (auto simp: sds_wf_def sds_shape_def sdsalloc_def split: if_splits)
  then show "sdslen (sdssetlen (s\<lparr>sds_buf := b\<rparr>) n) = n" by (simp add: sdslen_def)
  from n show "sdsval (sdssetlen (s\<lparr>sds_buf := b\<rparr>) n) = take n b"
    by (simp add: sdsval_def sdslen_def)
  from n assms show "sds_wf (sdssetlen (s\<lparr>sds_buf := b\<rparr>) n)"
    by (auto simp: sds_wf_def sds_shape_def sdsalloc_def split: if_splits)
qed

section \<open>Creation\<close>

lemma sdsnewlen_wf:
  assumes "sdsnewlen M init n = Some s" and "n < 2 ^ 63"
    and "\<And>t. init = Some t \<Longrightarrow> n \<le> length t"
  shows "sds_wf s \<and> sdsval s = (case init of None \<Rightarrow> replicate n NUL | Some t \<Rightarrow> take n t)
    \<and> sdslen s = n"
proof -
  define ty where "ty = (if sdsReqType n = SDS_TYPE_5 \<and> n = 0 then SDS_TYPE_8 else sdsReqType n)"
  have fits: "n < 2 ^ sds_bits ty"
    using sdsReqType_fits [of n] assms(2) by (simp add: ty_def)
  have hdr: "sdsHdrSize ty \<le> 17" by (rule sdsHdrSize_bounds)
  then have "sdsHdrSize ty + n + 1 < 2 ^ 64" using assms(2) by simp
  then have u: "ubits 64 (sdsHdrSize ty + n + 1) = sdsHdrSize ty + n + 1" by simp
  from assms(1) obtain sh where sh: "malloc_bytes M (sdsHdrSize ty + n + 1) = Some sh"
    unfolding sdsnewlen_def ty_def [symmetric] Let_def u
    by (cases "malloc_bytes M (sdsHdrSize ty + n + 1)") auto
  then have len: "length sh = sdsHdrSize ty + n + 1" by (rule malloc_bytes_Some)
  show ?thesis
  proof (cases init)
    case None
    with assms(1) have "s = (sdssetalloc (sdssetlen \<lparr>sds_flags = ty, sds_hlen = 0, sds_halloc = 0,
        sds_buf = replicate (n + 1) NUL\<rparr> n) n)\<lparr>sds_buf := memcpy_at (replicate (n + 1) NUL) n [NUL]\<rparr>"
      unfolding sdsnewlen_def ty_def [symmetric] Let_def u using sh len by simp
    with None fits show ?thesis
      by (simp add: sds_wf_def sds_shape_def sdsval_def sdslen_def take_memcpy_at_before le_imp_less_Suc
          del: replicate_Suc)
  next
    case (Some t)
    with assms(1) have "s = (sdssetalloc (sdssetlen \<lparr>sds_flags = ty, sds_hlen = 0, sds_halloc = 0,
        sds_buf = drop (sdsHdrSize ty) sh\<rparr> n) n)\<lparr>sds_buf :=
          memcpy_at (memcpy_at (drop (sdsHdrSize ty) sh) 0 (take n t)) n [NUL]\<rparr>"
      unfolding sdsnewlen_def ty_def [symmetric] Let_def u using sh by simp
    with Some fits len assms(3) [OF Some] show ?thesis
      by (simp add: sds_wf_def sds_shape_def sdsval_def sdslen_def take_memcpy_at_before take_memcpy_at_end
          min_absorb2 le_imp_less_Suc)
  qed
qed

lemma sdsempty_wf: "sdsempty M = Some s \<Longrightarrow> sds_wf s \<and> sdsval s = [] \<and> sdslen s = 0"
  unfolding sdsempty_def by (drule sdsnewlen_wf) simp_all

section \<open>Growth\<close>

text \<open>The two branches of \<open>sdsMakeRoomFor\<close>: reallocation in place and a move to a new header.
  Both keep the bytes up to and including position \<open>len\<close>, whether or not it holds a NUL yet.\<close>

lemma grow_realloc_shape:
  assumes "sds_shape s" and "sds_flags s = ty" and "ty \<noteq> SDS_TYPE_5" and "n < 2 ^ sds_bits ty"
    and "sdslen s \<le> n"
    and "realloc_bytes M (replicate h NUL @ sds_buf s) (h + n + 1) = Some newsh"
    and "s' = sdssetalloc (s\<lparr>sds_buf := drop h newsh\<rparr>) n"
  shows "sds_shape s' \<and> take (Suc (sdslen s)) (sds_buf s') = take (Suc (sdslen s)) (sds_buf s)
    \<and> sdslen s' = sdslen s \<and> sdsavail s' = n - sdslen s"
proof -
  note len = realloc_bytes_Some(1) [OF assms(6)]
  have l: "sdslen s < length (sds_buf s)" using assms(1) by (rule sds_shape_len)
  have "take (h + Suc (sdslen s)) newsh = take (h + Suc (sdslen s)) (replicate h NUL @ sds_buf s)"
    using l assms(5) by (intro realloc_bytes_Some(2) [OF assms(6)]) simp_all
  then have "drop h (take (h + Suc (sdslen s)) newsh) = take (Suc (sdslen s)) (sds_buf s)" by simp
  then have val: "take (Suc (sdslen s)) (drop h newsh) = take (Suc (sdslen s)) (sds_buf s)"
    by (simp add: drop_take)
  have wf: "sds_shape s'"
    using assms(1-5) len by (simp add: assms(7) sds_shape_def sdslen_def)
  then have "sdsavail s' = n - sdslen s"
    using assms(2-4) by (simp add: sdsavail_shape assms(7) sdslen_def)
  with wf val show ?thesis by (simp add: assms(7) sdslen_def)
qed

lemma grow_malloc_shape:
  assumes "sds_shape s" and "n < 2 ^ sds_bits ty" and "sdslen s \<le> n"
    and "malloc_bytes M (h + n + 1) = Some newsh"
    and "s' = sdssetalloc (sdssetlen \<lparr>sds_flags = ty, sds_hlen = 0, sds_halloc = 0,
           sds_buf = memcpy_at (drop h newsh) 0 (take (sdslen s + 1) (sds_buf s))\<rparr> (sdslen s)) n"
  shows "sds_shape s' \<and> take (Suc (sdslen s)) (sds_buf s') = take (Suc (sdslen s)) (sds_buf s)
    \<and> sdslen s' = sdslen s \<and> sdsavail s' = (if ty = SDS_TYPE_5 then 0 else n - sdslen s)"
proof -
  have len: "length newsh = h + n + 1" using assms(4) by (rule malloc_bytes_Some)
  have l: "sdslen s < length (sds_buf s)" using assms(1) by (rule sds_shape_len)
  have lb: "sdslen s < 2 ^ sds_bits ty" using assms(2,3) by simp
  let ?t = "take (Suc (sdslen s)) (sds_buf s)"
  have lt: "length ?t = Suc (sdslen s)" using l by simp
  have buf: "sds_buf s' = ?t @ drop (Suc (sdslen s)) (drop h newsh)"
    unfolding assms(5) Suc_eq_plus1 [symmetric] by (simp only: memcpy_at_def lt) simp
  have hl: "sds_hlen s' = sdslen s" using lb by (simp add: assms(5))
  have wf: "sds_shape s'"
    using assms(2,3) lb len lt by (simp add: sds_shape_def hl buf) (simp add: assms(5))
  then have "sdsavail s' = (if ty = SDS_TYPE_5 then 0 else n - sdslen s)"
    using assms(2) by (simp add: sdsavail_shape hl) (simp add: assms(5))
  with wf lt show ?thesis by (simp add: sdslen_def [of s'] hl buf)
qed

lemma sdsMakeRoomFor_shape:
  assumes "sds_shape s" and "sdsMakeRoomFor M s addlen = Some s'" and "sdslen s + addlen < 2 ^ 63"
  shows "sds_shape s' \<and> take (Suc (sdslen s)) (sds_buf s') = take (Suc (sdslen s)) (sds_buf s)
    \<and> sdslen s' = sdslen s \<and> addlen \<le> sdsavail s'"
proof (cases "addlen \<le> sdsavail s")
  case True
  with assms show ?thesis by (simp add: sdsMakeRoomFor_def)
next
  case False
  define need where "need = sdslen s + addlen"
  define n where "n = (if need < SDS_MAX_PREALLOC then need * 2 else need + SDS_MAX_PREALLOC)"
  define ty where "ty = (if sdsReqType n = SDS_TYPE_5 then SDS_TYPE_8 else sdsReqType n)"
  have nb: "need \<le> n" "n < 2 ^ 64 - 100"
    using assms(3) by (auto simp: n_def need_def SDS_MAX_PREALLOC_def)
  have ty: "ty \<noteq> SDS_TYPE_5" "n < 2 ^ sds_bits ty"
    using sdsReqType_fits [of n] nb(2) by (auto simp: ty_def sdsReqType_def)
  have u: "ubits 64 need = need" "ubits 64 (sdsHdrSize ty + n + 1) = sdsHdrSize ty + n + 1"
    using assms(3) nb(2) sdsHdrSize_bounds(2) [of ty] by (simp_all add: need_def)
  have u': "(if need < SDS_MAX_PREALLOC then need * 2 else ubits 64 (need + SDS_MAX_PREALLOC)) = n"
    using nb(2) by (auto simp: n_def split: if_splits)
  have sl: "sdslen s \<le> n" using nb(1) by (simp add: need_def)
  note unf = sdsMakeRoomFor_def Let_def need_def [symmetric] u(1) u' ty_def [symmetric] u(2)
  show ?thesis
  proof (cases "sds_flags s = ty")
    case True
    with assms(2) False obtain newsh where
      "realloc_bytes M (replicate (sdsHdrSize ty) NUL @ sds_buf s) (sdsHdrSize ty + n + 1) = Some newsh"
      and "s' = sdssetalloc (s\<lparr>sds_buf := drop (sdsHdrSize ty) newsh\<rparr>) n"
      unfolding unf by (auto split: option.splits)
    from grow_realloc_shape [OF assms(1) True ty sl this] nb(1) show ?thesis
      by (simp add: need_def)
  next
    case tyne: False
    with assms(2) False obtain newsh where
      "malloc_bytes M (sdsHdrSize ty + n + 1) = Some newsh"
      and "s' = sdssetalloc (sdssetlen \<lparr>sds_flags = ty, sds_hlen = 0, sds_halloc = 0,
           sds_buf = memcpy_at (drop (sdsHdrSize ty) newsh) 0 (take (sdslen s + 1) (sds_buf s))\<rparr>
           (sdslen s)) n"
      unfolding unf by (auto split: option.splits)
    from grow_malloc_shape [OF assms(1) ty(2) sl this] ty(1) nb(1) show ?thesis
      by (simp add: need_def)
  qed
qed

text \<open>A string that keeps those bytes keeps its value and its terminator.\<close>

lemma sds_shape_keep:
  assumes "sds_wf s" and "sds_shape s'" and "sdslen s' = sdslen s"
    and "take (Suc (sdslen s)) (sds_buf s') = take (Suc (sdslen s)) (sds_buf s)"
  shows "sds_wf s' \<and> sdsval s' = sdsval s"
proof -
  have l: "sdslen s < length (sds_buf s)" "sdslen s < length (sds_buf s')"
    using sds_wf_len [OF assms(1)] sds_shape_len [OF assms(2)] assms(3) by simp_all
  have "take (sdslen s) (sds_buf s') = take (sdslen s) (sds_buf s) \<and> sds_buf s' ! sdslen s = sds_buf s ! sdslen s"
    using assms(4) l by (simp add: nth_take_snoc)
  with assms(1-3) show ?thesis by (simp add: sds_wf_def sdsval_def sdslen_def)
qed

lemma sdsMakeRoomFor_wf:
  assumes "sds_wf s" and "sdsMakeRoomFor M s addlen = Some s'" and "sdslen s + addlen < 2 ^ 63"
  shows "sds_wf s' \<and> sdsval s' = sdsval s \<and> sdslen s' = sdslen s \<and> addlen \<le> sdsavail s'"
  using sdsMakeRoomFor_shape [OF sds_wf_shape [OF assms(1)] assms(2,3)] sds_shape_keep [OF assms(1)]
  by simp

lemma sdsRemoveFreeSpace_wf:
  assumes "sds_wf s" and "sdsRemoveFreeSpace M s = Some s'" and "sdslen s < 2 ^ 63"
  shows "sds_wf s' \<and> sdsval s' = sdsval s \<and> sdsavail s' = 0"
proof -
  define ty where "ty = sdsReqType (sdslen s)"
  have fits: "sdslen s < 2 ^ sds_bits ty"
    using sdsReqType_fits [of "sdslen s"] assms(3) by (simp add: ty_def)
  have u: "ubits 64 (sdsHdrSize ty + sdslen s + 1) = sdsHdrSize ty + sdslen s + 1"
    using assms(3) sdsHdrSize_bounds(2) [of ty] by simp
  note unf = sdsRemoveFreeSpace_def Let_def ty_def [symmetric] u
  show ?thesis
  proof (cases "sds_flags s = ty")
    case True
    with assms(2) obtain newsh where
      re: "realloc_bytes M (replicate (sdsHdrSize ty) NUL @ sds_buf s) (sdsHdrSize ty + sdslen s + 1)
        = Some newsh"
      and s': "s' = sdssetalloc (s\<lparr>sds_buf := drop (sdsHdrSize ty) newsh\<rparr>) (sdslen s)"
      unfolding unf by (auto split: option.splits)
    show ?thesis
    proof (cases "ty = SDS_TYPE_5")
      case False
      from grow_realloc_shape [OF sds_wf_shape [OF assms(1)] True False fits order.refl re s']
      show ?thesis using sds_shape_keep [OF assms(1)] by simp
    next
      case t5: True
      have l: "sdslen s < length (sds_buf s)" using assms(1) by (rule sds_wf_len)
      then have "take (sdsHdrSize ty + sdslen s + 1) newsh
          = take (sdsHdrSize ty + sdslen s + 1) (replicate (sdsHdrSize ty) NUL @ sds_buf s)"
        by (intro realloc_bytes_Some(2) [OF re]) simp_all
      then have "newsh = replicate (sdsHdrSize ty) NUL @ take (sdslen s + 1) (sds_buf s)"
        using realloc_bytes_Some(1) [OF re] by simp
      with l t5 True assms(1) show ?thesis
        by (auto simp: s' sds_wf_def sds_shape_def sdsval_def sdslen_def sdsavail_def)
    qed
  next
    case False
    with assms(2) obtain newsh where
      "malloc_bytes M (sdsHdrSize ty + sdslen s + 1) = Some newsh"
      and "s' = sdssetalloc (sdssetlen \<lparr>sds_flags = ty, sds_hlen = 0, sds_halloc = 0,
           sds_buf = memcpy_at (drop (sdsHdrSize ty) newsh) 0 (take (sdslen s + 1) (sds_buf s))\<rparr>
           (sdslen s)) (sdslen s)"
      unfolding unf by (auto split: option.splits)
    from grow_malloc_shape [OF sds_wf_shape [OF assms(1)] fits order.refl this]
    show ?thesis using sds_shape_keep [OF assms(1)] by simp
  qed
qed

section \<open>Appending and overwriting\<close>

text \<open>Writing \<open>t\<close> at the end of a string that has room for it, then setting length and NUL.\<close>

lemma sds_append_wf:
  assumes "sds_wf s" and "length t \<le> sdsavail s"
    and "s' = (sdssetlen (s\<lparr>sds_buf := memcpy_at (sds_buf s) (sdslen s) t\<rparr>) (sdslen s + length t))"
  shows "sds_wf (s'\<lparr>sds_buf := memcpy_at (sds_buf s') (sdslen s + length t) [NUL]\<rparr>)"
    and "sdsval (s'\<lparr>sds_buf := memcpy_at (sds_buf s') (sdslen s + length t) [NUL]\<rparr>) = sdsval s @ t"
proof -
  let ?b = "memcpy_at (memcpy_at (sds_buf s) (sdslen s) t) (sdslen s + length t) [NUL]"
  have room: "sdslen s + length t < length (sds_buf s)"
    using assms(1,2) by (rule sdsavail_room)
  have eq: "s'\<lparr>sds_buf := memcpy_at (sds_buf s') (sdslen s + length t) [NUL]\<rparr>
      = sdssetlen (s\<lparr>sds_buf := ?b\<rparr>) (sdslen s + length t)"
    by (simp add: assms(3) sdssetlen_def)
  have al: "sdslen s + length t \<le> sdsalloc s"
    using assms(1,2) by (simp add: sdsalloc_eq)
  have "length ?b = length (sds_buf s)" "?b ! (sdslen s + length t) = NUL"
    using room by simp_all
  from sds_wf_setlen [OF assms(1) al this]
  show "sds_wf (s'\<lparr>sds_buf := memcpy_at (sds_buf s') (sdslen s + length t) [NUL]\<rparr>)"
    and "sdsval (s'\<lparr>sds_buf := memcpy_at (sds_buf s') (sdslen s + length t) [NUL]\<rparr>) = sdsval s @ t"
    using room unfolding eq
    by (simp_all add: take_memcpy_at_before take_memcpy_at_end sdsval_def)
qed

lemma sdscatlen_wf:
  assumes "sds_wf s" and "sdscatlen M s t = Some s'" and "sdslen s + length t < 2 ^ 63"
  shows "sds_wf s' \<and> sdsval s' = sdsval s @ t \<and> sdslen s' = sdslen s + length t"
proof -
  from assms(2) obtain r where r: "sdsMakeRoomFor M s (length t) = Some r"
    by (auto simp: sdscatlen_def Let_def split: option.splits)
  note room = sdsMakeRoomFor_wf [OF assms(1) r assms(3)]
  then have wr: "sds_wf r" "length t \<le> sdsavail r" "sdslen r = sdslen s" "sdsval r = sdsval s"
    by simp_all
  have u: "ubits 64 (sdslen s + length t) = sdslen s + length t" using assms(3) by simp
  from assms(2) r have "s' = (sdssetlen (r\<lparr>sds_buf := memcpy_at (sds_buf r) (sdslen r) t\<rparr>)
      (sdslen r + length t))\<lparr>sds_buf := memcpy_at (sds_buf (sdssetlen
        (r\<lparr>sds_buf := memcpy_at (sds_buf r) (sdslen r) t\<rparr>) (sdslen r + length t)))
        (sdslen r + length t) [NUL]\<rparr>"
    unfolding wr(3) by (simp add: sdscatlen_def Let_def u)
  with sds_append_wf [OF wr(1,2) refl] have wf: "sds_wf s'" and val: "sdsval s' = sdsval s @ t"
    by (simp_all add: wr(4))
  from wf assms(1) have "sdslen s' = sdslen s + length t"
    by (metis length_append length_sdsval val)
  with wf val show ?thesis by simp
qed

text \<open>The buffer operations fail only when the allocator does.\<close>

lemma sdsMakeRoomFor_granted:
  assumes "\<forall>n. granted M n" shows "sdsMakeRoomFor M s addlen \<noteq> None"
  unfolding sdsMakeRoomFor_def Let_def
  by (simp add: malloc_bytes_granted realloc_bytes_granted assms option.case_eq_if)

lemma sdscatlen_granted:
  assumes "\<forall>n. granted M n" shows "sdscatlen M s t \<noteq> None"
  unfolding sdscatlen_def Let_def
  by (simp add: sdsMakeRoomFor_granted assms option.case_eq_if)

lemma sdsnewlen_granted:
  assumes "\<forall>n. granted M n" shows "sdsnewlen M init n \<noteq> None"
  unfolding sdsnewlen_def Let_def
  by (simp add: malloc_bytes_granted assms option.case_eq_if)

lemma sdscpylen_wf:
  assumes "sds_wf s" and "sdscpylen M s t = Some s'" and "length t < 2 ^ 63"
  shows "sds_wf s' \<and> sdsval s' = t"
proof -
  obtain r where r: "(if sdsalloc s < length t then sdsMakeRoomFor M s (usub 64 (length t) (sdslen s))
      else Some s) = Some r"
    and s': "s' = sdssetlen (r\<lparr>sds_buf := memcpy_at (memcpy_at (sds_buf r) 0 t) (length t) [NUL]\<rparr>)
      (length t)"
    using assms(2) by (auto simp: sdscpylen_def Let_def split: option.splits)
  have wr: "sds_wf r" and al: "length t \<le> sdsalloc r"
  proof -
    have "sds_wf r \<and> length t \<le> sdsalloc r"
    proof (cases "sdsalloc s < length t")
      case True
      have le: "sdslen s \<le> length t" using True assms(1) by (simp add: sdsalloc_eq)
      then have u: "usub 64 (length t) (sdslen s) = length t - sdslen s"
        using assms(3) by (intro usub_id) simp_all
      from r True have "sdsMakeRoomFor M s (length t - sdslen s) = Some r" by (simp add: u)
      from sdsMakeRoomFor_wf [OF assms(1) this] le assms(3) show ?thesis
        by (auto simp: sdsalloc_eq)
    next
      case False
      with r assms(1) show ?thesis by simp
    qed
    then show "sds_wf r" and "length t \<le> sdsalloc r" by simp_all
  qed
  let ?b = "memcpy_at (memcpy_at (sds_buf r) 0 t) (length t) [NUL]"
  have room: "length t < length (sds_buf r)" using al sdsalloc_less [OF wr] by simp
  then have "length ?b = length (sds_buf r)" "?b ! length t = NUL" by simp_all
  from sds_wf_setlen [OF wr al this] room show ?thesis
    by (simp add: s' take_memcpy_at_before take_memcpy_at_end)
qed

lemma sdsgrowzero_wf:
  assumes "sds_wf s" and "sdsgrowzero M s n = Some s'" and "n < 2 ^ 63"
  shows "sds_wf s' \<and> sdsval s' = sdsval s @ replicate (n - sdslen s) NUL"
proof (cases "n \<le> sdslen s")
  case True
  with assms show ?thesis by (simp add: sdsgrowzero_def)
next
  case False
  with assms(2) obtain r where r: "sdsMakeRoomFor M s (n - sdslen s) = Some r"
    and s': "s' = sdssetlen (r\<lparr>sds_buf := memcpy_at (sds_buf r) (sdslen s)
      (replicate (n - sdslen s + 1) NUL)\<rparr>) n"
    by (auto simp: sdsgrowzero_def Let_def split: option.splits)
  have "sdslen s + (n - sdslen s) < 2 ^ 63" using assms(3) False by simp
  note room = sdsMakeRoomFor_wf [OF assms(1) r this]
  then have wr: "sds_wf r" "n - sdslen s \<le> sdsavail r" "sdslen r = sdslen s" "sdsval r = sdsval s"
    by simp_all
  have lt: "sdslen s + (n - sdslen s) < length (sds_buf r)"
    using sdsavail_room(1) [OF wr(1,2)] by (simp add: wr(3))
  have al: "n \<le> sdsalloc r" using wr(2,3) False by (simp add: sdsalloc_eq wr(1))
  let ?z = "replicate (n - sdslen s + 1) NUL"
  have "length (memcpy_at (sds_buf r) (sdslen s) ?z) = length (sds_buf r)"
    using lt False by (intro length_memcpy_at) (simp add: Suc_leI)
  moreover have "memcpy_at (sds_buf r) (sdslen s) ?z ! n = NUL"
    using nth_memcpy_at_inside [of "sdslen s" "sds_buf r" "n - sdslen s" ?z] lt False
    by (simp del: replicate_Suc add: replicate_add)
  ultimately have "sds_wf s'" and "sdsval s' = take n (memcpy_at (sds_buf r) (sdslen s) ?z)"
    using sds_wf_setlen [OF wr(1) al] by (simp_all add: s')
  moreover have "take n (memcpy_at (sds_buf r) (sdslen s) ?z)
      = take (sdslen s) (sds_buf r) @ replicate (n - sdslen s) NUL"
    using lt False by (simp add: memcpy_at_def min_absorb2 del: replicate_Suc)
  ultimately show ?thesis using wr(3,4) by (simp add: sdsval_def)
qed

section \<open>In-place operations\<close>

text \<open>Both \<open>sdstrim\<close> and \<open>sdsrange\<close> move a slice to the front and cut the string there.\<close>

lemma sds_slice_wf:
  assumes "sds_wf s" and "i + n \<le> sdslen s"
    and "b = (if i \<noteq> 0 \<and> c then memcpy_at (sds_buf s) 0 (take n (drop i (sds_buf s))) else sds_buf s)"
    and "\<not> c \<Longrightarrow> n = 0"
  shows "sds_wf (sdssetlen (s\<lparr>sds_buf := memcpy_at b n [NUL]\<rparr>) n)"
    and "sdsval (sdssetlen (s\<lparr>sds_buf := memcpy_at b n [NUL]\<rparr>) n) = take n (drop i (sdsval s))"
    and "length (memcpy_at b n [NUL]) = length (sds_buf s)"
proof -
  have l: "sdslen s < length (sds_buf s)" using assms(1) by (rule sds_wf_len)
  have len: "length b = length (sds_buf s)" using l assms(2) by (simp add: assms(3))
  then show len': "length (memcpy_at b n [NUL]) = length (sds_buf s)"
    using l assms(2) by simp
  have al: "n \<le> sdsalloc s" using assms(1,2) by (simp add: sdsalloc_eq)
  have nul: "memcpy_at b n [NUL] ! n = NUL" using l len assms(2) by simp
  have "take n b = take n (drop i (sds_buf s))"
    using l assms(2,4) by (cases "n = 0") (auto simp: assms(3) take_memcpy_at_end)
  moreover have "take n (drop i (sdsval s)) = take n (drop i (sds_buf s))"
    using assms(2) by (simp add: sdsval_def drop_take min_def)
  ultimately show "sdsval (sdssetlen (s\<lparr>sds_buf := memcpy_at b n [NUL]\<rparr>) n) = take n (drop i (sdsval s))"
    using sds_wf_setlen(2) [OF assms(1) al len' nul] len l assms(2)
    by (simp add: take_memcpy_at_before)
  show "sds_wf (sdssetlen (s\<lparr>sds_buf := memcpy_at b n [NUL]\<rparr>) n)"
    using sds_wf_setlen(1) [OF assms(1) al len' nul] .
qed

lemma trim_left_eq:
  assumes "n \<le> length b" and "i \<le> n"
  shows "trim_left cset b (int n - 1) (int i)
    = int (i + length (takeWhile (strchr cset) (drop i (take n b))))"
  using assms(2)
proof (induction "n - i" arbitrary: i)
  case 0
  then show ?case by (subst trim_left.simps) simp
next
  case (Suc k)
  then have i: "i < n" by simp
  then have d: "drop i (take n b) = b ! i # drop (Suc i) (take n b)"
    using assms(1) by (metis Cons_nth_drop_Suc length_take min_absorb2 nth_take)
  show ?case
  proof (cases "strchr cset (b ! i)")
    case True
    have "trim_left cset b (int n - 1) (int i) = trim_left cset b (int n - 1) (int (Suc i))"
      using True i by (subst trim_left.simps) (simp add: add.commute)
    with Suc.hyps(1) [of "Suc i"] Suc.hyps(2) i show ?thesis by (simp add: d True)
  next
    case False
    then show ?thesis by (subst trim_left.simps) (simp add: d)
  qed
qed

lemma trim_right_eq:
  assumes "j < length b" and "i \<le> j"
  shows "trim_right cset b (int i) (int j)
    = int j - int (length (takeWhile (strchr cset) (rev (take (j - i) (drop (Suc i) b)))))"
  using assms
proof (induction "j - i" arbitrary: j)
  case 0
  then show ?case by (subst trim_right.simps) simp
next
  case (Suc k)
  then obtain j' where j: "j = Suc j'" by (cases j) auto
  have r: "rev (take (j - i) (drop (Suc i) b)) = b ! j # rev (take (j' - i) (drop (Suc i) b))"
    using Suc.hyps(2) Suc.prems j by (simp add: take_Suc_conv_app_nth Suc_diff_le)
  show ?case
  proof (cases "strchr cset (b ! j)")
    case True
    have "int i < int j" "int j - 1 = int j'" using Suc.hyps(2) j by simp_all
    with True have "trim_right cset b (int i) (int j) = trim_right cset b (int i) (int j')"
      by (subst trim_right.simps) simp
    with Suc.hyps(1) [of j'] Suc.hyps(2) Suc.prems j show ?thesis
      unfolding r using True by simp
  next
    case False
    then show ?thesis by (subst trim_right.simps) (simp add: r)
  qed
qed

lemma trim_spec_split:
  assumes "i = length (takeWhile (strchr cset) v)" and "i < length v"
    and "w = drop (Suc i) v" and "t = length (takeWhile (strchr cset) (rev w))"
  shows "trim_spec cset v = take (Suc (length w - t)) (drop i v)"
proof -
  have d: "drop i v = v ! i # w" using assms(2,3) by (simp add: Cons_nth_drop_Suc)
  have p: "\<not> strchr cset (v ! i)" using assms(1,2) by (metis nth_length_takeWhile)
  have "rev (dropWhile (strchr cset) (rev w)) = take (length w - t) w"
    by (simp add: assms(4) dropWhile_eq_drop rev_drop)
  moreover have "dropWhile (strchr cset) v = v ! i # w"
    using assms(1) d by (simp add: dropWhile_eq_drop)
  ultimately show ?thesis using p by (simp add: trim_spec_def d dropWhile_append3)
qed

lemma sdstrim_wf:
  assumes "sds_wf s"
  shows "sds_wf (sdstrim s cset) \<and> sdsval (sdstrim s cset) = trim_spec cset (sdsval s)
    \<and> length (sds_buf (sdstrim s cset)) = length (sds_buf s)"
proof -
  let ?n = "sdslen s" and ?b = "sds_buf s" and ?v = "sdsval s"
  define i where "i = length (takeWhile (strchr cset) ?v)"
  have l: "?n < length ?b" using assms by (rule sds_wf_len)
  have lv: "length ?v = ?n" using assms by simp
  have i: "i \<le> ?n" unfolding i_def lv [symmetric] by (rule length_takeWhile_le)
  have sp: "trim_left cset ?b (int ?n - 1) 0 = int i"
    using trim_left_eq [of ?n ?b 0 cset] l by (simp add: i_def sdsval_def)
  show ?thesis
  proof (cases "i = ?n")
    case True
    then have "takeWhile (strchr cset) ?v = ?v"
      using lv by (metis i_def takeWhile_eq_take take_all order.refl)
    then have "trim_spec cset ?v = []"
      by (auto simp: trim_spec_def takeWhile_eq_all_conv dest: set_dropWhileD)
    moreover have "trim_right cset ?b (int i) (int ?n - 1) = int ?n - 1"
      by (subst trim_right.simps) (simp add: True)
    ultimately show ?thesis
      using sds_slice_wf [OF assms, of 0 0 _ True, OF _ refl] True
      by (simp add: sdstrim_def Let_def sp)
  next
    case False
    with i have iless: "i < ?n" by simp
    define w where "w = drop (Suc i) ?v"
    define t where "t = length (takeWhile (strchr cset) (rev w))"
    have w: "take (?n - 1 - i) (drop (Suc i) ?b) = w" "length w = ?n - Suc i"
      using lv by (simp_all add: w_def sdsval_def drop_take)
    have tw: "t \<le> length w" unfolding t_def by (metis length_rev length_takeWhile_le)
    have ep: "trim_right cset ?b (int i) (int ?n - 1) = int ?n - 1 - int t"
      using trim_right_eq [of "?n - 1" ?b i cset] l iless w(1) by (simp add: t_def of_nat_diff)
    define m where "m = Suc (length w - t)"
    have k: "nat (int ?n - 1 - int t - int i + 1) = m" and ge: "\<not> int ?n - 1 - int t < int i"
      using w(2) tw iless by (auto simp: m_def)
    have im: "i + m \<le> ?n" using w(2) iless by (simp add: m_def)
    have "trim_spec cset ?v = take m (drop i ?v)"
      using trim_spec_split [OF i_def _ w_def t_def] iless lv by (simp add: m_def)
    moreover have "sdstrim s cset = sdssetlen (s\<lparr>sds_buf := memcpy_at
        (if i \<noteq> 0 \<and> True then memcpy_at ?b 0 (take m (drop i ?b)) else ?b) m [NUL]\<rparr>) m"
      using ge unfolding sdstrim_def Let_def sp ep k by simp
    ultimately show ?thesis
      using sds_slice_wf [OF assms im refl, of True] by simp
  qed
qed

lemma range_norm_sbits:
  assumes "len \<le> SSIZE_MAX" and "- (2 ^ 63) \<le> x" and "x < 0"
  shows "sbits 64 (int len + x) = int len + x"
  using assms by (intro sbits_id) (auto simp: SSIZE_MAX_def)

lemma sdsrange_wf:
  assumes "sds_wf s" and "sdslen s \<le> SSIZE_MAX"
    and "- (2 ^ 63) \<le> start" "start < 2 ^ 63" "- (2 ^ 63) \<le> fin" "fin < 2 ^ 63"
  shows "fst (sdsrange s start fin) = 0 \<and> sds_wf (snd (sdsrange s start fin))
    \<and> sdsval (snd (sdsrange s start fin)) = range_spec (sdsval s) start fin
    \<and> length (sds_buf (snd (sdsrange s start fin))) = length (sds_buf s)"
proof (cases "sdslen s = 0")
  case True
  with assms(1,2) show ?thesis by (simp add: sdsrange_def range_spec_def sdsval_def)
next
  case False
  let ?n = "int (sdslen s)"
  define i where "i = (if start < 0 then max 0 (?n + start) else start)"
  define j where "j = (if fin < 0 then max 0 (?n + fin) else fin)"
  define k where "k = (if fin < 0 then max 0 (?n + fin) else fin) - i + 1"
  define newlen where "newlen = (if j < i then 0 else nat ((j - i + 1) mod 2 ^ 64))"
  define newlen' where "newlen' = (if newlen = 0 then 0 else if ?n \<le> i then 0
    else if ?n \<le> j then nat (?n - 1 - i + 1) else newlen)"
  have norm: "(if start < 0 then max 0 (sbits 64 (?n + start)) else start) = i"
    "(if fin < 0 then max 0 (sbits 64 (?n + fin)) else fin) = j"
    using assms(2-6) by (simp_all add: i_def j_def range_norm_sbits)
  have ij: "0 \<le> i" "0 \<le> j" "i < 2 ^ 63" "j < 2 ^ 63"
    using assms(2,4,6) by (auto simp: i_def j_def SSIZE_MAX_def)
  then have nl: "newlen = nat (j - i + 1)" by (simp add: newlen_def)
  have fit: "nat i + newlen' \<le> sdslen s \<or> newlen' = 0"
    using ij by (auto simp: newlen'_def nl)
  have spec: "range_spec (sdsval s) start fin = take newlen' (drop (nat i) (sdsval s))"
    using assms(1) ij False
    by (auto simp: range_spec_def Let_def i_def [symmetric] j_def [symmetric] newlen'_def nl)
  let ?i = "if newlen' = 0 then 0 else nat i"
  have st: "sdsrange s start fin = (0, sdssetlen (s\<lparr>sds_buf := memcpy_at
      (if ?i \<noteq> 0 \<and> newlen' \<noteq> 0 then memcpy_at (sds_buf s) 0 (take newlen' (drop ?i (sds_buf s)))
       else sds_buf s) newlen' [NUL]\<rparr>) newlen')"
  proof -
    have "newlen' \<noteq> 0 \<Longrightarrow> newlen \<noteq> 0" by (auto simp: newlen'_def split: if_splits)
    then show ?thesis
      using assms(2) False ij
      unfolding sdsrange_def Let_def norm newlen_def [symmetric] newlen'_def [symmetric]
      by auto
  qed
  have "?i + newlen' \<le> sdslen s" using fit by auto
  note sl = sds_slice_wf [OF assms(1) this refl, of "newlen' \<noteq> 0"]
  have "take newlen' (drop ?i (sdsval s)) = take newlen' (drop (nat i) (sdsval s))" by simp
  with sl spec show ?thesis unfolding st by simp
qed

text \<open>The common case of consuming a prefix: \<open>sdsrange(s, n, -1)\<close>.\<close>

lemma sdsrange_drop:
  assumes "sds_wf s" and "sdslen s \<le> SSIZE_MAX" and "n \<le> sdslen s"
  shows "fst (sdsrange s (int n) (-1)) = 0 \<and> sds_wf (snd (sdsrange s (int n) (-1)))
    \<and> sdsval (snd (sdsrange s (int n) (-1))) = drop n (sdsval s)"
proof -
  have "int n < 2 ^ 63" using assms(2,3) by (simp add: SSIZE_MAX_def)
  then have "sdsval (snd (sdsrange s (int n) (-1))) = range_spec (sdsval s) (int n) (-1)"
    and "fst (sdsrange s (int n) (-1)) = 0" and "sds_wf (snd (sdsrange s (int n) (-1)))"
    using sdsrange_wf [OF assms(1,2), of "int n" "-1"] by simp_all
  moreover have "range_spec (sdsval s) (int n) (-1) = drop n (sdsval s)"
    using assms(1,3) by (cases "n = sdslen s") (auto simp: range_spec_def Let_def)
  ultimately show ?thesis by simp
qed

text \<open>A type 5 header does not record its allocation, so there only shrinking is covered.\<close>

lemma sdsIncrLen_wf:
  assumes "sds_wf s" and "sdsIncrLen s incr = Some s'"
    and "sds_flags s \<noteq> SDS_TYPE_5 \<or> incr < 0"
  shows "sds_wf s' \<and> int (sdslen s') = int (sdslen s) + incr
    \<and> sdsval s' = take (sdslen s') (sds_buf s)"
proof -
  define n where "n = nat (int (sds_hlen s) + incr)"
  have free: "sds_flags s \<noteq> SDS_TYPE_5 \<Longrightarrow> (case sds_flags s of
        SDS_TYPE_32 \<Rightarrow> int (usub 32 (sds_halloc s) (sds_hlen s))
      | SDS_TYPE_64 \<Rightarrow> int (usub 64 (sds_halloc s) (sds_hlen s))
      | _ \<Rightarrow> int (sds_halloc s) - int (sds_hlen s)) = int (sds_halloc s) - int (sds_hlen s)"
    using assms(1) by (cases "sds_flags s") (simp_all add: sds_wf_def sds_shape_def usub_id)
  have n: "int n = int (sds_hlen s) + incr" and al: "n \<le> sdsalloc s"
    using assms free
    by (auto simp: sdsIncrLen_def Let_def sds_wf_def sds_shape_def sdsalloc_def n_def split: if_splits)
  have fits: "n < 2 ^ sds_bits (sds_flags s)"
    using al assms(1) by (auto simp: sds_wf_def sds_shape_def sdsalloc_def split: if_splits)
  then have s': "s' = sdssetlen (s\<lparr>sds_buf := memcpy_at (sds_buf s) n [NUL]\<rparr>) n"
    using assms(2)
    by (cases s) (auto simp: sdsIncrLen_def Let_def n_def sdssetlen_def split: if_splits)
  have "n < length (sds_buf s)" using al sdsalloc_less [OF assms(1)] by simp
  then have "length (memcpy_at (sds_buf s) n [NUL]) = length (sds_buf s)"
    and "memcpy_at (sds_buf s) n [NUL] ! n = NUL" and "n \<le> length (sds_buf s)" by simp_all
  from sds_wf_setlen [OF assms(1) al this(1,2)] this(3) n show ?thesis
    by (simp add: s' take_memcpy_at_before) (simp add: sdslen_def)
qed

lemma memcmp_zero: "length a = length b \<Longrightarrow> memcmp a b = 0 \<longleftrightarrow> a = b"
  by (induction a b rule: memcmp.induct) auto

lemma memcmp_lexord:
  "(memcmp (take (min (length a) (length b)) a) (take (min (length a) (length b)) b) < 0
     \<or> memcmp (take (min (length a) (length b)) a) (take (min (length a) (length b)) b) = 0
       \<and> length a < length b)
   \<longleftrightarrow> (map byte_code a, map byte_code b) \<in> lexord {(x, y). x < y}"
  by (induction a b rule: list_induct2') auto

lemma sdscmp_val:
  assumes "sds_wf s1" and "sds_wf s2"
  shows "sdscmp s1 s2 =
    (let m = min (sdslen s1) (sdslen s2); cmp = memcmp (take m (sdsval s1)) (take m (sdsval s2))
     in if cmp = 0 then sbits 32 (int (sdslen s1) - int (sdslen s2)) else cmp)"
  by (simp add: sdscmp_def Let_def sdsval_def min_def)

section \<open>The interface its clients use\<close>

text \<open>
  A growable byte buffer: \<open>bval\<close> is what it holds, \<open>binv\<close> its representation invariant,
  \<open>bcat\<close> appends (and may fail for want of memory) and \<open>bcut\<close> consumes a prefix. The protocol
  reader and the connection's output buffer use nothing else of the strings.
\<close>

locale byte_buffer =
  fixes bval :: "'b \<Rightarrow> bytes"
    and binv :: "'b \<Rightarrow> bool"
    and bempty :: "mem \<Rightarrow> 'b option"
    and bcat :: "mem \<Rightarrow> 'b \<Rightarrow> bytes \<Rightarrow> 'b option"
    and bcut :: "'b \<Rightarrow> nat \<Rightarrow> 'b"
  assumes bempty_val: "bempty M = Some b \<Longrightarrow> binv b \<and> bval b = []"
    and bcat_val: "binv b \<Longrightarrow> bcat M b t = Some b' \<Longrightarrow> length (bval b) + length t < 2 ^ 63
      \<Longrightarrow> binv b' \<and> bval b' = bval b @ t"
    and bcut_val: "binv b \<Longrightarrow> n \<le> length (bval b) \<Longrightarrow> length (bval b) < 2 ^ 63
      \<Longrightarrow> binv (bcut b n) \<and> bval (bcut b n) = drop n (bval b)"
    and bcat_ok: "\<forall>n. granted M n \<Longrightarrow> bcat M b t \<noteq> None"
begin

text \<open>Appending a sequence of chunks, failing at the first refused allocation.\<close>

fun bcats :: "mem \<Rightarrow> 'b \<Rightarrow> bytes list \<Rightarrow> 'b option" where
  "bcats M b [] = Some b"
| "bcats M b (t # ts) = (case bcat M b t of None \<Rightarrow> None | Some b' \<Rightarrow> bcats M b' ts)"

lemma bcats_val:
  "binv b \<Longrightarrow> bcats M b ts = Some b' \<Longrightarrow> length (bval b) + length (concat ts) < 2 ^ 63
    \<Longrightarrow> binv b' \<and> bval b' = bval b @ concat ts"
proof (induction ts arbitrary: b)
  case Nil
  then show ?case by simp
next
  case (Cons t ts)
  then obtain c where c: "bcat M b t = Some c" and r: "bcats M c ts = Some b'"
    by (auto split: option.splits)
  have "binv c \<and> bval c = bval b @ t"
    using Cons.prems(1,3) c by (intro bcat_val) simp_all
  with Cons.IH [OF _ r] Cons.prems(3) show ?case by simp
qed

lemma bcats_chunks:
  assumes "binv b" and "bcats M b ts = Some c" and "bcats M' b us = Some d"
    and "concat ts = concat us" and "length (bval b) + length (concat ts) < 2 ^ 63"
  shows "bval c = bval d"
  using bcats_val [OF assms(1,2,5)] bcats_val [OF assms(1,3)] assms(4,5) by simp

end

definition sds_cut :: "sds \<Rightarrow> nat \<Rightarrow> sds" where
  "sds_cut s n = snd (sdsrange s (int n) (-1))"

interpretation sdsbuf: byte_buffer sdsval sds_wf sdsempty sdscatlen sds_cut
proof (unfold_locales, goal_cases)
  case (1 M b)
  then show ?case using sdsempty_wf by blast
next
  case (2 b M t b')
  then show ?case using sdscatlen_wf [of b M t b'] by simp
next
  case (3 b n)
  then show ?case using sdsrange_drop [of b n] by (simp add: sds_cut_def SSIZE_MAX_def)
next
  case (4 M b t)
  then show ?case by (simp add: sdscatlen_granted)
qed

lemma sds_example_wf: "sds_wf sds_example"
  by (simp add: sds_wf_def sds_shape_def sds_example_def)

lemma sds_example_val: "sdsval sds_example = '' ab ''" "sdslen sds_example = 4"
  by (simp_all add: sdsval_def sdslen_def sds_example_def)

section \<open>Properties\<close>

text \<open>Appending never corrupts a string: if \<open>sdscatlen\<close> succeeds, the result is well formed (the
  header type holds the length, the bytes end in NUL, nothing was written past the allocation)
  and holds the old bytes followed by the new ones; it fails only if the allocator refuses a
  request.\<close>

theorem sdscatlen_appends:
  assumes "sds_wf s" and "sdslen s + length t < 2 ^ 63"
  shows "case sdscatlen M s t of
      None \<Rightarrow> \<exists>n. \<not> granted M n
    | Some s' \<Rightarrow> sds_wf s' \<and> sdsval s' = sdsval s @ t \<and> sdslen s' = sdslen s + length t"
  using sdscatlen_wf [OF assms(1) _ assms(2), of M] sdscatlen_granted [of M s t]
  by (cases "sdscatlen M s t") auto

theorem sdscatlen_appends_witness:
  "\<exists>s'. sdscatlen mem_ok sds_example ''xyz'' = Some s' \<and> sdsval s' = '' ab xyz''"
proof -
  have "sdscatlen mem_ok sds_example ''xyz'' \<noteq> None" by (rule sdscatlen_granted) simp
  then obtain s' where "sdscatlen mem_ok sds_example ''xyz'' = Some s'" by auto
  with sdscatlen_appends [OF sds_example_wf, of "''xyz''" mem_ok] show ?thesis
    by (simp add: sds_example_val)
qed

text \<open>\<open>sdsMakeRoomFor\<close> gives the room it promises and changes nothing else: the string keeps
  its bytes and its length, stays well formed whatever header type it moves to, and has at
  least \<open>addlen\<close> bytes free; it fails only if the allocator refuses the request.\<close>

theorem sdsMakeRoomFor_room:
  assumes "sds_wf s" and "sdslen s + addlen < 2 ^ 63"
  shows "case sdsMakeRoomFor M s addlen of
      None \<Rightarrow> \<exists>n. \<not> granted M n
    | Some s' \<Rightarrow> sds_wf s' \<and> sdsval s' = sdsval s \<and> sdslen s' = sdslen s \<and> addlen \<le> sdsavail s'"
  using sdsMakeRoomFor_wf [OF assms(1) _ assms(2), of M] sdsMakeRoomFor_granted [of M s addlen]
  by (cases "sdsMakeRoomFor M s addlen") auto

theorem sdsMakeRoomFor_room_witness:
  "\<exists>s'. sdsMakeRoomFor mem_ok sds_example 300 = Some s' \<and> sdsval s' = '' ab '' \<and> 300 \<le> sdsavail s'"
proof -
  have "sdsMakeRoomFor mem_ok sds_example 300 \<noteq> None" by (rule sdsMakeRoomFor_granted) simp
  then obtain s' where "sdsMakeRoomFor mem_ok sds_example 300 = Some s'" by auto
  with sdsMakeRoomFor_room [OF sds_example_wf, of 300 mem_ok] show ?thesis
    by (simp add: sds_example_val)
qed

text \<open>\<open>sdstrim\<close> removes the bytes of the set from both ends and nothing from the middle, keeps
  the string well formed and stays inside its allocation. The set implicitly contains NUL,
  because \<open>strchr\<close> finds the terminator of the set.\<close>

theorem sdstrim_correct:
  assumes "sds_wf s"
  shows "sds_wf (sdstrim s cset) \<and> sdsval (sdstrim s cset) = trim_spec cset (sdsval s)
    \<and> length (sds_buf (sdstrim s cset)) = length (sds_buf s)"
  using assms by (rule sdstrim_wf)

theorem sdstrim_correct_witness:
  "sdsval (sdstrim sds_example '' '') = ''ab''"
  using sdstrim_correct [OF sds_example_wf, of "'' ''"]
  by (simp add: sds_example_val trim_spec_def strchr_def cstr_def)

text \<open>\<open>sdsrange\<close> keeps exactly the inclusive slice between two indices, where a negative index
  counts from the end and indices outside the string are clamped; the result is well formed
  and stays inside the allocation.\<close>

theorem sdsrange_correct:
  assumes "sds_wf s" and "sdslen s \<le> SSIZE_MAX"
    and "- (2 ^ 63) \<le> start" "start < 2 ^ 63" "- (2 ^ 63) \<le> fin" "fin < 2 ^ 63"
  shows "fst (sdsrange s start fin) = 0 \<and> sds_wf (snd (sdsrange s start fin))
    \<and> sdsval (snd (sdsrange s start fin)) = range_spec (sdsval s) start fin
    \<and> length (sds_buf (snd (sdsrange s start fin))) = length (sds_buf s)"
  using assms by (rule sdsrange_wf)

theorem sdsrange_correct_witness:
  "sdsval (snd (sdsrange sds_example 1 (-2))) = ''ab''"
  using sdsrange_correct [OF sds_example_wf, of 1 "-2"]
  by (simp add: sds_example_val SSIZE_MAX_def range_spec_def)

text \<open>\<open>sdscmp\<close> is 0 exactly for equal byte strings and negative exactly when the first string
  is lexicographically smaller (a proper prefix is smaller), provided the lengths differ by
  less than \<open>2^31\<close>: their difference is returned through an \<open>int\<close>.\<close>

theorem sdscmp_correct:
  assumes "sds_wf s1" and "sds_wf s2" and "\<bar>int (sdslen s1) - int (sdslen s2)\<bar> < 2 ^ 31"
  shows "(sdscmp s1 s2 = 0 \<longleftrightarrow> sdsval s1 = sdsval s2)
    \<and> (sdscmp s1 s2 < 0 \<longleftrightarrow>
        (map byte_code (sdsval s1), map byte_code (sdsval s2)) \<in> lexord {(x, y). x < y})"
proof -
  let ?d = "int (sdslen s1) - int (sdslen s2)"
  define m where "m = min (sdslen s1) (sdslen s2)"
  define c where "c = memcmp (take m (sdsval s1)) (take m (sdsval s2))"
  have l: "length (sdsval s1) = sdslen s1" "length (sdsval s2) = sdslen s2" using assms(1,2) by simp_all
  have cmp: "sdscmp s1 s2 = (if c = 0 then ?d else c)"
    using assms by (simp add: sdscmp_val c_def m_def Let_def)
  have "c = 0 \<longleftrightarrow> take m (sdsval s1) = take m (sdsval s2)"
    unfolding c_def by (rule memcmp_zero) (simp add: l m_def)
  then have "sdscmp s1 s2 = 0 \<longleftrightarrow> sdsval s1 = sdsval s2"
    using l unfolding cmp by (auto simp: m_def)
  moreover have "sdscmp s1 s2 < 0 \<longleftrightarrow> c < 0 \<or> c = 0 \<and> sdslen s1 < sdslen s2"
    unfolding cmp by auto
  ultimately show ?thesis
    using memcmp_lexord [of "sdsval s1" "sdsval s2"] by (simp add: c_def m_def l)
qed

theorem sdscmp_correct_witness:
  "sdscmp sds_example (sdstrim sds_example '' '') < 0"
proof -
  have w: "sds_wf (sdstrim sds_example '' '')"
    and v: "sdsval (sdstrim sds_example '' '') = ''ab''"
    using sdstrim_wf [OF sds_example_wf, of "'' ''"]
    by (simp_all add: sds_example_val trim_spec_def strchr_def cstr_def)
  have "sdslen (sdstrim sds_example '' '') = 2" using length_sdsval [OF w] by (simp add: v)
  with sdscmp_correct [OF sds_example_wf w] show ?thesis
    by (simp add: v sds_example_val byte_code_def)
qed

text \<open>Overwriting a string with \<open>sdscpylen\<close> leaves exactly the new bytes, and growing it with
  \<open>sdsgrowzero\<close> pads it with zero bytes (never with stale memory), whatever the allocator
  returns for fresh memory.\<close>

theorem sdscpylen_sdsgrowzero_correct:
  assumes "sds_wf s" and "length t < 2 ^ 63" and "n < 2 ^ 63"
  shows "(\<forall>s1. sdscpylen M s t = Some s1 \<longrightarrow> sds_wf s1 \<and> sdsval s1 = t)
    \<and> (\<forall>s2. sdsgrowzero M s n = Some s2 \<longrightarrow>
      sds_wf s2 \<and> sdsval s2 = sdsval s @ replicate (n - sdslen s) NUL)"
  using sdscpylen_wf [OF assms(1) _ assms(2)] sdsgrowzero_wf [OF assms(1) _ assms(3)]
  by blast

theorem sdscpylen_sdsgrowzero_correct_witness:
  "\<exists>s2. sdsgrowzero mem_ok sds_example 6 = Some s2 \<and> sdsval s2 = '' ab '' @ [NUL, NUL]"
proof -
  obtain s2 where g: "sdsgrowzero mem_ok sds_example 6 = Some s2"
    by (simp add: sdsgrowzero_def sdsMakeRoomFor_def sds_example_def sdslen_def sdsavail_def usub_def)
  have "sdsval s2 = '' ab '' @ replicate (6 - 4) NUL"
    using sdscpylen_sdsgrowzero_correct [OF sds_example_wf, of "[]" 6 mem_ok] g
    by (simp add: sds_example_val)
  with g show ?thesis by (simp add: numeral_2_eq_2)
qed

end
