(* ===== verification/SdsText.thy ===== *)
theory SdsText
  imports Sds
begin

text \<open>
  The text-processing half of \<open>src/src/hiredis/sds.c\<close>: integer to text, formatted append,
  joining and splitting, and the quoted representation with its parser. The main results
  are that formatting appends exactly the specified text, that splitting and joining are
  inverse, and that \<open>sdssplitargs\<close> reads back what \<open>sdscatrepr\<close> writes.
\<close>

section \<open>Integers to text\<close>

definition SDS_LLSTR_SIZE :: nat where
  "SDS_LLSTR_SIZE = 21"

text \<open>The \<open>do ... while(v)\<close> loop: digits from the least significant one.\<close>

fun ll_digits :: "nat \<Rightarrow> bytes" where
  "ll_digits v = digit_char (v mod 10) # (if v div 10 = 0 then [] else ll_digits (v div 10))"

declare ll_digits.simps [simp del]

text \<open>The in-place reversal with two pointers that move towards each other.\<close>

function reverse_loop :: "bytes \<Rightarrow> int \<Rightarrow> int \<Rightarrow> bytes" where
  "reverse_loop b i j =
     (if i < j then reverse_loop (b[nat i := b ! nat j, nat j := b ! nat i]) (i + 1) (j - 1) else b)"
  by pat_completeness auto
termination
  by (relation "measure (\<lambda>(b, i, j). nat (j - i))") auto

declare reverse_loop.simps [simp del]

text \<open>\<open>value\<close> is a \<open>long long\<close>; its negation is taken modulo \<open>2^64\<close>. The result is the text before
  the terminator, whose length the C function returns.\<close>

definition sdsll2str :: "int \<Rightarrow> bytes" where
  "sdsll2str value =
     (let v = (if value < 0 then nat ((- value) mod 2 ^ 64) else nat value);
          s = ll_digits v @ (if value < 0 then ''-'' else [])
      in reverse_loop s 0 (int (length s) - 1))"

definition sdsull2str :: "nat \<Rightarrow> bytes" where
  "sdsull2str v = (let s = ll_digits v in reverse_loop s 0 (int (length s) - 1))"

definition sdsfromlonglong :: "mem \<Rightarrow> int \<Rightarrow> sds option" where
  "sdsfromlonglong M value = (let buf = sdsll2str value in sdsnewlen M (Some buf) (length buf))"

section \<open>Formatted append\<close>

text \<open>
  \<open>vsnprintf\<close> belongs to the C library; \<open>out\<close> is the whole text that the format and its
  arguments produce. One round writes its first \<open>buflen-1\<close> bytes and a NUL into a buffer of
  \<open>buflen = k + 2\<close> bytes, and is repeated with twice the size while the byte before the last
  one is not NUL.
\<close>

definition vsnprintf_buf :: "mem \<Rightarrow> nat \<Rightarrow> bytes \<Rightarrow> bytes" where
  "vsnprintf_buf M k out =
     memcpy_at ((map (junk M) [0..<k + 2])[k := NUL]) 0 (take (k + 1) out @ [NUL])"

lemma vsnprintf_buf_fits:
  assumes "length out \<le> k" shows "vsnprintf_buf M k out ! k = NUL"
proof -
  let ?b = "(map (junk M) [0..<k + 2])[k := NUL]"
  have "vsnprintf_buf M k out = out @ [NUL] @ drop (length out + 1) ?b"
    using assms by (simp add: vsnprintf_buf_def memcpy_at_def)
  then show ?thesis using assms by (auto simp: nth_append nth_Cons' not_less)
qed

function vprintf_loop :: "mem \<Rightarrow> nat \<Rightarrow> bytes \<Rightarrow> bytes option" where
  "vprintf_loop M k out =
     (let buf = vsnprintf_buf M k out
      in if buf ! k \<noteq> NUL
         then (if granted M (2 * (k + 2)) then vprintf_loop M (2 * k + 2) out else None)
         else Some buf)"
  by pat_completeness auto
termination
proof (relation "measure (\<lambda>(M, k, out). length out + 1 - k)")
  fix M k out x
  assume "x = vsnprintf_buf M k out" "x ! k \<noteq> NUL" "granted M (2 * (k + 2))"
  then have "\<not> length out \<le> k" using vsnprintf_buf_fits [of out k M] by blast
  then show "((M, 2 * k + 2, out), (M, k, out)) \<in> measure (\<lambda>(M, k, out). length out + 1 - k)"
    by simp
qed simp

declare vprintf_loop.simps [simp del]

definition sdscatvprintf :: "mem \<Rightarrow> sds \<Rightarrow> bytes \<Rightarrow> bytes \<Rightarrow> sds option" where
  "sdscatvprintf M s fmt out =
     (let buflen = strlen fmt * 2;
          r = (if 1024 < buflen
               then (if granted M buflen then vprintf_loop M (buflen - 2) out else None)
               else vprintf_loop M (1024 - 2) out)
      in case r of None \<Rightarrow> None | Some buf \<Rightarrow> sdscat M s buf)"

definition sdscatprintf :: "mem \<Rightarrow> sds \<Rightarrow> bytes \<Rightarrow> bytes \<Rightarrow> sds option" where
  "sdscatprintf M s fmt out = sdscatvprintf M s fmt out"

text \<open>The variadic arguments of \<open>sdscatfmt\<close>. A \<open>size_t\<close> read as \<open>unsigned int\<close> is cut to its low
  32 bits.\<close>

datatype fmtarg = ArgStr bytes | ArgSds sds | ArgInt int | ArgLL int | ArgUInt nat | ArgULL nat

fun va_fmt :: "char \<Rightarrow> fmtarg \<Rightarrow> bytes option" where
  "va_fmt c (ArgStr t) = (if c = CHR ''s'' then Some (cstr t) else None)"
| "va_fmt c (ArgSds t) = (if c = CHR ''S'' then Some (take (sdslen t) (sds_buf t)) else None)"
| "va_fmt c (ArgInt n) = (if c = CHR ''i'' then Some (sdsll2str n) else None)"
| "va_fmt c (ArgLL n) = (if c = CHR ''I'' then Some (sdsll2str n) else None)"
| "va_fmt c (ArgUInt n) = (if c = CHR ''u'' then Some (sdsull2str n) else None)"
| "va_fmt c (ArgULL n) = (if c = CHR ''U'' then Some (sdsull2str n)
     else if c = CHR ''u'' then Some (sdsull2str (ubits 32 n)) else None)"

text \<open>Make room for \<open>t\<close> if needed, copy it to position \<open>i\<close> and advance the length.\<close>

definition catfmt_put :: "mem \<Rightarrow> sds \<Rightarrow> int \<Rightarrow> bytes \<Rightarrow> (sds \<times> int) option" where
  "catfmt_put M s i t =
     (let l = length t
      in case (if sdsavail s < l then sdsMakeRoomFor M s l else Some s) of
           None \<Rightarrow> None
         | Some s \<Rightarrow>
             Some (sdsinclen (s\<lparr>sds_buf := memcpy_at (sds_buf s) (nat i) t\<rparr>) l, i + int l))"

fun catfmt_loop :: "mem \<Rightarrow> sds \<Rightarrow> int \<Rightarrow> bytes \<Rightarrow> fmtarg list \<Rightarrow> (sds \<times> int) outcome" where
  "catfmt_loop M s i [] args = Ret (s, i)"
| "catfmt_loop M s i (c # f) args =
     (case (if sdsavail s = 0 then sdsMakeRoomFor M s 1 else Some s) of
        None \<Rightarrow> Null
      | Some s \<Rightarrow>
          if c = CHR ''%'' then
            (case f of
               [] \<Rightarrow> Undef
             | c' # f' \<Rightarrow>
                 if c' \<in> set ''sSiIuU'' then
                   (case args of
                      [] \<Rightarrow> Undef
                    | a # args' \<Rightarrow>
                        (case va_fmt c' a of
                           None \<Rightarrow> Undef
                         | Some t \<Rightarrow>
                             (case catfmt_put M s i t of
                                None \<Rightarrow> Null
                              | Some (s, i) \<Rightarrow> catfmt_loop M s i f' args')))
                 else catfmt_loop M (sdsinclen (s\<lparr>sds_buf := memcpy_at (sds_buf s) (nat i) [c']\<rparr>) 1)
                        (i + 1) f' args)
          else catfmt_loop M (sdsinclen (s\<lparr>sds_buf := memcpy_at (sds_buf s) (nat i) [c]\<rparr>) 1)
                 (i + 1) f args)"

definition sdscatfmt :: "mem \<Rightarrow> sds \<Rightarrow> bytes \<Rightarrow> fmtarg list \<Rightarrow> sds outcome" where
  "sdscatfmt M s fmt args =
     (case catfmt_loop M s (sbits 32 (int (sdslen s))) (cstr fmt) args of
        Ret (s, i) \<Rightarrow> Ret (s\<lparr>sds_buf := memcpy_at (sds_buf s) (nat i) [NUL]\<rparr>)
      | Null \<Rightarrow> Null
      | Undef \<Rightarrow> Undef)"

text \<open>The text a format string stands for.\<close>

fun fmt_spec :: "bytes \<Rightarrow> fmtarg list \<Rightarrow> bytes option" where
  "fmt_spec [] args = Some []"
| "fmt_spec (c # f) args =
     (if c = CHR ''%'' then
        (case f of
           [] \<Rightarrow> None
         | c' # f' \<Rightarrow>
             if c' \<in> set ''sSiIuU'' then
               (case args of
                  [] \<Rightarrow> None
                | a # args' \<Rightarrow>
                    (case va_fmt c' a of
                       None \<Rightarrow> None
                     | Some t \<Rightarrow> map_option ((@) t) (fmt_spec f' args')))
             else map_option ((#) c') (fmt_spec f' args))
      else map_option ((#) c) (fmt_spec f args))"

section \<open>Joining and splitting\<close>

text \<open>Neither join checks for a failed allocation: the next append then dereferences NULL.\<close>

fun join_loop :: "mem \<Rightarrow> sds \<Rightarrow> bytes list \<Rightarrow> bytes \<Rightarrow> sds outcome" where
  "join_loop M join [] sep = Ret join"
| "join_loop M join (a # argv) sep =
     (case sdscatlen M join a of
        None \<Rightarrow> (if argv = [] then Null else Undef)
      | Some join \<Rightarrow>
          if argv = [] then Ret join
          else case sdscatlen M join sep of
                 None \<Rightarrow> Undef
               | Some join \<Rightarrow> join_loop M join argv sep)"

definition sdsjoin :: "mem \<Rightarrow> bytes list \<Rightarrow> bytes \<Rightarrow> sds outcome" where
  "sdsjoin M argv sep =
     (case sdsempty M of
        None \<Rightarrow> (if argv = [] then Null else Undef)
      | Some join \<Rightarrow> join_loop M join (map cstr argv) (cstr sep))"

definition sdsjoinsds :: "mem \<Rightarrow> sds list \<Rightarrow> bytes \<Rightarrow> sds outcome" where
  "sdsjoinsds M argv sep =
     (case sdsempty M of
        None \<Rightarrow> (if argv = [] then Null else Undef)
      | Some join \<Rightarrow> join_loop M join (map (\<lambda>t. take (sdslen t) (sds_buf t)) argv) sep)"

text \<open>\<open>sdssplitlen\<close>: \<open>s\<close> holds \<open>len\<close> bytes and \<open>sep\<close> holds \<open>seplen\<close>. The token array starts with
  5 slots of 8 bytes and doubles when fewer than two are left.\<close>

function split_loop ::
  "mem \<Rightarrow> bytes \<Rightarrow> bytes \<Rightarrow> nat \<Rightarrow> nat \<Rightarrow> nat \<Rightarrow> sds list \<Rightarrow> (nat \<times> sds list) option" where
  "split_loop M s sep j start slots tokens =
     (if j + (length sep - 1) < length s then
        (let slots' = (if slots < length tokens + 2 then slots * 2 else slots)
         in if slots' \<noteq> slots \<and> \<not> granted M (8 * slots') then None
            else if (length sep = 1 \<and> s ! j = sep ! 0) \<or> take (length sep) (drop j s) = sep then
              (case sdsnewlen M (Some (drop start s)) (j - start) of
                 None \<Rightarrow> None
               | Some t \<Rightarrow>
                   split_loop M s sep (j + (length sep - 1) + 1) (j + length sep) slots' (tokens @ [t]))
            else split_loop M s sep (j + 1) start slots' tokens)
      else Some (start, tokens))"
  by pat_completeness auto
termination
  by (relation "measure (\<lambda>(M, s, sep, j, start, slots, tokens). length s - j)") auto

declare split_loop.simps [simp del]

definition sdssplitlen :: "mem \<Rightarrow> bytes \<Rightarrow> bytes \<Rightarrow> sds list option" where
  "sdssplitlen M s sep =
     (if length sep < 1 then None
      else if \<not> granted M (8 * 5) then None
      else if length s = 0 then Some []
      else case split_loop M s sep 0 0 5 [] of
             None \<Rightarrow> None
           | Some (start, tokens) \<Rightarrow>
               (case sdsnewlen M (Some (drop start s)) (length s - start) of
                  None \<Rightarrow> None
                | Some t \<Rightarrow> Some (tokens @ [t])))"

text \<open>The list with the separator between its elements.\<close>

fun join_spec :: "bytes list \<Rightarrow> bytes \<Rightarrow> bytes" where
  "join_spec [] sep = []"
| "join_spec [a] sep = a"
| "join_spec (a # argv) sep = a @ sep @ join_spec argv sep"

section \<open>Quoted representation\<close>

text \<open>What \<open>sdscatrepr\<close> appends for one byte, and through which call: the two \<open>%c\<close> formats and the
  \<open>\\x%02x\<close> format go through \<open>sdscatprintf\<close>, the fixed escapes through \<open>sdscatlen\<close>.\<close>

definition catrepr_byte :: "mem \<Rightarrow> sds \<Rightarrow> char \<Rightarrow> sds option" where
  "catrepr_byte M s c =
     (if c = CHR 0x5C \<or> c = CHR 0x22 then sdscatprintf M s [CHR 0x5C, CHR ''%'', CHR ''c''] [CHR 0x5C, c]
      else if c = CHR 0x0A then sdscatlen M s [CHR 0x5C, CHR ''n'']
      else if c = CHR 0x0D then sdscatlen M s [CHR 0x5C, CHR ''r'']
      else if c = CHR 0x09 then sdscatlen M s [CHR 0x5C, CHR ''t'']
      else if c = CHR 0x07 then sdscatlen M s [CHR 0x5C, CHR ''a'']
      else if c = CHR 0x08 then sdscatlen M s [CHR 0x5C, CHR ''b'']
      else if isprint c then sdscatprintf M s ''%c'' [c]
      else sdscatprintf M s (CHR 0x5C # ''x%02x'')
             [CHR 0x5C, CHR ''x'', hex_char (byte_code c div 16), hex_char (byte_code c mod 16)])"

fun catrepr_loop :: "mem \<Rightarrow> sds \<Rightarrow> bytes \<Rightarrow> sds outcome" where
  "catrepr_loop M s [] = (case sdscatlen M s [CHR 0x22] of None \<Rightarrow> Null | Some s \<Rightarrow> Ret s)"
| "catrepr_loop M s (c # p) =
     (case catrepr_byte M s c of None \<Rightarrow> Undef | Some s \<Rightarrow> catrepr_loop M s p)"

definition sdscatrepr :: "mem \<Rightarrow> sds \<Rightarrow> bytes \<Rightarrow> sds outcome" where
  "sdscatrepr M s p = (case sdscatlen M s [CHR 0x22] of None \<Rightarrow> Undef | Some s \<Rightarrow> catrepr_loop M s p)"

definition hex_digit_to_int :: "char \<Rightarrow> nat" where
  "hex_digit_to_int c =
     (if isdigit c then byte_code c - 48
      else if c \<in> set ''aA'' then 10 else if c \<in> set ''bB'' then 11
      else if c \<in> set ''cC'' then 12 else if c \<in> set ''dD'' then 13
      else if c \<in> set ''eE'' then 14 else if c \<in> set ''fF'' then 15
      else 0)"

definition unescape :: "char \<Rightarrow> char" where
  "unescape c =
     (if c = CHR ''n'' then CHR 0x0A else if c = CHR ''r'' then CHR 0x0D
      else if c = CHR ''t'' then CHR 0x09 else if c = CHR ''b'' then CHR 0x08
      else if c = CHR ''a'' then CHR 0x07 else c)"

text \<open>
  The token loop of \<open>sdssplitargs\<close>: the state is the pair of flags \<open>inq\<close>, \<open>insq\<close>, the rest of the
  line (its end is the NUL) and the bytes of \<open>current\<close>. \<open>None\<close> is \<open>goto err\<close>; otherwise the token
  and the rest of the line after the final \<open>if (*p) p++\<close>.
\<close>

definition ends_token :: "bytes \<Rightarrow> bool" where
  "ends_token p = (case p of [] \<Rightarrow> True | c # _ \<Rightarrow> isspace c)"

fun hex_escape :: "bytes \<Rightarrow> bool" where
  "hex_escape (b # x # h # l # p) =
     (b = CHR 0x5C \<and> x = CHR ''x'' \<and> isxdigit h \<and> isxdigit l)"
| "hex_escape _ = False"

function (sequential) split_token ::
  "bool \<Rightarrow> bool \<Rightarrow> bytes \<Rightarrow> bytes \<Rightarrow> (bytes \<times> bytes) option" where
  "split_token inq insq [] current = (if inq \<or> insq then None else Some (current, []))"
| "split_token inq insq (c # p) current =
     (if inq then
        (if hex_escape (c # p) then
           split_token inq insq (drop 3 p)
             (current @ [char_of (hex_digit_to_int (p ! 1) * 16 + hex_digit_to_int (p ! 2))])
         else if c = CHR 0x5C \<and> p \<noteq> [] then
           split_token inq insq (tl p) (current @ [unescape (hd p)])
         else if c = CHR 0x22 then
           (if ends_token p then Some (current, p) else None)
         else split_token inq insq p (current @ [c]))
      else if insq then
        (if c = CHR 0x5C \<and> p \<noteq> [] \<and> hd p = CHR 0x27 then
           split_token inq insq (tl p) (current @ [CHR 0x27])
         else if c = CHR 0x27 then
           (if ends_token p then Some (current, p) else None)
         else split_token inq insq p (current @ [c]))
      else if c = CHR 0x20 \<or> c = CHR 0x0A \<or> c = CHR 0x0D \<or> c = CHR 0x09 then Some (current, p)
      else if c = CHR 0x22 then split_token True insq p current
      else if c = CHR 0x27 then split_token inq True p current
      else split_token inq insq p (current @ [c]))"
  by pat_completeness auto
termination
  by (relation "measure (\<lambda>(inq, insq, p, current). length p)") auto

declare split_token.simps [simp del]

lemma split_token_step:
  assumes "split_token inq insq (c # p) current = Some r"
  shows "snd r = p \<or> (\<exists>i j q cur. length q \<le> length p \<and> split_token i j q cur = Some r)"
proof -
  have e: ?thesis if "split_token i j q cur = Some r" and "length q \<le> length p" for i j q cur
    using that by blast
  show ?thesis
    using assms unfolding split_token.simps(2)
    by (simp split: if_splits) (erule e, simp | auto)+
qed

lemma split_token_shrinks: "split_token inq insq p current = Some r \<Longrightarrow> length (snd r) \<le> length p"
proof (induction p arbitrary: inq insq current rule: length_induct)
  case (1 p)
  show ?case
  proof (cases p)
    case Nil
    with "1.prems" show ?thesis by (auto simp: split_token.simps split: if_splits)
  next
    case (Cons c p')
    from split_token_step [OF "1.prems" [unfolded Cons]] show ?thesis
    proof
      assume "\<exists>i j q cur. length q \<le> length p' \<and> split_token i j q cur = Some r"
      then obtain i j q cur where q: "length q \<le> length p'" "split_token i j q cur = Some r" by blast
      then have "length (snd r) \<le> length q" using "1.IH" Cons by (metis length_Cons less_Suc_eq_le)
      with q(1) show ?thesis by (simp add: Cons)
    qed (simp add: Cons)
  qed
qed

text \<open>The outer loop: skip blanks, read a token, append it to the vector.\<close>

function splitargs_loop :: "mem \<Rightarrow> bytes \<Rightarrow> bytes list \<Rightarrow> bytes list option" where
  "splitargs_loop M p vector =
     (case dropWhile isspace p of
        [] \<Rightarrow> (if vector = [] \<and> \<not> granted M 8 then None else Some vector)
      | c # q \<Rightarrow>
          (case split_token False False (c # q) [] of
             None \<Rightarrow> None
           | Some (current, rest) \<Rightarrow>
               if granted M ((length vector + 1) * 8)
               then splitargs_loop M rest (vector @ [current]) else None))"
  by pat_completeness auto
termination
proof (relation "measure (\<lambda>(M, p, vector). length p)")
  fix M p vector c q x current rest
  assume d: "dropWhile isspace p = c # q" and t: "split_token False False (c # q) [] = Some x"
    and x: "(current, rest) = x"
  have len: "length (c # q) \<le> length p" using length_dropWhile_le [of isspace p] d by simp
  have "\<not> isspace c" using d by (metis dropWhile_eq_Cons_conv)
  then have "c \<noteq> CHR 0x20 \<and> c \<noteq> CHR 0x0A \<and> c \<noteq> CHR 0x0D \<and> c \<noteq> CHR 0x09"
    by (auto simp: isspace_def byte_code_def)
  then have "\<exists>i j cur. split_token i j q cur = Some x"
    using t unfolding split_token.simps(2) by (simp split: if_splits) blast+
  then have "length rest \<le> length q" using split_token_shrinks x by (metis snd_conv)
  with len show "((M, rest, vector @ [current]), (M, p, vector)) \<in> measure (\<lambda>(M, p, vector). length p)"
    by simp
qed simp

declare splitargs_loop.simps [simp del]

definition sdssplitargs :: "mem \<Rightarrow> bytes \<Rightarrow> bytes list option" where
  "sdssplitargs M line = splitargs_loop M (cstr line) []"

text \<open>No occurrence of the separator anywhere in a byte string.\<close>

definition sep_free :: "bytes \<Rightarrow> bytes \<Rightarrow> bool" where
  "sep_free sep v \<longleftrightarrow> (\<forall>k. take (length sep) (drop k v) \<noteq> sep)"

text \<open>The escape of one byte, as text.\<close>

definition repr_byte :: "char \<Rightarrow> bytes" where
  "repr_byte c =
     (if c = CHR 0x5C \<or> c = CHR 0x22 then [CHR 0x5C, c]
      else if c = CHR 0x0A then [CHR 0x5C, CHR ''n'']
      else if c = CHR 0x0D then [CHR 0x5C, CHR ''r'']
      else if c = CHR 0x09 then [CHR 0x5C, CHR ''t'']
      else if c = CHR 0x07 then [CHR 0x5C, CHR ''a'']
      else if c = CHR 0x08 then [CHR 0x5C, CHR ''b'']
      else if isprint c then [c]
      else [CHR 0x5C, CHR ''x'', hex_char (byte_code c div 16), hex_char (byte_code c mod 16)])"

definition repr_spec :: "bytes \<Rightarrow> bytes" where
  "repr_spec v = CHR 0x22 # concat (map repr_byte v) @ [CHR 0x22]"

section \<open>Integer lemmas\<close>

lemma rev_ll_digits: "rev (ll_digits v) = dec v"
proof (induction v rule: ll_digits.induct)
  case (1 v)
  show ?case
  proof (cases "v < 10")
    case True
    then show ?thesis by (subst ll_digits.simps) (simp add: dec_small)
  next
    case False
    then have "v div 10 \<noteq> 0" by simp
    with "1.IH" have "rev (ll_digits (v div 10)) = dec (v div 10)" by simp
    with False \<open>v div 10 \<noteq> 0\<close> show ?thesis
      by (subst ll_digits.simps) (simp add: dec_large [of v])
  qed
qed

lemma length_reverse_loop [simp]: "length (reverse_loop b i j) = length b"
proof (induction b i j rule: reverse_loop.induct)
  case (1 b i j)
  then show ?case by (subst reverse_loop.simps) simp
qed

lemma nth_reverse_loop:
  assumes "0 \<le> i" and "j < int (length b)" and "k < length b"
  shows "reverse_loop b i j ! k = (if i \<le> int k \<and> int k \<le> j then b ! nat (i + j - int k) else b ! k)"
  using assms
proof (induction b i j rule: reverse_loop.induct)
  case (1 b i j)
  show ?case
  proof (cases "i < j")
    case False
    then show ?thesis by (subst reverse_loop.simps) (auto simp: not_less intro: arg_cong [where f = "(!) b"])
  next
    case True
    let ?b = "b[nat i := b ! nat j, nat j := b ! nat i]"
    have "reverse_loop b i j ! k = reverse_loop ?b (i + 1) (j - 1) ! k"
      using True by (subst reverse_loop.simps) simp
    also have "\<dots> = (if i + 1 \<le> int k \<and> int k \<le> j - 1 then ?b ! nat (i + j - int k) else ?b ! k)"
      using "1.IH" [OF True] "1.prems" by simp
    finally have step: "reverse_loop b i j ! k =
      (if i + 1 \<le> int k \<and> int k \<le> j - 1 then ?b ! nat (i + j - int k) else ?b ! k)" .
    consider (l) "int k = i" | (r) "int k = j" | (m) "i + 1 \<le> int k" "int k \<le> j - 1"
      | (o) "int k < i \<or> j < int k" by linarith
    then show ?thesis
    proof cases
      case l
      then have "nat i = k" "nat j \<noteq> k" using True "1.prems" by auto
      then show ?thesis unfolding step using True "1.prems" l by simp
    next
      case r
      then have "nat j = k" using True "1.prems" by auto
      then show ?thesis unfolding step using True "1.prems" r by simp
    next
      case m
      then have "nat i \<noteq> nat (i + j - int k)" "nat j \<noteq> nat (i + j - int k)" using "1.prems" by auto
      then show ?thesis unfolding step using m by simp
    next
      case o
      then have "nat i \<noteq> k" "nat j \<noteq> k" using True "1.prems"(1) by linarith+
      then show ?thesis unfolding step using o by auto
    qed
  qed
qed

lemma reverse_loop_rev: "reverse_loop b 0 (int (length b) - 1) = rev b"
proof (rule nth_equalityI)
  fix k assume "k < length (reverse_loop b 0 (int (length b) - 1))"
  then have k: "k < length b" by simp
  then have "nat (int (length b) - 1 - int k) = length b - Suc k" by linarith
  with k show "reverse_loop b 0 (int (length b) - 1) ! k = rev b ! k"
    by (simp add: nth_reverse_loop rev_nth)
qed simp

lemma sdsull2str_dec: "sdsull2str v = dec v"
  by (simp add: sdsull2str_def reverse_loop_rev rev_ll_digits)

lemma sdsll2str_dec_int:
  assumes "- (2 ^ 63) \<le> v" and "v < 2 ^ 63" shows "sdsll2str v = dec_int v"
  using assms by (simp add: sdsll2str_def Let_def reverse_loop_rev rev_ll_digits dec_int_def)

lemma length_dec_le: "n < 10 ^ Suc k \<Longrightarrow> length (dec n) \<le> Suc k"
proof (induction k arbitrary: n)
  case 0
  then show ?case by (simp add: dec_small)
next
  case (Suc k)
  show ?case
  proof (cases "n < 10")
    case True
    then show ?thesis by (simp add: dec_small)
  next
    case False
    have "n div 10 < 10 ^ Suc k" using Suc.prems by (simp add: less_mult_imp_div_less)
    with Suc.IH [of "n div 10"] False show ?thesis by (simp add: dec_large)
  qed
qed

section \<open>Lemmas on formatted append\<close>

lemma cstr_vsnprintf_buf:
  assumes "vsnprintf_buf M k out ! k = NUL" shows "cstr (vsnprintf_buf M k out) = cstr out"
proof (cases "length out \<le> k + 1")
  case True
  then have "vsnprintf_buf M k out = out @ NUL # drop (length out + 1) ((map (junk M) [0..<k + 2])[k := NUL])"
    by (simp add: vsnprintf_buf_def memcpy_at_def)
  then show ?thesis by (simp only: cstr_append_NUL)
next
  case False
  then have t: "take (k + 1) out = take k out @ [out ! k]" by (simp add: nth_take_snoc)
  let ?r = "drop (k + 2) ((map (junk M) [0..<k + 2])[k := NUL])"
  have b: "vsnprintf_buf M k out = take k out @ out ! k # NUL # ?r"
    using False t by (simp add: vsnprintf_buf_def memcpy_at_def min_def)
  with assms False have "out ! k = NUL" by (simp add: nth_append)
  then have "NUL \<in> set (take (k + 1) out)" unfolding t by simp
  then have "cstr (take (k + 1) out @ drop (k + 1) out) = cstr (take (k + 1) out)"
    by (rule cstr_append_in)
  then have "cstr out = cstr (take (k + 1) out)" by (simp only: append_take_drop_id)
  moreover have "vsnprintf_buf M k out = take (k + 1) out @ NUL # ?r" using b t by simp
  ultimately show ?thesis by (simp only: cstr_append_NUL)
qed

lemma cstr_vprintf_loop: "vprintf_loop M k out = Some buf \<Longrightarrow> cstr buf = cstr out"
proof (induction M k out rule: vprintf_loop.induct)
  case (1 M k out)
  then show ?case
    using cstr_vsnprintf_buf [of M k out]
    by (auto simp: vprintf_loop.simps [of M k out] Let_def split: if_splits)
qed

lemma vprintf_loop_granted: "\<forall>n. granted M n \<Longrightarrow> vprintf_loop M k out \<noteq> None"
proof (induction M k out rule: vprintf_loop.induct)
  case (1 M k out)
  then show ?case by (subst vprintf_loop.simps) (auto simp: Let_def)
qed

lemma sdscatvprintf_wf:
  assumes "sds_wf s" and "sdscatvprintf M s fmt out = Some s'" and "sdslen s + length (cstr out) < 2 ^ 63"
  shows "sds_wf s' \<and> sdsval s' = sdsval s @ cstr out \<and> sdslen s' = sdslen s + length (cstr out)"
proof -
  from assms(2) obtain k buf where "vprintf_loop M k out = Some buf" and c: "sdscat M s buf = Some s'"
    by (auto simp: sdscatvprintf_def Let_def split: if_splits option.splits)
  then have "cstr buf = cstr out" by (rule_tac cstr_vprintf_loop)
  with sdscatlen_wf [OF assms(1) _ assms(3)] c show ?thesis by (simp add: sdscat_def)
qed

lemma sdscatvprintf_granted:
  assumes "\<forall>n. granted M n" shows "sdscatvprintf M s fmt out \<noteq> None"
proof -
  obtain k where eq: "sdscatvprintf M s fmt out =
      (case vprintf_loop M k out of None \<Rightarrow> None | Some buf \<Rightarrow> sdscat M s buf)"
    using assms by (cases "1024 < strlen fmt * 2") (auto simp: sdscatvprintf_def Let_def)
  obtain buf where "vprintf_loop M k out = Some buf"
    using vprintf_loop_granted [OF assms, of k out] by blast
  with eq sdscatlen_granted [OF assms, of s "cstr buf"] show ?thesis by (simp add: sdscat_def)
qed

text \<open>One write of \<open>sdscatfmt\<close>: the bytes go to the end of the string and the length follows.\<close>

lemma sds_put_shape:
  assumes "sds_shape s" and "length t \<le> sdsavail s" and "sds_flags s \<noteq> SDS_TYPE_5 \<or> t = []"
    and "s' = sdsinclen (s\<lparr>sds_buf := memcpy_at (sds_buf s) (sdslen s) t\<rparr>) (length t)"
  shows "sds_shape s' \<and> sdsval s' = sdsval s @ t \<and> sdslen s' = sdslen s + length t"
proof -
  note room = sdsavail_room_shape [OF assms(1,2)]
  then have l: "sds_hlen s' = sdslen s + length t"
    by (simp add: assms(4) sdsinclen_def sdslen_def)
  have b: "length (memcpy_at (sds_buf s) (sdslen s) t) = length (sds_buf s)" using room by simp
  have "sds_shape s'"
    using assms(1-3) l b room
    by (auto simp: sds_shape_def assms(4) sdsinclen_def sdsavail_shape sdslen_def)
  moreover have "sdslen s' = sdslen s + length t" using l by (simp add: sdslen_def)
  moreover have "sds_buf s' = memcpy_at (sds_buf s) (sdslen s) t" by (simp add: assms(4) sdsinclen_def)
  ultimately show ?thesis using room by (simp add: sdsval_def take_memcpy_at_end)
qed

lemma catfmt_put_shape:
  assumes "sds_shape s" and "i = int (sdslen s)" and "sdslen s + length t < 2 ^ 31"
  shows "case catfmt_put M s i t of
      None \<Rightarrow> \<exists>n. \<not> granted M n
    | Some (s', i') \<Rightarrow> sds_shape s' \<and> sdsval s' = sdsval s @ t \<and> i' = int (sdslen s')
        \<and> sdslen s' = sdslen s + length t"
proof (cases "if sdsavail s < length t then sdsMakeRoomFor M s (length t) else Some s")
  case None
  then have "\<not> (\<forall>n. granted M n)" using sdsMakeRoomFor_granted [of M s "length t"] by (auto split: if_splits)
  with None show ?thesis by (simp add: catfmt_put_def Let_def)
next
  case (Some r)
  have r: "sds_shape r \<and> sdslen r = sdslen s \<and> sdsval r = sdsval s \<and> length t \<le> sdsavail r"
  proof (cases "sdsavail s < length t")
    case True
    with Some have "sdsMakeRoomFor M s (length t) = Some r" by simp
    from sdsMakeRoomFor_shape [OF assms(1) this] assms(3)
    have r: "sds_shape r" "take (Suc (sdslen s)) (sds_buf r) = take (Suc (sdslen s)) (sds_buf s)"
      "sdslen r = sdslen s" "length t \<le> sdsavail r" by simp_all
    from r(2) have "take (sdslen s) (sds_buf r) = take (sdslen s) (sds_buf s)"
      by (metis Suc_n_not_le_n min_def nat_le_linear take_take)
    with r show ?thesis by (simp add: sdsval_def)
  next
    case False
    with Some assms(1) show ?thesis by simp
  qed
  then have "sds_flags r \<noteq> SDS_TYPE_5 \<or> t = []" by (auto simp: sdsavail_shape split: if_splits)
  with sds_put_shape [of r t, OF _ _ _ refl] r Some assms(2) show ?thesis
    by (simp add: catfmt_put_def Let_def)
qed

text \<open>A single byte of the format: room for it is made at the top of the loop.\<close>

lemma catfmt_byte_shape:
  assumes "sds_shape s" and "sdslen s + 1 < 2 ^ 31"
    and "(if sdsavail s = 0 then sdsMakeRoomFor M s 1 else Some s) = Some r"
    and "s' = sdsinclen (r\<lparr>sds_buf := memcpy_at (sds_buf r) (sdslen s) [c]\<rparr>) 1"
  shows "sds_shape s' \<and> sdsval s' = sdsval s @ [c] \<and> sdslen s' = sdslen s + 1"
proof -
  have put: "catfmt_put M s (int (sdslen s)) [c] = Some (s', int (sdslen s) + 1)"
    using assms(3,4) by (auto simp: catfmt_put_def Let_def split: if_splits)
  show ?thesis using catfmt_put_shape [OF assms(1) refl, of "[c]" M] assms(2) put by simp
qed

lemma catfmt_room_shape:
  assumes "sds_shape s" and "sdslen s + 1 < 2 ^ 31"
    and "(if sdsavail s = 0 then sdsMakeRoomFor M s 1 else Some s) = Some r"
  shows "sds_shape r \<and> sdsval r = sdsval s \<and> sdslen r = sdslen s"
proof (cases "sdsavail s = 0")
  case True
  with assms(3) have "sdsMakeRoomFor M s 1 = Some r" by simp
  from sdsMakeRoomFor_shape [OF assms(1) this] assms(2)
  have r: "sds_shape r" "sdslen r = sdslen s"
    "take (Suc (sdslen s)) (sds_buf r) = take (Suc (sdslen s)) (sds_buf s)" by simp_all
  then have "take (sdslen s) (sds_buf r) = take (sdslen s) (sds_buf s)"
    by (metis Suc_n_not_le_n min_def nat_le_linear take_take)
  with r show ?thesis by (simp add: sdsval_def)
next
  case False
  with assms(1,3) show ?thesis by simp
qed

lemma catfmt_loop_shape:
  assumes "sds_shape s" and "fmt_spec f args = Some out" and "sdslen s + length out + 1 < 2 ^ 31"
  shows "case catfmt_loop M s (int (sdslen s)) f args of
      Ret (s', i') \<Rightarrow> sds_shape s' \<and> sdsval s' = sdsval s @ out \<and> i' = int (sdslen s')
    | Null \<Rightarrow> \<exists>n. \<not> granted M n
    | Undef \<Rightarrow> False"
  using assms
proof (induction f arbitrary: s args out rule: length_induct)
  case (1 f)
  show ?case
  proof (cases f)
    case Nil
    with "1.prems" show ?thesis by simp
  next
    case (Cons c f')
    show ?thesis
    proof (cases "if sdsavail s = 0 then sdsMakeRoomFor M s 1 else Some s")
      case None
      then have "\<exists>n. \<not> granted M n" using sdsMakeRoomFor_granted [of M s 1] by (auto split: if_splits)
      with None Cons show ?thesis by simp
    next
      case (Some r)
      have len1: "sdslen s + 1 < 2 ^ 31" using "1.prems"(3) by simp
      note room = catfmt_room_shape [OF "1.prems"(1) len1 Some]
      have one: "case catfmt_loop M (sdsinclen (r\<lparr>sds_buf := memcpy_at (sds_buf r) (nat (int (sdslen s))) [d]\<rparr>) 1)
            (int (sdslen s) + 1) g args of
          Ret (s', i') \<Rightarrow> sds_shape s' \<and> sdsval s' = sdsval s @ d # out' \<and> i' = int (sdslen s')
        | Null \<Rightarrow> \<exists>n. \<not> granted M n
        | Undef \<Rightarrow> False"
        if "length g < length f" and "fmt_spec g args = Some out'" and "out = d # out'" for d g out'
      proof -
        define t where "t = sdsinclen (r\<lparr>sds_buf := memcpy_at (sds_buf r) (sdslen s) [d]\<rparr>) 1"
        have t: "sds_shape t" "sdsval t = sdsval s @ [d]" "sdslen t = sdslen s + 1"
          using catfmt_byte_shape [OF "1.prems"(1) len1 Some t_def] by simp_all
        with "1.IH" [rule_format, OF that(1), of t args out'] that(2,3) "1.prems"(3) show ?thesis
          unfolding nat_int t_def [symmetric]
          by (simp add: add.commute split: outcome.splits prod.splits)
      qed
      consider (plain) "c \<noteq> CHR ''%''"
        | (pct) d g where "c = CHR ''%''" "f' = d # g" "d \<notin> set ''sSiIuU''"
        | (arg) d g a as t out' where "c = CHR ''%''" "f' = d # g" "d \<in> set ''sSiIuU''" "args = a # as"
            "va_fmt d a = Some t" "fmt_spec g as = Some out'" "out = t @ out'"
        using "1.prems"(2) Cons by (auto split: if_splits list.splits option.splits)
      then show ?thesis
      proof cases
        case plain
        then obtain out' where "fmt_spec f' args = Some out'" "out = c # out'"
          using "1.prems"(2) Cons by auto
        with one [of f' out' c] plain Cons Some show ?thesis
          by (simp split: outcome.splits prod.splits)
      next
        case pct
        then obtain out' where "fmt_spec g args = Some out'" "out = d # out'"
          using "1.prems"(2) Cons by auto
        with one [of g out' d] pct Cons Some show ?thesis
          by (simp split: outcome.splits prod.splits)
      next
        case arg
        have b: "sdslen r + length t < 2 ^ 31" using arg(7) "1.prems"(3) room by simp
        note put = catfmt_put_shape [of r "int (sdslen s)" t M, OF _ _ b]
        show ?thesis
        proof (cases "catfmt_put M r (int (sdslen s)) t")
          case None
          with put room arg Cons Some show ?thesis by simp
        next
          case put': (Some p)
          obtain s1 i1 where p: "p = (s1, i1)" by force
          from put room put' p have s1: "sds_shape s1" "sdsval s1 = sdsval s @ t"
            "i1 = int (sdslen s1)" "sdslen s1 = sdslen s + length t" by simp_all
          have "length g < length f" using Cons arg(2) by simp
          from "1.IH" [rule_format, OF this s1(1) arg(6)] s1 arg(7) "1.prems"(3)
          show ?thesis using arg Cons Some put' p by (simp add: add.assoc split: outcome.splits prod.splits)
        qed
      qed
    qed
  qed
qed

lemma sdscatfmt_wf:
  assumes "sds_wf s" and "fmt_spec (cstr fmt) args = Some out" and "sdslen s + length out + 1 < 2 ^ 31"
  shows "case sdscatfmt M s fmt args of
      Ret s' \<Rightarrow> sds_wf s' \<and> sdsval s' = sdsval s @ out
    | Null \<Rightarrow> \<exists>n. \<not> granted M n
    | Undef \<Rightarrow> False"
proof -
  have i: "sbits 32 (int (sdslen s)) = int (sdslen s)" using assms(3) by simp
  note loop = catfmt_loop_shape [OF sds_wf_shape [OF assms(1)] assms(2,3), of M]
  show ?thesis
  proof (cases "catfmt_loop M s (int (sdslen s)) (cstr fmt) args")
    case (Ret p)
    obtain t j where p: "p = (t, j)" by force
    from loop Ret p have t: "sds_shape t" "sdsval t = sdsval s @ out" "j = int (sdslen t)" by simp_all
    have l: "sdslen t < length (sds_buf t)" using t(1) by (rule sds_shape_len)
    have "sds_wf (t\<lparr>sds_buf := memcpy_at (sds_buf t) (sdslen t) [NUL]\<rparr>)"
      using t(1) l by (simp add: sds_wf_def sds_shape_def sdslen_def)
    moreover have "sdsval (t\<lparr>sds_buf := memcpy_at (sds_buf t) (sdslen t) [NUL]\<rparr>) = sdsval t"
      using l by (simp add: sdsval_def sdslen_def take_memcpy_at_before)
    ultimately show ?thesis using Ret p t i by (simp add: sdscatfmt_def)
  qed (use loop i in \<open>simp_all add: sdscatfmt_def\<close>)
qed

section \<open>Lemmas on joining and splitting\<close>

lemma join_spec_snoc: "join_spec (xs @ [y]) sep = concat (map (\<lambda>x. x @ sep) xs) @ y"
proof (induction xs)
  case (Cons x xs)
  then show ?case by (cases xs) auto
qed simp

lemma join_loop_wf:
  assumes "sds_wf s" and "sdslen s + length (join_spec argv sep) < 2 ^ 63"
  shows "case join_loop M s argv sep of
      Ret s' \<Rightarrow> sds_wf s' \<and> sdsval s' = sdsval s @ join_spec argv sep
    | _ \<Rightarrow> \<exists>n. \<not> granted M n"
  using assms
proof (induction argv sep arbitrary: s rule: join_spec.induct)
  case (1 sep)
  then show ?case by simp
next
  case (2 a sep)
  then show ?case
    using sdscatlen_wf [of s M a] sdscatlen_granted [of M s a]
    by (cases "sdscatlen M s a") auto
next
  case (3 a b argv sep)
  show ?case
  proof (cases "sdscatlen M s a")
    case None
    with sdscatlen_granted [of M s a] show ?thesis by auto
  next
    case (Some s1)
    with "3.prems" have s1: "sds_wf s1" "sdsval s1 = sdsval s @ a" "sdslen s1 = sdslen s + length a"
      using sdscatlen_wf [of s M a s1] by simp_all
    show ?thesis
    proof (cases "sdscatlen M s1 sep")
      case None
      with sdscatlen_granted [of M s1 sep] Some show ?thesis by auto
    next
      case s2: (Some s2)
      with s1 "3.prems" have "sds_wf s2" "sdsval s2 = sdsval s1 @ sep" "sdslen s2 = sdslen s1 + length sep"
        using sdscatlen_wf [of s1 M sep s2] by simp_all
      moreover have "join_loop M s (a # b # argv) sep = join_loop M s2 (b # argv) sep"
        by (simp add: Some s2)
      ultimately show ?thesis
        using "3.IH" [of s2] "3.prems" s1 by (simp del: join_loop.simps split: outcome.splits)
    qed
  qed
qed

lemma sep_free_slice:
  assumes "\<And>k. start \<le> k \<Longrightarrow> k < j \<Longrightarrow> take (length sep) (drop k s) \<noteq> sep" and "sep \<noteq> []"
  shows "sep_free sep (take (j - start) (drop start s))"
  unfolding sep_free_def
proof (intro allI notI)
  fix k assume m: "take (length sep) (drop k (take (j - start) (drop start s))) = sep"
  then have "length sep \<le> j - start - k"
    by (metis diff_le_mono length_drop length_take min.cobounded1 min.cobounded2 order_trans)
  with assms(2) have k: "start + k < j" and le: "length sep \<le> j - start - k" by (auto simp: neq_Nil_conv)
  have "take (length sep) (drop (start + k) s) = sep"
    using m le by (simp add: drop_take take_take min_absorb1 add.commute)
  with assms(1) k show False by simp
qed

lemma split_loop_spec:
  assumes "split_loop M s sep j start slots tokens = Some (st, toks)" and "sep \<noteq> []"
    and "start \<le> j" and "start \<le> length s" and "length s < 2 ^ 63"
    and "\<And>k. start \<le> k \<Longrightarrow> k < j \<Longrightarrow> take (length sep) (drop k s) \<noteq> sep"
  shows "\<exists>new. toks = tokens @ new \<and> (\<forall>t \<in> set new. sds_wf t \<and> sep_free sep (sdsval t))
    \<and> drop start s = concat (map (\<lambda>t. sdsval t @ sep) new) @ drop st s
    \<and> st \<le> length s \<and> sep_free sep (drop st s)"
  using assms
proof (induction M s sep j start slots tokens arbitrary: st toks rule: split_loop.induct)
  case (1 M s sep j start slots tokens)
  let ?slots = "if slots < length tokens + 2 then slots * 2 else slots"
  show ?case
  proof (cases "j + (length sep - 1) < length s")
    case False
    have "sep_free sep (take (length s - start) (drop start s))"
    proof (rule sep_free_slice [OF _ "1.prems"(2)])
      fix k assume "start \<le> k" "k < length s"
      show "take (length sep) (drop k s) \<noteq> sep"
      proof (cases "k < j")
        case True
        with "1.prems"(6) \<open>start \<le> k\<close> show ?thesis by simp
      next
        case ge: False
        have "length (take (length sep) (drop k s)) < length sep"
          using False ge "1.prems"(2) by (cases sep) auto
        then show ?thesis by auto
      qed
    qed
    with False "1.prems" show ?thesis by (simp add: split_loop.simps [of M s sep j])
  next
    case True
    have g: "\<not> (?slots \<noteq> slots \<and> \<not> granted M (8 * ?slots))"
      using "1.prems"(1) True by (auto simp: split_loop.simps [of M s sep j] Let_def split: if_splits)
    show ?thesis
    proof (cases "(length sep = 1 \<and> s ! j = sep ! 0) \<or> take (length sep) (drop j s) = sep")
      case m: True
      have match: "take (length sep) (drop j s) = sep"
        using m
      proof
        assume a: "length sep = 1 \<and> s ! j = sep ! 0"
        then obtain x where "sep = [x]" by (cases sep) auto
        with a True show ?thesis by (simp add: take_Suc_conv_app_nth hd_drop_conv_nth take_Suc)
      qed simp
      from "1.prems"(1) True g m obtain t where t: "sdsnewlen M (Some (drop start s)) (j - start) = Some t"
        and r: "split_loop M s sep (j + (length sep - 1) + 1) (j + length sep) ?slots (tokens @ [t]) = Some (st, toks)"
        by (auto simp: split_loop.simps [of M s sep j] Let_def split: option.splits)
      have wf: "sds_wf t" "sdsval t = take (j - start) (drop start s)"
        using sdsnewlen_wf [OF t] "1.prems"(3-5) True by simp_all
      have free: "sep_free sep (sdsval t)"
        unfolding wf(2) using "1.prems"(6,2) by (rule sep_free_slice)
      have jl: "j + length sep \<le> length s"
        using True "1.prems"(2) by (cases sep) auto
      have sl: "length sep \<noteq> 0" using "1.prems"(2) by simp
      have "\<exists>new. toks = (tokens @ [t]) @ new \<and> (\<forall>t \<in> set new. sds_wf t \<and> sep_free sep (sdsval t))
          \<and> drop (j + length sep) s = concat (map (\<lambda>t. sdsval t @ sep) new) @ drop st s
          \<and> st \<le> length s \<and> sep_free sep (drop st s)"
        using "1.IH"(1) [OF True refl g m t r "1.prems"(2)] jl sl "1.prems"(5) by simp
      then obtain new where new: "toks = tokens @ t # new"
        "\<forall>t \<in> set new. sds_wf t \<and> sep_free sep (sdsval t)"
        "drop (j + length sep) s = concat (map (\<lambda>t. sdsval t @ sep) new) @ drop st s"
        "st \<le> length s" "sep_free sep (drop st s)" by auto
      have "drop j s = sep @ drop (j + length sep) s"
        using match by (metis append_take_drop_id drop_drop add.commute)
      then have "drop start s = sdsval t @ sep @ drop (j + length sep) s"
        unfolding wf(2) using "1.prems"(3)
        by (metis append_take_drop_id drop_drop le_add_diff_inverse2)
      with new wf free show ?thesis by (intro exI [of _ "t # new"]) simp
    next
      case n: False
      have r: "split_loop M s sep (j + 1) start ?slots tokens = Some (st, toks)"
        using "1.prems"(1) True g n by (auto simp: split_loop.simps [of M s sep j] Let_def)
      show ?thesis
        using "1.IH"(2) [OF True refl g n r "1.prems"(2) _ "1.prems"(4,5)] "1.prems"(3,6) n
        by (simp add: less_Suc_eq) blast
    qed
  qed
qed

lemma sdssplitlen_wf:
  assumes "sdssplitlen M s sep = Some toks" and "s \<noteq> []" and "length s < 2 ^ 63"
  shows "(\<forall>t \<in> set toks. sds_wf t \<and> sep_free sep (sdsval t)) \<and> join_spec (map sdsval toks) sep = s"
proof -
  have sep: "sep \<noteq> []" using assms(1) by (auto simp: sdssplitlen_def)
  from assms(1,2) obtain st tokens t where l: "split_loop M s sep 0 0 5 [] = Some (st, tokens)"
    and t: "sdsnewlen M (Some (drop st s)) (length s - st) = Some t" and toks: "toks = tokens @ [t]"
    by (auto simp: sdssplitlen_def split: if_splits option.splits)
  from split_loop_spec [OF l sep _ _ assms(3)]
  have n: "\<forall>t \<in> set tokens. sds_wf t \<and> sep_free sep (sdsval t)"
    "s = concat (map (\<lambda>t. sdsval t @ sep) tokens) @ drop st s" "st \<le> length s" "sep_free sep (drop st s)"
    by simp_all
  have "sds_wf t \<and> sdsval t = drop st s"
    using sdsnewlen_wf [OF t] assms(3) by simp
  with n toks show ?thesis by (simp add: join_spec_snoc comp_def)
qed

lemma split_loop_granted:
  assumes "\<forall>n. granted M n" shows "split_loop M s sep j start slots tokens \<noteq> None"
  using assms
proof (induction M s sep j start slots tokens rule: split_loop.induct)
  case (1 M s sep j start slots tokens)
  obtain t where "sdsnewlen M (Some (drop start s)) (j - start) = Some t"
    using sdsnewlen_granted [OF "1.prems"] by blast
  with 1 show ?case by (subst split_loop.simps) (simp add: Let_def)
qed

lemma sdssplitlen_granted:
  assumes "\<forall>n. granted M n" and "sep \<noteq> []" shows "sdssplitlen M s sep \<noteq> None"
proof -
  obtain st tk where "split_loop M s sep 0 0 5 [] = Some (st, tk)"
    using split_loop_granted [OF assms(1), of s sep 0 0 5 "[]"] by auto
  moreover obtain t where "sdsnewlen M (Some (drop st s)) (length s - st) = Some t"
    using sdsnewlen_granted [OF assms(1)] by blast
  ultimately show ?thesis using assms by (simp add: sdssplitlen_def Suc_le_eq)
qed

section \<open>Lemmas on the quoted representation\<close>

lemma byte_nibbles: "byte_code c div 16 < 16" "byte_code c mod 16 < 16"
  using byte_code_less [of c] by (simp_all add: less_mult_imp_div_less)

lemma hex_char_facts:
  assumes "d < 16"
  shows "isxdigit (hex_char d) \<and> hex_digit_to_int (hex_char d) = d \<and> hex_char d \<noteq> NUL"
proof -
  have "d = 0 \<or> d = 1 \<or> d = 2 \<or> d = 3 \<or> d = 4 \<or> d = 5 \<or> d = 6 \<or> d = 7 \<or> d = 8 \<or> d = 9 \<or>
    d = 10 \<or> d = 11 \<or> d = 12 \<or> d = 13 \<or> d = 14 \<or> d = 15" using assms by arith
  then show ?thesis
    by (elim disjE)
      (simp_all add: hex_char_def isxdigit_def isdigit_def hex_digit_to_int_def byte_code_def char_of_eq_iff)
qed

lemma NUL_notin_repr_byte [simp]: "NUL \<notin> set (repr_byte c)"
proof -
  have "hex_char (byte_code c div 16) \<noteq> NUL" "hex_char (byte_code c mod 16) \<noteq> NUL"
    using hex_char_facts byte_nibbles by blast+
  moreover have "\<not> isprint NUL" by (simp add: isprint_def byte_code_def)
  ultimately show ?thesis by (auto simp: repr_byte_def)
qed

lemma length_repr_byte: "length (repr_byte c) \<le> 4"
  by (simp add: repr_byte_def)

lemma catrepr_byte_wf:
  assumes "sds_wf s" and "sdslen s + 4 < 2 ^ 63"
  shows "case catrepr_byte M s c of
      None \<Rightarrow> \<exists>n. \<not> granted M n
    | Some s' \<Rightarrow> sds_wf s' \<and> sdsval s' = sdsval s @ repr_byte c \<and> sdslen s' = sdslen s + length (repr_byte c)"
proof -
  have "\<exists>fmt. catrepr_byte M s c = sdscatvprintf M s fmt (repr_byte c) \<or> catrepr_byte M s c = sdscatlen M s (repr_byte c)"
    by (simp add: catrepr_byte_def repr_byte_def sdscatprintf_def) blast
  then obtain fmt where "catrepr_byte M s c = sdscatvprintf M s fmt (repr_byte c)
      \<or> catrepr_byte M s c = sdscatlen M s (repr_byte c)" by blast
  moreover have "cstr (repr_byte c) = repr_byte c" by simp
  moreover have "sdslen s + length (repr_byte c) < 2 ^ 63"
    using assms(2) length_repr_byte [of c] by simp
  ultimately show ?thesis
    using sdscatvprintf_wf [OF assms(1), of M fmt "repr_byte c"] sdscatlen_wf [OF assms(1), of M "repr_byte c"]
      sdscatvprintf_granted [of M s fmt "repr_byte c"] sdscatlen_granted [of M s "repr_byte c"]
    by (cases "catrepr_byte M s c") (simp; blast | force)+
qed

lemma catrepr_loop_wf:
  assumes "sds_wf s" and "sdslen s + 4 * length v + 4 < 2 ^ 63"
  shows "case catrepr_loop M s v of
      Ret s' \<Rightarrow> sds_wf s' \<and> sdsval s' = sdsval s @ concat (map repr_byte v) @ [CHR 0x22]
    | _ \<Rightarrow> \<exists>n. \<not> granted M n"
  using assms
proof (induction v arbitrary: s)
  case Nil
  then show ?case
    using sdscatlen_wf [of s M "[CHR 0x22]"] sdscatlen_granted [of M s "[CHR 0x22]"]
    by (cases "sdscatlen M s [CHR 0x22]") auto
next
  case (Cons c v)
  have b: "case catrepr_byte M s c of
      None \<Rightarrow> \<exists>n. \<not> granted M n
    | Some s' \<Rightarrow> sds_wf s' \<and> sdsval s' = sdsval s @ repr_byte c \<and> sdslen s' = sdslen s + length (repr_byte c)"
    using Cons.prems by (intro catrepr_byte_wf) simp_all
  show ?case
  proof (cases "catrepr_byte M s c")
    case None
    with b show ?thesis by simp
  next
    case (Some s1)
    with b Cons.IH [of s1] Cons.prems length_repr_byte [of c] show ?thesis
      by (simp split: outcome.splits)
  qed
qed

lemma sdscatrepr_wf:
  assumes "sds_wf s" and "sdslen s + 4 * length v + 5 < 2 ^ 63"
  shows "case sdscatrepr M s v of
      Ret s' \<Rightarrow> sds_wf s' \<and> sdsval s' = sdsval s @ repr_spec v
    | _ \<Rightarrow> \<exists>n. \<not> granted M n"
proof (cases "sdscatlen M s [CHR 0x22]")
  case None
  with sdscatlen_granted [of M s "[CHR 0x22]"] show ?thesis by (auto simp: sdscatrepr_def)
next
  case (Some s1)
  have "sds_wf s1 \<and> sdsval s1 = sdsval s @ [CHR 0x22] \<and> sdslen s1 = sdslen s + 1"
    using sdscatlen_wf [OF assms(1) Some] assms(2) by simp
  with catrepr_loop_wf [of s1 v M] assms(2) Some show ?thesis
    by (simp add: sdscatrepr_def repr_spec_def split: outcome.splits)
qed

text \<open>Inside double quotes the parser reads one escaped byte and goes on after it.\<close>

lemma split_token_repr_byte:
  assumes "rest \<noteq> []"
  shows "split_token True insq (repr_byte c @ rest) cur = split_token True insq rest (cur @ [c])"
proof -
  obtain r rs where rest: "rest = r # rs" using assms by (cases rest) auto
  have hx: "hex_escape (CHR 0x5C # d # q) \<longleftrightarrow> False" if "d \<noteq> CHR ''x''" for d q
    using that by (cases "CHR 0x5C # d # q" rule: hex_escape.cases) auto
  have np: "hex_escape (d # q) \<longleftrightarrow> False" if "d \<noteq> CHR 0x5C" for d q
    using that by (cases "d # q" rule: hex_escape.cases) auto
  show ?thesis
  proof (cases "c \<in> {CHR 0x5C, CHR 0x22, CHR 0x0A, CHR 0x0D, CHR 0x09, CHR 0x07, CHR 0x08}")
    case True
    then have "\<exists>d. repr_byte c = [CHR 0x5C, d] \<and> d \<noteq> CHR ''x'' \<and> unescape d = c"
      by (elim insertE) (simp_all add: repr_byte_def unescape_def)
    then obtain d where "repr_byte c = [CHR 0x5C, d]" "d \<noteq> CHR ''x''" "unescape d = c" by blast
    then show ?thesis by (simp add: split_token.simps(2) hx)
  next
    case special: False
    show ?thesis
  proof (cases "isprint c")
    case True
    with special have "repr_byte c = [c]" "c \<noteq> CHR 0x5C" "c \<noteq> CHR 0x22" by (simp_all add: repr_byte_def)
    then show ?thesis by (simp add: split_token.simps(2) np)
  next
    case False
    let ?h = "byte_code c div 16" and ?l = "byte_code c mod 16"
    have "repr_byte c @ rest = CHR 0x5C # CHR ''x'' # hex_char ?h # hex_char ?l # rest"
      using False special by (simp add: repr_byte_def)
    moreover have "char_of (?h * 16 + ?l) = c" by (simp add: byte_code_def)
    ultimately show ?thesis
      using hex_char_facts [OF byte_nibbles(1)] hex_char_facts [OF byte_nibbles(2)]
      by (simp add: split_token.simps(2) numeral_2_eq_2 numeral_3_eq_3)
  qed
  qed
qed

lemma split_token_repr:
  "split_token True False (concat (map repr_byte v) @ [CHR 0x22]) cur = Some (cur @ v, [])"
proof (induction v arbitrary: cur)
  case Nil
  then show ?case by (simp add: split_token.simps ends_token_def)
next
  case (Cons c v)
  then show ?case using split_token_repr_byte [of "concat (map repr_byte v) @ [CHR 0x22]" False c cur] by simp
qed

lemma sdssplitargs_repr:
  assumes "granted M 8" shows "sdssplitargs M (repr_spec v) = Some [v]"
proof -
  have n: "NUL \<notin> set (repr_spec v)" by (auto simp: repr_spec_def)
  have sp: "\<not> isspace (CHR 0x22)" by (simp add: isspace_def byte_code_def)
  have t: "split_token False False (repr_spec v) [] = Some (v, [])"
    by (simp add: repr_spec_def split_token.simps(2) split_token_repr)
  have "splitargs_loop M (repr_spec v) [] = splitargs_loop M [] [v]"
    using t assms sp unfolding repr_spec_def by (subst splitargs_loop.simps) simp
  also have "\<dots> = Some [v]" by (simp add: splitargs_loop.simps)
  finally show ?thesis using n by (simp add: sdssplitargs_def)
qed

section \<open>Properties\<close>

text \<open>The integer printer is exact and fits its buffer: for every \<open>long long\<close>, including the most
  negative one, \<open>sdsll2str\<close> yields the decimal numeral, which with its terminator needs at
  most the 21 bytes reserved for it; likewise \<open>sdsull2str\<close> for every 64-bit unsigned value.\<close>

theorem sdsll2str_exact:
  assumes "- (2 ^ 63) \<le> v" and "v < 2 ^ 63" and "n < 2 ^ 64"
  shows "sdsll2str v = dec_int v \<and> length (sdsll2str v) + 1 \<le> SDS_LLSTR_SIZE
    \<and> sdsull2str n = dec n \<and> length (sdsull2str n) + 1 \<le> SDS_LLSTR_SIZE"
proof -
  have "nat v < 10 ^ Suc 18" "nat (- v) < 10 ^ Suc 18" "n < 10 ^ Suc 19" using assms by auto
  note b = length_dec_le [OF this(1)] length_dec_le [OF this(2)] length_dec_le [OF this(3)]
  have "sdsll2str v = dec_int v" using assms(1,2) by (rule sdsll2str_dec_int)
  moreover have "length (dec_int v) \<le> 20" using b(1,2) by (simp add: dec_int_def)
  ultimately show ?thesis using b(3) by (simp add: sdsull2str_dec SDS_LLSTR_SIZE_def)
qed

theorem sdsll2str_exact_witness:
  "length (sdsll2str (- 9223372036854775808)) + 1 \<le> SDS_LLSTR_SIZE
    \<and> sdsll2str (- 9223372036854775808) = dec_int (- 9223372036854775808)"
proof (intro conjI)
  have b: "- (2 ^ 63) \<le> (- 9223372036854775808 :: int)" "(- 9223372036854775808 :: int) < 2 ^ 63"
    "(0::nat) < 2 ^ 64" by simp_all
  show "length (sdsll2str (- 9223372036854775808)) + 1 \<le> SDS_LLSTR_SIZE"
    using sdsll2str_exact [OF b] by blast
  show "sdsll2str (- 9223372036854775808) = dec_int (- 9223372036854775808)"
    using sdsll2str_exact [OF b] by blast
qed







end
