(* ===== verification/ReadLex.thy ===== *)
theory ReadLex
  imports Prelude
begin

text \<open>
  The lexical layer of the reply parser (\<open>src/src/hiredis/read.c\<close>, with the constants of
  \<open>read.h\<close>): the printable form of an offending type byte, the search for the line end and
  the strict conversion of a line to a \<open>long long\<close>. The main results are that
  \<open>seekNewline\<close> finds the first CRLF and that \<open>string2ll\<close> accepts exactly the canonical decimal
  numerals of the values that fit, with their value.
\<close>

section \<open>Constants of \<open>read.h\<close>\<close>

definition REDIS_ERR :: int where "REDIS_ERR = -1"
definition REDIS_OK :: int where "REDIS_OK = 0"

definition REDIS_ERR_IO :: int where "REDIS_ERR_IO = 1"
definition REDIS_ERR_EOF :: int where "REDIS_ERR_EOF = 3"
definition REDIS_ERR_PROTOCOL :: int where "REDIS_ERR_PROTOCOL = 4"
definition REDIS_ERR_OOM :: int where "REDIS_ERR_OOM = 5"
definition REDIS_ERR_TIMEOUT :: int where "REDIS_ERR_TIMEOUT = 6"
definition REDIS_ERR_OTHER :: int where "REDIS_ERR_OTHER = 2"

definition REDIS_REPLY_STRING :: int where "REDIS_REPLY_STRING = 1"
definition REDIS_REPLY_ARRAY :: int where "REDIS_REPLY_ARRAY = 2"
definition REDIS_REPLY_INTEGER :: int where "REDIS_REPLY_INTEGER = 3"
definition REDIS_REPLY_NIL :: int where "REDIS_REPLY_NIL = 4"
definition REDIS_REPLY_STATUS :: int where "REDIS_REPLY_STATUS = 5"
definition REDIS_REPLY_ERROR :: int where "REDIS_REPLY_ERROR = 6"
definition REDIS_REPLY_DOUBLE :: int where "REDIS_REPLY_DOUBLE = 7"
definition REDIS_REPLY_BOOL :: int where "REDIS_REPLY_BOOL = 8"
definition REDIS_REPLY_MAP :: int where "REDIS_REPLY_MAP = 9"
definition REDIS_REPLY_SET :: int where "REDIS_REPLY_SET = 10"
definition REDIS_REPLY_PUSH :: int where "REDIS_REPLY_PUSH = 12"
definition REDIS_REPLY_VERB :: int where "REDIS_REPLY_VERB = 14"

definition REDIS_READER_MAX_BUF :: nat where "REDIS_READER_MAX_BUF = 1024 * 16"
definition REDIS_READER_MAX_ARRAY_ELEMENTS :: int where
  "REDIS_READER_MAX_ARRAY_ELEMENTS = 2 ^ 32 - 1"
definition REDIS_READER_STACK_SIZE :: nat where "REDIS_READER_STACK_SIZE = 9"

lemmas reply_type_defs = REDIS_REPLY_STRING_def REDIS_REPLY_ARRAY_def REDIS_REPLY_INTEGER_def
  REDIS_REPLY_NIL_def REDIS_REPLY_STATUS_def REDIS_REPLY_ERROR_def REDIS_REPLY_DOUBLE_def
  REDIS_REPLY_BOOL_def REDIS_REPLY_MAP_def REDIS_REPLY_SET_def REDIS_REPLY_PUSH_def
  REDIS_REPLY_VERB_def

lemmas redis_err_defs = REDIS_ERR_IO_def REDIS_ERR_EOF_def REDIS_ERR_PROTOCOL_def
  REDIS_ERR_OOM_def REDIS_ERR_TIMEOUT_def REDIS_ERR_OTHER_def

lemmas redis_status_defs = REDIS_OK_def REDIS_ERR_def

lemma REDIS_OK_neq_ERR [simp]: "REDIS_OK \<noteq> REDIS_ERR" "REDIS_ERR \<noteq> REDIS_OK"
  by (simp_all add: redis_status_defs)

section \<open>Operations\<close>

text \<open>\<open>chrtos\<close>: the length that \<open>snprintf\<close> reports and the contents of the buffer.\<close>

definition chrtos :: "nat \<Rightarrow> char \<Rightarrow> nat \<times> bytes" where
  "chrtos n byte =
     (let t = (if byte = CHR 0x5C \<or> byte = CHR 0x22 then [CHR 0x22, CHR 0x5C, byte, CHR 0x22]
               else if byte = CHR 0x0A then [CHR 0x22, CHR 0x5C, CHR ''n'', CHR 0x22]
               else if byte = CHR 0x0D then [CHR 0x22, CHR 0x5C, CHR ''r'', CHR 0x22]
               else if byte = CHR 0x09 then [CHR 0x22, CHR 0x5C, CHR ''t'', CHR 0x22]
               else if byte = CHR 0x07 then [CHR 0x22, CHR 0x5C, CHR ''a'', CHR 0x22]
               else if byte = CHR 0x08 then [CHR 0x22, CHR 0x5C, CHR ''b'', CHR 0x22]
               else if isprint byte then [CHR 0x22, byte, CHR 0x22]
               else [CHR 0x22, CHR 0x5C, CHR ''x'', hex_char (byte_code byte div 16),
                     hex_char (byte_code byte mod 16), CHR 0x22])
      in (length t, snprintf_buf n t))"

text \<open>The inner loop of \<open>seekNewline\<close>: the next CR at or after \<open>pos\<close>, or \<open>_len\<close>.\<close>

function seek_cr :: "bytes \<Rightarrow> nat \<Rightarrow> nat \<Rightarrow> nat" where
  "seek_cr s pos n = (if pos < n \<and> s ! pos \<noteq> CR then seek_cr s (pos + 1) n else pos)"
  by pat_completeness auto
termination
  by (relation "measure (\<lambda>(s, pos, n). n - pos)") auto

declare seek_cr.simps [simp del]

lemma seek_cr_ge: "pos \<le> seek_cr s pos n"
proof (induction s pos n rule: seek_cr.induct)
  case (1 s pos n)
  then show ?case by (subst seek_cr.simps) auto
qed

function seek_loop :: "bytes \<Rightarrow> nat \<Rightarrow> nat \<Rightarrow> nat option" where
  "seek_loop s pos n =
     (if pos < n then
        (let q = seek_cr s pos n
         in if q = n then None
            else if s ! (q + 1) = LF then Some q
            else seek_loop s (q + 1) n)
      else None)"
  by pat_completeness auto
termination
proof (relation "measure (\<lambda>(s, pos, n). n - pos)")
  fix s pos n x
  assume "pos < n" "x = seek_cr s pos n"
  then show "((s, x + 1, n), (s, pos, n)) \<in> measure (\<lambda>(s, pos, n). n - pos)"
    using seek_cr_ge [of pos s n] by auto
qed simp

declare seek_loop.simps [simp del]

text \<open>\<open>_len\<close> is an \<open>int\<close>: \<open>len-1\<close> is reduced to 32 bits, and a negative value ends the search at once.
  The result is the offset of the CR.\<close>

definition seekNewline :: "bytes \<Rightarrow> nat \<Rightarrow> nat option" where
  "seekNewline s len = seek_loop s 0 (nat (sbits 32 (int (usub 64 len 1))))"

definition ULLONG_MAX :: nat where "ULLONG_MAX = 2 ^ 64 - 1"

text \<open>The digit loop of \<open>string2ll\<close> on the rest of the string: the accumulated value and the bytes
  that were not used, or an overflow.\<close>

fun digits_loop :: "bytes \<Rightarrow> nat \<Rightarrow> (nat \<times> bytes) option" where
  "digits_loop [] v = Some (v, [])"
| "digits_loop (c # p) v =
     (if isdigit c then
        (if ULLONG_MAX div 10 < v then None
         else let v = ubits 64 (v * 10)
              in if ULLONG_MAX - digit_val c < v then None
                 else digits_loop p (ubits 64 (v + digit_val c)))
      else Some (v, c # p))"

definition string2ll :: "bytes \<Rightarrow> int option" where
  "string2ll s =
     (if s = [] then None
      else if length s = 1 \<and> s ! 0 = CHR ''0'' then Some 0
      else
        let negative = (s ! 0 = CHR ''-'');
            p = (if negative then tl s else s)
        in if p = [] then None
           else if isdigit (p ! 0) \<and> p ! 0 \<noteq> CHR ''0'' then
             (case digits_loop (tl p) (digit_val (p ! 0)) of
                None \<Rightarrow> None
              | Some (v, rest) \<Rightarrow>
                  if rest \<noteq> [] then None
                  else if negative then
                    (if nat (- (LLONG_MIN + 1)) + 1 < v then None else Some (sbits 64 (- int v)))
                  else (if LLONG_MAX < int v then None else Some (int v)))
           else if p ! 0 = CHR ''0'' \<and> length s = 1 then Some 0
           else None)"

section \<open>The line end\<close>

definition crlf_at :: "bytes \<Rightarrow> nat \<Rightarrow> bool" where
  "crlf_at s i \<longleftrightarrow> s ! i = CR \<and> s ! (i + 1) = LF"

lemma seek_cr_spec:
  assumes "pos \<le> n"
  shows "seek_cr s pos n \<le> n \<and> (\<forall>j. pos \<le> j \<and> j < seek_cr s pos n \<longrightarrow> s ! j \<noteq> CR)
    \<and> (seek_cr s pos n < n \<longrightarrow> s ! seek_cr s pos n = CR)"
  using assms
proof (induction s pos n rule: seek_cr.induct)
  case (1 s pos n)
  show ?case
  proof (cases "pos < n \<and> s ! pos \<noteq> CR")
    case True
    then have "seek_cr s pos n = seek_cr s (pos + 1) n" by (simp add: seek_cr.simps [of s pos])
    with 1 True show ?thesis by (metis Suc_eq_plus1 Suc_leI le_neq_implies_less)
  next
    case False
    then have "seek_cr s pos n = pos" by (subst seek_cr.simps) auto
    with False "1.prems" show ?thesis by auto
  qed
qed

lemma seek_loop_spec:
  assumes "pos \<le> n"
  shows "case seek_loop s pos n of
      None \<Rightarrow> \<forall>j. pos \<le> j \<and> j < n \<longrightarrow> \<not> crlf_at s j
    | Some q \<Rightarrow> pos \<le> q \<and> q < n \<and> crlf_at s q \<and> (\<forall>j. pos \<le> j \<and> j < q \<longrightarrow> \<not> crlf_at s j)"
  using assms
proof (induction s pos n rule: seek_loop.induct)
  case (1 s pos n)
  let ?q = "seek_cr s pos n"
  note q = seek_cr_spec [OF "1.prems", of s] seek_cr_ge [of pos s n]
  have free: "\<not> crlf_at s j" if "pos \<le> j" "j < ?q" for j using q that by (auto simp: crlf_at_def)
  show ?case
  proof (cases "pos < n \<and> ?q < n \<and> s ! (?q + 1) \<noteq> LF")
    case True
    then have s: "seek_loop s pos n = seek_loop s (?q + 1) n" by (simp add: seek_loop.simps [of s pos])
    have "\<not> crlf_at s ?q" using True by (simp add: crlf_at_def)
    then have free': "\<not> crlf_at s j" if "pos \<le> j" "j < ?q + 1" for j
      using that free by (cases "j = ?q") auto
    have "case seek_loop s (?q + 1) n of
        None \<Rightarrow> \<forall>j. ?q + 1 \<le> j \<and> j < n \<longrightarrow> \<not> crlf_at s j
      | Some q \<Rightarrow> ?q + 1 \<le> q \<and> q < n \<and> crlf_at s q \<and> (\<forall>j. ?q + 1 \<le> j \<and> j < q \<longrightarrow> \<not> crlf_at s j)"
      using 1 True by auto
    moreover have "\<forall>j. pos \<le> j \<and> j < k \<longrightarrow> \<not> crlf_at s j"
      if "\<forall>j. ?q + 1 \<le> j \<and> j < k \<longrightarrow> \<not> crlf_at s j" for k
      using that free' by (meson not_le)
    ultimately show ?thesis using s q(2) by (auto split: option.splits)
  next
    case False
    then have "seek_loop s pos n = (if ?q < n then Some ?q else None)"
      using q "1.prems" by (subst seek_loop.simps) (auto simp: Let_def)
    with False q free show ?thesis by (auto simp: crlf_at_def)
  qed
qed

lemma seekNewline_bound:
  assumes "len < 2 ^ 31" shows "nat (sbits 32 (int (usub 64 len 1))) = len - 1"
proof (cases len)
  case 0
  then show ?thesis by (simp add: usub_def sbits_def)
next
  case (Suc k)
  then have "usub 64 len 1 = k" using assms by (simp add: usub_id)
  with Suc assms show ?thesis by simp
qed

lemma seekNewline_spec:
  assumes "len < 2 ^ 31"
  shows "case seekNewline s len of
      None \<Rightarrow> \<forall>j. j + 1 < len \<longrightarrow> \<not> crlf_at s j
    | Some q \<Rightarrow> q + 1 < len \<and> crlf_at s q \<and> (\<forall>j < q. \<not> crlf_at s j)"
  using seek_loop_spec [of 0 "len - 1" s] seekNewline_bound [OF assms]
  by (auto simp: seekNewline_def split: option.splits)

lemma seekNewline_unique:
  assumes "len < 2 ^ 31" and "q + 1 < len" and "crlf_at s q" and "\<forall>j < q. \<not> crlf_at s j"
  shows "seekNewline s len = Some q"
  using seekNewline_spec [OF assms(1), of s] assms(2-)
  by (cases "seekNewline s len") (auto, metis linorder_neqE_nat)

text \<open>On a line without CR, the search stops at the end of the line.\<close>

lemma seekNewline_line:
  assumes "CR \<notin> set l" and "len < 2 ^ 31" and "length l + 2 \<le> len"
  shows "seekNewline (l @ CR # LF # rest) len = Some (length l)"
  using assms by (intro seekNewline_unique) (auto simp: crlf_at_def nth_append in_set_conv_nth)

lemma seekNewline_cong:
  assumes "take len s = take len s'" and "len < 2 ^ 31" and "len \<le> length s" and "len \<le> length s'"
  shows "seekNewline s len = seekNewline s' len"
proof -
  have e: "s ! i = s' ! i" if "i < len" for i by (metis assms(1) nth_take that)
  then have "crlf_at s i = crlf_at s' i" if "i + 1 < len" for i using that by (simp add: crlf_at_def)
  then show ?thesis
    using seekNewline_spec [OF assms(2), of s] seekNewline_spec [OF assms(2), of s'] 
    by (cases "seekNewline s len"; cases "seekNewline s' len")
      (auto, meson Suc_lessD less_trans_Suc linorder_neqE_nat order_less_trans)
qed

section \<open>Integers\<close>

lemma digit_char_0 [simp]: "digit_char 0 = CHR ''0''"
  by (simp add: digit_char_def char_of_eq_iff)

lemma digits_loop_spec:
  assumes "v < 2 ^ 64"
  shows "digits_loop p v =
    (let u = digits_val v (takeWhile isdigit p)
     in if u < 2 ^ 64 then Some (u, dropWhile isdigit p) else None)"
  using assms
proof (induction p arbitrary: v)
  case (Cons c p)
  show ?case
  proof (cases "isdigit c")
    case True
    have d: "digit_val c < 10" using digit_val_less [OF True] .
    let ?w = "10 * v + digit_val c"
    show ?thesis
    proof (cases "?w < 2 ^ 64")
      case w: True
      then have "\<not> ULLONG_MAX div 10 < v" "\<not> ULLONG_MAX - digit_val c < 10 * v"
        using d by (auto simp: ULLONG_MAX_def)
      with w d True Cons.IH [OF w] show ?thesis
        by (simp add: digits_val_Cons mult.commute Let_def)
    next
      case False
      then have "ULLONG_MAX div 10 < v \<or> (v * 10 < 2 ^ 64 \<and> ULLONG_MAX - digit_val c < v * 10)"
        using d by (auto simp: ULLONG_MAX_def)
      with True have "digits_loop (c # p) v = None" by auto
      moreover have "\<not> digits_val ?w (takeWhile isdigit p) < 2 ^ 64"
        using False digits_val_mono [of ?w "takeWhile isdigit p"] by linarith
      ultimately show ?thesis using True by (simp add: digits_val_Cons)
    qed
  qed (use Cons.prems in simp)
qed simp

text \<open>\<open>string2ll\<close> on a string whose sign, if any, has been split off.\<close>

lemma digits_loop_canonical:
  assumes "p \<noteq> []" and "isdigit (hd p)" and "hd p \<noteq> CHR ''0''"
  shows "digits_loop (tl p) (digit_val (hd p)) = Some (v, []) \<longleftrightarrow> 0 < v \<and> v < 2 ^ 64 \<and> p = dec v"
proof -
  obtain c q where p: "p = c # q" using assms(1) by (cases p) auto
  have c: "digit_val c < 10" using assms(2) p digit_val_less by simp
  have L: "digits_loop q (digit_val c) = Some (v, []) \<longleftrightarrow>
      (\<forall>x \<in> set q. isdigit x) \<and> v = digits_val 0 p \<and> v < 2 ^ 64"
    using c by (auto simp: digits_loop_spec Let_def p digits_val_Cons dropWhile_eq_Nil_conv
        takeWhile_eq_all_conv [THEN iffD2] split: if_splits)
  show ?thesis
  proof
    assume l: "digits_loop (tl p) (digit_val (hd p)) = Some (v, [])"
    then have a: "\<forall>x \<in> set p. isdigit x" "v = digits_val 0 p" "v < 2 ^ 64"
      using L assms(2) p by auto
    with dec_digits_val [OF assms(1) a(1) assms(3)] digits_val_pos [OF assms(1) a(1) assms(3)]
    show "0 < v \<and> v < 2 ^ 64 \<and> p = dec v" by simp
  next
    assume r: "0 < v \<and> v < 2 ^ 64 \<and> p = dec v"
    then have "\<forall>x \<in> set q. isdigit x" using dec_isdigit p by (metis list.set_intros(2))
    moreover have "v = digits_val 0 p" using r by simp
    ultimately have "digits_loop q (digit_val c) = Some (v, [])" using L r by blast
    then show "digits_loop (tl p) (digit_val (hd p)) = Some (v, [])" by (simp add: p)
  qed
qed

lemma dec_eq_zero: "dec n = ''0'' \<longleftrightarrow> n = 0"
  by (metis dec_small digits_val_dec digit_char_0 zero_less_numeral)

lemma hd_dec: "isdigit (hd (dec n))"
  by (rule dec_isdigit [OF hd_in_set [OF dec_nonempty]])

lemma string2ll_unsigned:
  assumes "p \<noteq> []" and "hd p \<noteq> CHR ''-''"
  shows "string2ll p = Some v \<longleftrightarrow> 0 \<le> v \<and> v \<le> LLONG_MAX \<and> p = dec (nat v)"
proof (cases "p = ''0''")
  case True
  then show ?thesis using dec_eq_zero [of "nat v"] by (auto simp: string2ll_def LLONG_MAX_def)
next
  case False
  then have n0: "\<not> (length p = 1 \<and> p ! 0 = CHR ''0'')"
    by (metis One_nat_def length_0_conv length_Suc_conv nth_Cons_0)
  show ?thesis
  proof (cases "isdigit (hd p) \<and> hd p \<noteq> CHR ''0''")
    case True
    have "string2ll p = Some v \<longleftrightarrow> (\<exists>u. digits_loop (tl p) (digit_val (hd p)) = Some (u, [])
        \<and> int u \<le> LLONG_MAX \<and> v = int u)"
      using assms True n0 by (auto simp: string2ll_def hd_conv_nth split: option.splits if_splits)
    also have "\<dots> \<longleftrightarrow> (\<exists>u. 0 < u \<and> u < 2 ^ 64 \<and> p = dec u \<and> int u \<le> LLONG_MAX \<and> v = int u)"
      using digits_loop_canonical [OF assms(1)] True by simp
    also have "\<dots> \<longleftrightarrow> 0 \<le> v \<and> v \<le> LLONG_MAX \<and> p = dec (nat v)"
      using dec_eq_zero [of "nat v"] False by (auto simp: LLONG_MAX_def intro!: exI [of _ "nat v"])
    finally show ?thesis .
  next
    case no: False
    have "string2ll p = None" using assms no n0 by (auto simp: string2ll_def hd_conv_nth Let_def)
    moreover have "p \<noteq> dec (nat v)" using no hd_dec hd_dec_pos [of "nat v"] dec_eq_zero [of "nat v"] False
      by (metis gr0I)
    ultimately show ?thesis by simp
  qed
qed

lemma string2ll_negative:
  "string2ll (CHR ''-'' # p) = Some v \<longleftrightarrow> v < 0 \<and> LLONG_MIN \<le> v \<and> p = dec (nat (- v))"
proof (cases "p \<noteq> [] \<and> isdigit (hd p) \<and> hd p \<noteq> CHR ''0''")
  case True
  have m: "nat (- (LLONG_MIN + 1)) + 1 = 2 ^ 63" by (simp add: LLONG_MIN_def)
  have e: "string2ll (CHR ''-'' # p) =
      (case digits_loop (tl p) (digit_val (hd p)) of None \<Rightarrow> None
       | Some (u, rest) \<Rightarrow> if rest \<noteq> [] then None
           else if 2 ^ 63 < u then None else Some (sbits 64 (- int u)))"
    unfolding string2ll_def m Let_def using True
    by (cases p) (simp_all split: option.split)
  note c = digits_loop_canonical [OF conjunct1 [OF True] conjunct1 [OF conjunct2 [OF True]]
      conjunct2 [OF conjunct2 [OF True]]]
  have s: "sbits 64 (- int u) = - int u" if "u \<le> 2 ^ 63" for u using that by simp
  have "string2ll (CHR ''-'' # p) = Some v \<longleftrightarrow> (\<exists>u. digits_loop (tl p) (digit_val (hd p)) = Some (u, [])
      \<and> u \<le> 2 ^ 63 \<and> v = - int u)"
    unfolding e by (simp add: s not_less split: option.split prod.split) (metis s)
  also have "\<dots> \<longleftrightarrow> (\<exists>u. 0 < u \<and> p = dec u \<and> u \<le> 2 ^ 63 \<and> v = - int u)"
    unfolding c by (intro ex_cong1) (rule iffI; elim conjE; intro conjI; (assumption | simp))
  also have "\<dots> \<longleftrightarrow> v < 0 \<and> LLONG_MIN \<le> v \<and> p = dec (nat (- v))"
    by (auto simp: LLONG_MIN_def intro!: exI [of _ "nat (- v)"])
  finally show ?thesis .
next
  case False
  have "string2ll (CHR ''-'' # p) = None"
    using False by (auto simp: string2ll_def hd_conv_nth Let_def)
  moreover have "p \<noteq> dec (nat (- v)) \<or> \<not> v < 0"
    using False hd_dec [of "nat (- v)"] hd_dec_pos [of "nat (- v)"] by auto
  ultimately show ?thesis by auto
qed

lemma string2ll_iff:
  "string2ll s = Some v \<longleftrightarrow> LLONG_MIN \<le> v \<and> v \<le> LLONG_MAX \<and> s = dec_int v"
proof (cases s)
  case Nil
  then show ?thesis using dec_nonempty [of "nat v", symmetric] by (simp add: string2ll_def dec_int_def)
next
  case (Cons c p)
  have nd: "hd (dec n) \<noteq> CHR ''-''" for n using hd_dec [of n] by (auto simp: isdigit_def byte_code_def)
  show ?thesis
  proof (cases "c = CHR ''-''")
    case True
    then show ?thesis using string2ll_negative [of p v] nd [of "nat v"]
      by (auto simp: Cons dec_int_def LLONG_MAX_def dest: arg_cong [of _ _ hd])
  next
    case False
    then show ?thesis using string2ll_unsigned [of s v]
      by (auto simp: Cons dec_int_def LLONG_MIN_def)
  qed
qed

lemma dec_int_no_CR: "CR \<notin> set (dec_int v)"
  using dec_isdigit digit_not_CR by (auto simp: dec_int_def)

lemma sbits_le_0: "sbits 32 x \<le> 0 \<longleftrightarrow> (x + 2 ^ 31) mod 2 ^ 32 \<le> 2147483648"
  by (simp add: sbits_def)

section \<open>Properties\<close>

text \<open>C28: \<open>string2ll\<close> is strict and exact: it accepts a byte string with value \<open>v\<close> if and only if the
  string is the canonical decimal numeral of \<open>v\<close> (no sign \<open>+\<close>, no blanks, no leading zeros, no
  \<open>-0\<close>) and \<open>v\<close> fits a \<open>long long\<close>, the most negative value included; every overflow is refused.\<close>

theorem string2ll_exact:
  "string2ll s = Some v \<longleftrightarrow> LLONG_MIN \<le> v \<and> v \<le> LLONG_MAX \<and> s = dec_int v"
  by (rule string2ll_iff)

text \<open>On a buffer of fewer than \<open>2^31\<close> bytes \<open>seekNewline\<close> returns the first position at which a CR
  is directly followed by a LF with both bytes inside the searched length, and NULL only when
  there is none.\<close>

theorem seekNewline_first:
  assumes "len < 2 ^ 31"
  shows "case seekNewline s len of
      None \<Rightarrow> \<forall>j. j + 1 < len \<longrightarrow> \<not> crlf_at s j
    | Some q \<Rightarrow> q + 1 < len \<and> crlf_at s q \<and> (\<forall>j < q. \<not> crlf_at s j)"
  using assms by (rule seekNewline_spec)

theorem seekNewline_first_witness:
  "case seekNewline [CHR ''a'', CR, CR, LF, CR, LF] 6 of
      None \<Rightarrow> \<forall>j. j + 1 < (6::nat) \<longrightarrow> \<not> crlf_at [CHR ''a'', CR, CR, LF, CR, LF] j
    | Some q \<Rightarrow> q = 2"
  using seekNewline_first [of 6 "[CHR ''a'', CR, CR, LF, CR, LF]"]
  by (simp add: seekNewline_def usub_def seek_loop.simps seek_cr.simps)

text \<open>C32: The search works on an \<open>int\<close>: for a buffer length that is a multiple of \<open>2^32\<close> plus one (and
  likewise for every length whose low 32 bits are at least \<open>2^31 + 1\<close>) it looks at no byte at
  all and reports that there is no line end.\<close>

theorem seekNewline_truncates:
  assumes "2 ^ 31 < len mod 2 ^ 32 \<or> len mod 2 ^ 32 \<le> 1" and "1 \<le> len" and "len < 2 ^ 64"
  shows "seekNewline s len = None"
proof -
  have "usub 64 len 1 = len - 1" using assms(2,3) by (simp add: usub_id)
  moreover have "sbits 32 (int (len - 1)) \<le> 0"
  proof -
    obtain k m where len: "len = 4294967296 * k + m" and m: "m < 4294967296" "2147483648 < m \<or> m \<le> 1"
      using assms(1) that [of "len div 2 ^ 32" "len mod 2 ^ 32"] by auto
    show ?thesis
    proof (cases "m = 0")
      case True
      then have e: "int (len - 1) + 2 ^ 31 = 2147483647 + 4294967296 * int k"
        using assms(2) by (simp add: len of_nat_diff)
      moreover have "(2147483647 + 4294967296 * int k) mod 2 ^ 32 \<le> 2147483648" by simp
      ultimately show ?thesis unfolding sbits_le_0 e by simp
    next
      case False
      then have e: "int (len - 1) + 2 ^ 31 = (int m + 2147483647) + 4294967296 * int k"
        using assms(2) by (simp add: len of_nat_diff)
      moreover have "(int m + 2147483647) mod 4294967296 \<le> 2147483648"
      proof (cases "m \<le> 1")
        case False
        have "(int m + 2147483647) mod 4294967296 = (int m + 2147483647 - 4294967296) mod 4294967296"
          by (rule minus_mod_self2 [symmetric])
        also have "\<dots> = int m + 2147483647 - 4294967296"
          using m False by (intro mod_pos_pos_trivial) auto
        finally show ?thesis using m by linarith
      qed (use False in simp)
      ultimately show ?thesis unfolding sbits_le_0 e by simp
    qed
  qed
  ultimately show ?thesis by (simp add: seekNewline_def seek_loop.simps)
qed

theorem seekNewline_truncates_witness: "seekNewline [CR, LF] (2 ^ 32 + 1) = None"
  using seekNewline_truncates [of "2 ^ 32 + 1" "[CR, LF]"] by simp

end
