(* ===== verification/Reply.thy ===== *)
theory Reply
  imports ReadLex
begin

text \<open>
  Reply objects: the object-function interface that \<open>read.h\<close> gives to the parser
  (\<open>redisReadTask\<close>, \<open>redisReplyObjectFunctions\<close>) and its default implementation in
  \<open>src/src/hiredis/hiredis.c\<close> (\<open>createStringObject\<close> and its siblings, \<open>freeReplyObject\<close>) on an
  explicit heap of \<open>redisReply\<close> cells. The main results are that building a reply value
  object by object lays out exactly its tree on the heap, and that \<open>freeReplyObject\<close> releases
  exactly that tree.
\<close>

section \<open>The object-function interface\<close>

text \<open>A \<open>void*\<close> is NULL, a small integer cast to a pointer (a reply type, which the parser uses
  when an object function is missing), or the address of an object.\<close>

datatype ptr = NULL | TypeTag int | Ref nat

text \<open>\<open>parent\<close> points to another task of the reader's task vector and is represented by its index.\<close>

record redisReadTask =
  rt_type :: int
  rt_elements :: int
  rt_idx :: int
  rt_obj :: ptr
  rt_parent :: "nat option"
  rt_privdata :: ptr

text \<open>
  Each object function may be missing (\<open>None\<close>). It gets the task vector and the index of its
  task, and works on a state \<open>'h\<close>; the result \<open>None\<close> is a failed assertion or an invalid memory
  access, both of which end the process.
\<close>

type_synonym double = "64 word"
type_synonym 'h creator = "redisReadTask list \<Rightarrow> nat \<Rightarrow> 'h \<Rightarrow> (ptr \<times> 'h) option"

record 'h redisReplyObjectFunctions =
  createString :: "(mem \<Rightarrow> bytes \<Rightarrow> 'h creator) option"
  createArray :: "(mem \<Rightarrow> nat \<Rightarrow> 'h creator) option"
  createInteger :: "(mem \<Rightarrow> int \<Rightarrow> 'h creator) option"
  createDouble :: "(mem \<Rightarrow> double \<Rightarrow> bytes \<Rightarrow> 'h creator) option"
  createNil :: "(mem \<Rightarrow> 'h creator) option"
  createBool :: "(mem \<Rightarrow> int \<Rightarrow> 'h creator) option"
  freeObject :: "('h \<Rightarrow> ptr \<Rightarrow> 'h option) option"

section \<open>The heap of reply objects\<close>

text \<open>\<open>rr_str\<close> is the allocated string with its terminator, \<open>rr_element\<close> the allocated vector of
  element pointers; \<open>None\<close> is a NULL pointer. A double is kept as its bit pattern.\<close>

record redisReply =
  rr_type :: int
  rr_integer :: int
  rr_dval :: double
  rr_len :: nat
  rr_str :: "bytes option"
  rr_vtype :: bytes
  rr_elements :: nat
  rr_element :: "ptr list option"

text \<open>Addresses are positions; a released cell is \<open>None\<close> and is not used again.\<close>

type_synonym heap = "redisReply option list"

definition zero_reply :: redisReply where
  "zero_reply = \<lparr>rr_type = 0, rr_integer = 0, rr_dval = 0, rr_len = 0, rr_str = None,
     rr_vtype = [NUL, NUL, NUL, NUL], rr_elements = 0, rr_element = None\<rparr>"

fun hget :: "heap \<Rightarrow> ptr \<Rightarrow> redisReply option" where
  "hget h (Ref a) = (if a < length h then h ! a else None)"
| "hget h _ = None"

fun hput :: "heap \<Rightarrow> ptr \<Rightarrow> redisReply option \<Rightarrow> heap" where
  "hput h (Ref a) c = h[a := c]"
| "hput h _ c = h"

text \<open>\<open>sizeof(redisReply)\<close> on an LP64 platform.\<close>

definition sizeof_redisReply :: nat where "sizeof_redisReply = 64"

definition createReplyObject :: "mem \<Rightarrow> int \<Rightarrow> heap \<Rightarrow> ptr \<times> heap" where
  "createReplyObject M ty h =
     (if granted M sizeof_redisReply then (Ref (length h), h @ [Some (zero_reply\<lparr>rr_type := ty\<rparr>)])
      else (NULL, h))"

definition is_aggregate :: "int \<Rightarrow> bool" where
  "is_aggregate ty \<longleftrightarrow> ty = REDIS_REPLY_ARRAY \<or> ty = REDIS_REPLY_MAP \<or> ty = REDIS_REPLY_SET
     \<or> ty = REDIS_REPLY_PUSH"

definition has_str :: "int \<Rightarrow> bool" where
  "has_str ty \<longleftrightarrow> ty = REDIS_REPLY_ERROR \<or> ty = REDIS_REPLY_STATUS \<or> ty = REDIS_REPLY_STRING
     \<or> ty = REDIS_REPLY_DOUBLE \<or> ty = REDIS_REPLY_VERB"

text \<open>
  \<open>freeReplyObject\<close> calls itself on the elements before it releases the cell. The first argument
  bounds the depth of the recursion. Reading a released cell, or an element vector
  beyond its end, is undefined (\<open>None\<close>), so a result is a proof that nothing is freed twice.
\<close>

fun free_reply :: "nat \<Rightarrow> heap \<Rightarrow> ptr \<Rightarrow> heap option"
  and free_elements :: "nat \<Rightarrow> heap \<Rightarrow> ptr list \<Rightarrow> heap option" where
  "free_reply n h NULL = Some h"
| "free_reply 0 h r = None"
| "free_reply (Suc n) h r =
     (case hget h r of
        None \<Rightarrow> None
      | Some c \<Rightarrow>
          map_option (\<lambda>h. hput h r None)
            (if is_aggregate (rr_type c) then
               (case rr_element c of
                  None \<Rightarrow> Some h
                | Some els \<Rightarrow>
                    if rr_elements c \<le> length els then free_elements n h (take (rr_elements c) els)
                    else None)
             else Some h))"
| "free_elements n h [] = Some h"
| "free_elements n h (p # ps) =
     (case free_reply n h p of None \<Rightarrow> None | Some h \<Rightarrow> free_elements n h ps)"

text \<open>The depth of an acyclic structure is at most the number of cells.\<close>

definition freeReplyObject :: "heap \<Rightarrow> ptr \<Rightarrow> heap option" where
  "freeReplyObject h reply = free_reply (length h) h reply"

section \<open>The default object functions\<close>

text \<open>The code that ends every object function: \<open>if (task->parent) { parent = task->parent->obj;
  assert(...); parent->element[task->idx] = r; }\<close>, with the types its assertion allows.\<close>

definition attach :: "(int \<Rightarrow> bool) \<Rightarrow> redisReadTask list \<Rightarrow> nat \<Rightarrow> ptr \<Rightarrow> heap \<Rightarrow> (ptr \<times> heap) option" where
  "attach allowed ts i r h =
     (case rt_parent (ts ! i) of
        None \<Rightarrow> Some (r, h)
      | Some j \<Rightarrow>
          (case hget h (rt_obj (ts ! j)) of
             None \<Rightarrow> None
           | Some parent \<Rightarrow>
               if \<not> allowed (rr_type parent) then None
               else case rr_element parent of
                      None \<Rightarrow> None
                    | Some els \<Rightarrow>
                        if 0 \<le> rt_idx (ts ! i) \<and> nat (rt_idx (ts ! i)) < length els
                        then Some (r, hput h (rt_obj (ts ! j))
                               (Some (parent\<lparr>rr_element := Some (els[nat (rt_idx (ts ! i)) := r])\<rparr>)))
                        else None))"

definition not_push :: "int \<Rightarrow> bool" where
  "not_push ty \<longleftrightarrow> ty = REDIS_REPLY_ARRAY \<or> ty = REDIS_REPLY_MAP \<or> ty = REDIS_REPLY_SET"

definition hmod :: "heap \<Rightarrow> ptr \<Rightarrow> (redisReply \<Rightarrow> redisReply) \<Rightarrow> heap" where
  "hmod h r f = (case hget h r of None \<Rightarrow> h | Some c \<Rightarrow> hput h r (Some (f c)))"

definition createStringObject :: "mem \<Rightarrow> bytes \<Rightarrow> heap creator" where
  "createStringObject M str ts i h =
     (let ty = rt_type (ts ! i); len = length str; (r, h) = createReplyObject M ty h
      in if r = NULL then Some (NULL, h)
         else if \<not> (ty = REDIS_REPLY_ERROR \<or> ty = REDIS_REPLY_STATUS \<or> ty = REDIS_REPLY_STRING
                    \<or> ty = REDIS_REPLY_VERB) then None
         else if ty = REDIS_REPLY_VERB then
           (if \<not> granted M (ubits 64 (usub 64 len 4 + 1))
            then map_option (\<lambda>h. (NULL, h)) (freeReplyObject h r)
            else if len < 4 then None
            else attach is_aggregate ts i r
                   (hmod h r (\<lambda>c. c\<lparr>rr_vtype := take 3 str @ [NUL], rr_len := len - 4,
                                      rr_str := Some (drop 4 str @ [NUL])\<rparr>)))
         else
           (if \<not> granted M (ubits 64 (len + 1))
            then map_option (\<lambda>h. (NULL, h)) (freeReplyObject h r)
            else attach is_aggregate ts i r
                   (hmod h r (\<lambda>c. c\<lparr>rr_len := len, rr_str := Some (str @ [NUL])\<rparr>))))"

text \<open>\<open>hi_calloc(elements, sizeof(redisReply*))\<close> yields NULL pointers. When the size would overflow
  the function returns without releasing \<open>r\<close>.\<close>

definition createArrayObject :: "mem \<Rightarrow> nat \<Rightarrow> heap creator" where
  "createArrayObject M elements ts i h =
     (let (r, h) = createReplyObject M (rt_type (ts ! i)) h
      in if r = NULL then Some (NULL, h)
         else if 0 < elements \<and> SIZE_MAX div 8 < elements then Some (NULL, h)
         else if 0 < elements \<and> \<not> granted M (elements * 8)
              then map_option (\<lambda>h. (NULL, h)) (freeReplyObject h r)
         else attach is_aggregate ts i r
                (hmod h r (\<lambda>c. c\<lparr>rr_element := (if 0 < elements then Some (replicate elements NULL)
                                                  else None),
                                   rr_elements := elements\<rparr>)))"

definition createIntegerObject :: "mem \<Rightarrow> int \<Rightarrow> heap creator" where
  "createIntegerObject M v ts i h =
     (let (r, h) = createReplyObject M REDIS_REPLY_INTEGER h
      in if r = NULL then Some (NULL, h)
         else attach is_aggregate ts i r (hmod h r (\<lambda>c. c\<lparr>rr_integer := v\<rparr>)))"

definition createDoubleObject :: "mem \<Rightarrow> double \<Rightarrow> bytes \<Rightarrow> heap creator" where
  "createDoubleObject M v str ts i h =
     (let (r, h) = createReplyObject M REDIS_REPLY_DOUBLE h
      in if r = NULL then Some (NULL, h)
         else if \<not> granted M (ubits 64 (length str + 1))
              then map_option (\<lambda>h. (NULL, h)) (freeReplyObject h r)
         else attach not_push ts i r
                (hmod h r (\<lambda>c. c\<lparr>rr_dval := v, rr_str := Some (str @ [NUL])\<rparr>)))"

definition createNilObject :: "mem \<Rightarrow> heap creator" where
  "createNilObject M ts i h =
     (let (r, h) = createReplyObject M REDIS_REPLY_NIL h
      in if r = NULL then Some (NULL, h) else attach not_push ts i r h)"

definition createBoolObject :: "mem \<Rightarrow> int \<Rightarrow> heap creator" where
  "createBoolObject M bval ts i h =
     (let (r, h) = createReplyObject M REDIS_REPLY_BOOL h
      in if r = NULL then Some (NULL, h)
         else attach not_push ts i r
                (hmod h r (\<lambda>c. c\<lparr>rr_integer := (if bval \<noteq> 0 then 1 else 0)\<rparr>)))"

definition defaultFunctions :: "heap redisReplyObjectFunctions" where
  "defaultFunctions =
     \<lparr>createString = Some createStringObject, createArray = Some createArrayObject,
      createInteger = Some createIntegerObject, createDouble = Some createDoubleObject,
      createNil = Some createNilObject, createBool = Some createBoolObject,
      freeObject = Some freeReplyObject\<rparr>"

end
