(* ===== verification/Reader.thy ===== *)
theory Reader
  imports Reply Sds
begin

text \<open>
  The incremental reply parser of \<open>src/src/hiredis/read.c\<close>: the reader state of \<open>read.h\<close>, the
  stack of read tasks, the three item processors, feeding and reply extraction.
\<close>

section \<open>State\<close>

record 'h redisReader =
  rd_err :: int
  rd_errstr :: bytes
  rd_buf :: "sds option"
  rd_pos :: nat
  rd_len :: nat
  rd_maxbuf :: nat
  rd_maxelements :: int
  rd_task :: "redisReadTask list"
  rd_tasks :: nat
  rd_ridx :: int
  rd_reply :: ptr
  rd_fn :: "'h redisReplyObjectFunctions option"
  rd_privdata :: ptr

text \<open>The parser works on the reader and on the state of the object functions; \<open>None\<close> is a failed
  assertion or an invalid memory access.\<close>

type_synonym 'h rstate = "'h redisReader \<times> 'h"

text \<open>\<open>r->fn && r->fn->createX\<close>: the function if both are there.\<close>

definition fn_get ::
  "'h redisReader \<Rightarrow> ('h redisReplyObjectFunctions \<Rightarrow> 'f option) \<Rightarrow> 'f option" where
  "fn_get r sel = (case rd_fn r of None \<Rightarrow> None | Some fn \<Rightarrow> sel fn)"

text \<open>The bytes at \<open>r->buf + r->pos\<close> (with whatever the buffer holds behind the string).\<close>

definition rd_at :: "'h redisReader \<Rightarrow> bytes" where
  "rd_at r = (case rd_buf r of None \<Rightarrow> [] | Some s \<Rightarrow> drop (rd_pos r) (sds_buf s))"

definition cur_task :: "'h redisReader \<Rightarrow> redisReadTask" where
  "cur_task r = rd_task r ! nat (rd_ridx r)"

definition upd_task ::
  "'h redisReader \<Rightarrow> int \<Rightarrow> (redisReadTask \<Rightarrow> redisReadTask) \<Rightarrow> 'h redisReader" where
  "upd_task r i f = r\<lparr>rd_task := (rd_task r)[nat i := f (rd_task r ! nat i)]\<rparr>"

section \<open>Errors\<close>

definition redisReaderSetError :: "int \<Rightarrow> bytes \<Rightarrow> 'h rstate \<Rightarrow> 'h rstate option" where
  "redisReaderSetError ty str = (\<lambda>(r, h).
     case (case (if rd_reply r \<noteq> NULL then fn_get r freeObject else None) of
             None \<Rightarrow> Some (r, h)
           | Some free \<Rightarrow> map_option (\<lambda>h. (r\<lparr>rd_reply := NULL\<rparr>, h)) (free h (rd_reply r))) of
       None \<Rightarrow> None
     | Some (r, h) \<Rightarrow>
         let len = (if strlen str < 128 - 1 then strlen str else 128 - 1)
         in Some (r\<lparr>rd_buf := None, rd_pos := 0, rd_len := 0, rd_ridx := -1, rd_err := ty,
                    rd_errstr := memcpy_at (rd_errstr r) 0 (take len str @ [NUL])\<rparr>, h))"

definition SetErrorProtocolByte :: "char \<Rightarrow> 'h rstate \<Rightarrow> 'h rstate option" where
  "SetErrorProtocolByte byte rh =
     (let cbuf = snd (chrtos 8 byte);
          sbuf = snprintf_buf 128 (''Protocol error, got '' @ cstr cbuf @ '' as reply type byte'')
      in redisReaderSetError REDIS_ERR_PROTOCOL sbuf rh)"

definition SetErrorOOM :: "'h rstate \<Rightarrow> 'h rstate option" where
  "SetErrorOOM rh = redisReaderSetError REDIS_ERR_OOM ''Out of memory'' rh"

text \<open>\<open>set the error; return REDIS_ERR\<close>, \<open>return REDIS_ERR\<close> and \<open>return REDIS_OK\<close>.\<close>

definition fail_with :: "'h rstate option \<Rightarrow> (int \<times> 'h rstate) option" where
  "fail_with s = map_option (\<lambda>rh. (REDIS_ERR, rh)) s"

definition protocol_error :: "bytes \<Rightarrow> 'h rstate \<Rightarrow> (int \<times> 'h rstate) option" where
  "protocol_error msg rh = fail_with (redisReaderSetError REDIS_ERR_PROTOCOL msg rh)"

section \<open>Input\<close>

definition readBytes :: "nat \<Rightarrow> 'h redisReader \<Rightarrow> (bytes \<times> 'h redisReader) option" where
  "readBytes n r =
     (if n \<le> usub 64 (rd_len r) (rd_pos r)
      then Some (take n (rd_at r), r\<lparr>rd_pos := ubits 64 (rd_pos r + n)\<rparr>) else None)"

text \<open>The line without its CRLF; \<open>len\<close> is an \<open>int\<close>.\<close>

definition readLine :: "'h redisReader \<Rightarrow> (bytes \<times> 'h redisReader) option" where
  "readLine r =
     (case seekNewline (rd_at r) (usub 64 (rd_len r) (rd_pos r)) of
        None \<Rightarrow> None
      | Some len \<Rightarrow> Some (take len (rd_at r), r\<lparr>rd_pos := ubits 64 (rd_pos r + (len + 2))\<rparr>))"

section \<open>The task stack\<close>

text \<open>\<open>None\<close> is a failed assertion. Each round either returns or pops a task.\<close>

function moveToNextTask :: "'h redisReader \<Rightarrow> 'h redisReader option" where
  "moveToNextTask r =
     (if rd_ridx r \<ge> 0 then
        (if rd_ridx r = 0 then Some (r\<lparr>rd_ridx := -1\<rparr>)
         else
           let cur = rd_task r ! nat (rd_ridx r); prv = rd_task r ! nat (rd_ridx r - 1)
           in if \<not> is_aggregate (rt_type prv) then None
              else if rt_idx cur = rt_elements prv - 1 then moveToNextTask (r\<lparr>rd_ridx := rd_ridx r - 1\<rparr>)
              else if \<not> rt_idx cur < rt_elements prv then None
              else Some (upd_task r (rd_ridx r)
                     (\<lambda>t. t\<lparr>rt_type := -1, rt_elements := -1, rt_idx := sbits 32 (rt_idx t + 1)\<rparr>)))
      else Some r)"
  by pat_completeness auto
termination
  by (relation "measure (\<lambda>r. nat (rd_ridx r))") auto

declare moveToNextTask.simps [simp del]

text \<open>\<open>obj == NULL\<close> is out of memory; otherwise the object becomes the reply if its task is the root,
  and the stack moves on.\<close>

definition finish_item :: "ptr \<Rightarrow> 'h rstate \<Rightarrow> (int \<times> 'h rstate) option" where
  "finish_item obj = (\<lambda>(r, h).
     if obj = NULL then fail_with (SetErrorOOM (r, h))
     else map_option (\<lambda>r. (REDIS_OK, r, h))
            (moveToNextTask (if rd_ridx r = 0 then r\<lparr>rd_reply := obj\<rparr> else r)))"

section \<open>Items\<close>

text \<open>\<open>isnan\<close> and the infinities on bit patterns of the IEEE 754 binary64 format.\<close>

definition is_nan :: "double \<Rightarrow> bool" where
  "is_nan d \<longleftrightarrow> (let b = unat d mod 2 ^ 63 in 2047 * 2 ^ 52 < b)"

definition INFINITY :: double where "INFINITY = 0x7FF0000000000000"
definition NEG_INFINITY :: double where "NEG_INFINITY = 0xFFF0000000000000"

text \<open>
  The object for a line, or the message of the error. \<open>strtod\<close> depends on the locale of the
  process and is a parameter: the double it returns and the number of bytes up to \<open>eptr\<close>.
\<close>

type_synonym strtod_fn = "bytes \<Rightarrow> double \<times> nat"

datatype 'a item = Obj 'a | Bad bytes

definition lineDouble :: "strtod_fn \<Rightarrow> bytes \<Rightarrow> double item" where
  "lineDouble strtod p =
     (if 326 \<le> length p then Bad ''Double value is too large''
      else if strcaseeq p '',inf'' then Obj INFINITY
      else if strcaseeq p '',-inf'' then Obj NEG_INFINITY
      else let (d, e) = strtod (cstr p)
           in if cstr p = [] \<or> e < length (cstr p) \<or> is_nan d then Bad ''Bad double value''
              else Obj d)"

definition lineObject ::
  "strtod_fn \<Rightarrow> mem \<Rightarrow> bytes \<Rightarrow> 'h redisReader \<Rightarrow> 'h \<Rightarrow> (ptr \<times> 'h) option item" where
  "lineObject strtod M p r h =
     (let ty = rt_type (cur_task r); ts = rd_task r; i = nat (rd_ridx r)
      in if ty = REDIS_REPLY_INTEGER then
           (case fn_get r createInteger of
              None \<Rightarrow> Obj (Some (TypeTag REDIS_REPLY_INTEGER, h))
            | Some create \<Rightarrow>
                (case string2ll p of
                   None \<Rightarrow> Bad ''Bad integer value''
                 | Some v \<Rightarrow> Obj (create M v ts i h)))
         else if ty = REDIS_REPLY_DOUBLE then
           (case fn_get r createDouble of
              None \<Rightarrow> Obj (Some (TypeTag REDIS_REPLY_DOUBLE, h))
            | Some create \<Rightarrow>
                (case lineDouble strtod p of
                   Bad msg \<Rightarrow> Bad msg
                 | Obj d \<Rightarrow> Obj (create M d p ts i h)))
         else if ty = REDIS_REPLY_NIL then
           (case fn_get r createNil of
              None \<Rightarrow> Obj (Some (TypeTag REDIS_REPLY_NIL, h))
            | Some create \<Rightarrow> Obj (create M ts i h))
         else if ty = REDIS_REPLY_BOOL then
           (let c = (p @ [CR]) ! 0; bval = (if c = CHR ''t'' \<or> c = CHR ''T'' then 1 else 0)
            in case fn_get r createBool of
                 None \<Rightarrow> Obj (Some (TypeTag REDIS_REPLY_BOOL, h))
               | Some create \<Rightarrow> Obj (create M bval ts i h))
         else
           (case fn_get r createString of
              None \<Rightarrow> Obj (Some (TypeTag ty, h))
            | Some create \<Rightarrow> Obj (create M p ts i h)))"

definition processLineItem :: "strtod_fn \<Rightarrow> mem \<Rightarrow> 'h rstate \<Rightarrow> (int \<times> 'h rstate) option" where
  "processLineItem strtod M = (\<lambda>(r, h).
     (case readLine r of
        None \<Rightarrow> Some (REDIS_ERR, r, h)
      | Some (p, r) \<Rightarrow>
          (case lineObject strtod M p r h of
             Bad msg \<Rightarrow> protocol_error msg (r, h)
           | Obj None \<Rightarrow> None
           | Obj (Some (obj, h)) \<Rightarrow> finish_item obj (r, h))))"

text \<open>\<open>bytelen\<close> is an \<open>unsigned long\<close>, so \<open>bytelen += len+2\<close> and \<open>r->pos+bytelen\<close> wrap.\<close>

definition processBulkItem :: "mem \<Rightarrow> 'h rstate \<Rightarrow> (int \<times> 'h rstate) option" where
  "processBulkItem M = (\<lambda>(r, h).
     let cur = cur_task r; ts = rd_task r; i = nat (rd_ridx r); p = rd_at r
     in case seekNewline p (usub 64 (rd_len r) (rd_pos r)) of
          None \<Rightarrow> Some (REDIS_ERR, r, h)
        | Some s \<Rightarrow>
            let bytelen = s + 2
            in case string2ll (take s p) of
                 None \<Rightarrow> protocol_error ''Bad bulk string length'' (r, h)
               | Some len \<Rightarrow>
                   if len < -1 then protocol_error ''Bulk string length out of range'' (r, h)
                   else if len = -1 then
                     (case (case fn_get r createNil of
                              None \<Rightarrow> Some (TypeTag REDIS_REPLY_NIL, h)
                            | Some create \<Rightarrow> create M ts i h) of
                        None \<Rightarrow> None
                      | Some (obj, h) \<Rightarrow>
                          if obj = NULL then fail_with (SetErrorOOM (r, h))
                          else finish_item obj (r\<lparr>rd_pos := ubits 64 (rd_pos r + bytelen)\<rparr>, h))
                   else
                     let bytelen = ubits 64 (bytelen + nat len + 2)
                     in if ubits 64 (rd_pos r + bytelen) \<le> rd_len r then
                          (if rt_type cur = REDIS_REPLY_VERB \<and> (len < 4 \<or> p ! (s + 5) \<noteq> CHR '':'')
                           then protocol_error
                                  (''Verbatim string 4 bytes of content type are '' @
                                   ''missing or incorrectly encoded.'') (r, h)
                           else
                             (case (case fn_get r createString of
                                      None \<Rightarrow> Some (TypeTag (rt_type cur), h)
                                    | Some create \<Rightarrow> create M (take (nat len) (drop (s + 2) p)) ts i h) of
                                None \<Rightarrow> None
                              | Some (obj, h) \<Rightarrow>
                                  if obj = NULL then fail_with (SetErrorOOM (r, h))
                                  else finish_item obj (r\<lparr>rd_pos := ubits 64 (rd_pos r + bytelen)\<rparr>, h)))
                        else Some (REDIS_ERR, r, h))"

definition zero_task :: redisReadTask where
  "zero_task = \<lparr>rt_type = 0, rt_elements = 0, rt_idx = 0, rt_obj = NULL, rt_parent = None,
     rt_privdata = NULL\<rparr>"

definition sizeof_redisReadTask :: nat where "sizeof_redisReadTask = 48"

text \<open>All nine tasks have the same size, so one request decides for all of them.\<close>

definition redisReaderGrow :: "mem \<Rightarrow> 'h rstate \<Rightarrow> (int \<times> 'h rstate) option" where
  "redisReaderGrow M = (\<lambda>(r, h).
     let newlen = rd_tasks r + REDIS_READER_STACK_SIZE
     in if granted M (8 * newlen) \<and> granted M sizeof_redisReadTask
        then Some (REDIS_OK, r\<lparr>rd_task := rd_task r @ replicate REDIS_READER_STACK_SIZE zero_task,
                               rd_tasks := newlen\<rparr>, h)
        else fail_with (SetErrorOOM (r, h)))"

text \<open>What opens a container: the current task records it and a fresh task is pushed.\<close>

definition push_task :: "int \<Rightarrow> ptr \<Rightarrow> 'h redisReader \<Rightarrow> 'h redisReader" where
  "push_task elements obj r =
     (let i = rd_ridx r;
          r = upd_task r i (\<lambda>t. t\<lparr>rt_elements := elements, rt_obj := obj\<rparr>);
          r = r\<lparr>rd_ridx := i + 1\<rparr>
      in upd_task r (i + 1)
           (\<lambda>t. \<lparr>rt_type = -1, rt_elements = -1, rt_idx = 0, rt_obj = NULL, rt_parent = Some (nat i),
                 rt_privdata = rd_privdata r\<rparr>))"

text \<open>The part of an aggregate item after its line has been read.\<close>

definition aggregate_elements :: "mem \<Rightarrow> bytes \<Rightarrow> 'h rstate \<Rightarrow> (int \<times> 'h rstate) option" where
  "aggregate_elements M p = (\<lambda>(r, h).
     (case string2ll p of
        None \<Rightarrow> protocol_error ''Bad multi-bulk length'' (r, h)
      | Some elements \<Rightarrow>
          let root = (rd_ridx r = 0); cur = cur_task r; ts = rd_task r; i = nat (rd_ridx r)
          in if elements < -1 \<or> (0 < rd_maxelements r \<and> rd_maxelements r < elements)
             then protocol_error ''Multi-bulk length out of range'' (r, h)
             else if elements = -1 then
               (case (case fn_get r createNil of
                        None \<Rightarrow> Some (TypeTag REDIS_REPLY_NIL, h)
                      | Some create \<Rightarrow> create M ts i h) of
                  None \<Rightarrow> None
                | Some (obj, h) \<Rightarrow>
                    if obj = NULL then fail_with (SetErrorOOM (r, h))
                    else map_option (\<lambda>r. (REDIS_OK, if root then r\<lparr>rd_reply := obj\<rparr> else r, h))
                           (moveToNextTask r))
             else
               let elements = (if rt_type cur = REDIS_REPLY_MAP then sbits 64 (elements * 2)
                               else elements)
               in (case (case fn_get r createArray of
                           None \<Rightarrow> Some (TypeTag (rt_type cur), h)
                         | Some create \<Rightarrow> create M (nat (elements mod 2 ^ 64)) ts i h) of
                     None \<Rightarrow> None
                   | Some (obj, h) \<Rightarrow>
                       if obj = NULL then fail_with (SetErrorOOM (r, h))
                       else map_option (\<lambda>r. (REDIS_OK, if root then r\<lparr>rd_reply := obj\<rparr> else r, h))
                              (if 0 < elements then Some (push_task elements obj r)
                               else moveToNextTask r))))"

definition processAggregateItem :: "mem \<Rightarrow> 'h rstate \<Rightarrow> (int \<times> 'h rstate) option" where
  "processAggregateItem M = (\<lambda>(r, h).
     (case (if rd_ridx r = int (rd_tasks r) - 1 then redisReaderGrow M (r, h)
            else Some (REDIS_OK, r, h)) of
        None \<Rightarrow> None
      | Some (st, r, h) \<Rightarrow>
          if st = REDIS_ERR then Some (REDIS_ERR, r, h)
          else case readLine r of
                 None \<Rightarrow> Some (REDIS_ERR, r, h)
               | Some (p, r) \<Rightarrow> aggregate_elements M p (r, h)))"

text \<open>The reply type of a type byte.\<close>

definition reply_type :: "char \<Rightarrow> int option" where
  "reply_type c =
     (if c = CHR ''-'' then Some REDIS_REPLY_ERROR
      else if c = CHR ''+'' then Some REDIS_REPLY_STATUS
      else if c = CHR '':'' then Some REDIS_REPLY_INTEGER
      else if c = CHR '','' then Some REDIS_REPLY_DOUBLE
      else if c = CHR ''_'' then Some REDIS_REPLY_NIL
      else if c = CHR ''$'' then Some REDIS_REPLY_STRING
      else if c = CHR ''*'' then Some REDIS_REPLY_ARRAY
      else if c = CHR ''%'' then Some REDIS_REPLY_MAP
      else if c = CHR ''~'' then Some REDIS_REPLY_SET
      else if c = CHR ''#'' then Some REDIS_REPLY_BOOL
      else if c = CHR ''='' then Some REDIS_REPLY_VERB
      else if c = CHR ''>'' then Some REDIS_REPLY_PUSH
      else None)"

definition is_line_type :: "int \<Rightarrow> bool" where
  "is_line_type ty \<longleftrightarrow> ty = REDIS_REPLY_ERROR \<or> ty = REDIS_REPLY_STATUS \<or> ty = REDIS_REPLY_INTEGER
     \<or> ty = REDIS_REPLY_DOUBLE \<or> ty = REDIS_REPLY_NIL \<or> ty = REDIS_REPLY_BOOL"

definition is_bulk_type :: "int \<Rightarrow> bool" where
  "is_bulk_type ty \<longleftrightarrow> ty = REDIS_REPLY_STRING \<or> ty = REDIS_REPLY_VERB"

definition processTyped :: "strtod_fn \<Rightarrow> mem \<Rightarrow> 'h rstate \<Rightarrow> (int \<times> 'h rstate) option" where
  "processTyped strtod M rh =
     (let ty = rt_type (cur_task (fst rh))
      in if is_line_type ty then processLineItem strtod M rh
         else if is_bulk_type ty then processBulkItem M rh
         else if is_aggregate ty then processAggregateItem M rh
         else None)"

definition processItem :: "strtod_fn \<Rightarrow> mem \<Rightarrow> 'h rstate \<Rightarrow> (int \<times> 'h rstate) option" where
  "processItem strtod M = (\<lambda>(r, h).
     if rt_type (cur_task r) < 0 then
       (case readBytes 1 r of
          None \<Rightarrow> Some (REDIS_ERR, r, h)
        | Some (p, r) \<Rightarrow>
            (case reply_type (p ! 0) of
               None \<Rightarrow> fail_with (SetErrorProtocolByte (p ! 0) (r, h))
             | Some ty \<Rightarrow>
                 processTyped strtod M (upd_task r (rd_ridx r) (\<lambda>t. t\<lparr>rt_type := ty\<rparr>), h)))
     else processTyped strtod M (r, h))"

section \<open>The public interface\<close>

definition sizeof_redisReader :: nat where "sizeof_redisReader = 216"

definition redisReaderCreateWithFunctions ::
  "mem \<Rightarrow> 'h redisReplyObjectFunctions option \<Rightarrow> 'h redisReader option" where
  "redisReaderCreateWithFunctions M fn =
     (if \<not> granted M sizeof_redisReader then None
      else case sdsempty M of
             None \<Rightarrow> None
           | Some buf \<Rightarrow>
               if \<not> granted M (REDIS_READER_STACK_SIZE * 8) then None
               else if \<not> granted M sizeof_redisReadTask then None
               else Some \<lparr>rd_err = 0, rd_errstr = replicate 128 NUL, rd_buf = Some buf, rd_pos = 0,
                      rd_len = 0, rd_maxbuf = REDIS_READER_MAX_BUF,
                      rd_maxelements = REDIS_READER_MAX_ARRAY_ELEMENTS,
                      rd_task = replicate REDIS_READER_STACK_SIZE zero_task,
                      rd_tasks = REDIS_READER_STACK_SIZE, rd_ridx = -1, rd_reply = NULL, rd_fn = fn,
                      rd_privdata = NULL\<rparr>)"

text \<open>What \<open>redisReaderFree\<close> does to the object state; the reader itself is gone.\<close>

definition redisReaderFree :: "'h rstate \<Rightarrow> 'h option" where
  "redisReaderFree = (\<lambda>(r, h).
     case (if rd_reply r \<noteq> NULL then fn_get r freeObject else None) of
       None \<Rightarrow> Some h
     | Some free \<Rightarrow> free h (rd_reply r))"

definition redisReaderFeed :: "mem \<Rightarrow> bytes \<Rightarrow> 'h rstate \<Rightarrow> (int \<times> 'h rstate) option" where
  "redisReaderFeed M buf = (\<lambda>(r, h).
     if rd_err r \<noteq> 0 then Some (REDIS_ERR, r, h)
     else if 1 \<le> length buf then
       (case rd_buf r of
          None \<Rightarrow> None
        | Some s \<Rightarrow>
            let discard = (rd_len r = 0 \<and> rd_maxbuf r \<noteq> 0 \<and> rd_maxbuf r < sdsavail s)
            in case (if discard then sdsempty M else Some s) of
                 None \<Rightarrow> fail_with (SetErrorOOM (r\<lparr>rd_buf := None\<rparr>, h))
               | Some s \<Rightarrow>
                   let r = (if discard then r\<lparr>rd_buf := Some s, rd_pos := 0\<rparr> else r)
                   in case sdscatlen M s buf of
                        None \<Rightarrow> fail_with (SetErrorOOM (r, h))
                      | Some newbuf \<Rightarrow>
                          Some (REDIS_OK, r\<lparr>rd_buf := Some newbuf, rd_len := sdslen newbuf\<rparr>, h))
     else Some (REDIS_OK, r, h))"

text \<open>The loop \<open>while (r->ridx >= 0) if (processItem(r) != REDIS_OK) break;\<close> with a bound on the
  number of rounds. The allocator may behave differently in every round.\<close>

fun process_loop ::
  "strtod_fn \<Rightarrow> (nat \<Rightarrow> mem) \<Rightarrow> nat \<Rightarrow> 'h rstate \<Rightarrow> 'h rstate option" where
  "process_loop strtod Ms 0 rh = None"
| "process_loop strtod Ms (Suc n) rh =
     (if rd_ridx (fst rh) \<ge> 0 then
        (case processItem strtod (Ms 0) rh of
           None \<Rightarrow> None
         | Some (st, rh) \<Rightarrow>
             if st \<noteq> REDIS_OK then Some rh else process_loop strtod (\<lambda>i. Ms (Suc i)) n rh)
      else Some rh)"

text \<open>The root task is set up when the stack is empty.\<close>

definition start_task :: "'h redisReader \<Rightarrow> 'h redisReader" where
  "start_task r =
     (if rd_ridx r = -1 then
        (upd_task r 0 (\<lambda>t. \<lparr>rt_type = -1, rt_elements = -1, rt_idx = -1, rt_obj = NULL,
           rt_parent = None, rt_privdata = rd_privdata r\<rparr>))\<lparr>rd_ridx := 0\<rparr>
      else r)"

text \<open>What follows the loop: drop the consumed part of the buffer once it is at least 1k. The
  status is \<open>REDIS_ERR\<close> when \<open>sdsrange\<close> refuses.\<close>

definition discard_consumed :: "'h redisReader \<Rightarrow> (int \<times> 'h redisReader) option" where
  "discard_consumed r =
     (if rd_pos r \<ge> 1024 then
        (case rd_buf r of
           None \<Rightarrow> None
         | Some s \<Rightarrow>
             (case sdsrange s (sbits 64 (int (rd_pos r))) (-1) of
                (rc, s) \<Rightarrow>
                  if rc < 0 then Some (REDIS_ERR, r\<lparr>rd_buf := Some s\<rparr>)
                  else Some (REDIS_OK, r\<lparr>rd_buf := Some s, rd_pos := 0, rd_len := sdslen s\<rparr>)))
      else Some (REDIS_OK, r))"

text \<open>\<open>want\<close> says whether the caller passed a pointer for the reply; the result is the status, the
  value stored through that pointer, and the state. Every round consumes at least one byte, so
  \<open>len + 1\<close> rounds are enough.\<close>

definition redisReaderGetReply ::
  "strtod_fn \<Rightarrow> (nat \<Rightarrow> mem) \<Rightarrow> bool \<Rightarrow> 'h rstate \<Rightarrow> (int \<times> ptr \<times> 'h rstate) option" where
  "redisReaderGetReply strtod Ms want = (\<lambda>(r, h).
     if rd_err r \<noteq> 0 then Some (REDIS_ERR, NULL, r, h)
     else if rd_len r = 0 then Some (REDIS_OK, NULL, r, h)
     else
       (case process_loop strtod Ms (rd_len r + 1) (start_task r, h) of
          None \<Rightarrow> None
        | Some (r, h) \<Rightarrow>
            if rd_err r \<noteq> 0 then Some (REDIS_ERR, NULL, r, h)
            else case discard_consumed r of
                   None \<Rightarrow> None
                 | Some (st, r) \<Rightarrow>
                     if st = REDIS_ERR then Some (REDIS_ERR, NULL, r, h)
                     else if rd_ridx r = -1 then
                       (if want then Some (REDIS_OK, rd_reply r, r\<lparr>rd_reply := NULL\<rparr>, h)
                        else case (if rd_reply r \<noteq> NULL then fn_get r freeObject else None) of
                               None \<Rightarrow> Some (REDIS_OK, NULL, r\<lparr>rd_reply := NULL\<rparr>, h)
                             | Some free \<Rightarrow>
                                 map_option (\<lambda>h. (REDIS_OK, NULL, r\<lparr>rd_reply := NULL\<rparr>, h))
                                   (free h (rd_reply r)))
                     else Some (REDIS_OK, NULL, r, h)))"

end
