(* ===== verification/ReaderSpec.thy ===== *)
theory ReaderSpec
  imports Reader
begin

text \<open>
  A reference parser for the reader of \<^theory_text>\<open>Reader\<close>: it works on the list of unread bytes instead
  of a buffer with a cursor. The reader refines it, so the properties of the parser (progress,
  resumption after a partial message, error states) are proved on the reference and carried
  over.
\<close>

section \<open>The reference parser\<close>

text \<open>The first line of the unread bytes and what follows its CRLF.\<close>

fun find_line :: "bytes \<Rightarrow> (bytes \<times> bytes) option" where
  "find_line [] = None"
| "find_line (c # u) =
     (if c = CR \<and> u \<noteq> [] \<and> hd u = LF then Some ([], tl u)
      else map_option (\<lambda>(l, v). (c # l, v)) (find_line u))"

text \<open>The bytes of a reader that are not consumed yet, and a reader without its buffer.\<close>

definition unread :: "'h redisReader \<Rightarrow> bytes" where
  "unread r = (case rd_buf r of None \<Rightarrow> [] | Some s \<Rightarrow> drop (rd_pos r) (sdsval s))"

definition erase :: "'h redisReader \<Rightarrow> 'h redisReader" where
  "erase r = r\<lparr>rd_buf := None, rd_pos := 0, rd_len := 0\<rparr>"

type_synonym 'h pstate = "bytes \<times> 'h rstate"

definition pabs :: "'h rstate \<Rightarrow> 'h pstate" where
  "pabs = (\<lambda>(r, h). (unread r, erase r, h))"

text \<open>After an error nothing is left to read.\<close>

definition left :: "bytes \<Rightarrow> (int \<times> 'h rstate) option \<Rightarrow> (int \<times> 'h pstate) option" where
  "left u x = map_option (\<lambda>(st, r, h). (st, if rd_err r = 0 then u else [], r, h)) x"

definition pline :: "strtod_fn \<Rightarrow> mem \<Rightarrow> 'h pstate \<Rightarrow> (int \<times> 'h pstate) option" where
  "pline strtod M = (\<lambda>(u, r, h).
     (case find_line u of
        None \<Rightarrow> Some (REDIS_ERR, u, r, h)
      | Some (p, u') \<Rightarrow>
          left u' (case lineObject strtod M p r h of
                     Bad msg \<Rightarrow> protocol_error msg (r, h)
                   | Obj None \<Rightarrow> None
                   | Obj (Some (obj, h)) \<Rightarrow> finish_item obj (r, h))))"

definition pbulk :: "mem \<Rightarrow> 'h pstate \<Rightarrow> (int \<times> 'h pstate) option" where
  "pbulk M = (\<lambda>(u, r, h).
     (case find_line u of
        None \<Rightarrow> Some (REDIS_ERR, u, r, h)
      | Some (p, u') \<Rightarrow>
          (case string2ll p of
             None \<Rightarrow> left [] (protocol_error ''Bad bulk string length'' (r, h))
           | Some len \<Rightarrow>
               let ts = rd_task r; i = nat (rd_ridx r)
               in if len < -1 then left [] (protocol_error ''Bulk string length out of range'' (r, h))
                  else if len = -1 then
                    (case (case fn_get r createNil of
                             None \<Rightarrow> Some (TypeTag REDIS_REPLY_NIL, h)
                           | Some create \<Rightarrow> create M ts i h) of
                       None \<Rightarrow> None
                     | Some (obj, h) \<Rightarrow> left u' (finish_item obj (r, h)))
                  else if length u' < nat len + 2 then Some (REDIS_ERR, u, r, h)
                  else if rt_type (cur_task r) = REDIS_REPLY_VERB \<and> (len < 4 \<or> u' ! 3 \<noteq> CHR '':'')
                  then left [] (protocol_error
                                  (''Verbatim string 4 bytes of content type are '' @
                                   ''missing or incorrectly encoded.'') (r, h))
                  else
                    (case (case fn_get r createString of
                             None \<Rightarrow> Some (TypeTag (rt_type (cur_task r)), h)
                           | Some create \<Rightarrow> create M (take (nat len) u') ts i h) of
                       None \<Rightarrow> None
                     | Some (obj, h) \<Rightarrow> left (drop (nat len + 2) u') (finish_item obj (r, h))))))"

definition paggr :: "mem \<Rightarrow> 'h pstate \<Rightarrow> (int \<times> 'h pstate) option" where
  "paggr M = (\<lambda>(u, r, h).
     (case (if rd_ridx r = int (rd_tasks r) - 1 then redisReaderGrow M (r, h)
            else Some (REDIS_OK, r, h)) of
        None \<Rightarrow> None
      | Some (st, r, h) \<Rightarrow>
          if st = REDIS_ERR then left [] (Some (REDIS_ERR, r, h))
          else case find_line u of
                 None \<Rightarrow> Some (REDIS_ERR, u, r, h)
               | Some (p, u') \<Rightarrow> left u' (aggregate_elements M p (r, h))))"

definition ptyped :: "strtod_fn \<Rightarrow> mem \<Rightarrow> 'h pstate \<Rightarrow> (int \<times> 'h pstate) option" where
  "ptyped strtod M s =
     (let ty = rt_type (cur_task (fst (snd s)))
      in if is_line_type ty then pline strtod M s
         else if is_bulk_type ty then pbulk M s
         else if is_aggregate ty then paggr M s
         else None)"

definition pitem :: "strtod_fn \<Rightarrow> mem \<Rightarrow> 'h pstate \<Rightarrow> (int \<times> 'h pstate) option" where
  "pitem strtod M = (\<lambda>(u, r, h).
     if rt_type (cur_task r) < 0 then
       (case u of
          [] \<Rightarrow> Some (REDIS_ERR, u, r, h)
        | c # u' \<Rightarrow>
            (case reply_type c of
               None \<Rightarrow> left [] (fail_with (SetErrorProtocolByte c (r, h)))
             | Some ty \<Rightarrow> ptyped strtod M (u', upd_task r (rd_ridx r) (\<lambda>t. t\<lparr>rt_type := ty\<rparr>), h)))
     else ptyped strtod M (u, r, h))"

section \<open>The buffer of a reader\<close>

text \<open>The buffer invariant of an error-free reader. The bound is that of the line search.\<close>

definition buf_wf :: "'h redisReader \<Rightarrow> bool" where
  "buf_wf r \<longleftrightarrow>
     (case rd_buf r of
        None \<Rightarrow> False
      | Some s \<Rightarrow> sds_wf s \<and> rd_len r = sdslen s \<and> rd_pos r \<le> rd_len r
          \<and> rd_len r - rd_pos r < 2 ^ 31 \<and> rd_len r < 2 ^ 62)"

lemma buf_wfE:
  assumes "buf_wf r"
  obtains s where "rd_buf r = Some s" "sds_wf s" "rd_len r = sdslen s" "rd_pos r \<le> rd_len r"
    "rd_len r - rd_pos r < 2 ^ 31" "rd_len r < 2 ^ 62" "unread r = drop (rd_pos r) (sdsval s)"
    "length (unread r) = rd_len r - rd_pos r"
    "take (rd_len r - rd_pos r) (rd_at r) = unread r" "rd_len r - rd_pos r \<le> length (rd_at r)"
proof -
  from assms obtain s where s: "rd_buf r = Some s" "sds_wf s" "rd_len r = sdslen s"
    "rd_pos r \<le> rd_len r" "rd_len r - rd_pos r < 2 ^ 31" "rd_len r < 2 ^ 62"
    by (auto simp: buf_wf_def split: option.splits)
  have l: "sdslen s \<le> length (sds_buf s)" using s(2) sds_shape_len [of s] by (simp add: sds_wf_def)
  then have "length (unread r) = rd_len r - rd_pos r" "take (rd_len r - rd_pos r) (rd_at r) = unread r"
    "rd_len r - rd_pos r \<le> length (rd_at r)"
    using s by (auto simp: unread_def rd_at_def sdsval_def take_drop)
  with s that show thesis by (simp add: unread_def)
qed

lemma find_line_append: "find_line u = Some (l, v) \<Longrightarrow> u = l @ CR # LF # v"
proof (induction u arbitrary: l)
  case (Cons c u)
  then show ?case by (cases u) (auto split: if_splits)
qed simp

lemma find_line_seek:
  assumes "length u < 2 ^ 31"
  shows "find_line u = map_option (\<lambda>i. (take i u, drop (i + 2) u)) (seekNewline u (length u))"
proof (cases "find_line u")
  case None
  have "\<not> crlf_at u j" if "j + 1 < length u" for j using None that
  proof (induction u arbitrary: j)
    case (Cons c u)
    then show ?case by (cases j) (auto simp: crlf_at_def hd_conv_nth split: if_splits)
  qed simp
  with seekNewline_spec [OF assms, of u] None show ?thesis by (auto split: option.splits)
next
  case (Some lv)
  then obtain l v where lv: "find_line u = Some (l, v)" by (cases lv) auto
  note u = find_line_append [OF lv]
  have "\<forall>j < length l. \<not> crlf_at u j" using lv
  proof (induction u arbitrary: l)
    case (Cons c u)
    show ?case
    proof (intro allI impI)
      fix j assume "j < length l"
      with Cons show "\<not> crlf_at (c # u) j"
        by (cases j; cases u) (auto simp: crlf_at_def split: if_splits)
    qed
  qed simp
  then have "seekNewline u (length u) = Some (length l)"
    using assms u by (intro seekNewline_unique) (auto simp: crlf_at_def nth_append)
  with lv u show ?thesis by simp
qed

lemma usub_avail: "buf_wf r \<Longrightarrow> usub 64 (rd_len r) (rd_pos r) = length (unread r)"
  by (erule buf_wfE) (simp add: usub_id)

lemma seekNewline_reader:
  assumes "buf_wf r"
  shows "seekNewline (rd_at r) (usub 64 (rd_len r) (rd_pos r)) = seekNewline (unread r) (length (unread r))"
  unfolding usub_avail [OF assms]
  by (rule buf_wfE [OF assms], rule seekNewline_cong) simp_all

lemma take_rd_at: "buf_wf r \<Longrightarrow> n \<le> length (unread r) \<Longrightarrow> take n (rd_at r) = take n (unread r)"
  by (erule buf_wfE) (metis min.absorb1 take_take)

lemma nth_rd_at: "buf_wf r \<Longrightarrow> n < length (unread r) \<Longrightarrow> rd_at r ! n = unread r ! n"
  by (erule buf_wfE) (metis nth_take)

lemma buf_wf_advance:
  assumes "buf_wf r" and "n \<le> length (unread r)"
  shows "buf_wf (r\<lparr>rd_pos := ubits 64 (rd_pos r + n)\<rparr>)"
    and "unread (r\<lparr>rd_pos := ubits 64 (rd_pos r + n)\<rparr>) = drop n (unread r)"
proof -
  obtain s where s: "rd_buf r = Some s" "sds_wf s" "rd_len r = sdslen s" "rd_pos r \<le> rd_len r"
    "rd_len r - rd_pos r < 2 ^ 31" "rd_len r < 2 ^ 62" "unread r = drop (rd_pos r) (sdsval s)"
    "length (unread r) = rd_len r - rd_pos r" using assms(1) by (rule buf_wfE)
  have "ubits 64 (rd_pos r + n) = rd_pos r + n" using s assms(2) by simp
  with s assms(2) show "buf_wf (r\<lparr>rd_pos := ubits 64 (rd_pos r + n)\<rparr>)"
    and "unread (r\<lparr>rd_pos := ubits 64 (rd_pos r + n)\<rparr>) = drop n (unread r)"
    by (auto simp: buf_wf_def unread_def add.commute)
qed

lemma readBytes_unread:
  assumes "buf_wf r"
  shows "readBytes 1 r =
    (case unread r of [] \<Rightarrow> None | c # u \<Rightarrow> Some ([c], r\<lparr>rd_pos := ubits 64 (rd_pos r + 1)\<rparr>))"
  using take_rd_at [OF assms, of 1]
  by (cases "unread r") (simp_all add: readBytes_def usub_avail [OF assms])

lemma readLine_unread:
  assumes "buf_wf r"
  shows "readLine r =
    (case find_line (unread r) of
       None \<Rightarrow> None
     | Some (l, u) \<Rightarrow> Some (l, r\<lparr>rd_pos := ubits 64 (rd_pos r + (length l + 2))\<rparr>))"
proof -
  have b: "length (unread r) < 2 ^ 31" using assms by (rule buf_wfE) simp
  have s: "q + 1 < length (unread r)" if "seekNewline (unread r) (length (unread r)) = Some q" for q
    using seekNewline_spec [OF b, of "unread r"] that by simp
  show ?thesis
    using take_rd_at [OF assms]
    by (auto simp: readLine_def seekNewline_reader [OF assms] find_line_seek [OF b] min_def
        split: option.splits dest!: s)
qed

section \<open>Refinement\<close>

text \<open>The operations on the stack and on the error state do not look at the buffer.\<close>

abbreviation set_buf :: "sds option \<Rightarrow> nat \<Rightarrow> nat \<Rightarrow> 'h redisReader \<Rightarrow> 'h redisReader" where
  "set_buf b p l r \<equiv> r\<lparr>rd_buf := b, rd_pos := p, rd_len := l\<rparr>"

lemma moveToNextTask_set_buf:
  "moveToNextTask (set_buf b p l r) = map_option (set_buf b p l) (moveToNextTask r)"
proof (induction r rule: moveToNextTask.induct)
  case (1 r)
  have c: "(set_buf b p l r)\<lparr>rd_ridx := i\<rparr> = set_buf b p l (r\<lparr>rd_ridx := i\<rparr>)" for i by simp
  show ?case
    using 1 by (subst (1 2) moveToNextTask.simps) (simp add: Let_def upd_task_def c)
qed

lemma erase_simps [simp]:
  "rd_err (erase r) = rd_err r" "rd_task (erase r) = rd_task r" "rd_tasks (erase r) = rd_tasks r"
  "rd_ridx (erase r) = rd_ridx r" "rd_reply (erase r) = rd_reply r" "rd_fn (erase r) = rd_fn r"
  "rd_maxelements (erase r) = rd_maxelements r" "rd_privdata (erase r) = rd_privdata r"
  "rd_errstr (erase r) = rd_errstr r" "rd_maxbuf (erase r) = rd_maxbuf r"
  "fn_get (erase r) f = fn_get r f" "cur_task (erase r) = cur_task r" "erase (erase r) = erase r"
  by (simp_all add: erase_def fn_get_def cur_task_def)

lemma moveToNextTask_erase: "moveToNextTask (erase r) = map_option erase (moveToNextTask r)"
  by (simp add: erase_def [abs_def] moveToNextTask_set_buf)

lemma moveToNextTask_keeps:
  "moveToNextTask r = Some r' \<Longrightarrow>
     rd_buf r' = rd_buf r \<and> rd_pos r' = rd_pos r \<and> rd_len r' = rd_len r \<and> rd_err r' = rd_err r
     \<and> rd_tasks r' = rd_tasks r \<and> length (rd_task r') = length (rd_task r) \<and> rd_fn r' = rd_fn r
     \<and> rd_maxelements r' = rd_maxelements r \<and> rd_reply r' = rd_reply r \<and> rd_errstr r' = rd_errstr r
     \<and> rd_maxbuf r' = rd_maxbuf r \<and> rd_privdata r' = rd_privdata r"
proof (induction r rule: moveToNextTask.induct)
  case (1 r)
  note IH = "1.IH" [OF _ _ refl refl]
  show ?case
    using "1.prems" IH
    by (subst (asm) moveToNextTask.simps)
      (auto simp: Let_def upd_task_def split: if_splits)
qed

lemma unread_set: "rd_buf r' = rd_buf r \<Longrightarrow> rd_pos r' = rd_pos r \<Longrightarrow> unread r' = unread r"
  by (simp add: unread_def cong: option.case_cong)

definition pres :: "(int \<times> 'h rstate) option \<Rightarrow> (int \<times> 'h pstate) option" where
  "pres x = map_option (\<lambda>(st, s). (st, pabs s)) x"

lemma pres_simps [simp]:
  "pres None = None" "pres (Some (st, r, h)) = Some (st, unread r, erase r, h)"
  by (simp_all add: pres_def pabs_def)

lemma left_simps [simp]:
  "left u None = None" "left u (Some (st, r, h)) = Some (st, if rd_err r = 0 then u else [], r, h)"
  by (simp_all add: left_def)

lemma redisReaderSetError_cases:
  assumes "redisReaderSetError ty str (r, h) = Some (r', h')"
  shows "rd_err r' = ty \<and> rd_buf r' = None \<and> rd_pos r' = 0 \<and> rd_len r' = 0 \<and> rd_ridx r' = -1
    \<and> unread r' = [] \<and> erase r' = r' \<and> rd_task r' = rd_task r \<and> rd_tasks r' = rd_tasks r"
  using assms by (auto simp: redisReaderSetError_def unread_def erase_def Let_def split: option.splits)

lemma redisReaderSetError_erase [simp]:
  "redisReaderSetError ty str (erase r, h) = redisReaderSetError ty str (r, h)"
  by (auto simp: redisReaderSetError_def fn_get_def erase_def split: option.splits)

lemma fail_refine:
  assumes "ty \<noteq> 0"
  shows "pres (fail_with (redisReaderSetError ty str (r, h)))
    = left u (fail_with (redisReaderSetError ty str (erase r, h)))"
proof (cases "redisReaderSetError ty str (r, h)")
  case None
  then show ?thesis by (simp add: fail_with_def)
next
  case (Some rh)
  then obtain r' h' where "redisReaderSetError ty str (r, h) = Some (r', h')" by (cases rh) auto
  with redisReaderSetError_cases [OF this] assms show ?thesis by (simp add: fail_with_def)
qed

lemma SetErrorOOM_refine: "pres (fail_with (SetErrorOOM (r, h))) = left u (fail_with (SetErrorOOM (erase r, h)))"
  unfolding SetErrorOOM_def by (rule fail_refine) (simp add: REDIS_ERR_OOM_def)

lemma protocol_error_refine: "pres (protocol_error msg (r, h)) = left u (protocol_error msg (erase r, h))"
  unfolding protocol_error_def by (rule fail_refine) (simp add: REDIS_ERR_PROTOCOL_def)

lemma SetErrorProtocolByte_refine:
  "pres (fail_with (SetErrorProtocolByte c (r, h))) = left u (fail_with (SetErrorProtocolByte c (erase r, h)))"
  unfolding SetErrorProtocolByte_def Let_def by (rule fail_refine) (simp add: REDIS_ERR_PROTOCOL_def)

lemma erase_set_reply: "(erase r)\<lparr>rd_reply := p\<rparr> = erase (r\<lparr>rd_reply := p\<rparr>)"
  by (simp add: erase_def)

lemma finish_item_refine:
  assumes "rd_err r = 0"
  shows "pres (finish_item obj (r, h)) = left (unread r) (finish_item obj (erase r, h))"
proof (cases "obj = NULL")
  case True
  then show ?thesis by (simp add: finish_item_def SetErrorOOM_refine)
next
  case False
  let ?r = "if rd_ridx r = 0 then r\<lparr>rd_reply := obj\<rparr> else r"
  have e: "(if rd_ridx (erase r) = 0 then (erase r)\<lparr>rd_reply := obj\<rparr> else erase r) = erase ?r"
    by (simp add: erase_set_reply)
  have "rd_buf ?r = rd_buf r" "rd_pos ?r = rd_pos r" "rd_err ?r = 0" using assms by simp_all
  with False e show ?thesis
    by (cases "moveToNextTask ?r")
      (auto simp: finish_item_def moveToNextTask_erase dest!: moveToNextTask_keeps intro: unread_set)
qed

lemma upd_task_erase: "upd_task (erase r) i f = erase (upd_task r i f)"
  by (simp add: upd_task_def erase_def)

lemma push_task_erase: "push_task n p (erase r) = erase (push_task n p r)"
  by (simp add: push_task_def upd_task_def erase_def Let_def)

lemma push_task_keeps [simp]:
  "rd_buf (push_task n p r) = rd_buf r" "rd_pos (push_task n p r) = rd_pos r"
  "rd_err (push_task n p r) = rd_err r" "rd_len (push_task n p r) = rd_len r"
  by (simp_all add: push_task_def upd_task_def Let_def)

lemma next_refine:
  assumes "\<And>r1. x = Some r1 \<Longrightarrow> rd_buf r1 = rd_buf r \<and> rd_pos r1 = rd_pos r \<and> rd_err r1 = 0"
  shows "pres (map_option (\<lambda>r. (REDIS_OK, if root then r\<lparr>rd_reply := obj\<rparr> else r, h)) x)
    = left (unread r) (map_option (\<lambda>r. (REDIS_OK, if root then r\<lparr>rd_reply := obj\<rparr> else r, h))
        (map_option erase x))"
proof (cases x)
  case (Some r1)
  with assms [OF Some] show ?thesis by (auto simp: erase_set_reply intro: unread_set)
qed simp

lemma pres_case:
  "pres (case x of None \<Rightarrow> None | Some (obj, h) \<Rightarrow> f obj h)
    = (case x of None \<Rightarrow> None | Some (obj, h) \<Rightarrow> pres (f obj h))"
  by (auto split: option.splits prod.splits)

lemma left_case:
  "left u (case x of None \<Rightarrow> None | Some (obj, h) \<Rightarrow> f obj h)
    = (case x of None \<Rightarrow> None | Some (obj, h) \<Rightarrow> left u (f obj h))"
  by (auto split: option.splits prod.splits)

lemma aggregate_elements_refine:
  assumes "rd_err r = 0"
  shows "pres (aggregate_elements M p (r, h)) = left (unread r) (aggregate_elements M p (erase r, h))"
proof -
  have m: "rd_buf r1 = rd_buf r \<and> rd_pos r1 = rd_pos r \<and> rd_err r1 = 0"
    if "moveToNextTask r = Some r1" for r1
    using moveToNextTask_keeps [OF that] assms by simp
  have p: "rd_buf r1 = rd_buf r \<and> rd_pos r1 = rd_pos r \<and> rd_err r1 = 0"
    if "(if 0 < n then Some (push_task n obj r) else moveToNextTask r) = Some r1" for n obj r1
    using that m assms by (auto split: if_splits)
  have e: "(if 0 < n then Some (push_task n obj (erase r)) else map_option erase (moveToNextTask r))
      = map_option erase (if 0 < n then Some (push_task n obj r) else moveToNextTask r)" for n obj
    by (simp add: push_task_erase)
  show ?thesis
  proof (cases "string2ll p")
    case None
    then show ?thesis by (simp add: aggregate_elements_def protocol_error_refine [of _ r h "unread r"])
  next
    case (Some n)
    let ?F = "\<lambda>obj h r'. (REDIS_OK, if rd_ridx r = 0 then r'\<lparr>rd_reply := obj\<rparr> else r', h)"
    consider (range) "n < -1 \<or> (0 < rd_maxelements r \<and> rd_maxelements r < n)"
      | (nil) "n = -1" "\<not> (n < -1 \<or> (0 < rd_maxelements r \<and> rd_maxelements r < n))"
      | (array) "n \<noteq> -1" "\<not> (n < -1 \<or> (0 < rd_maxelements r \<and> rd_maxelements r < n))" by blast
    then show ?thesis
    proof cases
      case range
      with Some show ?thesis by (simp add: aggregate_elements_def protocol_error_refine [of _ r h "unread r"])
    next
      case nil
      have "pres (if obj = NULL then fail_with (SetErrorOOM (r, h)) else map_option (?F obj h) (moveToNextTask r))
        = left (unread r) (if obj = NULL then fail_with (SetErrorOOM (erase r, h))
             else map_option (?F obj h) (map_option erase (moveToNextTask r)))" for obj h
        using SetErrorOOM_refine [of r h "unread r"] next_refine [OF m] by simp
      moreover have nm: "(0 < i \<and> i < - 1) = False" for i :: int by auto
      ultimately show ?thesis using Some nil
        by (simp add: aggregate_elements_def Let_def moveToNextTask_erase pres_case left_case nm
            cong: option.case_cong prod.case_cong if_cong)
    next
      case array
      define k where "k = (if rt_type (cur_task r) = REDIS_REPLY_MAP then sbits 64 (n * 2) else n)"
      have "pres (if obj = NULL then fail_with (SetErrorOOM (r, h))
             else map_option (?F obj h) (if 0 < k then Some (push_task k obj r) else moveToNextTask r))
        = left (unread r) (if obj = NULL then fail_with (SetErrorOOM (erase r, h))
             else map_option (?F obj h) (if 0 < k then Some (push_task k obj (erase r))
               else map_option erase (moveToNextTask r)))" for obj h
        using SetErrorOOM_refine [of r h "unread r"] next_refine [OF p [of k obj]] e [of k obj] by simp
      with Some array show ?thesis
        by (cases "0 < rd_maxelements r")
          (simp_all add: aggregate_elements_def Let_def moveToNextTask_erase pres_case left_case
            k_def [symmetric] cong: option.case_cong prod.case_cong if_cong)
    qed
  qed
qed

lemma erase_pos [simp]: "erase (r\<lparr>rd_pos := n\<rparr>) = erase r"
  by (simp add: erase_def)

lemma lineObject_erase [simp]: "lineObject strtod M p (erase r) h = lineObject strtod M p r h"
  by (simp add: lineObject_def cong: if_cong)

lemma lineObject_pos [simp]: "lineObject strtod M p (r\<lparr>rd_pos := n\<rparr>) h = lineObject strtod M p r h"
  by (simp add: lineObject_def fn_get_def cur_task_def cong: if_cong option.case_cong)

lemma processLineItem_refine:
  assumes "buf_wf r" and "rd_err r = 0"
  shows "pres (processLineItem strtod M (r, h)) = pline strtod M (pabs (r, h))"
proof (cases "find_line (unread r)")
  case None
  then show ?thesis using assms by (simp add: processLineItem_def pline_def pabs_def readLine_unread)
next
  case (Some lu)
  then obtain l u where l: "find_line (unread r) = Some (l, u)" by (cases lu) auto
  let ?r = "r\<lparr>rd_pos := ubits 64 (rd_pos r + (length l + 2))\<rparr>"
  have "length l + 2 \<le> length (unread r)" "drop (length l + 2) (unread r) = u"
    using find_line_append [OF l] by simp_all
  then have u: "unread ?r = u" using buf_wf_advance(2) [OF assms(1)] by metis
  have e: "rd_err ?r = 0" using assms(2) by simp
  show ?thesis
    using l assms finish_item_refine [OF e, unfolded u] protocol_error_refine [of _ ?r h u]
    by (auto simp: processLineItem_def pline_def pabs_def readLine_unread
        split: item.split option.split)
qed

lemma finish_item_advance:
  assumes "buf_wf r" and "rd_err r = 0" and "n \<le> length (unread r)"
  shows "pres (if obj = NULL then fail_with (SetErrorOOM (r, h))
      else finish_item obj (r\<lparr>rd_pos := ubits 64 (rd_pos r + n)\<rparr>, h))
    = left (drop n (unread r)) (finish_item obj (erase r, h))"
proof (cases "obj = NULL")
  case True
  then show ?thesis by (simp add: finish_item_def SetErrorOOM_refine)
next
  case False
  then show ?thesis
    using finish_item_refine [of "r\<lparr>rd_pos := ubits 64 (rd_pos r + n)\<rparr>" obj h] assms(2)
      buf_wf_advance(2) [OF assms(1,3)] by simp
qed

lemma bulk_fits:
  assumes "buf_wf r" and "find_line (unread r) = Some (l, u)" and "0 \<le> len" and "len < 2 ^ 63"
  shows "ubits 64 (length l + 2 + nat len + 2) = length l + 2 + (nat len + 2)"
    and "ubits 64 (rd_pos r + (length l + 2 + (nat len + 2))) \<le> rd_len r \<longleftrightarrow> nat len + 2 \<le> length u"
proof -
  obtain s where s: "rd_pos r \<le> rd_len r" "rd_len r - rd_pos r < 2 ^ 31" "rd_len r < 2 ^ 62"
    "length (unread r) = rd_len r - rd_pos r" using assms(1) by (rule buf_wfE)
  have lu: "length (unread r) = length l + 2 + length u" using find_line_append [OF assms(2)] by simp
  have n: "nat len < 2 ^ 63" using assms(3,4) by simp
  show "ubits 64 (length l + 2 + nat len + 2) = length l + 2 + (nat len + 2)"
    using s lu n by simp
  have "ubits 64 (rd_pos r + (length l + 2 + (nat len + 2))) = rd_pos r + (length l + 2 + (nat len + 2))"
    using s lu n by (intro ubits_id) simp
  moreover have "rd_len r = rd_pos r + (length l + 2 + length u)" using s lu by simp
  ultimately show "ubits 64 (rd_pos r + (length l + 2 + (nat len + 2))) \<le> rd_len r \<longleftrightarrow> nat len + 2 \<le> length u"
    by simp
qed

lemma string2ll_less: "string2ll p = Some v \<Longrightarrow> v < 2 ^ 63"
  by (simp add: string2ll_iff LLONG_MAX_def)

lemma seek_find_line:
  assumes "buf_wf r"
  shows "seekNewline (rd_at r) (usub 64 (rd_len r) (rd_pos r)) = map_option (\<lambda>(l, u). length l) (find_line (unread r))"
proof -
  have b: "length (unread r) < 2 ^ 31" using assms by (rule buf_wfE) simp
  then show ?thesis
    using seekNewline_spec [OF b, of "unread r"]
    by (auto simp: seekNewline_reader [OF assms] find_line_seek option.map_comp comp_def
        split: option.splits)
qed

lemma processBulkItem_refine:
  assumes "buf_wf r" and "rd_err r = 0"
  shows "pres (processBulkItem M (r, h)) = pbulk M (pabs (r, h))"
proof (cases "find_line (unread r)")
  case None
  then show ?thesis using assms by (simp add: processBulkItem_def pbulk_def pabs_def seek_find_line)
next
  case (Some lu)
  then obtain l u where l: "find_line (unread r) = Some (l, u)" by (cases lu) auto
  note app = find_line_append [OF l]
  have tk: "take (length l) (rd_at r) = l" using take_rd_at [OF assms(1), of "length l"] app by simp
  have seek: "seekNewline (rd_at r) (usub 64 (rd_len r) (rd_pos r)) = Some (length l)"
    using seek_find_line [OF assms(1)] l by simp
  note base = processBulkItem_def pbulk_def pabs_def seek l tk
  show ?thesis
  proof (cases "string2ll l")
    case None
    then show ?thesis by (simp add: base protocol_error_refine [of _ r h "[]"])
  next
    case (Some len)
    consider (low) "len < -1" | (nil) "len = -1" | (str) "0 \<le> len" by linarith
    then show ?thesis
    proof cases
      case low
      with Some show ?thesis by (simp add: base Let_def protocol_error_refine [of _ r h "[]"])
    next
      case nil
      have "length l + 2 \<le> length (unread r)" "drop (length l + 2) (unread r) = u" using app by simp_all
      with nil Some finish_item_advance [OF assms, of "length l + 2"] show ?thesis
        by (simp add: base Let_def pres_case del: add_2_eq_Suc' cong: option.case_cong)
    next
      case str
      let ?n = "length l + 2 + (nat len + 2)"
      note fits = bulk_fits [OF assms(1) l str string2ll_less [OF Some]]
      show ?thesis
      proof (cases "nat len + 2 \<le> length u")
        case False
        with str Some fits show ?thesis by (simp add: base Let_def)
      next
        case True
        have u: "drop (length l + 2) (unread r) = u" using app by simp
        then have d: "drop ?n (unread r) = drop (nat len + 2) u" by (metis add.commute drop_drop)
        have n: "?n \<le> length (unread r)" using app True by simp
        have t: "take (nat len) (drop (length l + 2) (rd_at r)) = take (nat len) u"
          unfolding take_drop u [symmetric] using n by (subst take_rd_at [OF assms(1)]) simp_all
        note n = n d t
        have v: "4 \<le> len \<Longrightarrow> rd_at r ! (length l + 5) = u ! 3"
          using nth_rd_at [OF assms(1), of "length l + 5"] app True by (simp add: nth_append)
        show ?thesis
        proof (cases "rt_type (cur_task r) = REDIS_REPLY_VERB \<and> (len < 4 \<or> u ! 3 \<noteq> CHR '':'')")
          case bad: True
          then have "rt_type (cur_task r) = REDIS_REPLY_VERB \<and> (len < 4 \<or> rd_at r ! (length l + 5) \<noteq> CHR '':'')"
            using v by (cases "len < 4") auto
          with bad str Some fits True show ?thesis
            by (simp add: base Let_def protocol_error_refine [of _ r h "[]"])
        next
          case good: False
          then have "\<not> (rt_type (cur_task r) = REDIS_REPLY_VERB \<and> (len < 4 \<or> rd_at r ! (length l + 5) \<noteq> CHR '':''))"
            using v by (cases "len < 4") auto
          with good str Some fits True n finish_item_advance [OF assms n(1)] show ?thesis
            by (cases "rt_type (cur_task r) = REDIS_REPLY_VERB") (simp_all add: base Let_def pres_case del: add_2_eq_Suc'
                cong: option.case_cong prod.case_cong if_cong)
        qed
      qed
    qed
  qed
qed

lemma redisReaderGrow_cases:
  "redisReaderGrow M (r, h) = fail_with (SetErrorOOM (r, h)) \<or>
   redisReaderGrow M (r, h) = Some (REDIS_OK, r\<lparr>rd_task := rd_task r @ replicate REDIS_READER_STACK_SIZE zero_task,
                               rd_tasks := rd_tasks r + REDIS_READER_STACK_SIZE\<rparr>, h)"
  by (simp add: redisReaderGrow_def)

definition aggr_line :: "mem \<Rightarrow> 'h rstate \<Rightarrow> (int \<times> 'h rstate) option" where
  "aggr_line M = (\<lambda>(r, h). case readLine r of
       None \<Rightarrow> Some (REDIS_ERR, r, h)
     | Some (p, r) \<Rightarrow> aggregate_elements M p (r, h))"

lemma aggr_line_refine:
  assumes "buf_wf r" and "rd_err r = 0"
  shows "pres (aggr_line M (r, h)) = (case find_line (unread r) of
      None \<Rightarrow> Some (REDIS_ERR, unread r, erase r, h)
    | Some (p, u') \<Rightarrow> left u' (aggregate_elements M p (erase r, h)))"
proof (cases "find_line (unread r)")
  case None
  then show ?thesis using assms by (simp add: aggr_line_def readLine_unread)
next
  case (Some lu)
  then obtain l u where l: "find_line (unread r) = Some (l, u)" by (cases lu) auto
  let ?r = "r\<lparr>rd_pos := ubits 64 (rd_pos r + (length l + 2))\<rparr>"
  have "length l + 2 \<le> length (unread r)" "drop (length l + 2) (unread r) = u"
    using find_line_append [OF l] by simp_all
  then have u: "unread ?r = u" using buf_wf_advance(2) [OF assms(1)] by metis
  have e: "rd_err ?r = 0" using assms(2) by simp
  show ?thesis
    using l assms aggregate_elements_refine [OF e, unfolded u] by (simp add: aggr_line_def readLine_unread)
qed

lemma buf_wf_set_task [simp]: "buf_wf (r\<lparr>rd_task := t\<rparr>) = buf_wf r" "buf_wf (r\<lparr>rd_tasks := n\<rparr>) = buf_wf r"
  "unread (r\<lparr>rd_task := t\<rparr>) = unread r" "unread (r\<lparr>rd_tasks := n\<rparr>) = unread r"
  by (simp_all add: buf_wf_def unread_def cong: option.case_cong)

lemma processAggregateItem_refine:
  assumes "buf_wf r" and "rd_err r = 0"
  shows "pres (processAggregateItem M (r, h)) = paggr M (pabs (r, h))"
proof (cases "rd_ridx r = int (rd_tasks r) - 1")
  case False
  then show ?thesis
    using aggr_line_refine [OF assms, of M h]
    by (simp add: processAggregateItem_def paggr_def pabs_def aggr_line_def)
next
  case True
  let ?r = "r\<lparr>rd_task := rd_task r @ replicate REDIS_READER_STACK_SIZE zero_task,
               rd_tasks := rd_tasks r + REDIS_READER_STACK_SIZE\<rparr>"
  show ?thesis
  proof (cases "granted M (8 * (rd_tasks r + REDIS_READER_STACK_SIZE)) \<and> granted M sizeof_redisReadTask")
    case g: True
    obtain r' where r': "r' = ?r" by blast
    then have "buf_wf r'" "rd_err r' = 0" "unread r' = unread r" using assms by simp_all
    moreover have "redisReaderGrow M (r, h) = Some (REDIS_OK, r', h)"
      "redisReaderGrow M (erase r, h) = Some (REDIS_OK, erase r', h)"
      using g by (simp_all add: redisReaderGrow_def r') (simp add: erase_def)
    ultimately show ?thesis using aggr_line_refine [of r' M h] True
      by (simp add: processAggregateItem_def paggr_def pabs_def aggr_line_def cong: option.case_cong)
  next
    case no: False
    have g: "redisReaderGrow M (r, h) = fail_with (SetErrorOOM (r, h))"
      "redisReaderGrow M (erase r, h) = fail_with (SetErrorOOM (r, h))"
      using no by (auto simp: redisReaderGrow_def SetErrorOOM_def)
    show ?thesis
    proof (cases "SetErrorOOM (r, h)")
      case None
      with True g show ?thesis by (simp add: processAggregateItem_def paggr_def pabs_def fail_with_def)
    next
      case (Some rh)
      then obtain r' h' where e: "SetErrorOOM (r, h) = Some (r', h')" by (cases rh) auto
      then have "unread r' = []" "erase r' = r'"
        using redisReaderSetError_cases [of REDIS_ERR_OOM "''Out of memory''" r h r' h']
        by (simp_all add: SetErrorOOM_def)
      with True g e show ?thesis by (simp add: processAggregateItem_def paggr_def pabs_def fail_with_def)
    qed
  qed
qed

lemma processTyped_refine:
  assumes "buf_wf r" and "rd_err r = 0"
  shows "pres (processTyped strtod M (r, h)) = ptyped strtod M (pabs (r, h))"
  using processLineItem_refine [OF assms] processBulkItem_refine [OF assms] processAggregateItem_refine [OF assms]
  by (simp add: processTyped_def ptyped_def pabs_def Let_def)

lemma buf_wf_upd_task [simp]: "buf_wf (upd_task r i f) = buf_wf r" "unread (upd_task r i f) = unread r"
  "rd_err (upd_task r i f) = rd_err r"
  by (simp_all add: upd_task_def)

lemma processItem_refine:
  assumes "buf_wf r" and "rd_err r = 0"
  shows "pres (processItem strtod M (r, h)) = pitem strtod M (pabs (r, h))"
proof (cases "rt_type (cur_task r) < 0")
  case False
  then show ?thesis using processTyped_refine [OF assms] by (simp add: processItem_def pitem_def pabs_def)
next
  case True
  show ?thesis
  proof (cases "unread r")
    case Nil
    then have "readBytes 1 r = None" using readBytes_unread [OF assms(1)] by simp
    with True Nil show ?thesis by (simp add: processItem_def pitem_def pabs_def)
  next
    case (Cons c u)
    let ?r = "r\<lparr>rd_pos := ubits 64 (rd_pos r + 1)\<rparr>"
    have adv: "buf_wf ?r" "unread ?r = u"
      using buf_wf_advance [OF assms(1), of 1] Cons by simp_all
    have rb: "readBytes 1 r = Some ([c], ?r)" using readBytes_unread [OF assms(1)] Cons by simp
    show ?thesis
    proof (cases "reply_type c")
      case None
      with True Cons rb SetErrorProtocolByte_refine [of c ?r h "[]"] show ?thesis
        by (simp add: processItem_def pitem_def pabs_def)
    next
      case (Some ty)
      let ?t = "upd_task ?r (rd_ridx r) (\<lambda>t. t\<lparr>rt_type := ty\<rparr>)"
      have "buf_wf ?t" "rd_err ?t = 0" using adv assms by simp_all
      with processTyped_refine [of ?t strtod M h] True Cons rb Some adv show ?thesis
        by (simp add: processItem_def pitem_def pabs_def upd_task_erase [symmetric])
    qed
  qed
qed

section \<open>What a round does to the buffer\<close>

text \<open>A reader in the error state: the buffer and the stack are gone.\<close>

definition reader_dead :: "'h redisReader \<Rightarrow> bool" where
  "reader_dead r \<longleftrightarrow> rd_err r \<noteq> 0 \<and> rd_buf r = None \<and> rd_pos r = 0 \<and> rd_len r = 0 \<and> rd_ridx r = -1"

text \<open>A round without error only moves the cursor forward, inside the buffer; a round that
  succeeds leaves no error.\<close>

definition buf_step :: "'h redisReader \<Rightarrow> (int \<times> 'h rstate) option \<Rightarrow> bool" where
  "buf_step r x \<longleftrightarrow>
     (case x of
        None \<Rightarrow> True
      | Some (st, r', h') \<Rightarrow>
          (st = REDIS_OK \<longrightarrow> rd_err r' = 0) \<and>
          (rd_err r' = 0 \<longrightarrow> rd_buf r' = rd_buf r \<and> rd_len r' = rd_len r \<and>
             rd_pos r \<le> rd_pos r' \<and> rd_pos r' \<le> rd_len r) \<and>
          (rd_err r' \<noteq> 0 \<longrightarrow> reader_dead r'))"

lemma buf_step_fail: "ty \<noteq> 0 \<Longrightarrow> buf_step r (fail_with (redisReaderSetError ty str (r', h)))"
  by (auto simp: buf_step_def fail_with_def reader_dead_def dest!: redisReaderSetError_cases
      split: option.splits)

lemma buf_step_protocol_error: "buf_step r (protocol_error msg (r', h))"
  unfolding protocol_error_def by (rule buf_step_fail) (simp add: REDIS_ERR_PROTOCOL_def)

lemma buf_step_OOM: "buf_step r (fail_with (SetErrorOOM (r', h)))"
  unfolding SetErrorOOM_def by (rule buf_step_fail) (simp add: REDIS_ERR_OOM_def)

lemma buf_step_None [simp]: "buf_step r None"
  by (simp add: buf_step_def)

lemmas buf_step_errors = buf_step_protocol_error buf_step_OOM buf_step_None

lemma buf_step_if:
  "(c \<Longrightarrow> buf_step r a) \<Longrightarrow> (\<not> c \<Longrightarrow> buf_step r b) \<Longrightarrow> buf_step r (if c then a else b)"
  by simp

lemma buf_step_case:
  "(\<And>obj h. buf_step r (f obj h)) \<Longrightarrow> buf_step r (case x of None \<Rightarrow> None | Some (obj, h) \<Rightarrow> f obj h)"
  by (simp split: option.split prod.split)

lemmas buf_step_intros = buf_step_errors buf_step_if buf_step_case

text \<open>The reader after its cursor has moved inside the buffer.\<close>

definition moved :: "'h redisReader \<Rightarrow> 'h redisReader \<Rightarrow> bool" where
  "moved r r' \<longleftrightarrow> rd_err r' = 0 \<and> rd_buf r' = rd_buf r \<and> rd_len r' = rd_len r
     \<and> rd_pos r \<le> rd_pos r' \<and> rd_pos r' \<le> rd_len r"

lemma moved_next: "moved r r' \<Longrightarrow> moveToNextTask r' = Some r1 \<Longrightarrow> moved r r1"
  by (drule moveToNextTask_keeps) (simp add: moved_def)

lemma buf_step_moved: "moved r r' \<Longrightarrow> buf_step r (Some (st, r', h))"
  by (simp add: buf_step_def moved_def)

lemma moved_set_reply: "moved r r' \<Longrightarrow> moved r (r'\<lparr>rd_reply := obj\<rparr>)"
  by (simp add: moved_def)

lemma buf_step_next_moved:
  assumes "\<And>r1. x = Some r1 \<Longrightarrow> moved r r1"
  shows "buf_step r (map_option (\<lambda>r. (REDIS_OK, if c then r\<lparr>rd_reply := obj\<rparr> else r, h)) x)"
    and "buf_step r (map_option (\<lambda>r. (REDIS_OK, r, h)) x)"
  using assms by (cases x; simp add: buf_step_moved moved_set_reply)+

lemma buf_step_finish:
  assumes "moved r r'" shows "buf_step r (finish_item obj (r', h))"
proof -
  have "moved r (if rd_ridx r' = 0 then r'\<lparr>rd_reply := obj\<rparr> else r')"
    using assms by (simp add: moved_set_reply)
  then show ?thesis
    unfolding finish_item_def prod.case
    by (intro buf_step_intros buf_step_next_moved) (rule moved_next)
qed

lemma buf_step_aggregate:
  assumes "moved r r'" shows "buf_step r (aggregate_elements M p (r', h))"
proof -
  have k: "moved r (push_task n obj r')" for n obj using assms by (simp add: moved_def)
  have n: "buf_step r (map_option (\<lambda>r. (REDIS_OK, if c then r\<lparr>rd_reply := obj\<rparr> else r, h'))
      (if 0 < n then Some (push_task n obj r') else moveToNextTask r'))"
    and m: "buf_step r (map_option (\<lambda>r. (REDIS_OK, if c then r\<lparr>rd_reply := obj\<rparr> else r, h'))
      (moveToNextTask r'))" for n c obj h'
    using k moved_next [OF assms] by (rule_tac [!] buf_step_next_moved(1)) (auto split: if_splits)
  show ?thesis
  proof (cases "string2ll p")
    case (Some e)
    then show ?thesis unfolding aggregate_elements_def Let_def prod.case Some option.case
      by (intro buf_step_intros n m)
  qed (simp add: aggregate_elements_def buf_step_errors)
qed

lemma moved_refl: "buf_wf r \<Longrightarrow> rd_err r = 0 \<Longrightarrow> moved r r"
  by (erule buf_wfE) (simp add: moved_def)

lemma moved_advance:
  assumes "buf_wf r" and "rd_err r = 0" and "n \<le> length (unread r)"
  shows "moved r (r\<lparr>rd_pos := ubits 64 (rd_pos r + n)\<rparr>)"
proof -
  obtain "rd_len r < 2 ^ 62" "length (unread r) = rd_len r - rd_pos r" "rd_pos r \<le> rd_len r"
    using assms(1) by (rule buf_wfE)
  with assms show ?thesis by (simp add: moved_def)
qed

lemma readLine_moved:
  assumes "buf_wf r" and "rd_err r = 0" and "readLine r = Some (p, r')" shows "moved r r'"
proof -
  obtain l u where l: "find_line (unread r) = Some (l, u)"
    and r': "r' = r\<lparr>rd_pos := ubits 64 (rd_pos r + (length l + 2))\<rparr>"
    using assms by (auto simp: readLine_unread split: option.splits)
  have "length l + 2 \<le> length (unread r)" using find_line_append [OF l] by simp
  then show ?thesis unfolding r' by (rule moved_advance [OF assms(1,2)])
qed

lemma buf_step_line:
  assumes "buf_wf r" and "rd_err r = 0" shows "buf_step r (processLineItem strtod M (r, h))"
proof (cases "readLine r")
  case None
  then show ?thesis using buf_step_moved [OF moved_refl [OF assms]] by (simp add: processLineItem_def)
next
  case (Some pr)
  then obtain p r' where p: "readLine r = Some (p, r')" by (cases pr) auto
  note fin = buf_step_finish [OF readLine_moved [OF assms p]]
  show ?thesis
    by (cases "lineObject strtod M p r' h")
      (auto simp: processLineItem_def p buf_step_errors fin split: option.split)
qed

lemma buf_step_aggr:
  assumes "buf_wf r" and "rd_err r = 0" shows "buf_step r (processAggregateItem M (r, h))"
proof -
  have line: "buf_step r (aggr_line M (r', h))" if "buf_wf r'" "rd_err r' = 0" "moved r r'" for r'
  proof (cases "readLine r'")
    case None
    then show ?thesis using buf_step_moved [OF that(3)] by (simp add: aggr_line_def)
  next
    case (Some pr)
    then obtain p r2 where p: "readLine r' = Some (p, r2)" by (cases pr) auto
    have "moved r r2" using readLine_moved [OF that(1,2) p] that(3) by (auto simp: moved_def)
    then show ?thesis by (simp add: aggr_line_def p buf_step_aggregate)
  qed
  let ?r = "r\<lparr>rd_task := rd_task r @ replicate REDIS_READER_STACK_SIZE zero_task,
               rd_tasks := rd_tasks r + REDIS_READER_STACK_SIZE\<rparr>"
  have "moved r ?r" using moved_refl [OF assms] by (simp add: moved_def)
  then have g: "buf_step r (aggr_line M (?r, h))" by (intro line) (simp_all add: assms)
  have n: "buf_step r (aggr_line M (r, h))" using line [OF assms moved_refl [OF assms]] .
  have "processAggregateItem M (r, h) =
     (if rd_ridx r = int (rd_tasks r) - 1 then
        (if granted M (8 * (rd_tasks r + REDIS_READER_STACK_SIZE)) \<and> granted M sizeof_redisReadTask
         then aggr_line M (?r, h) else fail_with (SetErrorOOM (r, h)))
      else aggr_line M (r, h))"
    by (auto simp: processAggregateItem_def redisReaderGrow_def aggr_line_def Let_def fail_with_def
        split: option.split)
  then show ?thesis by (simp only:) (intro buf_step_intros g n)
qed

lemma buf_step_bulk:
  assumes "buf_wf r" and "rd_err r = 0" shows "buf_step r (processBulkItem M (r, h))"
proof (cases "find_line (unread r)")
  case None
  then show ?thesis using assms buf_step_moved [OF moved_refl [OF assms]]
    by (simp add: processBulkItem_def seek_find_line)
next
  case (Some lu)
  then obtain l u where l: "find_line (unread r) = Some (l, u)" by (cases lu) auto
  note app = find_line_append [OF l]
  have tk: "take (length l) (rd_at r) = l" using take_rd_at [OF assms(1), of "length l"] app by simp
  have seek: "seekNewline (rd_at r) (usub 64 (rd_len r) (rd_pos r)) = Some (length l)"
    using seek_find_line [OF assms(1)] l by simp
  have fin: "buf_step r (finish_item obj (r\<lparr>rd_pos := ubits 64 (rd_pos r + n)\<rparr>, h'))"
    if "n \<le> length (unread r)" for n obj h'
    using buf_step_finish [OF moved_advance [OF assms that]] .
  have idle: "buf_step r (Some (REDIS_ERR, r, h))" using buf_step_moved [OF moved_refl [OF assms]] .
  show ?thesis
  proof (cases "string2ll l")
    case None
    then show ?thesis by (simp add: processBulkItem_def seek tk buf_step_errors)
  next
    case len: (Some len)
    show ?thesis
      unfolding processBulkItem_def Let_def prod.case seek option.case tk len
    proof (intro buf_step_intros fin idle)
      show "length l + 2 \<le> length (unread r)" using app by simp
      assume "\<not> len < - 1" "len \<noteq> - 1"
        and f: "ubits 64 (rd_pos r + ubits 64 (length l + 2 + nat len + 2)) \<le> rd_len r"
      then have "0 \<le> len" by simp
      note fits = bulk_fits [OF assms(1) l this string2ll_less [OF len]]
      show "ubits 64 (length l + 2 + nat len + 2) \<le> length (unread r)"
        using f fits app unfolding fits(1) by simp
    qed
  qed
qed

lemma buf_step_typed:
  assumes "buf_wf r" and "rd_err r = 0" shows "buf_step r (processTyped strtod M (r, h))"
  using buf_step_line [OF assms] buf_step_bulk [OF assms] buf_step_aggr [OF assms]
  by (simp add: processTyped_def Let_def)

lemma buf_step_trans:
  assumes "moved r r'" and "buf_step r' x" shows "buf_step r x"
  using assms by (auto simp: buf_step_def moved_def split: option.splits)

lemma buf_step_item:
  assumes "buf_wf r" and "rd_err r = 0" shows "buf_step r (processItem strtod M (r, h))"
proof (cases "rt_type (cur_task r) < 0")
  case False
  then show ?thesis using buf_step_typed [OF assms] by (simp add: processItem_def)
next
  case True
  show ?thesis
  proof (cases "unread r")
    case Nil
    then have "readBytes 1 r = None" using readBytes_unread [OF assms(1)] by simp
    with True show ?thesis using buf_step_moved [OF moved_refl [OF assms]] by (simp add: processItem_def)
  next
    case (Cons c u)
    let ?r = "r\<lparr>rd_pos := ubits 64 (rd_pos r + 1)\<rparr>"
    have rb: "readBytes 1 r = Some ([c], ?r)" using readBytes_unread [OF assms(1)] Cons by simp
    have "buf_step r (processTyped strtod M (upd_task ?r (rd_ridx r) (\<lambda>t. t\<lparr>rt_type := ty\<rparr>), h))" for ty
    proof (rule buf_step_trans)
      show "moved r (upd_task ?r (rd_ridx r) (\<lambda>t. t\<lparr>rt_type := ty\<rparr>))"
        using moved_advance [OF assms, of 1] Cons by (simp add: moved_def upd_task_def)
      show "buf_step (upd_task ?r (rd_ridx r) (\<lambda>t. t\<lparr>rt_type := ty\<rparr>))
          (processTyped strtod M (upd_task ?r (rd_ridx r) (\<lambda>t. t\<lparr>rt_type := ty\<rparr>), h))"
        using buf_wf_advance(1) [OF assms(1), of 1] Cons assms(2) by (intro buf_step_typed) simp_all
    qed
    moreover have "buf_step r (fail_with (SetErrorProtocolByte c (?r, h)))"
      unfolding SetErrorProtocolByte_def Let_def by (rule buf_step_fail) (simp add: REDIS_ERR_PROTOCOL_def)
    ultimately show ?thesis using True rb by (simp add: processItem_def split: option.split)
  qed
qed

lemma buf_wf_moved: "buf_wf r \<Longrightarrow> moved r r' \<Longrightarrow> buf_wf r'"
  by (auto simp: moved_def buf_wf_def split: option.splits)

lemma processItem_OK:
  assumes "buf_wf r" and "rd_err r = 0" and "processItem strtod M (r, h) = Some (st, r', h')"
    and "rd_err r' = 0 \<or> st = REDIS_OK"
  shows "moved r r' \<and> buf_wf r' \<and> rd_err r' = 0"
  using buf_step_item [OF assms(1,2), of strtod M h] assms(3,4)
  by (auto simp: buf_step_def moved_def intro: buf_wf_moved [OF assms(1), unfolded moved_def])

lemma processItem_error:
  assumes "buf_wf r" and "rd_err r = 0" and "processItem strtod M (r, h) = Some (st, r', h')"
    and "rd_err r' \<noteq> 0"
  shows "reader_dead r' \<and> st \<noteq> REDIS_OK"
  using buf_step_item [OF assms(1,2), of strtod M h] assms(3,4) by (auto simp: buf_step_def)

section \<open>The loop\<close>

fun ploop :: "strtod_fn \<Rightarrow> (nat \<Rightarrow> mem) \<Rightarrow> nat \<Rightarrow> 'h pstate \<Rightarrow> 'h pstate option" where
  "ploop strtod Ms 0 s = None"
| "ploop strtod Ms (Suc n) s =
     (if rd_ridx (fst (snd s)) \<ge> 0 then
        (case pitem strtod (Ms 0) s of
           None \<Rightarrow> None
         | Some (st, s) \<Rightarrow>
             if st \<noteq> REDIS_OK then Some s else ploop strtod (\<lambda>i. Ms (Suc i)) n s)
      else Some s)"

lemma process_loop_refine:
  assumes "buf_wf r" and "rd_err r = 0"
  shows "map_option pabs (process_loop strtod Ms n (r, h)) = ploop strtod Ms n (pabs (r, h))"
  using assms
proof (induction n arbitrary: Ms r h)
  case (Suc n)
  have idx: "rd_ridx (fst (snd (pabs (r, h)))) = rd_ridx r" by (simp add: pabs_def)
  show ?case
  proof (cases "processItem strtod (Ms 0) (r, h)")
    case None
    with processItem_refine [OF Suc.prems, of strtod "Ms 0" h, symmetric] show ?thesis
      by (simp add: idx)
  next
    case (Some x)
    then obtain st r' h' where x: "processItem strtod (Ms 0) (r, h) = Some (st, r', h')" by (cases x) auto
    have p: "pitem strtod (Ms 0) (pabs (r, h)) = Some (st, pabs (r', h'))"
      using processItem_refine [OF Suc.prems, of strtod "Ms 0" h] x by (simp add: pabs_def)
    show ?thesis
    proof (cases "st = REDIS_OK")
      case True
      with processItem_OK [OF Suc.prems x] Suc.IH [of r' "\<lambda>i. Ms (Suc i)" h'] x p show ?thesis
        by (simp add: idx)
    qed (simp add: idx x p)
  qed
qed simp

section \<open>Progress\<close>

lemma fail_with_ERR: "fail_with x = Some (st, s) \<Longrightarrow> st = REDIS_ERR"
  by (auto simp: fail_with_def)

lemma protocol_error_ERR: "protocol_error msg rh = Some (st, s) \<Longrightarrow> st = REDIS_ERR"
  by (auto simp: protocol_error_def dest: fail_with_ERR)

lemma find_line_shorter: "find_line u = Some (l, v) \<Longrightarrow> length v < length u"
  by (drule find_line_append) simp

lemma left_OK: "left v x = Some (REDIS_OK, u', s) \<Longrightarrow> u' = v \<or> u' = []"
  by (auto simp: left_def split: if_splits)

lemma left_shorter: "left v x = Some (st, u', s) \<Longrightarrow> length u' \<le> length v"
  by (auto simp: left_def split: if_splits)

lemma pline_progress: "pline strtod M (u, r, h) = Some (REDIS_OK, u', s) \<Longrightarrow> length u' < length u"
  by (auto simp: pline_def split: option.splits dest!: left_shorter find_line_shorter)

lemma pbulk_progress: "pbulk M (u, r, h) = Some (REDIS_OK, u', s) \<Longrightarrow> length u' < length u"
  by (auto simp: pbulk_def Let_def split: option.splits if_splits dest!: left_shorter find_line_shorter;
      linarith)

lemma paggr_progress: "paggr M (u, r, h) = Some (REDIS_OK, u', s) \<Longrightarrow> length u' < length u"
  by (auto simp: paggr_def split: option.splits if_splits dest!: left_shorter find_line_shorter)

lemma ptyped_progress: "ptyped strtod M (u, r, h) = Some (REDIS_OK, u', s) \<Longrightarrow> length u' < length u"
  by (auto simp: ptyped_def Let_def split: if_splits
      dest: pline_progress pbulk_progress paggr_progress)

lemma pitem_progress:
  assumes "pitem strtod M (u, r, h) = Some (REDIS_OK, u', s)" shows "length u' < length u"
proof -
  have "left [] (fail_with x) \<noteq> Some (REDIS_OK, u', s)" for x :: "'a rstate option"
    by (auto simp: left_def dest: fail_with_ERR)
  with assms show ?thesis
    by (auto simp: pitem_def split: if_splits list.splits option.splits dest: ptyped_progress)
qed

text \<open>More rounds than unread bytes change nothing.\<close>

lemma ploop_enough:
  assumes "length u < n" and "length u < m"
  shows "ploop strtod Ms n (u, r, h) = ploop strtod Ms m (u, r, h)"
  using assms
proof (induction n arbitrary: Ms u r h m)
  case (Suc n)
  then obtain m' where m: "m = Suc m'" by (cases m) auto
  show ?case
  proof (cases "pitem strtod (Ms 0) (u, r, h)")
    case (Some x)
    obtain st u' r' h' where x: "x = (st, u', r', h')" by (cases x) auto
    have "ploop strtod (\<lambda>i. Ms (Suc i)) n (u', r', h') = ploop strtod (\<lambda>i. Ms (Suc i)) m' (u', r', h')"
      if "st = REDIS_OK"
    proof (rule Suc.IH)
      have "length u' < length u" using Some x that by (auto dest: pitem_progress)
      then show "length u' < n" "length u' < m'" using Suc.prems m by simp_all
    qed
    with Some x m show ?thesis by simp
  qed (simp add: m)
qed simp

section \<open>Resumption\<close>

text \<open>
  How a round behaves when \<open>y\<close> follows the unread bytes. A round that succeeds leaves \<open>y\<close>
  behind, an error or an abort stays the same, and a round that ran out of bytes can be
  repeated later from where it stopped.
\<close>

definition resumes ::
  "bytes \<Rightarrow> 'h \<Rightarrow> ('h pstate \<Rightarrow> (int \<times> 'h pstate) option) \<Rightarrow> (int \<times> 'h pstate) option
     \<Rightarrow> (int \<times> 'h pstate) option \<Rightarrow> bool" where
  "resumes y h f x x' \<longleftrightarrow>
     (case x of
        None \<Rightarrow> x' = None
      | Some (st, u', r', h') \<Rightarrow>
          if st = REDIS_OK then rd_err r' = 0 \<and> x' = Some (REDIS_OK, u' @ y, r', h')
          else st = REDIS_ERR \<and>
            (if rd_err r' = 0 then h' = h \<and> x' = f (u' @ y, r', h)
             else u' = [] \<and> x' = Some (REDIS_ERR, [], r', h')))"

lemma find_line_more: "find_line u = Some (l, v) \<Longrightarrow> find_line (u @ y) = Some (l, v @ y)"
proof (induction u arbitrary: l)
  case (Cons c u)
  then show ?case by (cases u) (auto split: if_splits)
qed simp

text \<open>A processed item is either an error or leaves the error flag clear.\<close>

definition done_item :: "(int \<times> 'h rstate) option \<Rightarrow> bool" where
  "done_item x \<longleftrightarrow> (case x of None \<Rightarrow> True
     | Some (st, r, h) \<Rightarrow> st = REDIS_OK \<and> rd_err r = 0 \<or> st = REDIS_ERR \<and> rd_err r \<noteq> 0)"

lemma done_fail: "ty \<noteq> 0 \<Longrightarrow> done_item (fail_with (redisReaderSetError ty str rh))"
  by (cases rh) (auto simp: done_item_def fail_with_def dest!: redisReaderSetError_cases split: option.splits)

lemma done_protocol: "done_item (protocol_error msg rh)"
  unfolding protocol_error_def by (rule done_fail) (simp add: REDIS_ERR_PROTOCOL_def)

lemma done_OOM: "done_item (fail_with (SetErrorOOM rh))"
  unfolding SetErrorOOM_def by (rule done_fail) (simp add: REDIS_ERR_OOM_def)

lemma done_byte: "done_item (fail_with (SetErrorProtocolByte c rh))"
  unfolding SetErrorProtocolByte_def Let_def by (rule done_fail) (simp add: REDIS_ERR_PROTOCOL_def)

lemma done_next:
  assumes "\<And>r1. x = Some r1 \<Longrightarrow> rd_err r1 = 0"
  shows "done_item (map_option (\<lambda>r. (REDIS_OK, if c then r\<lparr>rd_reply := obj\<rparr> else r, h)) x)"
    and "done_item (map_option (\<lambda>r. (REDIS_OK, r, h)) x)"
  using assms by (cases x; simp add: done_item_def)+

lemma done_if: "(c \<Longrightarrow> done_item a) \<Longrightarrow> (\<not> c \<Longrightarrow> done_item b) \<Longrightarrow> done_item (if c then a else b)"
  by simp

lemma done_None [simp]: "done_item None"
  by (simp add: done_item_def)

lemma done_case:
  "(\<And>obj h. done_item (f obj h)) \<Longrightarrow> done_item (case x of None \<Rightarrow> None | Some (obj, h) \<Rightarrow> f obj h)"
  by (simp split: option.split prod.split)

lemmas done_intros = done_protocol done_OOM done_if done_case

lemma moveToNextTask_err: "moveToNextTask r = Some r' \<Longrightarrow> rd_err r' = rd_err r"
  by (drule moveToNextTask_keeps) simp

lemma done_finish: "rd_err r = 0 \<Longrightarrow> done_item (finish_item obj (r, h))"
  unfolding finish_item_def prod.case
  by (intro done_intros done_next) (auto dest!: moveToNextTask_err split: if_splits)

lemma done_aggregate:
  assumes "rd_err r = 0" shows "done_item (aggregate_elements M p (r, h))"
proof (cases "string2ll p")
  case (Some e)
  have n: "done_item (map_option (\<lambda>r. (REDIS_OK, if c then r\<lparr>rd_reply := obj\<rparr> else r, h'))
      (if 0 < n then Some (push_task n obj r) else moveToNextTask r))"
    and m: "done_item (map_option (\<lambda>r. (REDIS_OK, if c then r\<lparr>rd_reply := obj\<rparr> else r, h'))
      (moveToNextTask r))" for n c obj h'
    using assms by (rule_tac [!] done_next(1)) (auto dest!: moveToNextTask_err split: if_splits)
  show ?thesis unfolding aggregate_elements_def Let_def prod.case Some option.case
    by (intro done_intros n m)
qed (simp add: aggregate_elements_def done_protocol)

lemma resumes_left:
  assumes "done_item x" shows "resumes y h f (left v x) (left (v @ y) x)"
  using assms by (auto simp: resumes_def done_item_def left_def split: option.splits)

lemma resumes_left_error:
  assumes "done_item x" and "\<And>st s. x = Some (st, s) \<Longrightarrow> st = REDIS_ERR"
  shows "resumes y h f (left [] x) (left [] x)"
  using assms by (auto simp: resumes_def done_item_def left_def split: option.splits)

lemma resumes_idle: "rd_err r = 0 \<Longrightarrow> x' = f (u @ y, r, h) \<Longrightarrow> resumes y h f (Some (REDIS_ERR, u, r, h)) x'"
  by (simp add: resumes_def)

lemma resumes_None: "resumes y h f None None"
  by (simp add: resumes_def)

lemma pline_resumes:
  assumes "rd_err r = 0"
  shows "resumes y h (pline strtod M) (pline strtod M (u, r, h)) (pline strtod M (u @ y, r, h))"
proof (cases "find_line u")
  case None
  then show ?thesis using assms by (auto simp: pline_def [of strtod M] intro: resumes_idle)
next
  case (Some lv)
  then obtain l v where l: "find_line u = Some (l, v)" by (cases lv) auto
  have "done_item (case lineObject strtod M l r h of
      Bad msg \<Rightarrow> protocol_error msg (r, h) | Obj None \<Rightarrow> None
    | Obj (Some (obj, h)) \<Rightarrow> finish_item obj (r, h))"
    using assms by (auto simp: done_protocol done_finish done_item_def [of None] split: item.split option.split)
  from resumes_left [OF this] show ?thesis by (simp add: pline_def [of strtod M] l find_line_more)
qed

lemma pbulk_resumes:
  assumes "rd_err r = 0"
  shows "resumes y h (pbulk M) (pbulk M (u, r, h)) (pbulk M (u @ y, r, h))"
proof (cases "find_line u")
  case None
  then show ?thesis using assms by (auto simp: pbulk_def [of M] intro: resumes_idle)
next
  case (Some lv)
  then obtain l v where l: "find_line u = Some (l, v)" by (cases lv) auto
  note l' = find_line_more [OF l, of y]
  have err: "resumes y h f (left [] (protocol_error msg (r, h))) (left [] (protocol_error msg (r, h)))" for f msg
    by (rule resumes_left_error [OF done_protocol]) (rule protocol_error_ERR)
  have fin: "resumes y h f
        (case x of None \<Rightarrow> None | Some (obj, h) \<Rightarrow> left w (finish_item obj (r, h)))
        (case x of None \<Rightarrow> None | Some (obj, h) \<Rightarrow> left (w @ y) (finish_item obj (r, h)))" for f w x
    using resumes_left [OF done_finish [OF assms]] by (auto simp: resumes_None split: option.split)
  show ?thesis
  proof (cases "string2ll l")
    case None
    then show ?thesis using err by (simp add: pbulk_def [of M] l l')
  next
    case len: (Some len)
    consider "len < -1" | "len = -1" | "0 \<le> len" by linarith
    then show ?thesis
    proof cases
      case 1
      then show ?thesis using err by (simp add: pbulk_def [of M] l l' len)
    next
      case 2
      then show ?thesis using fin [where w = v] by (simp add: pbulk_def [of M] l l' len Let_def)
    next
      case 3
      show ?thesis
      proof (cases "length v < nat len + 2")
        case True
        then have "pbulk M (u, r, h) = Some (REDIS_ERR, u, r, h)"
          using 3 by (simp add: pbulk_def l len Let_def)
        then show ?thesis by (simp add: resumes_idle [OF assms refl])
      next
        case False
        have v3: "v ! 3 = (v @ y) ! 3" if "\<not> len < 4"
        proof -
          have "3 < length v" using False that by linarith
          then show ?thesis by (simp add: nth_append)
        qed
        have tk: "take (nat len) (v @ y) = take (nat len) v" "drop (nat len + 2) (v @ y) = drop (nat len + 2) v @ y"
          using False by simp_all
        show ?thesis
        proof (cases "rt_type (cur_task r) = REDIS_REPLY_VERB \<and> (len < 4 \<or> v ! 3 \<noteq> CHR '':'')")
          case True
          then have "rt_type (cur_task r) = REDIS_REPLY_VERB \<and> (len < 4 \<or> (v @ y) ! 3 \<noteq> CHR '':'')"
            using v3 by auto
          with True 3 False show ?thesis using err by (simp add: pbulk_def [of M] l l' len Let_def)
        next
          case good: False
          then have "\<not> (rt_type (cur_task r) = REDIS_REPLY_VERB \<and> (len < 4 \<or> (v @ y) ! 3 \<noteq> CHR '':''))"
            using v3 by auto
          with good 3 False fin [where w = "drop (nat len + 2) v"] show ?thesis
            unfolding pbulk_def [of M] prod.case l l' option.case len Let_def tk
            by (simp only: if_False if_not_P length_append)
        qed
      qed
    qed
  qed
qed

definition paggr_line :: "mem \<Rightarrow> 'h pstate \<Rightarrow> (int \<times> 'h pstate) option" where
  "paggr_line M = (\<lambda>(u, r, h).
     case find_line u of
       None \<Rightarrow> Some (REDIS_ERR, u, r, h)
     | Some (p, u') \<Rightarrow> left u' (aggregate_elements M p (r, h)))"

lemma paggr_unfold:
  "paggr M (u, r, h) =
     (if rd_ridx r = int (rd_tasks r) - 1 then
        (if granted M (8 * (rd_tasks r + REDIS_READER_STACK_SIZE)) \<and> granted M sizeof_redisReadTask
         then paggr_line M (u, r\<lparr>rd_task := rd_task r @ replicate REDIS_READER_STACK_SIZE zero_task,
                                rd_tasks := rd_tasks r + REDIS_READER_STACK_SIZE\<rparr>, h)
         else left [] (fail_with (SetErrorOOM (r, h))))
      else paggr_line M (u, r, h))"
  by (auto simp: paggr_def redisReaderGrow_def paggr_line_def Let_def fail_with_def split: option.split)

lemma paggr_line_resumes:
  assumes "rd_err r = 0" and "\<And>u. paggr M (u, r, h) = paggr_line M (u, r, h)"
  shows "resumes y h (paggr M) (paggr_line M (u, r, h)) (paggr_line M (u @ y, r, h))"
proof (cases "find_line u")
  case None
  then have "paggr_line M (u, r, h) = Some (REDIS_ERR, u, r, h)" by (simp add: paggr_line_def)
  then show ?thesis using assms by (simp add: resumes_idle)
next
  case (Some lv)
  then obtain l v where l: "find_line u = Some (l, v)" by (cases lv) auto
  show ?thesis using resumes_left [OF done_aggregate [OF assms(1)]]
    by (simp add: paggr_line_def l find_line_more [OF l])
qed

lemma paggr_resumes:
  assumes "rd_err r = 0"
  shows "resumes y h (paggr M) (paggr M (u, r, h)) (paggr M (u @ y, r, h))"
proof -
  let ?r = "r\<lparr>rd_task := rd_task r @ replicate REDIS_READER_STACK_SIZE zero_task,
               rd_tasks := rd_tasks r + REDIS_READER_STACK_SIZE\<rparr>"
  have "resumes y h (paggr M) (paggr_line M (u, ?r, h)) (paggr_line M (u @ y, ?r, h))"
    if "rd_ridx r = int (rd_tasks r) - 1"
    using assms that by (intro paggr_line_resumes) (simp_all add: paggr_unfold REDIS_READER_STACK_SIZE_def)
  moreover have "resumes y h (paggr M) (paggr_line M (u, r, h)) (paggr_line M (u @ y, r, h))"
    if "rd_ridx r \<noteq> int (rd_tasks r) - 1"
    using assms that by (intro paggr_line_resumes) (simp_all add: paggr_unfold)
  moreover have "resumes y h (paggr M) (left [] (fail_with (SetErrorOOM (r, h))))
      (left [] (fail_with (SetErrorOOM (r, h))))"
    by (rule resumes_left_error [OF done_OOM]) (rule fail_with_ERR)
  ultimately show ?thesis by (simp add: paggr_unfold)
qed

text \<open>The type of the current task survives an incomplete round, and a later round goes on with it.\<close>

definition same_type :: "int \<Rightarrow> (int \<times> 'h pstate) option \<Rightarrow> bool" where
  "same_type ty x \<longleftrightarrow> (case x of None \<Rightarrow> True
     | Some (st, u, r, h) \<Rightarrow> st = REDIS_OK \<or> rd_err r \<noteq> 0 \<or> rt_type (cur_task r) = ty)"

lemma same_type_None [simp]: "same_type ty None"
  by (simp add: same_type_def)

lemma same_type_left: "done_item x \<Longrightarrow> same_type ty (left v x)"
  by (auto simp: same_type_def done_item_def left_def split: option.splits)

lemma pline_same_type: "rd_err r = 0 \<Longrightarrow> same_type (rt_type (cur_task r)) (pline strtod M (u, r, h))"
  by (auto simp: pline_def done_protocol done_finish split: option.split item.split intro!: same_type_left)
    (simp add: same_type_def)

lemma pbulk_same_type:
  assumes "rd_err r = 0" shows "same_type (rt_type (cur_task r)) (pbulk M (u, r, h))"
proof -
  have i: "same_type (rt_type (cur_task r)) (Some (REDIS_ERR, u, r, h))" by (simp add: same_type_def)
  have p: "same_type ty (left [] (protocol_error msg (r, h)))" for msg ty
    by (rule same_type_left [OF done_protocol])
  have f: "same_type ty (case x of None \<Rightarrow> None | Some (obj, h) \<Rightarrow> left w (finish_item obj (r, h)))" for x w ty
    using same_type_left [OF done_finish [OF assms]] by (auto simp: same_type_def [of _ None] split: option.split)
  show ?thesis
    using i p f by (auto simp: pbulk_def Let_def split: option.split if_split)
qed

lemma paggr_same_type:
  assumes "rd_err r = 0" and "nat (rd_ridx r) < length (rd_task r)"
  shows "same_type (rt_type (cur_task r)) (paggr M (u, r, h))"
proof -
  have "same_type (rt_type (cur_task r)) (paggr_line M (u, r', h))"
    if "rd_err r' = 0" "cur_task r' = cur_task r" for r'
    using that same_type_left [OF done_aggregate [OF that(1)]]
    by (auto simp: paggr_line_def same_type_def [of _ "Some (REDIS_ERR, _)"] split: option.split)
  moreover have "same_type ty (left [] (fail_with (SetErrorOOM (r, h))))" for ty
    by (rule same_type_left [OF done_OOM])
  moreover have "cur_task (r\<lparr>rd_task := rd_task r @ replicate REDIS_READER_STACK_SIZE zero_task,
      rd_tasks := rd_tasks r + REDIS_READER_STACK_SIZE\<rparr>) = cur_task r"
    using assms(2) by (simp add: cur_task_def nth_append)
  ultimately show ?thesis using assms(1) by (simp add: paggr_unfold del: distrib_left add_mult_distrib2)
qed

lemma resumes_weaken:
  assumes "resumes y h f x x'" and "same_type ty x"
    and "\<And>u r. rt_type (cur_task r) = ty \<Longrightarrow> f (u, r, h) = g (u, r, h)"
  shows "resumes y h g x x'"
  using assms by (auto simp: resumes_def same_type_def split: option.splits if_splits)

lemma ptyped_resumes:
  assumes "rd_err r = 0" and "nat (rd_ridx r) < length (rd_task r)"
    and "\<And>u r'. rt_type (cur_task r') = rt_type (cur_task r) \<Longrightarrow> ptyped strtod M (u, r', h) = g (u, r', h)"
  shows "resumes y h g (ptyped strtod M (u, r, h)) (ptyped strtod M (u @ y, r, h))"
proof -
  let ?ty = "rt_type (cur_task r)"
  consider "is_line_type ?ty" | "\<not> is_line_type ?ty" "is_bulk_type ?ty"
    | "\<not> is_line_type ?ty" "\<not> is_bulk_type ?ty" "is_aggregate ?ty"
    | "\<not> is_line_type ?ty" "\<not> is_bulk_type ?ty" "\<not> is_aggregate ?ty" by blast
  then show ?thesis
  proof cases
    case 1
    then have e: "rt_type (cur_task r') = ?ty \<Longrightarrow> pline strtod M (v, r', h) = g (v, r', h)" for v r'
      using assms(3) [of r' v] by (simp add: ptyped_def)
    with 1 resumes_weaken [OF pline_resumes [OF assms(1)] pline_same_type [OF assms(1)] e]
    show ?thesis by (simp add: ptyped_def)
  next
    case 2
    then have e: "rt_type (cur_task r') = ?ty \<Longrightarrow> pbulk M (v, r', h) = g (v, r', h)" for v r'
      using assms(3) [of r' v] by (simp add: ptyped_def)
    with 2 resumes_weaken [OF pbulk_resumes [OF assms(1)] pbulk_same_type [OF assms(1)] e]
    show ?thesis by (simp add: ptyped_def)
  next
    case 3
    then have e: "rt_type (cur_task r') = ?ty \<Longrightarrow> paggr M (v, r', h) = g (v, r', h)" for v r'
      using assms(3) [of r' v] by (simp add: ptyped_def)
    with 3 resumes_weaken [OF paggr_resumes [OF assms(1)] paggr_same_type [OF assms(1,2)] e]
    show ?thesis by (simp add: ptyped_def)
  qed (simp add: ptyped_def resumes_None)
qed

lemma reply_type_pos: "reply_type c = Some ty \<Longrightarrow> 0 < ty"
  by (auto simp: reply_type_def reply_type_defs split: if_splits)

lemma cur_task_upd:
  "nat (rd_ridx r) < length (rd_task r) \<Longrightarrow> cur_task (upd_task r (rd_ridx r) f) = f (cur_task r)"
  by (simp add: cur_task_def upd_task_def)

lemma pitem_resumes:
  assumes "rd_err r = 0" and "nat (rd_ridx r) < length (rd_task r)"
  shows "resumes y h (pitem strtod M) (pitem strtod M (u, r, h)) (pitem strtod M (u @ y, r, h))"
proof (cases "rt_type (cur_task r) < 0")
  case False
  then have "resumes y h (pitem strtod M) (ptyped strtod M (u, r, h)) (ptyped strtod M (u @ y, r, h))"
    using assms by (intro ptyped_resumes) (simp_all add: pitem_def)
  with False show ?thesis by (simp add: pitem_def)
next
  case True
  show ?thesis
  proof (cases u)
    case Nil
    then have "pitem strtod M (u, r, h) = Some (REDIS_ERR, u, r, h)" using True by (simp add: pitem_def)
    then show ?thesis using Nil assms(1) by (simp add: resumes_idle)
  next
    case (Cons c v)
    show ?thesis
    proof (cases "reply_type c")
      case None
      have "resumes y h (pitem strtod M) (left [] (fail_with (SetErrorProtocolByte c (r, h))))
          (left [] (fail_with (SetErrorProtocolByte c (r, h))))"
        by (rule resumes_left_error [OF done_byte]) (rule fail_with_ERR)
      with None True Cons show ?thesis by (simp add: pitem_def)
    next
      case (Some ty)
      let ?r = "upd_task r (rd_ridx r) (\<lambda>t. t\<lparr>rt_type := ty\<rparr>)"
      have ty: "rt_type (cur_task ?r) = ty" "0 < ty"
        using cur_task_upd [OF assms(2)] reply_type_pos [OF Some] by simp_all
      have "resumes y h (pitem strtod M) (ptyped strtod M (v, ?r, h)) (ptyped strtod M (v @ y, ?r, h))"
        using assms ty by (intro ptyped_resumes) (auto simp: pitem_def upd_task_def [of r])
      with True Cons Some show ?thesis by (simp add: pitem_def)
    qed
  qed
qed

section \<open>The bounds of the task stack\<close>

definition stack_ok :: "'h redisReader \<Rightarrow> bool" where
  "stack_ok r \<longleftrightarrow> length (rd_task r) = rd_tasks r \<and> 0 < rd_tasks r \<and> - 1 \<le> rd_ridx r
     \<and> rd_ridx r < int (rd_tasks r)"

lemma moveToNextTask_ridx:
  "moveToNextTask r = Some r' \<Longrightarrow> - 1 \<le> rd_ridx r \<Longrightarrow> - 1 \<le> rd_ridx r' \<and> rd_ridx r' \<le> rd_ridx r"
proof (induction r rule: moveToNextTask.induct)
  case (1 r)
  note IH = "1.IH" [OF _ _ refl refl]
  show ?case
    using "1.prems" IH
    by (subst (asm) moveToNextTask.simps) (auto simp: Let_def upd_task_def split: if_splits)
qed

lemma stack_ok_next:
  assumes "stack_ok r" and "moveToNextTask r = Some r'" shows "stack_ok r'"
  using moveToNextTask_keeps [OF assms(2)] moveToNextTask_ridx [OF assms(2)] assms(1)
  by (auto simp: stack_ok_def)

lemma stack_ok_set_reply [simp]: "stack_ok (r\<lparr>rd_reply := p\<rparr>) = stack_ok r"
  by (simp add: stack_ok_def)

lemma stack_ok_push: "stack_ok r \<Longrightarrow> rd_ridx r + 1 < int (rd_tasks r) \<Longrightarrow> stack_ok (push_task n p r)"
  by (simp add: stack_ok_def push_task_def upd_task_def Let_def)

definition keeps_stack :: "(int \<times> 'h rstate) option \<Rightarrow> bool" where
  "keeps_stack x \<longleftrightarrow> (case x of None \<Rightarrow> True | Some (st, r, h) \<Rightarrow> stack_ok r)"

lemma keeps_stack_None [simp]: "keeps_stack None"
  by (simp add: keeps_stack_def)

lemma keeps_stack_fail: "stack_ok r \<Longrightarrow> keeps_stack (fail_with (redisReaderSetError ty str (r, h)))"
  by (auto simp: keeps_stack_def fail_with_def stack_ok_def dest!: redisReaderSetError_cases split: option.splits)

lemma keeps_stack_protocol: "stack_ok r \<Longrightarrow> keeps_stack (protocol_error msg (r, h))"
  unfolding protocol_error_def by (rule keeps_stack_fail)

lemma keeps_stack_OOM: "stack_ok r \<Longrightarrow> keeps_stack (fail_with (SetErrorOOM (r, h)))"
  unfolding SetErrorOOM_def by (rule keeps_stack_fail)

lemma keeps_stack_byte: "stack_ok r \<Longrightarrow> keeps_stack (fail_with (SetErrorProtocolByte c (r, h)))"
  unfolding SetErrorProtocolByte_def Let_def by (rule keeps_stack_fail)

lemma keeps_stack_map:
  assumes "\<And>r1. x = Some r1 \<Longrightarrow> stack_ok r1"
  shows "keeps_stack (map_option (\<lambda>r. (REDIS_OK, if c then r\<lparr>rd_reply := obj\<rparr> else r, h)) x)"
    and "keeps_stack (map_option (\<lambda>r. (REDIS_OK, r, h)) x)"
  using assms by (cases x; simp add: keeps_stack_def)+

lemma keeps_stack_finish:
  assumes "stack_ok r" shows "keeps_stack (finish_item obj (r, h))"
proof -
  have "stack_ok (if rd_ridx r = 0 then r\<lparr>rd_reply := obj\<rparr> else r)" using assms by simp
  from keeps_stack_map(2) [OF stack_ok_next [OF this]] keeps_stack_OOM [OF assms] show ?thesis
    by (simp add: finish_item_def)
qed

lemma keeps_stack_aggregate:
  assumes "stack_ok r" and "rd_ridx r + 1 < int (rd_tasks r)"
  shows "keeps_stack (aggregate_elements M p (r, h))"
proof (cases "string2ll p")
  case (Some e)
  have n: "keeps_stack (map_option (\<lambda>r. (REDIS_OK, if c then r\<lparr>rd_reply := obj\<rparr> else r, h'))
      (if 0 < n then Some (push_task n obj r) else moveToNextTask r))"
    and m: "keeps_stack (map_option (\<lambda>r. (REDIS_OK, if c then r\<lparr>rd_reply := obj\<rparr> else r, h'))
      (moveToNextTask r))" for n c obj h'
    using stack_ok_push [OF assms] stack_ok_next [OF assms(1)]
    by (rule_tac [!] keeps_stack_map(1)) (auto split: if_splits)
  have i: "(c \<Longrightarrow> keeps_stack a) \<Longrightarrow> (\<not> c \<Longrightarrow> keeps_stack b) \<Longrightarrow> keeps_stack (if c then a else b)"
    for c and a b :: "(int \<times> 'a rstate) option" by simp
  have k: "(\<And>obj h. keeps_stack (f obj h)) \<Longrightarrow> keeps_stack (case x of None \<Rightarrow> None | Some (obj, h) \<Rightarrow> f obj h)"
    for x and f :: "ptr \<Rightarrow> 'a \<Rightarrow> (int \<times> 'a rstate) option" by (simp split: option.split prod.split)
  show ?thesis unfolding aggregate_elements_def Let_def prod.case Some option.case
    by (intro i k n m keeps_stack_protocol keeps_stack_OOM assms(1))
qed (simp add: aggregate_elements_def keeps_stack_protocol assms)

definition keeps_pstack :: "(int \<times> 'h pstate) option \<Rightarrow> bool" where
  "keeps_pstack x \<longleftrightarrow> (case x of None \<Rightarrow> True | Some (st, u, r, h) \<Rightarrow> stack_ok r)"

lemma keeps_left: "keeps_stack x \<Longrightarrow> keeps_pstack (left v x)"
  by (auto simp: keeps_stack_def keeps_pstack_def left_def split: option.splits)

lemma keeps_pstack_simps [simp]: "keeps_pstack None" "keeps_pstack (Some (st, u, r, h)) = stack_ok r"
  by (simp_all add: keeps_pstack_def)

lemma pline_stack: "stack_ok r \<Longrightarrow> keeps_pstack (pline strtod M (u, r, h))"
  by (auto simp: pline_def keeps_stack_protocol keeps_stack_finish split: option.split item.split intro!: keeps_left)

lemma pbulk_stack:
  assumes "stack_ok r" shows "keeps_pstack (pbulk M (u, r, h))"
proof -
  note p = keeps_left [OF keeps_stack_protocol [OF assms]]
  have f: "keeps_pstack (case x of None \<Rightarrow> None | Some (obj, h) \<Rightarrow> left w (finish_item obj (r, h)))" for x w
    using keeps_left [OF keeps_stack_finish [OF assms]] by (simp split: option.split prod.split)
  show ?thesis using p f assms by (auto simp: pbulk_def Let_def split: option.split if_split)
qed

lemma paggr_line_stack:
  "stack_ok r \<Longrightarrow> rd_ridx r + 1 < int (rd_tasks r) \<Longrightarrow> keeps_pstack (paggr_line M (u, r, h))"
  by (auto simp: paggr_line_def keeps_stack_aggregate split: option.split intro!: keeps_left)

lemma paggr_stack:
  assumes "stack_ok r" shows "keeps_pstack (paggr M (u, r, h))"
proof -
  let ?r = "r\<lparr>rd_task := rd_task r @ replicate REDIS_READER_STACK_SIZE zero_task,
               rd_tasks := rd_tasks r + REDIS_READER_STACK_SIZE\<rparr>"
  have "keeps_pstack (paggr_line M (u, ?r, h))"
    using assms by (intro paggr_line_stack) (auto simp: stack_ok_def REDIS_READER_STACK_SIZE_def)
  moreover have "keeps_pstack (paggr_line M (u, r, h))" if "rd_ridx r \<noteq> int (rd_tasks r) - 1"
    using assms that by (intro paggr_line_stack) (auto simp: stack_ok_def)
  ultimately show ?thesis
    using keeps_left [OF keeps_stack_OOM [OF assms]] by (simp add: paggr_unfold)
qed

lemma pitem_stack:
  assumes "stack_ok r" shows "keeps_pstack (pitem strtod M (u, r, h))"
proof -
  have t: "keeps_pstack (ptyped strtod M (u, r, h))" if "stack_ok r" for u and r :: "'a redisReader"
    using that by (simp add: ptyped_def Let_def pline_stack pbulk_stack paggr_stack)
  have "stack_ok (upd_task r (rd_ridx r) f)" for f using assms by (simp add: stack_ok_def upd_task_def)
  with assms show ?thesis
    by (auto simp: pitem_def t keeps_stack_byte split: list.split option.split intro!: keeps_left)
qed

lemma ploop_stack:
  "stack_ok r \<Longrightarrow> ploop strtod Ms n (u, r, h) = Some (u', r', h') \<Longrightarrow> stack_ok r'"
proof (induction n arbitrary: Ms u r h)
  case (Suc n)
  show ?case
  proof (cases "0 \<le> rd_ridx r")
    case True
    then obtain st u1 r1 h1 where x: "pitem strtod (Ms 0) (u, r, h) = Some (st, u1, r1, h1)"
      using Suc.prems(2) by (auto split: option.splits)
    with pitem_stack [OF Suc.prems(1), of strtod "Ms 0" u h] Suc True show ?thesis
      by (auto split: if_splits)
  qed (use Suc.prems in simp)
qed simp

section \<open>What an incomplete round leaves\<close>

definition pidle :: "bytes \<Rightarrow> int \<Rightarrow> (int \<times> 'h pstate) option \<Rightarrow> bool" where
  "pidle u i x \<longleftrightarrow> (case x of None \<Rightarrow> True
     | Some (st, u', r', h') \<Rightarrow> length u' \<le> length u \<and>
         (st \<noteq> REDIS_OK \<and> rd_err r' = 0 \<longrightarrow> rd_ridx r' = i))"

lemma pidle_left: "done_item x \<Longrightarrow> length v \<le> length u \<Longrightarrow> pidle u i (left v x)"
  by (auto simp: pidle_def done_item_def left_def split: option.splits)

lemma pidle_simps [simp]: "pidle u i None"
  "pidle u i (Some (st, u', r', h')) \<longleftrightarrow>
     length u' \<le> length u \<and> (st \<noteq> REDIS_OK \<and> rd_err r' = 0 \<longrightarrow> rd_ridx r' = i)"
  by (simp_all add: pidle_def)

lemma pline_idle: "rd_err r = 0 \<Longrightarrow> pidle u (rd_ridx r) (pline strtod M (u, r, h))"
  by (auto simp: pline_def done_protocol done_finish split: option.split item.split
      intro!: pidle_left dest!: find_line_shorter)

lemma pbulk_idle:
  assumes "rd_err r = 0" shows "pidle u (rd_ridx r) (pbulk M (u, r, h))"
proof -
  have p: "pidle u i (left [] (protocol_error msg (r, h)))" for msg i
    by (rule pidle_left [OF done_protocol]) simp
  have f: "pidle u i (case x of None \<Rightarrow> None | Some (obj, h) \<Rightarrow> left w (finish_item obj (r, h)))"
    if "length w \<le> length u" for x w i
    using pidle_left [OF done_finish [OF assms] that] by (simp split: option.split prod.split)
  have i: "(c \<Longrightarrow> pidle u i a) \<Longrightarrow> (\<not> c \<Longrightarrow> pidle u i b) \<Longrightarrow> pidle u i (if c then a else b)"
    for c i and a b :: "(int \<times> 'a pstate) option" by simp
  have n: "pidle u (rd_ridx r) (Some (REDIS_ERR, u, r, h))" by simp
  show ?thesis
  proof (cases "find_line u")
    case (Some lv)
    then obtain l v where l: "find_line u = Some (l, v)" by (cases lv) auto
    have "length v \<le> length u" "length (drop k v) \<le> length u" for k
      using find_line_shorter [OF l] by simp_all
    then show ?thesis
      by (cases "string2ll l")
        (simp add: pbulk_def l p, simp only: pbulk_def l prod.case option.case Let_def, intro i p f n)
  qed (simp add: pbulk_def)
qed

lemma paggr_idle:
  assumes "rd_err r = 0" shows "pidle u (rd_ridx r) (paggr M (u, r, h))"
proof -
  have "pidle u i (paggr_line M (u, r', h))" if "rd_err r' = 0" "rd_ridx r' = i" for r' i
    using that done_aggregate [OF that(1)]
    by (auto simp: paggr_line_def split: option.split intro!: pidle_left dest!: find_line_shorter)
  moreover have "pidle u i (left [] (fail_with (SetErrorOOM (r, h))))" for i
    by (rule pidle_left [OF done_OOM]) simp
  ultimately show ?thesis using assms by (simp add: paggr_unfold)
qed

lemma pidle_more: "pidle u i x \<Longrightarrow> pidle (c # u) i x"
  by (auto simp: pidle_def split: option.splits)

lemma pitem_idle:
  assumes "rd_err r = 0" shows "pidle u (rd_ridx r) (pitem strtod M (u, r, h))"
proof -
  have t: "pidle u (rd_ridx r) (ptyped strtod M (u, r, h))" if "rd_err r = 0" for u and r :: "'a redisReader"
    using that by (simp add: ptyped_def Let_def pline_idle pbulk_idle paggr_idle)
  have "pidle v (rd_ridx r) (ptyped strtod M (v, upd_task r (rd_ridx r) f, h))" for f v
    using t [of "upd_task r (rd_ridx r) f" v] assms by (simp add: upd_task_def)
  then show ?thesis using t [OF assms]
    by (auto simp: pitem_def done_byte split: list.split option.split intro!: pidle_left pidle_more)
qed

end
