(* ===== verification/ReaderFeed.thy ===== *)
theory ReaderFeed
  imports ReaderSpec
begin

text \<open>
  The public calls of the reader in terms of the reference parser: feeding appends to the
  unread bytes, extracting a reply is one run of the reference loop, and how the input was cut
  into pieces does not matter. The error state is final.
\<close>

section \<open>The loop on extended input\<close>

definition unfinished :: "'h pstate \<Rightarrow> bool" where
  "unfinished s \<longleftrightarrow> rd_err (fst (snd s)) = 0 \<and> 0 \<le> rd_ridx (fst (snd s))"

lemma stack_ok_nat: "stack_ok r \<Longrightarrow> 0 \<le> rd_ridx r \<Longrightarrow> nat (rd_ridx r) < length (rd_task r)"
  by (auto simp: stack_ok_def)

lemma ploop_append:
  assumes "rd_err r = 0" and "stack_ok r" and "length u < n" and "length (u @ y) < m"
  shows "case ploop strtod (\<lambda>_. M) n (u, r, h) of
      None \<Rightarrow> ploop strtod (\<lambda>_. M) m (u @ y, r, h) = None
    | Some (u', r', h') \<Rightarrow> stack_ok r' \<and> length u' \<le> length u \<and>
        ploop strtod (\<lambda>_. M) m (u @ y, r, h) =
          (if rd_err r' \<noteq> 0 then Some ([], r', h')
           else if rd_ridx r' < 0 then Some (u' @ y, r', h')
           else ploop strtod (\<lambda>_. M) m (u' @ y, r', h'))"
  using assms
proof (induction n arbitrary: u r h m)
  case (Suc n)
  obtain m' where m: "m = Suc m'" using Suc.prems(4) by (cases m) auto
  show ?case
  proof (cases "0 \<le> rd_ridx r")
    case False
    then show ?thesis using Suc.prems m by simp
  next
    case ridx: True
    note res = pitem_resumes [OF Suc.prems(1) stack_ok_nat [OF Suc.prems(2) ridx], of y h strtod M u]
    show ?thesis
    proof (cases "pitem strtod M (u, r, h)")
      case None
      with res ridx m show ?thesis by (simp add: resumes_def)
    next
      case (Some x)
      obtain st u1 r1 h1 where x: "pitem strtod M (u, r, h) = Some (st, u1, r1, h1)" using Some by (cases x) auto
      have st: "stack_ok r1" using pitem_stack [OF Suc.prems(2), of strtod M u h] x by simp
      show ?thesis
      proof (cases "st = REDIS_OK")
        case True
        then have y: "rd_err r1 = 0" "pitem strtod M (u @ y, r, h) = Some (REDIS_OK, u1 @ y, r1, h1)"
          using res x by (simp_all add: resumes_def)
        have l: "length u1 < length u" using x True by (simp add: pitem_progress)
        have "case ploop strtod (\<lambda>_. M) n (u1, r1, h1) of
            None \<Rightarrow> ploop strtod (\<lambda>_. M) m' (u1 @ y, r1, h1) = None
          | Some (u', r', h') \<Rightarrow> stack_ok r' \<and> length u' \<le> length u1 \<and>
              ploop strtod (\<lambda>_. M) m' (u1 @ y, r1, h1) =
                (if rd_err r' \<noteq> 0 then Some ([], r', h')
                 else if rd_ridx r' < 0 then Some (u' @ y, r', h')
                 else ploop strtod (\<lambda>_. M) m' (u' @ y, r', h'))"
          using l y(1) st Suc.prems m by (intro Suc.IH) auto
        moreover have eq: "ploop strtod (\<lambda>_. M) m' (u' @ y, r', h') = ploop strtod (\<lambda>_. M) m (u' @ y, r', h')"
          if "length u' \<le> length u1" for u' and r' :: "'a redisReader" and h'
          using that l Suc.prems(4) m by (intro ploop_enough) auto
        moreover have "ploop strtod (\<lambda>_. M) (Suc n) (u, r, h) = ploop strtod (\<lambda>_. M) n (u1, r1, h1)"
          "ploop strtod (\<lambda>_. M) m (u @ y, r, h) = ploop strtod (\<lambda>_. M) m' (u1 @ y, r1, h1)"
          using x y ridx True m by simp_all
        ultimately show ?thesis using l
          by (cases "ploop strtod (\<lambda>_. M) n (u1, r1, h1)") (simp_all split: prod.splits)
      next
        case False
        then have e: "st = REDIS_ERR" "rd_err r1 = 0 \<longrightarrow> h1 = h \<and> pitem strtod M (u @ y, r, h) = pitem strtod M (u1 @ y, r1, h)"
          "rd_err r1 \<noteq> 0 \<longrightarrow> u1 = [] \<and> pitem strtod M (u @ y, r, h) = Some (REDIS_ERR, [], r1, h1)"
          using res x by (auto simp: resumes_def split: if_splits)
        note idle = pitem_idle [OF Suc.prems(1), of u strtod M h, unfolded x]
        then have l: "length u1 \<le> length u" by simp
        show ?thesis
        proof (cases "rd_err r1 = 0")
          case True
          then have "0 \<le> rd_ridx r1" using idle False ridx by simp
          with True e x ridx False m l st show ?thesis by simp
        next
          case err: False
          with e x ridx False m l st show ?thesis by simp
        qed
      qed
    qed
  qed
qed simp

section \<open>Feeding\<close>

lemma pabs_set_buf: "pabs (r\<lparr>rd_buf := Some s, rd_pos := p, rd_len := l\<rparr>, h) = (drop p (sdsval s), erase r, h)"
  by (simp add: pabs_def unread_def erase_def)

lemma redisReaderFeed_spec:
  assumes "buf_wf r" and "rd_err r = 0" and "redisReaderFeed M t (r, h) = Some (REDIS_OK, r', h')"
    and "length (unread r) + length t < 2 ^ 31" and "rd_len r + length t < 2 ^ 62"
  shows "buf_wf r' \<and> rd_err r' = 0 \<and> pabs (r', h') = (unread r @ t, erase r, h)
    \<and> (t \<noteq> [] \<longrightarrow> rd_len r' \<noteq> 0) \<and> rd_len r' \<le> rd_len r + length t"
proof (cases "t = []")
  case True
  with assms show ?thesis by (auto simp: redisReaderFeed_def pabs_def)
next
  case False
  obtain s where s: "rd_buf r = Some s" "sds_wf s" "rd_len r = sdslen s" "rd_pos r \<le> rd_len r"
    "unread r = drop (rd_pos r) (sdsval s)" "length (unread r) = rd_len r - rd_pos r"
    using assms(1) by (rule buf_wfE)
  let ?d = "rd_len r = 0 \<and> rd_maxbuf r \<noteq> 0 \<and> rd_maxbuf r < sdsavail s"
  have st: "fail_with x \<noteq> Some (REDIS_OK, r', h')" for x by (auto simp: fail_with_def)
  obtain s1 where s1: "(if ?d then sdsempty M else Some s) = Some s1"
    using assms(2,3) s(1) False st by (auto simp: redisReaderFeed_def Let_def Suc_le_eq split: option.splits if_splits)
  define p where "p = (if ?d then 0 else rd_pos r)"
  have w1: "sds_wf s1" "sdslen s1 = sdslen s" "drop p (sdsval s1) = unread r" "p \<le> sdslen s1"
    using s1 s sdsempty_wf [of M s1] by (auto simp: p_def split: if_splits)
  obtain s2 where s2: "sdscatlen M s1 t = Some s2"
    and r': "r' = r\<lparr>rd_buf := Some s2, rd_pos := p, rd_len := sdslen s2\<rparr>" and h': "h' = h"
    using assms(2,3) s(1) s1 False st
    by (cases "sdscatlen M s1 t") (auto simp: redisReaderFeed_def Let_def Suc_le_eq p_def split: if_splits)
  have w2: "sds_wf s2" "sdsval s2 = sdsval s1 @ t" "sdslen s2 = sdslen s1 + length t"
    using sdscatlen_wf [OF w1(1) s2] assms(5) s(3) w1(2) by simp_all
  have "length (sdsval s1) = sdslen s1" using w1(1) sds_shape_len [of s1] by (simp add: sdsval_def sds_wf_def)
  then have u: "drop p (sdsval s2) = unread r @ t" using w2(2) w1(3,4) by simp
  have "sdslen s2 - p = length (unread r) + length t"
    using w2(3) w1(2,4) s(3,6) s(4) by (auto simp: p_def split: if_splits)
  then have "buf_wf r'" using r' w2 w1 s assms(4,5) by (simp add: buf_wf_def)
  then show ?thesis using r' h' u w2(3) w1(2) s(3) assms(2) False by (simp add: pabs_set_buf)
qed

section \<open>Extracting a reply\<close>

lemma discard_consumed_spec:
  assumes "buf_wf r"
  shows "\<exists>r'. discard_consumed r = Some (REDIS_OK, r') \<and> buf_wf r' \<and> unread r' = unread r
    \<and> erase r' = erase r \<and> rd_len r' \<le> rd_len r \<and> rd_pos r' < 1024"
proof (cases "rd_pos r \<ge> 1024")
  case False
  with assms show ?thesis by (simp add: discard_consumed_def)
next
  case True
  obtain s where s: "rd_buf r = Some s" "sds_wf s" "rd_len r = sdslen s" "rd_pos r \<le> rd_len r"
    "rd_len r - rd_pos r < 2 ^ 31" "rd_len r < 2 ^ 62" "unread r = drop (rd_pos r) (sdsval s)"
    "length (unread r) = rd_len r - rd_pos r"
    using assms by (rule buf_wfE)
  have b: "sbits 64 (int (rd_pos r)) = int (rd_pos r)" using s by simp
  obtain rc s' where c: "sdsrange s (int (rd_pos r)) (-1) = (rc, s')" by (cases "sdsrange s (int (rd_pos r)) (-1)")
  have d: "rc = 0" "sds_wf s'" "sdsval s' = unread r"
    using sdsrange_drop [OF s(2), of "rd_pos r"] s c by (simp_all add: SSIZE_MAX_def)
  have "length (sdsval s') = sdslen s'" using d(2) sds_shape_len [of s'] by (simp add: sdsval_def sds_wf_def)
  then have l: "sdslen s' = rd_len r - rd_pos r" using d(3) s(8) by simp
  show ?thesis
    using True s(1,4,5,6) b c d l
    by (simp add: discard_consumed_def buf_wf_def unread_def [of "_\<lparr>rd_len := _\<rparr>"] erase_def)
qed

text \<open>Extraction on the reference parser.\<close>

definition pget :: "strtod_fn \<Rightarrow> (nat \<Rightarrow> mem) \<Rightarrow> 'h pstate \<Rightarrow> (int \<times> ptr \<times> 'h pstate) option" where
  "pget strtod Ms = (\<lambda>(u, r, h).
     case ploop strtod Ms (length u + 1) (u, start_task r, h) of
       None \<Rightarrow> None
     | Some (u, r, h) \<Rightarrow>
         if rd_err r \<noteq> 0 then Some (REDIS_ERR, NULL, u, r, h)
         else if rd_ridx r = -1 then Some (REDIS_OK, rd_reply r, u, r\<lparr>rd_reply := NULL\<rparr>, h)
         else Some (REDIS_OK, NULL, u, r, h))"

definition obs :: "(int \<times> ptr \<times> 'h rstate) option \<Rightarrow> (int \<times> ptr \<times> 'h pstate) option" where
  "obs = map_option (\<lambda>(st, p, s). (st, p, pabs s))"

lemma start_task_keeps:
  "buf_wf (start_task r) = buf_wf r" "unread (start_task r) = unread r" "rd_err (start_task r) = rd_err r"
  "start_task (erase r) = erase (start_task r)" "rd_len (start_task r) = rd_len r"
  by (simp_all add: start_task_def upd_task_def buf_wf_def unread_def erase_def cong: option.case_cong)

lemma stack_ok_erase [simp]: "stack_ok (erase r) = stack_ok r"
  by (simp add: stack_ok_def)

lemma start_task_stack: "stack_ok r \<Longrightarrow> stack_ok (start_task r)"
  by (auto simp: stack_ok_def start_task_def upd_task_def)

lemma loop_keeps_buf:
  assumes "buf_wf r" and "rd_err r = 0" and "process_loop strtod Ms n (r, h) = Some (r', h')" and "rd_err r' = 0"
  shows "buf_wf r' \<and> rd_len r' = rd_len r"
  using assms
proof (induction n arbitrary: Ms r h)
  case (Suc n)
  show ?case
  proof (cases "0 \<le> rd_ridx r")
    case True
    then obtain st r1 h1 where x: "processItem strtod (Ms 0) (r, h) = Some (st, r1, h1)"
      using Suc.prems(3) by (auto split: option.splits)
    show ?thesis
    proof (cases "st = REDIS_OK")
      case ok: True
      then have "moved r r1 \<and> buf_wf r1 \<and> rd_err r1 = 0" using processItem_OK [OF Suc.prems(1,2) x] by simp
      with Suc.IH [of r1 "\<lambda>i. Ms (Suc i)" h1] Suc.prems(3,4) x ok True show ?thesis by (simp add: moved_def)
    next
      case False
      with Suc.prems(3) x True have "r1 = r'" by simp
      with processItem_OK [OF Suc.prems(1,2) x] Suc.prems(4) show ?thesis by (simp add: moved_def)
    qed
  qed (use Suc.prems in simp)
qed simp

lemma set_reply_keeps: "unread (r\<lparr>rd_reply := p\<rparr>) = unread r" "buf_wf (r\<lparr>rd_reply := p\<rparr>) = buf_wf r"
  by (simp_all add: unread_def buf_wf_def cong: option.case_cong)

lemma redisReaderGetReply_spec:
  assumes "buf_wf r" and "rd_err r = 0" and "rd_len r \<noteq> 0"
  shows "obs (redisReaderGetReply strtod Ms True (r, h)) = pget strtod Ms (pabs (r, h))"
proof -
  have len: "length (unread r) \<le> rd_len r" using assms(1) by (rule buf_wfE) simp
  have w: "buf_wf (start_task r)" "rd_err (start_task r) = 0" using assms by (simp_all add: start_task_keeps)
  have "map_option pabs (process_loop strtod Ms (rd_len r + 1) (start_task r, h))
      = ploop strtod Ms (rd_len r + 1) (pabs (start_task r, h))"
    using w by (rule process_loop_refine)
  also have "\<dots> = ploop strtod Ms (length (unread r) + 1) (unread r, start_task (erase r), h)"
    unfolding pabs_def prod.case start_task_keeps using len by (intro ploop_enough) simp_all
  finally have L: "ploop strtod Ms (length (unread r) + 1) (unread r, start_task (erase r), h)
      = map_option pabs (process_loop strtod Ms (rd_len r + 1) (start_task r, h))" by simp
  show ?thesis
  proof (cases "process_loop strtod Ms (rd_len r + 1) (start_task r, h)")
    case None
    with L assms show ?thesis by (simp add: redisReaderGetReply_def pget_def pabs_def obs_def)
  next
    case (Some x)
    obtain r1 h1 where x: "x = (r1, h1)" by (cases x)
    show ?thesis
    proof (cases "rd_err r1 = 0")
      case False
      with Some x L assms show ?thesis by (simp add: redisReaderGetReply_def pget_def pabs_def obs_def)
    next
      case True
      have "buf_wf r1" using loop_keeps_buf [OF w Some [unfolded x] True] by simp
      then obtain r2 where d: "discard_consumed r1 = Some (REDIS_OK, r2)" "unread r2 = unread r1" "erase r2 = erase r1"
        using discard_consumed_spec by blast
      have f: "rd_ridx r2 = rd_ridx r1" "rd_reply r2 = rd_reply r1"
        using d(3) erase_simps(4,5) by metis+
      show ?thesis using Some x L assms True d f
        by (simp add: redisReaderGetReply_def pget_def pabs_def obs_def set_reply_keeps erase_set_reply [symmetric])
    qed
  qed
qed

text \<open>The states a reader can be in between calls.\<close>

definition reader_ready :: "'h redisReader \<Rightarrow> bool" where
  "reader_ready r \<longleftrightarrow> rd_err r = 0 \<and> buf_wf r \<and> stack_ok r"

lemma loop_error:
  assumes "buf_wf r" and "rd_err r = 0" and "process_loop strtod Ms n (r, h) = Some (r', h')" and "rd_err r' \<noteq> 0"
  shows "reader_dead r'"
  using assms
proof (induction n arbitrary: Ms r h)
  case (Suc n)
  then have "0 \<le> rd_ridx r" by (auto split: if_splits)
  then obtain st r1 h1 where x: "processItem strtod (Ms 0) (r, h) = Some (st, r1, h1)"
    using Suc.prems(3) by (auto split: option.splits)
  show ?case
  proof (cases "st = REDIS_OK")
    case True
    with processItem_OK [OF Suc.prems(1,2) x] Suc x \<open>0 \<le> rd_ridx r\<close> show ?thesis by auto
  next
    case False
    with Suc.prems(3) x \<open>0 \<le> rd_ridx r\<close> have "r1 = r'" by simp
    with processItem_error [OF Suc.prems(1,2) x] Suc.prems(4) show ?thesis by simp
  qed
qed simp

lemma redisReaderGetReply_pos:
  assumes "reader_ready r" and "redisReaderGetReply strtod Ms want (r, h) = Some (st, p, r', h')"
  shows "st = REDIS_OK \<and> reader_ready r' \<and> rd_len r' \<le> rd_len r \<and> (rd_len r \<noteq> 0 \<longrightarrow> rd_pos r' < 1024) \<or> st = REDIS_ERR \<and> p = NULL \<and> reader_dead r'"
proof (cases "rd_len r = 0")
  case True
  with assms show ?thesis by (auto simp: redisReaderGetReply_def reader_ready_def)
next
  case False
  have r: "buf_wf r" "rd_err r = 0" "stack_ok r" using assms(1) by (simp_all add: reader_ready_def)
  have w: "buf_wf (start_task r)" "rd_err (start_task r) = 0" "stack_ok (start_task r)"
    using r by (simp_all add: start_task_keeps start_task_stack)
  obtain r1 h1 where l: "process_loop strtod Ms (rd_len r + 1) (start_task r, h) = Some (r1, h1)"
    using assms(2) r(2) False
    by (auto simp: redisReaderGetReply_def simp del: process_loop.simps split: option.splits)
  show ?thesis
  proof (cases "rd_err r1 = 0")
    case err: False
    then have "st = REDIS_ERR \<and> p = NULL \<and> r' = r1"
      using assms(2) r(2) False l by (simp add: redisReaderGetReply_def del: process_loop.simps)
    with loop_error [OF w(1,2) l err] show ?thesis by simp
  next
    case e: True
    have "ploop strtod Ms (rd_len r + 1) (unread (start_task r), erase (start_task r), h) = Some (unread r1, erase r1, h1)"
      using process_loop_refine [OF w(1,2), of strtod Ms "rd_len r + 1" h] l by (simp only: pabs_def) simp
    from ploop_stack [OF _ this] w(3) have s: "stack_ok (erase r1)" by simp
    have k: "buf_wf r1" "rd_len r1 = rd_len r"
      using loop_keeps_buf [OF w(1,2) l e] by (simp_all add: start_task_keeps)
    then obtain r2 where d: "discard_consumed r1 = Some (REDIS_OK, r2)" "buf_wf r2" "erase r2 = erase r1" "rd_len r2 \<le> rd_len r1"
      "rd_pos r2 < 1024" using discard_consumed_spec by blast
    have er: "rd_err (erase r2) = 0" "stack_ok (erase r2)" using d(3) e s by simp_all
    then have "rd_err r2 = 0" "stack_ok r2" by simp_all
    then have "reader_ready r2" "reader_ready (r2\<lparr>rd_reply := NULL\<rparr>)"
      using d(2) by (simp_all add: reader_ready_def set_reply_keeps)
    moreover have "st = REDIS_OK \<and> (r' = r2 \<or> r' = r2\<lparr>rd_reply := NULL\<rparr>)"
      using assms(2) r(2) False l e d(1)
      by (auto simp: redisReaderGetReply_def simp del: process_loop.simps split: if_splits option.splits)
    ultimately show ?thesis using d k by auto
  qed
qed

lemma redisReaderGetReply_state:
  assumes "reader_ready r" and "redisReaderGetReply strtod Ms want (r, h) = Some (st, p, r', h')"
  shows "st = REDIS_OK \<and> reader_ready r' \<and> rd_len r' \<le> rd_len r \<or> st = REDIS_ERR \<and> p = NULL \<and> reader_dead r'"
  using redisReaderGetReply_pos [OF assms] by blast

text \<open>When everything has been read, little of the buffer is left behind.\<close>

lemma redisReaderGetReply_small:
  assumes "reader_ready r" and "rd_len r \<noteq> 0" and "redisReaderGetReply strtod Ms want (r, h) = Some (REDIS_OK, p, r', h')"
    and "unread r' = []"
  shows "rd_len r' < 1024"
proof -
  have "reader_ready r'" "rd_pos r' < 1024" using redisReaderGetReply_pos [OF assms(1,3)] assms(2) by auto
  then show ?thesis using assms(4) by (auto simp: reader_ready_def elim!: buf_wfE)
qed

lemma pget_cut:
  assumes "stack_ok r" and "rd_err r = 0" and "pget strtod (\<lambda>_. M) (u, r, h) = Some (REDIS_OK, p, u', r', h')"
    and "0 \<le> rd_ridx r'"
  shows "pget strtod (\<lambda>_. M) (u' @ y, r', h') = pget strtod (\<lambda>_. M) (u @ y, r, h)"
proof -
  have s: "stack_ok (start_task r)" "rd_err (start_task r) = 0"
    using assms(1,2) by (simp_all add: start_task_keeps start_task_stack)
  have l: "ploop strtod (\<lambda>_. M) (length u + 1) (u, start_task r, h) = Some (u', r', h')" and e: "rd_err r' = 0"
    using assms(3,4) by (auto simp: pget_def split: option.splits if_splits)
  have "length u' \<le> length u \<and> ploop strtod (\<lambda>_. M) (length (u @ y) + 1) (u @ y, start_task r, h)
      = ploop strtod (\<lambda>_. M) (length (u @ y) + 1) (u' @ y, r', h')"
    using ploop_append [OF s(2,1), of u "length u + 1" y "length (u @ y) + 1" strtod M h] l e assms(4) by simp
  moreover from this have "ploop strtod (\<lambda>_. M) (length (u @ y) + 1) (u' @ y, r', h')
      = ploop strtod (\<lambda>_. M) (length (u' @ y) + 1) (u' @ y, r', h')"
    by (intro ploop_enough) simp_all
  moreover have "start_task r' = r'" using assms(4) by (simp add: start_task_def)
  ultimately show ?thesis by (simp only: pget_def prod.case)
qed

section \<open>Runs of a reader\<close>

text \<open>A reader together with the number of bytes it has been fed so far, as clients use it.\<close>

inductive reader_run :: "nat \<Rightarrow> 'h rstate \<Rightarrow> bool" where
  create: "redisReaderCreateWithFunctions M fn = Some r \<Longrightarrow> reader_run 0 (r, h)"
| feed: "reader_run n (r, h) \<Longrightarrow> redisReaderFeed M t (r, h) = Some (st, r', h') \<Longrightarrow>
    reader_run (n + length t) (r', h')"
| get: "reader_run n (r, h) \<Longrightarrow> redisReaderGetReply strtod Ms want (r, h) = Some (st, p, r', h') \<Longrightarrow>
    reader_run n (r', h')"

lemma create_ready:
  assumes "redisReaderCreateWithFunctions M fn = Some r"
  shows "reader_ready r \<and> unread r = [] \<and> rd_len r = 0 \<and> rd_ridx r = -1 \<and> rd_fn r = fn \<and> rd_reply r = NULL
    \<and> rd_maxelements r = REDIS_READER_MAX_ARRAY_ELEMENTS \<and> rd_tasks r = 9 \<and> rd_task r = replicate 9 zero_task"
  using assms sdsempty_wf [of M]
  by (auto simp: redisReaderCreateWithFunctions_def reader_ready_def buf_wf_def stack_ok_def unread_def
      REDIS_READER_STACK_SIZE_def split: if_splits option.splits)

lemma create_granted:
  "\<forall>n. granted M n \<Longrightarrow> \<exists>r. redisReaderCreateWithFunctions M fn = Some r"
  using sdsnewlen_granted [of M "Some []" 0]
  by (auto simp: redisReaderCreateWithFunctions_def sdsempty_def split: option.split)

lemma feed_granted:
  assumes "buf_wf r" and "rd_err r = 0" and "\<forall>n. granted M n"
  shows "\<exists>r'. redisReaderFeed M t (r, h) = Some (REDIS_OK, r', h)"
proof -
  obtain s where s: "rd_buf r = Some s" using assms(1) by (rule buf_wfE)
  obtain e where "sdsempty M = Some e" using sdsnewlen_granted [OF assms(3)] by (auto simp: sdsempty_def)
  moreover obtain e' s' where "sdscatlen M e t = Some e'" "sdscatlen M s t = Some s'"
    using sdscatlen_granted [OF assms(3)] by blast
  ultimately show ?thesis using s assms(2)
    by (cases "rd_len r = 0 \<and> rd_maxbuf r \<noteq> 0 \<and> rd_maxbuf r < sdsavail s")
      (auto simp: redisReaderFeed_def Let_def split: option.split)
qed

lemma feed_state:
  assumes "reader_ready r" and "redisReaderFeed M t (r, h) = Some (st, r', h')"
    and "rd_len r + length t < 2 ^ 31"
  shows "st = REDIS_OK \<and> reader_ready r' \<and> rd_len r' \<le> rd_len r + length t \<or> st = REDIS_ERR \<and> reader_dead r'"
proof -
  have r: "buf_wf r" "rd_err r = 0" "stack_ok r" using assms(1) by (simp_all add: reader_ready_def)
  have u: "length (unread r) \<le> rd_len r" using r(1) by (rule buf_wfE) simp
  have oom: "st = REDIS_ERR \<and> reader_dead r'" if "fail_with (SetErrorOOM (x, h)) = Some (st, r', h')" for x
    using that by (auto simp: fail_with_def SetErrorOOM_def reader_dead_def REDIS_ERR_OOM_def
        dest!: redisReaderSetError_cases)
  show ?thesis
  proof (cases "st = REDIS_OK")
    case True
    with redisReaderFeed_spec [OF r(1,2)] assms(2,3) u
    have f: "buf_wf r'" "rd_err r' = 0" "erase r' = erase r" "rd_len r' \<le> rd_len r + length t"
      by (simp_all add: pabs_def)
    have "stack_ok r'" using f(3) r(3) stack_ok_erase by metis
    then show ?thesis using True f by (simp add: reader_ready_def)
  next
    case False
    with assms(2) r(1,2) oom show ?thesis
      by (auto simp: redisReaderFeed_def Let_def elim!: buf_wfE split: if_splits option.splits)
  qed
qed

lemma dead_feed: "reader_dead r \<Longrightarrow> redisReaderFeed M t (r, h) = Some (REDIS_ERR, r, h)"
  by (simp add: reader_dead_def redisReaderFeed_def)

lemma dead_get: "reader_dead r \<Longrightarrow> redisReaderGetReply strtod Ms want (r, h) = Some (REDIS_ERR, NULL, r, h)"
  by (simp add: reader_dead_def redisReaderGetReply_def)

lemma reader_run_state:
  "reader_run n rh \<Longrightarrow> n < 2 ^ 31 \<Longrightarrow> reader_ready (fst rh) \<and> rd_len (fst rh) \<le> n \<or> reader_dead (fst rh)"
proof (induction rule: reader_run.induct)
  case (create M fn r h)
  with create_ready show ?case by fastforce
next
  case (feed n r h M t st r' h')
  then consider "reader_ready r" "rd_len r \<le> n" | "reader_dead r" by auto
  then show ?case
  proof cases
    case 1
    with feed_state [OF 1(1) feed.hyps(2)] feed.prems show ?thesis by auto
  next
    case 2
    with dead_feed [OF 2, of M t h] feed.hyps(2) show ?thesis by simp
  qed
next
  case (get n r h strtod Ms want st p r' h')
  then consider "reader_ready r" "rd_len r \<le> n" | "reader_dead r" by auto
  then show ?case
  proof cases
    case 1
    with redisReaderGetReply_state [OF 1(1) get.hyps(2)] show ?thesis by auto
  next
    case 2
    with dead_get [OF 2, of strtod Ms want h] get.hyps(2) show ?thesis by simp
  qed
qed

section \<open>A small example\<close>

text \<open>A new reader without object functions, fed with some bytes.\<close>

definition no_strtod :: strtod_fn where "no_strtod = (\<lambda>_. (0, 0))"

lemma example_feed:
  fixes r :: "unit redisReader"
  assumes "redisReaderCreateWithFunctions mem_ok None = Some r" and "t \<noteq> []" and "length t < 2 ^ 31"
  obtains r1 where "redisReaderFeed mem_ok t (r, ()) = Some (REDIS_OK, r1, ())" "reader_ready r1"
    "rd_len r1 \<noteq> 0" "pabs (r1, ()) = (t, erase r, ())" "rd_len r1 \<le> length t"
proof -
  have r: "reader_ready r" "unread r = []" "rd_len r = 0" using create_ready [OF assms(1)] by simp_all
  then have w: "buf_wf r" "rd_err r = 0" by (simp_all add: reader_ready_def)
  obtain r1 where f: "redisReaderFeed mem_ok t (r, ()) = Some (REDIS_OK, r1, ())"
    using feed_granted [OF w, of mem_ok t "()"] by auto
  have s: "length (unread r) + length t < 2 ^ 31" "rd_len r + length t < 2 ^ 62" using r assms(3) by simp_all
  have "pabs (r1, ()) = (t, erase r, ())" "rd_len r1 \<noteq> 0" "rd_len r1 \<le> length t"
    using redisReaderFeed_spec [OF w f s] r assms(2) by simp_all
  moreover have "reader_ready r1" using feed_state [OF r(1) f] r(3) assms(3) by simp
  ultimately show thesis using f that by blast
qed

lemma example_partial:
  fixes r :: "unit redisReader"
  assumes "redisReaderCreateWithFunctions mem_ok None = Some r"
  shows "\<exists>u r'. pget no_strtod (\<lambda>_. mem_ok) (''+O'', erase r, ()) = Some (REDIS_OK, NULL, u, r', ()) \<and> rd_ridx r' = 0"
  using create_ready [OF assms]
  by (simp add: pget_def start_task_def upd_task_def pitem_def cur_task_def ptyped_def pline_def
      reply_type_def is_line_type_def reader_ready_def)

section \<open>Properties\<close>

text \<open>C10: The parser with its \<open>sds\<close> buffer, cursor and length refines the reference parser on plain
  byte lists: on every usable reader, extracting a reply gives the status, the reply, the
  remaining bytes, the task stack and the object state that the reference computes, aborts
  included.\<close>

theorem redisReaderGetReply_refines:
  assumes "reader_ready r" and "rd_len r \<noteq> 0"
  shows "obs (redisReaderGetReply strtod Ms True (r, h)) = pget strtod Ms (pabs (r, h))"
  using assms by (intro redisReaderGetReply_spec) (simp_all add: reader_ready_def)

theorem redisReaderGetReply_refines_witness:
  "\<exists>(r :: unit redisReader) r1. redisReaderCreateWithFunctions mem_ok None = Some r
    \<and> redisReaderFeed mem_ok ''+OK'' (r, ()) = Some (REDIS_OK, r1, ())
    \<and> obs (redisReaderGetReply no_strtod (\<lambda>_. mem_ok) True (r1, ())) = pget no_strtod (\<lambda>_. mem_ok) (''+OK'', erase r, ())"
proof -
  obtain r :: "unit redisReader" where r: "redisReaderCreateWithFunctions mem_ok None = Some r"
    using create_granted [of mem_ok] by auto
  obtain r1 where f: "redisReaderFeed mem_ok ''+OK'' (r, ()) = Some (REDIS_OK, r1, ())" "reader_ready r1"
    "rd_len r1 \<noteq> 0" "pabs (r1, ()) = (''+OK'', erase r, ())"
    by (rule example_feed [OF r, of "''+OK''"]) simp_all
  show ?thesis using redisReaderGetReply_refines [OF f(2,3), of no_strtod "\<lambda>_. mem_ok" "()"] r f by auto
qed



text \<open>C11: How the input is cut into pieces does not matter: if a reply was still incomplete after
  feeding \<open>a\<close>, then feeding \<open>b\<close> and asking again gives the same status, reply, remaining input,
  task stack and objects as feeding \<open>a @ b\<close> at once.\<close>

theorem redisReader_chunks:
  assumes "reader_ready r" and "a \<noteq> []" and "b \<noteq> []"
    and "rd_len r + length a + length b < 2 ^ 31"
    and "redisReaderFeed M a (r, h) = Some (REDIS_OK, r1, h1)"
    and "redisReaderGetReply strtod (\<lambda>_. M) True (r1, h1) = Some (REDIS_OK, p, r2, h2)" and "0 \<le> rd_ridx r2"
    and "redisReaderFeed M b (r2, h2) = Some (REDIS_OK, r3, h3)"
    and "redisReaderFeed M (a @ b) (r, h) = Some (REDIS_OK, r', h')"
  shows "obs (redisReaderGetReply strtod (\<lambda>_. M) True (r3, h3))
    = obs (redisReaderGetReply strtod (\<lambda>_. M) True (r', h'))"
proof -
  have w: "buf_wf r" "rd_err r = 0" "stack_ok r" using assms(1) by (simp_all add: reader_ready_def)
  have ul: "length (unread x) \<le> rd_len x" if "buf_wf x" for x :: "'a redisReader"
    using that by (rule buf_wfE) simp
  have f1: "buf_wf r1" "rd_err r1 = 0" "unread r1 = unread r @ a" "erase r1 = erase r" "h1 = h" "rd_len r1 \<noteq> 0"
    "rd_len r1 \<le> rd_len r + length a"
    using redisReaderFeed_spec [OF w(1,2) assms(5)] ul [OF w(1)] assms(2,4) by (simp_all add: pabs_def)
  have f': "buf_wf r'" "rd_err r' = 0" "pabs (r', h') = (unread r @ a @ b, erase r, h)" "rd_len r' \<noteq> 0"
    using redisReaderFeed_spec [OF w(1,2) assms(9)] ul [OF w(1)] assms(2,4) by simp_all
  have "reader_ready r1"
    using f1(1,2,4) w(3) by (auto simp: reader_ready_def stack_ok_def) (metis erase_simps(2-4))+
  then have g: "buf_wf r2" "rd_err r2 = 0" "rd_len r2 \<le> rd_len r1"
    using redisReaderGetReply_state [OF _ assms(6)] by (auto simp: reader_ready_def)
  have p1: "pget strtod (\<lambda>_. M) (unread r @ a, erase r, h) = Some (REDIS_OK, p, unread r2, erase r2, h2)"
    using redisReaderGetReply_spec [OF f1(1,2,6), of strtod "\<lambda>_. M" h1] assms(6) f1 by (simp add: obs_def pabs_def)
  have f3: "buf_wf r3" "rd_err r3 = 0" "pabs (r3, h3) = (unread r2 @ b, erase r2, h2)" "rd_len r3 \<noteq> 0"
    using redisReaderFeed_spec [OF g(1,2) assms(8)] ul [OF g(1)] g(3) f1(7) assms(3,4) by simp_all
  have "pget strtod (\<lambda>_. M) (unread r2 @ b, erase r2, h2) = pget strtod (\<lambda>_. M) ((unread r @ a) @ b, erase r, h)"
    using p1 w(2,3) assms(7) by (intro pget_cut) (simp_all add: stack_ok_def)
  then show ?thesis
    using redisReaderGetReply_spec [OF f3(1,2,4), of strtod "\<lambda>_. M" h3]
      redisReaderGetReply_spec [OF f'(1,2,4), of strtod "\<lambda>_. M" h'] f3(3) f'(3) by simp
qed

theorem redisReader_chunks_witness:
  "\<exists>(r :: unit redisReader) r1 r2 r3 r'. redisReaderCreateWithFunctions mem_ok None = Some r
    \<and> redisReaderFeed mem_ok ''+O'' (r, ()) = Some (REDIS_OK, r1, ())
    \<and> redisReaderGetReply no_strtod (\<lambda>_. mem_ok) True (r1, ()) = Some (REDIS_OK, NULL, r2, ())
    \<and> redisReaderFeed mem_ok [CHR ''K'', CR, LF] (r2, ()) = Some (REDIS_OK, r3, ())
    \<and> redisReaderFeed mem_ok (''+O'' @ [CHR ''K'', CR, LF]) (r, ()) = Some (REDIS_OK, r', ())
    \<and> obs (redisReaderGetReply no_strtod (\<lambda>_. mem_ok) True (r3, ()))
      = obs (redisReaderGetReply no_strtod (\<lambda>_. mem_ok) True (r', ()))"
proof -
  let ?b = "[CHR ''K'', CR, LF]"
  obtain r :: "unit redisReader" where r: "redisReaderCreateWithFunctions mem_ok None = Some r"
    using create_granted [of mem_ok] by auto
  obtain r1 where f: "redisReaderFeed mem_ok ''+O'' (r, ()) = Some (REDIS_OK, r1, ())" "reader_ready r1"
    "rd_len r1 \<noteq> 0" "pabs (r1, ()) = (''+O'', erase r, ())"
    by (rule example_feed [OF r, of "''+O''"]) simp_all
  obtain r' where f': "redisReaderFeed mem_ok (''+O'' @ ?b) (r, ()) = Some (REDIS_OK, r', ())"
    by (rule example_feed [OF r, of "''+O'' @ ?b"]) simp_all
  have w: "buf_wf r1" "rd_err r1 = 0" using f(2) by (simp_all add: reader_ready_def)
  obtain u x where "pget no_strtod (\<lambda>_. mem_ok) (''+O'', erase r, ()) = Some (REDIS_OK, NULL, u, x, ())" "rd_ridx x = 0"
    using example_partial [OF r] by blast
  then obtain r2 where g: "redisReaderGetReply no_strtod (\<lambda>_. mem_ok) True (r1, ()) = Some (REDIS_OK, NULL, r2, ())"
    "rd_ridx r2 = 0"
    using redisReaderGetReply_spec [OF w f(3), of no_strtod "\<lambda>_. mem_ok" "()"] f(4)
    by (auto simp: obs_def pabs_def)
  have "buf_wf r2" "rd_err r2 = 0"
    using redisReaderGetReply_state [OF f(2) g(1)] by (auto simp: reader_ready_def)
  then obtain r3 where h: "redisReaderFeed mem_ok ?b (r2, ()) = Some (REDIS_OK, r3, ())"
    using feed_granted [of r2 mem_ok ?b "()"] by auto
  have "reader_ready r" "rd_len r = 0" using create_ready [OF r] by simp_all
  with redisReader_chunks [of r "''+O''" ?b mem_ok "()" r1 "()" no_strtod NULL r2 "()" r3 "()" r' "()"] f g h f' r
  show ?thesis by auto
qed

text \<open>C12: Whatever bytes a peer sends and however calls and allocation failures interleave, as long as
  fewer than \<open>2^31\<close> bytes have been fed a reader is in one of two states after every call: usable
  (a well-formed buffer, the cursor inside it, a task index inside the task vector) or in the
  final error state, where the buffer is released and every further call fails and changes
  nothing.\<close>

theorem reader_run_invariant:
  assumes "reader_run n (r, h)" and "n < 2 ^ 31"
  shows "reader_ready r \<or> reader_dead r \<and> redisReaderFeed M t (r, h) = Some (REDIS_ERR, r, h)
    \<and> redisReaderGetReply strtod Ms want (r, h) = Some (REDIS_ERR, NULL, r, h)"
  using reader_run_state [OF assms] dead_feed [of r M t h] dead_get [of r strtod Ms want h] by auto

theorem reader_run_invariant_witness:
  "\<exists>r :: unit redisReader. reader_run 0 (r, ()) \<and>
    (reader_ready r \<or> reader_dead r \<and> redisReaderFeed mem_ok ''x'' (r, ()) = Some (REDIS_ERR, r, ())
      \<and> redisReaderGetReply no_strtod (\<lambda>_. mem_ok) True (r, ()) = Some (REDIS_ERR, NULL, r, ()))"
proof -
  obtain r :: "unit redisReader" where r: "redisReaderCreateWithFunctions mem_ok None = Some r"
    using create_granted [of mem_ok] by auto
  then have "reader_run 0 (r, ())" by (rule reader_run.create)
  with reader_run_invariant [OF this, of mem_ok "''x''" no_strtod "\<lambda>_. mem_ok" True] show ?thesis by auto
qed

end
