(* ===== verification/ReplyTree.thy ===== *)
theory ReplyTree
  imports Reply
begin

text \<open>
  Reply values as trees, their encoding on the wire, and the heap cells that represent them.
  The interface between the parser and a set of object functions is the locale
  \<open>reply_builder\<close>; the default functions of \<open>hiredis.c\<close> interpret it.
\<close>

section \<open>Reply values and the protocol\<close>

text \<open>Nil has three forms on the wire: \<open>_\<close>, a bulk string of length -1, an array of length -1.
  A double carries its text and the value that the text stands for.\<close>

datatype nil_form = NilLine | NilBulk | NilArray

datatype aggr = Array | Map | Set | Push

datatype resp =
    RStatus bytes
  | RError bytes
  | RInteger int
  | RDouble bytes double
  | RNil nil_form
  | RBool bool
  | RString bytes
  | RVerb bytes
  | RAggr aggr "resp list"

definition CRLF :: bytes where "CRLF = [CR, LF]"

fun aggr_char :: "aggr \<Rightarrow> char" where
  "aggr_char Array = CHR ''*''"
| "aggr_char Map = CHR ''%''"
| "aggr_char Set = CHR ''~''"
| "aggr_char Push = CHR ''>''"

fun aggr_type :: "aggr \<Rightarrow> int" where
  "aggr_type Array = REDIS_REPLY_ARRAY"
| "aggr_type Map = REDIS_REPLY_MAP"
| "aggr_type Set = REDIS_REPLY_SET"
| "aggr_type Push = REDIS_REPLY_PUSH"

text \<open>A map is sent with the number of its pairs.\<close>

definition aggr_count :: "aggr \<Rightarrow> nat \<Rightarrow> nat" where
  "aggr_count k n = (if k = Map then n div 2 else n)"

fun encode :: "resp \<Rightarrow> bytes" where
  "encode (RStatus l) = CHR ''+'' # l @ CRLF"
| "encode (RError l) = CHR ''-'' # l @ CRLF"
| "encode (RInteger v) = CHR '':'' # dec_int v @ CRLF"
| "encode (RDouble t d) = CHR '','' # t @ CRLF"
| "encode (RNil NilLine) = CHR ''_'' # CRLF"
| "encode (RNil NilBulk) = CHR ''$'' # dec_int (-1) @ CRLF"
| "encode (RNil NilArray) = CHR ''*'' # dec_int (-1) @ CRLF"
| "encode (RBool b) = CHR ''#'' # (if b then ''t'' else ''f'') @ CRLF"
| "encode (RString s) = CHR ''$'' # dec_int (int (length s)) @ CRLF @ s @ CRLF"
| "encode (RVerb s) = CHR ''='' # dec_int (int (length s)) @ CRLF @ s @ CRLF"
| "encode (RAggr k vs) =
     aggr_char k # dec_int (int (aggr_count k (length vs))) @ CRLF @ concat (map encode vs)"

section \<open>Cells\<close>

fun nodes :: "resp \<Rightarrow> nat" where
  "nodes (RAggr k vs) = 1 + sum_list (map nodes vs)"
| "nodes _ = 1"

text \<open>The addresses of consecutive trees laid out from \<open>a\<close> on.\<close>

fun addrs :: "nat \<Rightarrow> resp list \<Rightarrow> nat list" where
  "addrs a [] = []"
| "addrs a (v # vs) = a # addrs (a + nodes v) vs"

fun leaf_cell :: "resp \<Rightarrow> redisReply" where
  "leaf_cell (RStatus l) = zero_reply\<lparr>rr_type := REDIS_REPLY_STATUS, rr_len := length l, rr_str := Some (l @ [NUL])\<rparr>"
| "leaf_cell (RError l) = zero_reply\<lparr>rr_type := REDIS_REPLY_ERROR, rr_len := length l, rr_str := Some (l @ [NUL])\<rparr>"
| "leaf_cell (RInteger v) = zero_reply\<lparr>rr_type := REDIS_REPLY_INTEGER, rr_integer := v\<rparr>"
| "leaf_cell (RDouble t d) = zero_reply\<lparr>rr_type := REDIS_REPLY_DOUBLE, rr_dval := d, rr_str := Some (t @ [NUL])\<rparr>"
| "leaf_cell (RNil _) = zero_reply\<lparr>rr_type := REDIS_REPLY_NIL\<rparr>"
| "leaf_cell (RBool b) = zero_reply\<lparr>rr_type := REDIS_REPLY_BOOL, rr_integer := (if b then 1 else 0)\<rparr>"
| "leaf_cell (RString s) = zero_reply\<lparr>rr_type := REDIS_REPLY_STRING, rr_len := length s, rr_str := Some (s @ [NUL])\<rparr>"
| "leaf_cell (RVerb s) = zero_reply\<lparr>rr_type := REDIS_REPLY_VERB, rr_vtype := take 3 s @ [NUL],
     rr_len := length s - 4, rr_str := Some (drop 4 s @ [NUL])\<rparr>"
| "leaf_cell (RAggr k vs) = zero_reply"

text \<open>The cell of a container with the given element pointers.\<close>

definition aggr_cell :: "aggr \<Rightarrow> ptr list \<Rightarrow> redisReply" where
  "aggr_cell k els = zero_reply\<lparr>rr_type := aggr_type k, rr_elements := length els,
     rr_element := (if els = [] then None else Some els)\<rparr>"

text \<open>The cells of a tree at address \<open>a\<close>, parents before children.\<close>

fun layout :: "nat \<Rightarrow> resp \<Rightarrow> heap" and layouts :: "nat \<Rightarrow> resp list \<Rightarrow> heap" where
  "layout a (RAggr k vs) = Some (aggr_cell k (map Ref (addrs (a + 1) vs))) # layouts (a + 1) vs"
| "layout a v = [Some (leaf_cell v)]"
| "layouts a [] = []"
| "layouts a (v # vs) = layout a v @ layouts (a + nodes v) vs"

lemma length_layout [simp]: "length (layout a v) = nodes v"
  and length_layouts [simp]: "length (layouts a vs) = sum_list (map nodes vs)"
  by (induction a v and a vs rule: layout_layouts.induct) simp_all

lemma length_addrs [simp]: "length (addrs a vs) = length vs"
  by (induction a vs rule: addrs.induct) simp_all

lemma addrs_Nil [simp]: "addrs a vs = [] \<longleftrightarrow> vs = []"
  by (cases vs) simp_all

section \<open>Storing an object in its parent\<close>

text \<open>The element slot that a task stands for: free to be written, in a container of an allowed type.\<close>

definition slot_ok :: "(int \<Rightarrow> bool) \<Rightarrow> redisReadTask list \<Rightarrow> nat \<Rightarrow> heap \<Rightarrow> bool" where
  "slot_ok allowed ts i h \<longleftrightarrow>
     (case rt_parent (ts ! i) of
        None \<Rightarrow> True
      | Some j \<Rightarrow>
          (case hget h (rt_obj (ts ! j)) of
             None \<Rightarrow> False
           | Some c \<Rightarrow> allowed (rr_type c) \<and>
               (case rr_element c of
                  None \<Rightarrow> False
                | Some els \<Rightarrow> 0 \<le> rt_idx (ts ! i) \<and> nat (rt_idx (ts ! i)) < length els)))"

definition store :: "redisReadTask list \<Rightarrow> nat \<Rightarrow> ptr \<Rightarrow> heap \<Rightarrow> heap" where
  "store ts i p h =
     (case rt_parent (ts ! i) of
        None \<Rightarrow> h
      | Some j \<Rightarrow>
          (case hget h (rt_obj (ts ! j)) of
             None \<Rightarrow> h
           | Some c \<Rightarrow> hput h (rt_obj (ts ! j))
               (Some (c\<lparr>rr_element := map_option (\<lambda>els. els[nat (rt_idx (ts ! i)) := p]) (rr_element c)\<rparr>))))"

lemma hget_append: "hget h p = Some c \<Longrightarrow> hget (h @ x) p = Some c"
  by (cases p) (auto simp: nth_append split: if_splits)

lemma hput_append: "hget h p = Some c \<Longrightarrow> hput (h @ x) p d = hput h p d @ x"
  by (cases p) (auto simp: list_update_append split: if_splits)

lemma hget_new [simp]: "hget (h @ [Some c]) (Ref (length h)) = Some c"
  by simp

lemma hput_new [simp]: "hput (h @ [x]) (Ref (length h)) y = h @ [y]"
  by simp

lemma length_hput [simp]: "length (hput h p c) = length h"
  by (cases p) simp_all

lemma length_store [simp]: "length (store ts i p h) = length h"
  by (simp add: store_def split: option.split)

lemma attach_ok:
  assumes "slot_ok allowed ts i h"
  shows "attach allowed ts i r (h @ x) = Some (r, store ts i r h @ x)"
proof (cases "rt_parent (ts ! i)")
  case None
  then show ?thesis by (simp add: attach_def store_def)
next
  case (Some j)
  with assms obtain c els where c: "hget h (rt_obj (ts ! j)) = Some c" "allowed (rr_type c)"
    "rr_element c = Some els" "0 \<le> rt_idx (ts ! i)" "nat (rt_idx (ts ! i)) < length els"
    by (auto simp: slot_ok_def split: option.splits)
  with Some show ?thesis
    by (simp add: attach_def store_def hget_append [OF c(1)] hput_append [OF c(1)])
qed

section \<open>The contract of object functions\<close>

definition type_of :: "resp \<Rightarrow> int" where
  "type_of v = (case v of RStatus _ \<Rightarrow> REDIS_REPLY_STATUS | RError _ \<Rightarrow> REDIS_REPLY_ERROR
     | RInteger _ \<Rightarrow> REDIS_REPLY_INTEGER | RDouble _ _ \<Rightarrow> REDIS_REPLY_DOUBLE | RNil NilLine \<Rightarrow> REDIS_REPLY_NIL
     | RNil NilBulk \<Rightarrow> REDIS_REPLY_STRING | RNil NilArray \<Rightarrow> REDIS_REPLY_ARRAY
     | RBool _ \<Rightarrow> REDIS_REPLY_BOOL | RString _ \<Rightarrow> REDIS_REPLY_STRING | RVerb _ \<Rightarrow> REDIS_REPLY_VERB
     | RAggr k _ \<Rightarrow> aggr_type k)"

text \<open>The call that the parser makes for a leaf.\<close>

fun leaf_call :: "heap redisReplyObjectFunctions \<Rightarrow> mem \<Rightarrow> resp \<Rightarrow> heap creator option" where
  "leaf_call fn M (RStatus l) = map_option (\<lambda>f. f M l) (createString fn)"
| "leaf_call fn M (RError l) = map_option (\<lambda>f. f M l) (createString fn)"
| "leaf_call fn M (RInteger v) = map_option (\<lambda>f. f M v) (createInteger fn)"
| "leaf_call fn M (RDouble t d) = map_option (\<lambda>f. f M d t) (createDouble fn)"
| "leaf_call fn M (RNil _) = map_option (\<lambda>f. f M) (createNil fn)"
| "leaf_call fn M (RBool b) = map_option (\<lambda>f. f M (if b then 1 else 0)) (createBool fn)"
| "leaf_call fn M (RString s) = map_option (\<lambda>f. f M s) (createString fn)"
| "leaf_call fn M (RVerb s) = map_option (\<lambda>f. f M s) (createString fn)"
| "leaf_call fn M (RAggr k vs) = None"

text \<open>Parents that the assertions of the object functions allow.\<close>

definition allowed :: "resp \<Rightarrow> int \<Rightarrow> bool" where
  "allowed v = (case v of RDouble _ _ \<Rightarrow> not_push | RNil _ \<Rightarrow> not_push | RBool _ \<Rightarrow> not_push | _ \<Rightarrow> is_aggregate)"

definition is_leaf :: "resp \<Rightarrow> bool" where
  "is_leaf v \<longleftrightarrow> (case v of RAggr _ _ \<Rightarrow> False | RVerb s \<Rightarrow> 4 \<le> length s | _ \<Rightarrow> True)"

locale reply_builder =
  fixes fn :: "heap redisReplyObjectFunctions"
  assumes leaf: "\<forall>n. granted M n \<Longrightarrow> is_leaf v \<Longrightarrow> rt_type (ts ! i) = type_of v \<Longrightarrow> slot_ok (allowed v) ts i h \<Longrightarrow>
      \<exists>f. leaf_call fn M v = Some f \<and>
        f ts i h = Some (Ref (length h), store ts i (Ref (length h)) h @ [Some (leaf_cell v)])"
    and array: "\<forall>n. granted M n \<Longrightarrow> rt_type (ts ! i) = aggr_type k \<Longrightarrow> slot_ok is_aggregate ts i h \<Longrightarrow>
      n \<le> SIZE_MAX div 8 \<Longrightarrow>
      \<exists>f. createArray fn = Some f \<and>
        f M n ts i h = Some (Ref (length h), store ts i (Ref (length h)) h @ [Some (aggr_cell k (replicate n NULL))])"

lemma createReplyObject_granted:
  "\<forall>n. granted M n \<Longrightarrow> createReplyObject M ty h = (Ref (length h), h @ [Some (zero_reply\<lparr>rr_type := ty\<rparr>)])"
  by (simp add: createReplyObject_def)

lemma hmod_new: "hmod (h @ [Some c]) (Ref (length h)) f = h @ [Some (f c)]"
  by (simp add: hmod_def)

lemmas create_defs = createStringObject_def createIntegerObject_def createDoubleObject_def createNilObject_def
  createBoolObject_def createArrayObject_def

interpretation default_builder: reply_builder defaultFunctions
proof
  fix M :: mem and v ts i h
  assume g: "\<forall>n. granted M n" and l: "is_leaf v" and ty: "rt_type (ts ! i) = type_of v"
    and s: "slot_ok (allowed v) ts i h"
  note rules = create_defs createReplyObject_granted [OF g] hmod_new defaultFunctions_def type_of_def
  show "\<exists>f. leaf_call defaultFunctions M v = Some f \<and>
      f ts i h = Some (Ref (length h), store ts i (Ref (length h)) h @ [Some (leaf_cell v)])"
    using l ty s g attach_ok [OF s, of "Ref (length h)"]
    by (cases v) (simp_all add: rules is_leaf_def allowed_def Let_def reply_type_defs zero_reply_def)
next
  fix M :: mem and n ts i k h
  assume g: "\<forall>n. granted M n" and ty: "rt_type (ts ! i) = aggr_type k" and s: "slot_ok is_aggregate ts i h"
    and n: "n \<le> SIZE_MAX div 8"
  then show "\<exists>f. createArray defaultFunctions = Some f \<and>
      f M n ts i h = Some (Ref (length h), store ts i (Ref (length h)) h @ [Some (aggr_cell k (replicate n NULL))])"
    using attach_ok [OF s, of "Ref (length h)"]
    by (simp add: create_defs createReplyObject_granted [OF g] hmod_new defaultFunctions_def aggr_cell_def)
qed

section \<open>Releasing a tree\<close>

lemma nodes_pos [simp]: "0 < nodes v"
  by (cases v) simp_all

lemma aggr_type_aggregate [simp]: "is_aggregate (aggr_type k)"
  by (cases k) (simp_all add: is_aggregate_def)

lemma free_leaf:
  assumes "\<not> is_aggregate (rr_type c)" and "0 < n"
  shows "free_reply n (h @ Some c # h') (Ref (length h)) = Some (h @ None # h')"
  using assms by (cases n) simp_all

lemma free_layout:
  "nodes v \<le> n \<Longrightarrow>
     free_reply n (h @ layout (length h) v @ h') (Ref (length h)) = Some (h @ replicate (nodes v) None @ h')"
  and free_layouts:
  "(\<And>v. v \<in> set vs \<Longrightarrow> nodes v \<le> n) \<Longrightarrow>
     free_elements n (h @ layouts (length h) vs @ h') (map Ref (addrs (length h) vs))
       = Some (h @ replicate (sum_list (map nodes vs)) None @ h')"
proof (induction "length h" v and "length h" vs arbitrary: n h h' and n h h' rule: layout_layouts.induct)
  case (1 k vs)
  then obtain m where m: "n = Suc m" by (cases n) auto
  have le: "nodes v \<le> m" if "v \<in> set vs" for v
    using "1.prems" m that member_le_sum_list [of "nodes v" "map nodes vs"] by simp
  let ?c = "aggr_cell k (map Ref (addrs (length h + 1) vs))"
  have "free_elements m ((h @ [Some ?c]) @ layouts (length (h @ [Some ?c])) vs @ h')
      (map Ref (addrs (length (h @ [Some ?c])) vs))
    = Some ((h @ [Some ?c]) @ replicate (sum_list (map nodes vs)) None @ h')"
    using le by (intro "1.hyps") simp_all
  then show ?case
    by (cases "vs = []") (simp_all add: m aggr_cell_def)
next
  case (4 v vs)
  have "free_reply n (h @ layout (length h) v @ layouts (length h + nodes v) vs @ h') (Ref (length h))
      = Some (h @ replicate (nodes v) None @ layouts (length h + nodes v) vs @ h')"
    using "4.prems" by (intro "4.hyps") simp_all
  moreover have "free_elements n ((h @ replicate (nodes v) None) @ layouts (length (h @ replicate (nodes v) None)) vs @ h')
      (map Ref (addrs (length (h @ replicate (nodes v) None)) vs))
    = Some ((h @ replicate (nodes v) None) @ replicate (sum_list (map nodes vs)) None @ h')"
    using "4.prems" by (intro "4.hyps") simp_all
  ultimately show ?case by (simp add: replicate_add)
qed (simp_all add: free_leaf is_aggregate_def reply_type_defs zero_reply_def)

section \<open>Properties\<close>

text \<open>C15: \<open>freeReplyObject\<close> releases exactly one reply: on a heap that holds the tree of a value
  (nested to any depth) it returns after releasing every cell of that tree, each once, and it
  touches no other cell.\<close>

theorem freeReplyObject_releases:
  "freeReplyObject (h @ layout (length h) v @ h') (Ref (length h)) = Some (h @ replicate (nodes v) None @ h')"
  unfolding freeReplyObject_def by (rule free_layout) simp

end
