(* ===== verification/ReaderTrip.thy ===== *)
theory ReaderTrip
  imports ReaderFeed ReplyTree
begin

text \<open>
  The parser reads back the protocol: on the encoding of a reply value it builds exactly the
  tree of that value, for every set of object functions that keeps the contract
  \<open>reply_builder\<close>, and so for the default functions.
\<close>

section \<open>Runs of the reference parser\<close>

definition pl :: "strtod_fn \<Rightarrow> mem \<Rightarrow> 'h pstate \<Rightarrow> 'h pstate option" where
  "pl strtod M s = ploop strtod (\<lambda>_. M) (length (fst s) + 1) s"

lemma pl_done: "rd_ridx r < 0 \<Longrightarrow> pl strtod M (u, r, h) = Some (u, r, h)"
  by (simp add: pl_def)

lemma pl_step:
  assumes "0 \<le> rd_ridx r" and "pitem strtod M (u, r, h) = Some (REDIS_OK, u', r', h')"
  shows "pl strtod M (u, r, h) = pl strtod M (u', r', h')"
proof -
  have "length u' < length u" using assms(2) by (rule pitem_progress)
  then have "ploop strtod (\<lambda>_. M) (length u) (u', r', h') = ploop strtod (\<lambda>_. M) (length u' + 1) (u', r', h')"
    by (intro ploop_enough) simp_all
  with assms show ?thesis by (simp add: pl_def)
qed

lemma pl_abort: "0 \<le> rd_ridx r \<Longrightarrow> pitem strtod M (u, r, h) = None \<Longrightarrow> pl strtod M (u, r, h) = None"
  by (simp add: pl_def)

text \<open>What follows once the item of the current task is complete.\<close>

definition pl_next :: "strtod_fn \<Rightarrow> mem \<Rightarrow> bytes \<Rightarrow> 'h \<Rightarrow> 'h redisReader \<Rightarrow> 'h pstate option" where
  "pl_next strtod M y h r1 = (case moveToNextTask r1 of None \<Rightarrow> None | Some r' \<Rightarrow> pl strtod M (y, r', h))"

definition set_root :: "nat \<Rightarrow> ptr \<Rightarrow> 'h redisReader \<Rightarrow> 'h redisReader" where
  "set_root k p r = (if k = 0 then r\<lparr>rd_reply := p\<rparr> else r)"

lemma moveToNextTask_set_reply:
  "moveToNextTask (r\<lparr>rd_reply := p\<rparr>) = map_option (\<lambda>r. r\<lparr>rd_reply := p\<rparr>) (moveToNextTask r)"
proof (induction r rule: moveToNextTask.induct)
  case (1 r)
  have c: "r\<lparr>rd_reply := p, rd_ridx := i\<rparr> = r\<lparr>rd_ridx := i, rd_reply := p\<rparr>" for i by simp
  show ?case
    using 1 by (subst (1 2) moveToNextTask.simps) (simp add: Let_def upd_task_def c)
qed

lemma pl_finish:
  assumes "rd_ridx r = int k" and "rd_err r1 = 0" and "rd_ridx r1 = int k" and "p \<noteq> NULL"
    and "pitem strtod M (u, r, h) = left y (finish_item p (r1, h1))"
  shows "pl strtod M (u, r, h) = pl_next strtod M y h1 (set_root k p r1)"
proof -
  have s: "(if rd_ridx r1 = 0 then r1\<lparr>rd_reply := p\<rparr> else r1) = set_root k p r1"
    using assms(3) by (simp add: set_root_def)
  have e: "rd_err (set_root k p r1) = 0" using assms(2) by (simp add: set_root_def)
  show ?thesis
  proof (cases "moveToNextTask (set_root k p r1)")
    case None
    with assms(1,4,5) s show ?thesis by (simp add: pl_abort finish_item_def pl_next_def)
  next
    case (Some r')
    then have "rd_err r' = 0" using moveToNextTask_err [OF Some] e by simp
    with Some assms(1,4,5) s show ?thesis
      by (simp add: pl_step finish_item_def pl_next_def)
  qed
qed

text \<open>An aggregate without elements moves on before it sets the root reply.\<close>

lemma pl_finish_aggr:
  assumes "rd_ridx r = int k" and "rd_err r1 = 0" and "rd_ridx r1 = int k"
    and "pitem strtod M (u, r, h) =
      left y (map_option (\<lambda>r'. (REDIS_OK, if rd_ridx r1 = 0 then r'\<lparr>rd_reply := p\<rparr> else r', h1)) (moveToNextTask r1))"
  shows "pl strtod M (u, r, h) = pl_next strtod M y h1 (set_root k p r1)"
proof (cases "moveToNextTask r1")
  case None
  with assms(1,4) show ?thesis
    by (simp add: pl_abort pl_next_def set_root_def moveToNextTask_set_reply)
next
  case (Some r')
  then have e: "rd_err r' = 0" using moveToNextTask_err [OF Some] assms(2) by simp
  have "moveToNextTask (set_root k p r1) = Some (if k = 0 then r'\<lparr>rd_reply := p\<rparr> else r')"
    using Some by (simp add: set_root_def moveToNextTask_set_reply)
  with Some assms(1,3,4) e show ?thesis by (simp add: pl_step pl_next_def)
qed

section \<open>Well-formed values\<close>

text \<open>Lines without CR, integers in range, texts that \<open>strtod\<close> reads, typed verbatim strings, maps with
  as many values as keys; nil, booleans and doubles are not direct elements of a push.\<close>

fun resp_ok :: "strtod_fn \<Rightarrow> resp \<Rightarrow> bool" where
  "resp_ok strtod (RStatus l) \<longleftrightarrow> CR \<notin> set l"
| "resp_ok strtod (RError l) \<longleftrightarrow> CR \<notin> set l"
| "resp_ok strtod (RInteger v) \<longleftrightarrow> LLONG_MIN \<le> v \<and> v \<le> LLONG_MAX"
| "resp_ok strtod (RDouble t d) \<longleftrightarrow> CR \<notin> set t \<and> lineDouble strtod t = Obj d"
| "resp_ok strtod (RNil _) \<longleftrightarrow> True"
| "resp_ok strtod (RBool b) \<longleftrightarrow> True"
| "resp_ok strtod (RString s) \<longleftrightarrow> length s < 2 ^ 31"
| "resp_ok strtod (RVerb s) \<longleftrightarrow> length s < 2 ^ 31 \<and> 4 \<le> length s \<and> s ! 3 = CHR '':''"
| "resp_ok strtod (RAggr k vs) \<longleftrightarrow> length vs < 2 ^ 31 \<and> (k = Map \<longrightarrow> even (length vs))
     \<and> (k = Push \<longrightarrow> (\<forall>v \<in> set vs. allowed v REDIS_REPLY_PUSH)) \<and> (\<forall>v \<in> set vs. resp_ok strtod v)"

lemma find_line_CRLF: "CR \<notin> set l \<Longrightarrow> find_line (l @ CRLF @ y) = Some (l, y)"
  by (induction l) (auto simp: CRLF_def)

lemma find_line_dec: "find_line (dec_int v @ CRLF @ y) = Some (dec_int v, y)"
  by (rule find_line_CRLF [OF dec_int_no_CR])

lemma string2ll_dec_int: "LLONG_MIN \<le> v \<Longrightarrow> v \<le> LLONG_MAX \<Longrightarrow> string2ll (dec_int v) = Some v"
  by (simp add: string2ll_iff)

section \<open>Tasks\<close>

text \<open>A reader whose current task, at depth \<open>k\<close>, is about to read an item.\<close>

definition at_item :: "heap redisReplyObjectFunctions \<Rightarrow> nat \<Rightarrow> heap redisReader \<Rightarrow> bool" where
  "at_item fn k r \<longleftrightarrow> rd_err r = 0 \<and> stack_ok r \<and> rd_fn r = Some fn \<and> rd_ridx r = int k
     \<and> rt_type (rd_task r ! k) < 0 \<and> rt_parent (rd_task r ! k) = (if k = 0 then None else Some (k - 1))
     \<and> rd_maxelements r = REDIS_READER_MAX_ARRAY_ELEMENTS"

text \<open>The same reader after the item: deeper tasks may have changed, lower ones not.\<close>

definition agrees :: "nat \<Rightarrow> heap redisReader \<Rightarrow> heap redisReader \<Rightarrow> bool" where
  "agrees k r r1 \<longleftrightarrow> rd_ridx r1 = int k \<and> (\<forall>j < k. rd_task r1 ! j = rd_task r ! j)
     \<and> rt_idx (rd_task r1 ! k) = rt_idx (rd_task r ! k) \<and> rt_parent (rd_task r1 ! k) = rt_parent (rd_task r ! k)
     \<and> rd_err r1 = 0 \<and> rd_fn r1 = rd_fn r \<and> rd_maxelements r1 = rd_maxelements r \<and> stack_ok r1"

definition typed :: "int \<Rightarrow> 'h redisReader \<Rightarrow> 'h redisReader" where
  "typed ty r = upd_task r (rd_ridx r) (\<lambda>t. t\<lparr>rt_type := ty\<rparr>)"

definition parses :: "strtod_fn \<Rightarrow> mem \<Rightarrow> heap redisReplyObjectFunctions \<Rightarrow> resp \<Rightarrow> bool" where
  "parses strtod M fn v \<longleftrightarrow> (\<forall>r h k y. at_item fn k r \<and> slot_ok (allowed v) (rd_task r) k h \<longrightarrow>
     (\<exists>r1. agrees k r r1 \<and> rd_reply r1 = (if k = 0 then Ref (length h) else rd_reply r) \<and>
        pl strtod M (encode v @ y, r, h)
          = pl_next strtod M y (store (rd_task r) k (Ref (length h)) h @ layout (length h) v) r1))"

lemma parsesD:
  assumes "parses strtod M fn v" and "at_item fn k r" and "slot_ok (allowed v) (rd_task r) k h"
  obtains r1 where "agrees k r r1" "rd_reply r1 = (if k = 0 then Ref (length h) else rd_reply r)"
    "pl strtod M (encode v @ y, r, h)
      = pl_next strtod M y (store (rd_task r) k (Ref (length h)) h @ layout (length h) v) r1"
  using assms unfolding parses_def by blast

lemma typed_simps [simp]:
  "rd_err (typed ty r) = rd_err r" "rd_ridx (typed ty r) = rd_ridx r" "rd_fn (typed ty r) = rd_fn r"
  "rd_reply (typed ty r) = rd_reply r" "rd_maxelements (typed ty r) = rd_maxelements r"
  "rd_tasks (typed ty r) = rd_tasks r" "length (rd_task (typed ty r)) = length (rd_task r)"
  "stack_ok (typed ty r) = stack_ok r" "fn_get (typed ty r) = fn_get r" "rd_privdata (typed ty r) = rd_privdata r"
  by (auto simp: typed_def upd_task_def stack_ok_def fn_get_def [abs_def])

lemma typed_task:
  assumes "stack_ok r" and "rd_ridx r = int k"
  shows "rd_task (typed ty r) ! j = (if j = k then (rd_task r ! k)\<lparr>rt_type := ty\<rparr> else rd_task r ! j)"
  using assms by (auto simp: typed_def upd_task_def nth_list_update stack_ok_def)

lemma slot_store_typed:
  assumes "at_item fn k r"
  shows "slot_ok P (rd_task (typed ty r)) k h = slot_ok P (rd_task r) k h"
    and "store (rd_task (typed ty r)) k p h = store (rd_task r) k p h"
proof -
  have t: "rd_task (typed ty r) ! j = (if j = k then (rd_task r ! k)\<lparr>rt_type := ty\<rparr> else rd_task r ! j)" for j
    using assms by (intro typed_task) (simp_all add: at_item_def)
  have p: "rt_parent (rd_task r ! k) = (if k = 0 then None else Some (k - 1))" using assms by (simp add: at_item_def)
  show "slot_ok P (rd_task (typed ty r)) k h = slot_ok P (rd_task r) k h"
    by (cases k) (use p in \<open>simp_all add: slot_ok_def t cong: option.case_cong\<close>)
  show "store (rd_task (typed ty r)) k p h = store (rd_task r) k p h"
    by (cases k) (use p in \<open>simp_all add: store_def t cong: option.case_cong\<close>)
qed

lemma agrees_typed:
  assumes "at_item fn k r" shows "agrees k r (set_root k p (typed ty r))"
proof -
  have "rd_task (typed ty r) ! j = (if j = k then (rd_task r ! k)\<lparr>rt_type := ty\<rparr> else rd_task r ! j)" for j
    using assms by (intro typed_task) (simp_all add: at_item_def)
  then show ?thesis using assms by (auto simp: agrees_def set_root_def at_item_def)
qed

lemma pitem_typed:
  assumes "at_item fn k r" and "reply_type c = Some ty"
  shows "pitem strtod M (c # u, r, h) = ptyped strtod M (u, typed ty r, h)"
  using assms by (simp add: pitem_def at_item_def cur_task_def typed_def)

lemma cur_typed: "at_item fn k r \<Longrightarrow> cur_task (typed ty r) = (rd_task r ! k)\<lparr>rt_type := ty\<rparr>"
  by (simp add: cur_task_def at_item_def typed_task)

section \<open>Growing the stack\<close>

definition grown :: "'h redisReader \<Rightarrow> 'h redisReader" where
  "grown r = (if rd_ridx r = int (rd_tasks r) - 1
     then r\<lparr>rd_task := rd_task r @ replicate REDIS_READER_STACK_SIZE zero_task,
            rd_tasks := rd_tasks r + REDIS_READER_STACK_SIZE\<rparr> else r)"

lemma grown_simps [simp]:
  "rd_err (grown r) = rd_err r" "rd_ridx (grown r) = rd_ridx r" "rd_fn (grown r) = rd_fn r"
  "rd_reply (grown r) = rd_reply r" "rd_maxelements (grown r) = rd_maxelements r"
  "fn_get (grown r) = fn_get r" "rd_privdata (grown r) = rd_privdata r"
  by (simp_all add: grown_def fn_get_def [abs_def])

lemma grown_stack:
  assumes "stack_ok r"
  shows "stack_ok (grown r)" and "rd_ridx (grown r) + 1 < int (rd_tasks (grown r))"
    and "j < length (rd_task r) \<Longrightarrow> rd_task (grown r) ! j = rd_task r ! j"
  using assms by (auto simp: grown_def stack_ok_def nth_append REDIS_READER_STACK_SIZE_def)

lemma paggr_grown: "\<forall>n. granted M n \<Longrightarrow> paggr M (u, r, h) = paggr_line M (u, grown r, h)"
  by (simp add: paggr_unfold grown_def)

lemma grown_typed_task:
  assumes "at_item fn k r" and "j \<le> k"
  shows "rd_task (grown (typed ty r)) ! j = (if j = k then (rd_task r ! k)\<lparr>rt_type := ty\<rparr> else rd_task r ! j)"
proof -
  have s: "stack_ok r" "rd_ridx r = int k" using assms(1) by (simp_all add: at_item_def)
  then have "j < length (rd_task (typed ty r))" using assms(2) by (auto simp: stack_ok_def)
  then show ?thesis using grown_stack(3) [of "typed ty r" j] typed_task [OF s] s by simp
qed

lemma slot_store_grown:
  assumes "at_item fn k r"
  shows "slot_ok P (rd_task (grown (typed ty r))) k h = slot_ok P (rd_task r) k h"
    and "store (rd_task (grown (typed ty r))) k p h = store (rd_task r) k p h"
proof -
  note t = grown_typed_task [OF assms]
  have p: "rt_parent (rd_task r ! k) = (if k = 0 then None else Some (k - 1))" using assms by (simp add: at_item_def)
  show "slot_ok P (rd_task (grown (typed ty r))) k h = slot_ok P (rd_task r) k h"
    by (cases k) (use p in \<open>simp_all add: slot_ok_def t cong: option.case_cong\<close>)
  show "store (rd_task (grown (typed ty r))) k p h = store (rd_task r) k p h"
    by (cases k) (use p in \<open>simp_all add: store_def t cong: option.case_cong\<close>)
qed

lemma agrees_grown:
  assumes "at_item fn k r" shows "agrees k r (set_root k p (grown (typed ty r)))"
proof -
  have "stack_ok (grown (typed ty r))" using assms by (intro grown_stack) (simp add: at_item_def)
  then show ?thesis using assms grown_typed_task [OF assms]
    by (auto simp: agrees_def set_root_def at_item_def)
qed

section \<open>Leaves\<close>

context reply_builder
begin

lemma leaf_typed:
  assumes "\<forall>n. granted M n" and "at_item fn k r" and "is_leaf v" and "slot_ok (allowed v) (rd_task r) k h"
  obtains f where "leaf_call fn M v = Some f"
    and "f (rd_task (typed (type_of v) r)) k h
      = Some (Ref (length h), store (rd_task r) k (Ref (length h)) h @ layout (length h) v)"
    and "f (rd_task (grown (typed (type_of v) r))) k h
      = Some (Ref (length h), store (rd_task r) k (Ref (length h)) h @ layout (length h) v)"
proof -
  have l: "layout (length h) v = [Some (leaf_cell v)]" using assms(3) by (cases v) (simp_all add: is_leaf_def)
  have ty: "rt_type (rd_task (typed (type_of v) r) ! k) = type_of v"
    "rt_type (rd_task (grown (typed (type_of v) r)) ! k) = type_of v"
    using assms(2) grown_typed_task [OF assms(2), of k] typed_task [of r k] by (simp_all add: at_item_def)
  obtain f where f: "leaf_call fn M v = Some f" "f (rd_task (typed (type_of v) r)) k h
      = Some (Ref (length h), store (rd_task r) k (Ref (length h)) h @ layout (length h) v)"
    using leaf [OF assms(1,3) ty(1)] assms(4) l by (auto simp: slot_store_typed [OF assms(2)])
  moreover have "f (rd_task (grown (typed (type_of v) r))) k h
      = Some (Ref (length h), store (rd_task r) k (Ref (length h)) h @ layout (length h) v)"
    using leaf [OF assms(1,3) ty(2)] assms(4) l f(1) by (auto simp: slot_store_grown [OF assms(2)])
  ultimately show thesis using that by blast
qed

text \<open>A leaf parses if its round calls the object function and finishes.\<close>

lemma parses_leaf:
  assumes "\<forall>n. granted M n" and "is_leaf v"
    and "\<And>r h k y f p h1. at_item fn k r \<Longrightarrow> leaf_call fn M v = Some f \<Longrightarrow>
      f (rd_task (typed (type_of v) r)) k h = Some (p, h1) \<Longrightarrow>
      pitem strtod M (encode v @ y, r, h) = left y (finish_item p (typed (type_of v) r, h1))"
  shows "parses strtod M fn v"
  unfolding parses_def
proof (intro allI impI, elim conjE)
  fix r h k y
  assume a: "at_item fn k r" and s: "slot_ok (allowed v) (rd_task r) k h"
  obtain f where f: "leaf_call fn M v = Some f" "f (rd_task (typed (type_of v) r)) k h
      = Some (Ref (length h), store (rd_task r) k (Ref (length h)) h @ layout (length h) v)"
    by (rule leaf_typed [OF assms(1) a assms(2) s])
  let ?r1 = "set_root k (Ref (length h)) (typed (type_of v) r)"
  have "pl strtod M (encode v @ y, r, h)
      = pl_next strtod M y (store (rd_task r) k (Ref (length h)) h @ layout (length h) v) ?r1"
    using a by (intro pl_finish assms(3) [OF a f]) (simp_all add: at_item_def)
  moreover have "agrees k r ?r1" using a by (rule agrees_typed)
  moreover have "rd_reply ?r1 = (if k = 0 then Ref (length h) else rd_reply r)" by (simp add: set_root_def)
  ultimately show "\<exists>r1. agrees k r r1 \<and> rd_reply r1 = (if k = 0 then Ref (length h) else rd_reply r) \<and>
      pl strtod M (encode v @ y, r, h)
        = pl_next strtod M y (store (rd_task r) k (Ref (length h)) h @ layout (length h) v) r1" by blast
qed

lemma parses_line:
  assumes "\<forall>n. granted M n" and "is_leaf v" and "encode v = c # l @ CRLF" and "CR \<notin> set l"
    and "reply_type c = Some (type_of v)" and "is_line_type (type_of v)"
    and "\<And>r h k f. at_item fn k r \<Longrightarrow> leaf_call fn M v = Some f \<Longrightarrow>
      lineObject strtod M l (typed (type_of v) r) h = Obj (f (rd_task (typed (type_of v) r)) k h)"
  shows "parses strtod M fn v"
proof (rule parses_leaf [OF assms(1,2)])
  fix r h k y f p h1
  assume a: "at_item fn k r" and f: "leaf_call fn M v = Some f"
    and c: "f (rd_task (typed (type_of v) r)) k h = Some (p, h1)"
  have "find_line (l @ CRLF @ y) = Some (l, y)" using assms(4) by (rule find_line_CRLF)
  then show "pitem strtod M (encode v @ y, r, h) = left y (finish_item p (typed (type_of v) r, h1))"
    using assms(6) assms(7) [OF a f] c
    by (simp add: assms(3) pitem_typed [OF a assms(5)] ptyped_def cur_typed [OF a] pline_def)
qed

lemma fn_get_item: "at_item fn k r \<Longrightarrow> fn_get r sel = sel fn"
  by (simp add: at_item_def fn_get_def)

lemmas line_simps = lineObject_def Let_def cur_typed fn_get_item is_line_type_def type_of_def

lemma parses_status: "\<forall>n. granted M n \<Longrightarrow> CR \<notin> set l \<Longrightarrow> parses strtod M fn (RStatus l)"
  by (rule parses_line [where c = "CHR ''+''" and l = l])
    (auto simp: is_leaf_def reply_type_def line_simps reply_type_defs at_item_def fn_get_def)

lemma parses_error: "\<forall>n. granted M n \<Longrightarrow> CR \<notin> set l \<Longrightarrow> parses strtod M fn (RError l)"
  by (rule parses_line [where c = "CHR ''-''" and l = l])
    (auto simp: is_leaf_def reply_type_def line_simps reply_type_defs at_item_def fn_get_def)

lemma parses_integer:
  assumes "\<forall>n. granted M n" and "LLONG_MIN \<le> v" and "v \<le> LLONG_MAX"
  shows "parses strtod M fn (RInteger v)"
  by (rule parses_line [where c = "CHR '':''" and l = "dec_int v", OF assms(1)])
    (auto simp: is_leaf_def reply_type_def line_simps reply_type_defs at_item_def fn_get_def
      dec_int_no_CR string2ll_dec_int [OF assms(2,3)])

lemma parses_double:
  assumes "\<forall>n. granted M n" and "CR \<notin> set t" and "lineDouble strtod t = Obj d"
  shows "parses strtod M fn (RDouble t d)"
  by (rule parses_line [where c = "CHR '',''" and l = t, OF assms(1)])
    (auto simp: is_leaf_def reply_type_def line_simps reply_type_defs at_item_def fn_get_def assms(2,3))

lemma parses_nil: "\<forall>n. granted M n \<Longrightarrow> parses strtod M fn (RNil NilLine)"
  by (rule parses_line [where c = "CHR ''_''" and l = "[]"])
    (auto simp: is_leaf_def reply_type_def line_simps reply_type_defs at_item_def fn_get_def)

lemma parses_bool: "\<forall>n. granted M n \<Longrightarrow> parses strtod M fn (RBool b)"
  by (rule parses_line [where c = "CHR ''#''" and l = "if b then ''t'' else ''f''"])
    (auto simp: is_leaf_def reply_type_def line_simps reply_type_defs at_item_def fn_get_def)

lemma pbulk_string:
  assumes "at_item fn k r" and "type_of v = ty" and "rt_type (cur_task (typed ty r)) = ty"
    and "length s < 2 ^ 31" and "ty = REDIS_REPLY_VERB \<longrightarrow> 4 \<le> length s \<and> s ! 3 = CHR '':''"
    and "createString fn = Some f" and "f M s (rd_task (typed ty r)) k h = Some (p, h1)"
  shows "pbulk M (dec_int (int (length s)) @ CRLF @ s @ CRLF @ y, typed ty r, h)
    = left y (finish_item p (typed ty r, h1))"
proof -
  have l: "string2ll (dec_int (int (length s))) = Some (int (length s))"
    using assms(4) by (intro string2ll_dec_int) (simp_all add: LLONG_MIN_def LLONG_MAX_def)
  have g: "fn_get r createString = Some f" using assms(1,6) by (simp add: fn_get_item)
  have v: "\<not> (rt_type (cur_task (typed ty r)) = REDIS_REPLY_VERB
      \<and> (int (length s) < 4 \<or> (s @ CRLF @ y) ! 3 \<noteq> CHR '':''))"
    using assms(3,5) by (auto simp: nth_append)
  have d: "\<not> length (s @ CRLF @ y) < nat (int (length s)) + 2" "take (nat (int (length s))) (s @ CRLF @ y) = s"
    "drop (nat (int (length s)) + 2) (s @ CRLF @ y) = y" by (simp_all add: CRLF_def)
  have i: "\<not> int (length s) < -1" "int (length s) \<noteq> -1" "nat (rd_ridx (typed ty r)) = k"
    using assms(1) by (simp_all add: at_item_def)
  show ?thesis
    unfolding pbulk_def prod.case find_line_dec option.case l Let_def typed_simps g
    by (simp only: if_not_P [OF i(1)] if_not_P [OF i(2)] if_not_P [OF d(1)] if_not_P [OF v] d(2,3)
        assms(7) option.case prod.case i(3) [unfolded typed_simps])
qed

lemma parses_string:
  assumes "\<forall>n. granted M n" and "length s < 2 ^ 31" shows "parses strtod M fn (RString s)"
proof (rule parses_leaf [OF assms(1)])
  fix r h k y f p h1
  assume a: "at_item fn k r" and f: "leaf_call fn M (RString s) = Some f"
    and c: "f (rd_task (typed (type_of (RString s)) r)) k h = Some (p, h1)"
  have ty: "type_of (RString s) = REDIS_REPLY_STRING" by (simp add: type_of_def)
  obtain g where "createString fn = Some g" "f = g M s" using f by auto
  with pbulk_string [OF a ty _ assms(2), of g M h p h1 y] c show
    "pitem strtod M (encode (RString s) @ y, r, h) = left y (finish_item p (typed (type_of (RString s)) r, h1))"
    by (simp add: pitem_typed [OF a, of _ REDIS_REPLY_STRING] reply_type_def ty ptyped_def cur_typed [OF a]
        is_line_type_def is_bulk_type_def reply_type_defs)
qed (simp add: is_leaf_def)

lemma parses_verb:
  assumes "\<forall>n. granted M n" and "length s < 2 ^ 31" and "4 \<le> length s" and "s ! 3 = CHR '':''"
  shows "parses strtod M fn (RVerb s)"
proof (rule parses_leaf [OF assms(1)])
  fix r h k y f p h1
  assume a: "at_item fn k r" and f: "leaf_call fn M (RVerb s) = Some f"
    and c: "f (rd_task (typed (type_of (RVerb s)) r)) k h = Some (p, h1)"
  have ty: "type_of (RVerb s) = REDIS_REPLY_VERB" by (simp add: type_of_def)
  obtain g where "createString fn = Some g" "f = g M s" using f by auto
  with pbulk_string [OF a ty _ assms(2), of g M h p h1 y] c assms(3,4) show
    "pitem strtod M (encode (RVerb s) @ y, r, h) = left y (finish_item p (typed (type_of (RVerb s)) r, h1))"
    by (simp add: pitem_typed [OF a, of _ REDIS_REPLY_VERB] reply_type_def ty ptyped_def cur_typed [OF a]
        is_line_type_def is_bulk_type_def reply_type_defs)
qed (simp add: is_leaf_def assms(3))

lemma minus_one_string2ll: "string2ll (dec_int (-1)) = Some (-1)"
  by (rule string2ll_dec_int) (simp_all add: LLONG_MIN_def LLONG_MAX_def)

lemma parses_nil_bulk:
  assumes "\<forall>n. granted M n" shows "parses strtod M fn (RNil NilBulk)"
proof (rule parses_leaf [OF assms])
  fix r h k y f p h1
  assume a: "at_item fn k r" and f: "leaf_call fn M (RNil NilBulk) = Some f"
    and c: "f (rd_task (typed (type_of (RNil NilBulk)) r)) k h = Some (p, h1)"
  have ty: "type_of (RNil NilBulk) = REDIS_REPLY_STRING" by (simp add: type_of_def)
  obtain g where g: "createNil fn = Some g" "f = g M" using f by auto
  have "pbulk M (dec_int (-1) @ CRLF @ y, typed REDIS_REPLY_STRING r, h)
      = left y (finish_item p (typed REDIS_REPLY_STRING r, h1))"
    using fn_get_item [OF a, of createNil] a c g
    by (simp add: pbulk_def find_line_dec minus_one_string2ll ty Let_def at_item_def)
  then show "pitem strtod M (encode (RNil NilBulk) @ y, r, h)
      = left y (finish_item p (typed (type_of (RNil NilBulk)) r, h1))"
    by (simp add: pitem_typed [OF a, of _ REDIS_REPLY_STRING] reply_type_def ty ptyped_def cur_typed [OF a]
        is_line_type_def is_bulk_type_def reply_type_defs)
qed (simp add: is_leaf_def)

section \<open>Aggregates\<close>

lemma pitem_aggr:
  assumes "\<forall>n. granted M n" and "at_item fn k r" and "reply_type c = Some ty" and "is_aggregate ty"
  shows "pitem strtod M ((c # dec_int n @ CRLF) @ y, r, h)
    = left y (aggregate_elements M (dec_int n) (grown (typed ty r), h))"
proof -
  have "\<not> is_line_type ty" "\<not> is_bulk_type ty"
    using assms(4) by (auto simp: is_aggregate_def is_line_type_def is_bulk_type_def reply_type_defs)
  with assms(4) show ?thesis
    by (simp add: pitem_typed [OF assms(2,3)] ptyped_def cur_typed [OF assms(2)] paggr_grown [OF assms(1)]
        paggr_line_def find_line_dec)
qed

lemma cur_grown: "at_item fn k r \<Longrightarrow> cur_task (grown (typed ty r)) = (rd_task r ! k)\<lparr>rt_type := ty\<rparr>"
  using grown_typed_task [of fn k r k ty] by (simp add: cur_task_def) (simp add: at_item_def)

lemma parses_nil_array:
  assumes "\<forall>n. granted M n" shows "parses strtod M fn (RNil NilArray)"
  unfolding parses_def
proof (intro allI impI, elim conjE)
  fix r :: "heap redisReader" and h k y
  let ?v = "RNil NilArray" and ?g = "grown (typed REDIS_REPLY_ARRAY r)"
  assume a: "at_item fn k r" and s: "slot_ok (allowed ?v) (rd_task r) k h"
  have ty: "type_of ?v = REDIS_REPLY_ARRAY" by (simp add: type_of_def)
  obtain f where f: "leaf_call fn M ?v = Some f" "f (rd_task ?g) k h
      = Some (Ref (length h), store (rd_task r) k (Ref (length h)) h @ layout (length h) ?v)"
    by (rule leaf_typed [OF assms a _ s]) (simp_all add: is_leaf_def ty)
  then obtain g where g: "createNil fn = Some g" "f = g M" by auto
  have nm: "(0 < i \<and> i < - 1) = False" for i :: int by auto
  have c: "g M (rd_task ?g) k h = Some (Ref (length h), store (rd_task r) k (Ref (length h)) h @ layout (length h) ?v)"
    using f g by simp
  have fg: "fn_get r createNil = Some g" using fn_get_item [OF a, of createNil] g by simp
  have k: "rd_ridx r = int k" using a by (simp add: at_item_def)
  let ?h1 = "store (rd_task r) k (Ref (length h)) h @ layout (length h) ?v"
  have "pitem strtod M (encode ?v @ y, r, h) =
      left y (map_option (\<lambda>r'. (REDIS_OK, if rd_ridx ?g = 0 then r'\<lparr>rd_reply := Ref (length h)\<rparr> else r', ?h1))
        (moveToNextTask ?g))"
    using pitem_aggr [OF assms a, of "CHR ''*''" REDIS_REPLY_ARRAY strtod "-1" y h] c fg k
    by (simp add: reply_type_def is_aggregate_def reply_type_defs aggregate_elements_def minus_one_string2ll nm Let_def)
  then have "pl strtod M (encode ?v @ y, r, h) = pl_next strtod M y ?h1 (set_root k (Ref (length h)) ?g)"
    using a by (intro pl_finish_aggr) (simp_all add: at_item_def)
  moreover have "rd_reply (set_root k (Ref (length h)) ?g) = (if k = 0 then Ref (length h) else rd_reply r)"
    by (simp add: set_root_def)
  ultimately show "\<exists>r1. agrees k r r1 \<and> rd_reply r1 = (if k = 0 then Ref (length h) else rd_reply r) \<and>
      pl strtod M (encode ?v @ y, r, h) = pl_next strtod M y ?h1 r1"
    using agrees_grown [OF a] by blast
qed

text \<open>The task and the cell of an open container whose elements from \<open>i\<close> on are still missing.\<close>

definition at_element :: "nat \<Rightarrow> nat \<Rightarrow> nat \<Rightarrow> nat \<Rightarrow> heap redisReader \<Rightarrow> heap \<Rightarrow> redisReply \<Rightarrow> ptr list \<Rightarrow> bool" where
  "at_element k i n a r H c els \<longleftrightarrow> at_item fn (Suc k) r \<and> rt_idx (rd_task r ! Suc k) = int i
     \<and> rt_obj (rd_task r ! k) = Ref a \<and> is_aggregate (rt_type (rd_task r ! k))
     \<and> rt_elements (rd_task r ! k) = int n \<and> n < 2 ^ 31
     \<and> a < length H \<and> H ! a = Some c \<and> rr_element c = Some els \<and> length els = n"

lemma at_element_store:
  assumes "at_element k i n a r H c els" and "i < n"
  shows "P (rr_type c) \<Longrightarrow> slot_ok P (rd_task r) (Suc k) H"
    and "store (rd_task r) (Suc k) p H = H[a := Some (c\<lparr>rr_element := Some (els[i := p])\<rparr>)]"
  using assms by (auto simp: at_element_def at_item_def slot_ok_def store_def)

lemma next_element:
  assumes "at_element k i n a r H c els" and "agrees (Suc k) r r1" and "i < n"
  shows "Suc i = n \<Longrightarrow> moveToNextTask r1 = moveToNextTask (r1\<lparr>rd_ridx := int k\<rparr>)"
    and "Suc i < n \<Longrightarrow> \<exists>r2. moveToNextTask r1 = Some r2 \<and> rd_reply r2 = rd_reply r1
      \<and> (\<forall>j \<le> k. rd_task r2 ! j = rd_task r ! j)
      \<and> (a < length H' \<and> H' ! a = Some c' \<and> rr_element c' = Some els' \<and> length els' = n
           \<longrightarrow> at_element k (Suc i) n a r2 H' c' els')"
proof -
  have r1: "rd_ridx r1 = int (Suc k)" "rd_task r1 ! k = rd_task r ! k" "rt_idx (rd_task r1 ! Suc k) = int i"
    using assms(1,2) by (auto simp: agrees_def at_element_def)
  have prv: "is_aggregate (rt_type (rd_task r1 ! k))" "rt_elements (rd_task r1 ! k) = int n"
    using assms(1) r1(2) by (simp_all add: at_element_def)
  have nt: "nat (1 + int k) = Suc k" by simp
  show "moveToNextTask r1 = moveToNextTask (r1\<lparr>rd_ridx := int k\<rparr>)" if "Suc i = n"
    using r1 prv that by (simp add: moveToNextTask.simps [of r1] nt)
  assume i: "Suc i < n"
  let ?r2 = "upd_task r1 (int (Suc k)) (\<lambda>t. t\<lparr>rt_type := -1, rt_elements := -1, rt_idx := sbits 32 (rt_idx t + 1)\<rparr>)"
  have "n < 2 ^ 31" using assms(1) by (simp add: at_element_def)
  then have sb: "sbits 32 (int i + 1) = int (Suc i)" using i by simp
  have len: "Suc k < length (rd_task r1)" using assms(2) by (auto simp: agrees_def stack_ok_def)
  have "moveToNextTask r1 = Some ?r2" using r1 prv i by (simp add: moveToNextTask.simps [of r1] nt)
  moreover have t: "\<forall>j \<le> k. rd_task ?r2 ! j = rd_task r ! j" "rd_task ?r2 ! Suc k
      = (rd_task r1 ! Suc k)\<lparr>rt_type := -1, rt_elements := -1, rt_idx := int (Suc i)\<rparr>"
    using assms(2) len r1(3) sb by (auto simp: agrees_def upd_task_def nt)
  moreover have "at_item fn (Suc k) ?r2"
    using assms(1,2) t(2) by (auto simp: at_item_def agrees_def at_element_def upd_task_def stack_ok_def)
  ultimately show "\<exists>r2. moveToNextTask r1 = Some r2 \<and> rd_reply r2 = rd_reply r1
      \<and> (\<forall>j \<le> k. rd_task r2 ! j = rd_task r ! j)
      \<and> (a < length H' \<and> H' ! a = Some c' \<and> rr_element c' = Some els' \<and> length els' = n
           \<longrightarrow> at_element k (Suc i) n a r2 H' c' els')"
    using assms(1) by (intro exI [of _ ?r2]) (auto simp: at_element_def upd_task_def)
qed

lemma parse_children:
  assumes "\<forall>v \<in> set vs. parses strtod M fn v" and "\<forall>v \<in> set vs. allowed v (rr_type c)" and "vs \<noteq> []"
    and "at_element k i (i + length vs) a r H c els"
  shows "\<exists>r1. rd_ridx r1 = int k \<and> (\<forall>j \<le> k. rd_task r1 ! j = rd_task r ! j) \<and> rd_err r1 = 0
    \<and> rd_fn r1 = rd_fn r \<and> rd_maxelements r1 = rd_maxelements r \<and> stack_ok r1 \<and> rd_reply r1 = rd_reply r
    \<and> pl strtod M (concat (map encode vs) @ y, r, H) = pl_next strtod M y
        (H[a := Some (c\<lparr>rr_element := Some (take i els @ map Ref (addrs (length H) vs))\<rparr>)] @ layouts (length H) vs) r1"
  using assms
proof (induction vs arbitrary: i r H c els)
  case (Cons v vs)
  let ?n = "i + length (v # vs)" and ?p = "Ref (length H)"
  let ?c = "c\<lparr>rr_element := Some (els[i := ?p])\<rparr>"
  let ?H = "H[a := Some ?c] @ layout (length H) v" and ?y = "concat (map encode vs) @ y"
  have el: "a < length H" "length els = ?n" "H ! a = Some c" using Cons.prems(4) by (simp_all add: at_element_def)
  have it: "at_item fn (Suc k) r" using Cons.prems(4) by (simp add: at_element_def)
  have slot: "slot_ok (allowed v) (rd_task r) (Suc k) H"
    using Cons.prems(2) by (intro at_element_store(1) [OF Cons.prems(4)]) simp_all
  have pv: "parses strtod M fn v" using Cons.prems(1) by simp
  obtain r1 where r1: "agrees (Suc k) r r1" "rd_reply r1 = rd_reply r"
    "pl strtod M (encode v @ ?y, r, H) = pl_next strtod M ?y (store (rd_task r) (Suc k) ?p H @ layout (length H) v) r1"
    by (rule parsesD [OF pv it slot, of ?y]) simp
  have st: "store (rd_task r) (Suc k) ?p H = H[a := Some ?c]"
    by (rule at_element_store(2) [OF Cons.prems(4)]) simp
  have L: "pl strtod M (concat (map encode (v # vs)) @ y, r, H) = pl_next strtod M ?y ?H r1"
    using r1(3) st by simp
  note nxt = next_element [OF Cons.prems(4) r1(1)]
  show ?case
  proof (cases "vs = []")
    case True
    have "moveToNextTask r1 = moveToNextTask (r1\<lparr>rd_ridx := int k\<rparr>)" using True by (intro nxt(1)) simp_all
    then have "pl_next strtod M ?y ?H r1 = pl_next strtod M y ?H (r1\<lparr>rd_ridx := int k\<rparr>)"
      using True by (simp add: pl_next_def)
    moreover have "els[i := ?p] = take i els @ [?p]" using el(2) True
      by (simp add: upd_conv_take_nth_drop)
    ultimately have "pl strtod M (concat (map encode (v # vs)) @ y, r, H) = pl_next strtod M y
        (H[a := Some (c\<lparr>rr_element := Some (take i els @ map Ref (addrs (length H) (v # vs)))\<rparr>)] @ layouts (length H) (v # vs))
        (r1\<lparr>rd_ridx := int k\<rparr>)" unfolding L using True by simp
    moreover have "rd_err r1 = 0" "rd_fn r1 = rd_fn r" "rd_maxelements r1 = rd_maxelements r"
      "\<forall>j \<le> k. rd_task r1 ! j = rd_task r ! j" "stack_ok (r1\<lparr>rd_ridx := int k\<rparr>)"
      using r1(1) by (auto simp: agrees_def stack_ok_def)
    ultimately show ?thesis using r1(2) by (intro exI [of _ "r1\<lparr>rd_ridx := int k\<rparr>"]) simp
  next
    case False
    have "\<exists>r2. moveToNextTask r1 = Some r2 \<and> rd_reply r2 = rd_reply r1 \<and> (\<forall>j \<le> k. rd_task r2 ! j = rd_task r ! j)
        \<and> (a < length ?H \<and> ?H ! a = Some ?c \<and> rr_element ?c = Some (els[i := ?p]) \<and> length (els[i := ?p]) = ?n
           \<longrightarrow> at_element k (Suc i) ?n a r2 ?H ?c (els[i := ?p]))"
      using False by (intro nxt(2)) simp_all
    then obtain r2 where r2: "moveToNextTask r1 = Some r2" "rd_reply r2 = rd_reply r1"
      "\<forall>j \<le> k. rd_task r2 ! j = rd_task r ! j" "at_element k (Suc i) (Suc i + length vs) a r2 ?H ?c (els[i := ?p])"
      using el by (simp add: nth_append) blast
    have "\<exists>r3. rd_ridx r3 = int k \<and> (\<forall>j \<le> k. rd_task r3 ! j = rd_task r2 ! j) \<and> rd_err r3 = 0
      \<and> rd_fn r3 = rd_fn r2 \<and> rd_maxelements r3 = rd_maxelements r2 \<and> stack_ok r3 \<and> rd_reply r3 = rd_reply r2
      \<and> pl strtod M (?y, r2, ?H) = pl_next strtod M y
        (?H[a := Some (?c\<lparr>rr_element := Some (take (Suc i) (els[i := ?p]) @ map Ref (addrs (length ?H) vs))\<rparr>)]
          @ layouts (length ?H) vs) r3"
      using Cons.prems(1,2) False r2(4) by (intro Cons.IH) simp_all
    then obtain r3 where r3: "rd_ridx r3 = int k" "\<forall>j \<le> k. rd_task r3 ! j = rd_task r2 ! j" "rd_err r3 = 0"
      "rd_fn r3 = rd_fn r2" "rd_maxelements r3 = rd_maxelements r2" "stack_ok r3" "rd_reply r3 = rd_reply r2"
      "pl strtod M (?y, r2, ?H) = pl_next strtod M y
        (?H[a := Some (?c\<lparr>rr_element := Some (take (Suc i) (els[i := ?p]) @ map Ref (addrs (length ?H) vs))\<rparr>)]
          @ layouts (length ?H) vs) r3" by blast
    have len: "length ?H = length H + nodes v" by simp
    have tk: "take (Suc i) (els[i := ?p]) = take i els @ [?p]"
      using el(2) by (simp add: take_Suc_conv_app_nth)
    have heap: "?H[a := Some (?c\<lparr>rr_element := Some (take (Suc i) (els[i := ?p]) @ map Ref (addrs (length ?H) vs))\<rparr>)]
          @ layouts (length ?H) vs
        = H[a := Some (c\<lparr>rr_element := Some (take i els @ map Ref (addrs (length H) (v # vs)))\<rparr>)] @ layouts (length H) (v # vs)"
      unfolding len tk using el(1) by (simp add: list_update_append)
    have "pl_next strtod M ?y ?H r1 = pl strtod M (?y, r2, ?H)" using r2(1) by (simp add: pl_next_def)
    with L r3(8) heap have "pl strtod M (concat (map encode (v # vs)) @ y, r, H) = pl_next strtod M y
        (H[a := Some (c\<lparr>rr_element := Some (take i els @ map Ref (addrs (length H) (v # vs)))\<rparr>)] @ layouts (length H) (v # vs)) r3"
      by simp
    moreover have "rd_fn r2 = rd_fn r" "rd_maxelements r2 = rd_maxelements r"
      using moveToNextTask_keeps [OF r2(1)] r1(1) by (simp_all add: agrees_def)
    moreover have "\<forall>j \<le> k. rd_task r3 ! j = rd_task r ! j" using r3(2) r2(3) by simp
    ultimately show ?thesis using r3(1,3-7) r2(2) r1(2) by (intro exI [of _ r3]) simp
  qed
qed simp

lemma aggr_round:
  assumes g: "\<forall>n. granted M n" and a: "at_item fn k r" and s: "slot_ok is_aggregate (rd_task r) k h"
    and n: "n < 2 ^ 31" and ev: "kd = Map \<longrightarrow> even n"
  defines "G \<equiv> grown (typed (aggr_type kd) r)" and "p \<equiv> Ref (length h)"
    and "h1 \<equiv> store (rd_task r) k (Ref (length h)) h @ [Some (aggr_cell kd (replicate n NULL))]"
  shows "pitem strtod M ((aggr_char kd # dec_int (int (aggr_count kd n)) @ CRLF) @ y, r, h)
    = left y (map_option (\<lambda>r'. (REDIS_OK, if rd_ridx G = 0 then r'\<lparr>rd_reply := p\<rparr> else r', h1))
        (if 0 < n then Some (push_task (int n) p G) else moveToNextTask G))"
proof -
  let ?e = "int (aggr_count kd n)"
  have rt: "reply_type (aggr_char kd) = Some (aggr_type kd)" by (cases kd) (simp_all add: reply_type_def)
  have ty: "rt_type (cur_task G) = aggr_type kd" "rt_type (rd_task G ! k) = aggr_type kd"
    using cur_grown [OF a] grown_typed_task [OF a, of k] by (simp_all add: G_def)
  have e: "string2ll (dec_int ?e) = Some ?e"
    using n by (intro string2ll_dec_int) (auto simp: aggr_count_def LLONG_MIN_def LLONG_MAX_def)
  have el: "(if aggr_type kd = REDIS_REPLY_MAP then sbits 64 (?e * 2) else ?e) = int n"
    using n ev by (cases kd) (auto simp: aggr_count_def reply_type_defs elim!: evenE)
  have rng: "\<not> (?e < -1 \<or> (0 < rd_maxelements G \<and> rd_maxelements G < ?e))" "?e \<noteq> -1"
    using a n by (auto simp: G_def at_item_def REDIS_READER_MAX_ARRAY_ELEMENTS_def aggr_count_def)
  have k: "nat (rd_ridx G) = k" using a by (simp add: G_def at_item_def)
  have nn: "nat (int n mod 2 ^ 64) = n" using n by (simp add: nat_mod_as_int [symmetric] zmod_int [symmetric])
  have sl: "slot_ok is_aggregate (rd_task G) k h" using s by (simp add: G_def slot_store_grown [OF a])
  have "n \<le> SIZE_MAX div 8" using n by (simp add: SIZE_MAX_def)
  from array [OF g ty(2) sl this] obtain f where f: "createArray fn = Some f" "f M n (rd_task G) k h = Some (p, h1)"
    by (auto simp: p_def h1_def G_def slot_store_grown [OF a])
  have fg: "fn_get G createArray = Some f" using fn_get_item [OF a, of createArray] f(1) by (simp add: G_def)
  have "aggregate_elements M (dec_int ?e) (G, h) = map_option (\<lambda>r'. (REDIS_OK, if rd_ridx G = 0 then r'\<lparr>rd_reply := p\<rparr> else r', h1))
        (if 0 < n then Some (push_task (int n) p G) else moveToNextTask G)"
    unfolding aggregate_elements_def prod.case e option.case Let_def ty(1) el if_not_P [OF rng(1)] if_not_P [OF rng(2)]
      fg k nn f(2) by (simp add: p_def)
  then show ?thesis
    using pitem_aggr [OF g a rt, of strtod ?e y h] by (simp add: G_def)
qed

lemma pushed:
  fixes r :: "heap redisReader" and p e ty k
  defines "R \<equiv> set_root k p (push_task e p (grown (typed ty r)))"
  assumes "at_item fn k r"
  shows "at_item fn (Suc k) R"
    and "\<forall>j < k. rd_task R ! j = rd_task r ! j"
    and "rd_task R ! k = (rd_task r ! k)\<lparr>rt_type := ty, rt_elements := e, rt_obj := p\<rparr>"
    and "rt_idx (rd_task R ! Suc k) = 0" and "rd_fn R = rd_fn r" and "rd_maxelements R = rd_maxelements r"
    and "rd_reply R = (if k = 0 then p else rd_reply r)"
proof -
  let ?G = "grown (typed ty r)"
  have G: "stack_ok ?G" "rd_ridx ?G = int k" "Suc k < length (rd_task ?G)"
    using grown_stack [of "typed ty r"] assms(2) by (auto simp: at_item_def stack_ok_def)
  have nt: "nat (1 + int k) = Suc k" "nat (int k + 1) = Suc k" by simp_all
  have t: "rd_task R = (rd_task ?G)[k := (rd_task ?G ! k)\<lparr>rt_elements := e, rt_obj := p\<rparr>,
      Suc k := \<lparr>rt_type = -1, rt_elements = -1, rt_idx = 0, rt_obj = NULL, rt_parent = Some k, rt_privdata = rd_privdata r\<rparr>]"
    using assms(2) by (simp add: R_def set_root_def push_task_def upd_task_def Let_def at_item_def nt)
  note tk = grown_typed_task [OF assms(2), of _ ty]
  show "\<forall>j < k. rd_task R ! j = rd_task r ! j" unfolding t using tk by simp
  show "rd_task R ! k = (rd_task r ! k)\<lparr>rt_type := ty, rt_elements := e, rt_obj := p\<rparr>"
    unfolding t using tk [of k] G by simp
  show "rt_idx (rd_task R ! Suc k) = 0" unfolding t using G by simp
  show "rd_fn R = rd_fn r" "rd_maxelements R = rd_maxelements r" "rd_reply R = (if k = 0 then p else rd_reply r)"
    by (simp_all add: R_def set_root_def push_task_def upd_task_def Let_def)
  have "rt_type (rd_task R ! Suc k) = -1" "rt_parent (rd_task R ! Suc k) = Some k" unfolding t using G by simp_all
  moreover have "rd_err R = 0" "stack_ok R" "rd_fn R = Some fn" "rd_ridx R = int (Suc k)"
    "rd_maxelements R = REDIS_READER_MAX_ARRAY_ELEMENTS"
    using assms(2) G by (auto simp: R_def set_root_def push_task_def upd_task_def Let_def at_item_def stack_ok_def)
  ultimately show "at_item fn (Suc k) R" by (simp add: at_item_def)
qed

lemma parses_aggr:
  assumes g: "\<forall>n. granted M n" and n: "length vs < 2 ^ 31" and ev: "kd = Map \<longrightarrow> even (length vs)"
    and push: "\<forall>v \<in> set vs. allowed v (aggr_type kd)" and ch: "\<forall>v \<in> set vs. parses strtod M fn v"
  shows "parses strtod M fn (RAggr kd vs)"
  unfolding parses_def
proof (intro allI impI, elim conjE)
  fix r :: "heap redisReader" and h :: heap and k y
  let ?v = "RAggr kd vs" and ?p = "Ref (length h)" and ?G = "grown (typed (aggr_type kd) r)" and ?n = "length vs"
  let ?c = "aggr_cell kd (replicate ?n NULL)" and ?s = "store (rd_task r) k (Ref (length h)) h"
  let ?y = "concat (map encode vs) @ y" and ?F = "?s @ layout (length h) ?v"
  assume a: "at_item fn k r" and "slot_ok (allowed ?v) (rd_task r) k h"
  then have s: "slot_ok is_aggregate (rd_task r) k h" by (simp add: allowed_def)
  note rnd = aggr_round [OF g a s n ev, of strtod ?y]
  have enc: "encode ?v @ y = (aggr_char kd # dec_int (int (aggr_count kd ?n)) @ CRLF) @ ?y" by simp
  have ri: "rd_ridx r = int k" "rd_ridx ?G = int k" "rd_err ?G = 0" using a by (simp_all add: at_item_def)
  show "\<exists>r1. agrees k r r1 \<and> rd_reply r1 = (if k = 0 then Ref (length h) else rd_reply r) \<and>
      pl strtod M (encode ?v @ y, r, h) = pl_next strtod M y ?F r1"
  proof (cases "vs = []")
    case True
    then have "pl strtod M (encode ?v @ y, r, h) = pl_next strtod M y ?F (set_root k ?p ?G)"
      using rnd ri enc by (intro pl_finish_aggr) simp_all
    moreover have "rd_reply (set_root k ?p ?G) = (if k = 0 then ?p else rd_reply r)" by (simp add: set_root_def)
    ultimately show ?thesis using agrees_grown [OF a] by blast
  next
    case False
    let ?R = "set_root k ?p (push_task (int ?n) ?p ?G)" and ?H = "?s @ [Some ?c]"
    note R = pushed [OF a, of ?p "int ?n" "aggr_type kd"]
    have "rd_err ?R = 0" using R(1) by (simp add: at_item_def)
    then have "pitem strtod M (encode ?v @ y, r, h) = Some (REDIS_OK, ?y, ?R, ?H)"
      using rnd False ri enc by (simp add: set_root_def)
    then have L: "pl strtod M (encode ?v @ y, r, h) = pl strtod M (?y, ?R, ?H)"
      using ri(1) by (intro pl_step) simp_all
    have el: "at_element k 0 (0 + ?n) (length h) ?R ?H ?c (replicate ?n NULL)"
      using R n False by (simp add: at_element_def aggr_cell_def nth_append)
    have al: "\<forall>v \<in> set vs. allowed v (rr_type ?c)" using push by (simp add: aggr_cell_def)
    obtain r1 where r1: "rd_ridx r1 = int k" "\<forall>j \<le> k. rd_task r1 ! j = rd_task ?R ! j" "rd_err r1 = 0"
      "rd_fn r1 = rd_fn ?R" "rd_maxelements r1 = rd_maxelements ?R" "stack_ok r1" "rd_reply r1 = rd_reply ?R"
      "pl strtod M (?y, ?R, ?H) = pl_next strtod M y (?H[length h := Some (?c\<lparr>rr_element := Some (take 0 (replicate ?n NULL)
          @ map Ref (addrs (length ?H) vs))\<rparr>)] @ layouts (length ?H) vs) r1"
      using parse_children [OF ch al False el, of y] by blast
    have "?H[length h := Some (?c\<lparr>rr_element := Some (take 0 (replicate ?n NULL) @ map Ref (addrs (length ?H) vs))\<rparr>)]
        @ layouts (length ?H) vs = ?F"
      using False by (simp add: aggr_cell_def list_update_append)
    with L r1(8) have "pl strtod M (encode ?v @ y, r, h) = pl_next strtod M y ?F r1" by simp
    moreover have "agrees k r r1" using r1(1-6) R(2,3,5,6) by (simp add: agrees_def)
    ultimately show ?thesis using r1(7) R(7) by (intro exI [of _ r1]) simp
  qed
qed

lemma parses_ok: "\<forall>n. granted M n \<Longrightarrow> resp_ok strtod v \<Longrightarrow> parses strtod M fn v"
proof (induction v)
  case (RNil f)
  then show ?case by (cases f) (simp_all add: parses_nil parses_nil_bulk parses_nil_array)
next
  case (RAggr kd vs)
  have "\<forall>v \<in> set vs. allowed v (aggr_type kd)"
  proof
    fix v assume "v \<in> set vs"
    then show "allowed v (aggr_type kd)" using RAggr.prems(2)
      by (cases kd) (simp_all add: allowed_def not_push_def is_aggregate_def split: resp.split)
  qed
  with RAggr show ?case by (intro parses_aggr) simp_all
qed (simp_all add: parses_status parses_error parses_integer parses_double parses_bool parses_string parses_verb)

end

section \<open>Whole replies\<close>

text \<open>A usable reader between two replies, with the default object functions and limits.\<close>

definition reader_idle :: "heap redisReader \<Rightarrow> bool" where
  "reader_idle r \<longleftrightarrow> reader_ready r \<and> rd_ridx r = -1 \<and> rd_fn r = Some defaultFunctions
     \<and> rd_maxelements r = REDIS_READER_MAX_ARRAY_ELEMENTS"

lemma root_item:
  assumes "reader_idle r"
  shows "at_item defaultFunctions 0 (start_task (erase r))" and "slot_ok P (rd_task (start_task (erase r))) 0 h"
    and "store (rd_task (start_task (erase r))) 0 p h = h"
  using assms
  by (auto simp: reader_idle_def reader_ready_def stack_ok_def at_item_def start_task_def upd_task_def
      slot_ok_def store_def)

lemma encode_nonempty: "encode v \<noteq> []"
  by (cases v rule: encode.cases) simp_all

lemma idle_unread:
  assumes "reader_idle r" and "unread r \<noteq> []"
  shows "obs (redisReaderGetReply strtod Ms True (r, h)) = pget strtod Ms (unread r, erase r, h)"
proof -
  have w: "buf_wf r" "rd_err r = 0" using assms(1) by (simp_all add: reader_idle_def reader_ready_def)
  have "rd_len r \<noteq> 0" by (rule buf_wfE [OF w(1)]) (use assms(2) in auto)
  from redisReaderGetReply_spec [OF w this] show ?thesis by (simp add: pabs_def)
qed

lemma pget_pl: "pget strtod (\<lambda>_. M) (u, r, h) =
    (case pl strtod M (u, start_task r, h) of
       None \<Rightarrow> None
     | Some (u, r, h) \<Rightarrow>
         if rd_err r \<noteq> 0 then Some (REDIS_ERR, NULL, u, r, h)
         else if rd_ridx r = -1 then Some (REDIS_OK, rd_reply r, u, r\<lparr>rd_reply := NULL\<rparr>, h)
         else Some (REDIS_OK, NULL, u, r, h))"
  by (simp add: pget_def pl_def)

lemma pget_encode:
  assumes "\<forall>n. granted M n" and "resp_ok strtod v" and "reader_idle r"
  shows "\<exists>r'. pget strtod (\<lambda>_. M) (encode v @ y, erase r, h) = Some (REDIS_OK, Ref (length h), y, r', h @ layout (length h) v)
    \<and> rd_ridx r' = -1 \<and> rd_fn r' = Some defaultFunctions \<and> rd_maxelements r' = REDIS_READER_MAX_ARRAY_ELEMENTS"
proof -
  let ?s = "start_task (erase r)"
  note item = root_item [OF assms(3)]
  obtain r1 where r1: "agrees 0 ?s r1" "rd_reply r1 = Ref (length h)"
    "pl strtod M (encode v @ y, ?s, h) = pl_next strtod M y (h @ layout (length h) v) r1"
    by (rule parsesD [OF default_builder.parses_ok [OF assms(1,2)] item(1) item(2), of h y])
      (simp add: item(3))
  have m: "moveToNextTask r1 = Some (r1\<lparr>rd_ridx := -1\<rparr>)"
    using r1(1) by (simp add: moveToNextTask.simps [of r1] agrees_def)
  have f: "rd_err r1 = 0" "rd_fn r1 = Some defaultFunctions" "rd_maxelements r1 = REDIS_READER_MAX_ARRAY_ELEMENTS"
    using r1(1) item(1) by (simp_all add: agrees_def at_item_def)
  have "pl strtod M (encode v @ y, ?s, h) = Some (y, r1\<lparr>rd_ridx := -1\<rparr>, h @ layout (length h) v)"
    using r1(3) m by (simp add: pl_next_def pl_done)
  with r1(2) f show ?thesis by (simp add: pget_pl)
qed

lemma idle_getReply:
  assumes "\<forall>n. granted M n" and "resp_ok strtod v" and "reader_idle r" and "unread r = encode v @ y"
  shows "\<exists>r'. redisReaderGetReply strtod (\<lambda>_. M) True (r, h)
      = Some (REDIS_OK, Ref (length h), r', h @ layout (length h) v) \<and> reader_idle r' \<and> unread r' = y"
proof -
  obtain x where x: "pget strtod (\<lambda>_. M) (unread r, erase r, h) = Some (REDIS_OK, Ref (length h), y, x, h @ layout (length h) v)"
    "rd_ridx x = -1" "rd_fn x = Some defaultFunctions" "rd_maxelements x = REDIS_READER_MAX_ARRAY_ELEMENTS"
    using pget_encode [OF assms(1-3)] assms(4) by metis
  have "unread r \<noteq> []" using assms(4) encode_nonempty by simp
  from idle_unread [OF assms(3) this, of strtod "\<lambda>_. M" h] x(1) obtain r'
    where g: "redisReaderGetReply strtod (\<lambda>_. M) True (r, h) = Some (REDIS_OK, Ref (length h), r', h @ layout (length h) v)"
      and e: "unread r' = y" "erase r' = x"
    by (auto simp: obs_def pabs_def)
  have "reader_ready r'" using redisReaderGetReply_state [OF _ g] assms(3) by (auto simp: reader_idle_def)
  with x(2-4) e(2) have "reader_idle r'" by (auto simp: reader_idle_def)
  with g e show ?thesis by blast
qed

text \<open>The object function for nil refuses a push as parent.\<close>

lemma nil_in_push:
  assumes "\<forall>n. granted M n" and "at_item defaultFunctions (Suc k) r" and "rt_obj (rd_task r ! k) = Ref a"
    and "hget h (Ref a) = Some c" and "rr_type c = REDIS_REPLY_PUSH"
  shows "pitem strtod M (encode (RNil NilLine) @ y, r, h) = None"
proof -
  let ?t = "typed REDIS_REPLY_NIL r"
  have t: "rd_task ?t ! j = (if j = Suc k then (rd_task r ! Suc k)\<lparr>rt_type := REDIS_REPLY_NIL\<rparr> else rd_task r ! j)" for j
    using assms(2) by (intro typed_task) (simp_all add: at_item_def)
  have p: "rt_parent (rd_task ?t ! Suc k) = Some k" "rt_obj (rd_task ?t ! k) = Ref a" "nat (rd_ridx ?t) = Suc k"
    using assms(2,3) t by (simp_all add: at_item_def)
  have "createNilObject M (rd_task ?t) (Suc k) h = None"
    using p hget_append [OF assms(4)] assms(5)
    by (simp add: createNilObject_def createReplyObject_granted [OF assms(1)] attach_def not_push_def reply_type_defs
        del: hget.simps)
  moreover have "fn_get ?t createNil = Some createNilObject"
    using assms(2) by (simp add: at_item_def fn_get_def typed_def upd_task_def defaultFunctions_def)
  ultimately have "lineObject strtod M [] ?t h = Obj None"
    using p(3) by (simp add: lineObject_def cur_typed [OF assms(2)] reply_type_defs)
  then show ?thesis
    by (simp add: pitem_typed [OF assms(2), of _ REDIS_REPLY_NIL] reply_type_def ptyped_def cur_typed [OF assms(2)]
        is_line_type_def pline_def find_line_CRLF [of "[]", simplified])
qed

lemma example_idle:
  assumes "length t < 100"
  obtains r r1 where "redisReaderCreateWithFunctions mem_ok (Some defaultFunctions) = Some r"
    "redisReaderFeed mem_ok t (r, []) = Some (REDIS_OK, r1, [])" "reader_idle r1" "unread r1 = t"
proof -
  obtain r where r: "redisReaderCreateWithFunctions mem_ok (Some defaultFunctions) = Some r"
    using create_granted [of mem_ok] by auto
  note c = create_ready [OF r]
  then have w: "buf_wf r" "rd_err r = 0" by (simp_all add: reader_ready_def)
  obtain r1 where f: "redisReaderFeed mem_ok t (r, []) = Some (REDIS_OK, r1, [])"
    using feed_granted [OF w, of mem_ok t "[]"] by auto
  have p: "pabs (r1, []) = (t, erase r, [])" using redisReaderFeed_spec [OF w f] c assms by simp
  have "reader_ready r1" using feed_state [OF _ f] c assms by auto
  moreover have "rd_ridx (erase r1) = -1" "rd_fn (erase r1) = Some defaultFunctions"
    "rd_maxelements (erase r1) = REDIS_READER_MAX_ARRAY_ELEMENTS" using p c by (simp_all add: pabs_def)
  ultimately have "reader_idle r1" by (simp add: reader_idle_def)
  with r f p that show thesis by (simp add: pabs_def)
qed

section \<open>Properties\<close>

text \<open>C14: The parser is the inverse of the encoding: given memory, a usable reader between replies whose
  unread input starts with the encoding of any well-formed reply value (all twelve reply types,
  nested to any depth, the task stack growing as needed) returns in one call a pointer to a
  heap tree that is exactly the tree of that value, leaves everything behind the reply
  unread and is ready for the next one.\<close>

theorem redisReader_roundtrip:
  assumes "\<forall>n. granted M n" and "resp_ok strtod v" and "reader_idle r" and "unread r = encode v @ y"
  shows "\<exists>r'. redisReaderGetReply strtod (\<lambda>_. M) True (r, h)
      = Some (REDIS_OK, Ref (length h), r', h @ layout (length h) v) \<and> reader_idle r' \<and> unread r' = y"
  using assms by (rule idle_getReply)

theorem redisReader_roundtrip_witness:
  "\<exists>r r1 r'. redisReaderCreateWithFunctions mem_ok (Some defaultFunctions) = Some r
    \<and> redisReaderFeed mem_ok (encode (RAggr Array [RInteger 7, RString ''x'']) @ ''+'') (r, [])
        = Some (REDIS_OK, r1, [])
    \<and> redisReaderGetReply no_strtod (\<lambda>_. mem_ok) True (r1, [])
        = Some (REDIS_OK, Ref 0, r', layout 0 (RAggr Array [RInteger 7, RString ''x'']))
    \<and> unread r' = ''+''"
proof -
  let ?v = "RAggr Array [RInteger 7, RString ''x'']"
  have "length (encode ?v @ ''+'') < 100" by (simp add: CRLF_def dec_int_def dec_small aggr_count_def)
  then obtain r r1 where r: "redisReaderCreateWithFunctions mem_ok (Some defaultFunctions) = Some r"
    and f: "redisReaderFeed mem_ok (encode ?v @ ''+'') (r, []) = Some (REDIS_OK, r1, [])"
    and i: "reader_idle r1" and u: "unread r1 = encode ?v @ ''+''" by (rule example_idle)
  have ok: "resp_ok no_strtod ?v" by (simp add: LLONG_MIN_def LLONG_MAX_def)
  have "\<forall>n. granted mem_ok n" by simp
  from redisReader_roundtrip [OF this ok i u, of "[]"] r f show ?thesis by auto
qed

text \<open>A push message with a nil element ends the process: the object functions for nil, booleans
  and doubles assert that their parent is an array, a map or a set, so the well-formed message
  \<open>>1\<close>, \<open>_\<close> from a server runs into a failed assertion with the default functions.\<close>

theorem push_nil_aborts:
  assumes "\<forall>n. granted M n" and "reader_idle r" and "unread r = encode (RAggr Push [RNil NilLine]) @ y"
  shows "redisReaderGetReply strtod (\<lambda>_. M) True (r, h) = None"
proof -
  let ?s = "start_task (erase r)" and ?v = "RAggr Push [RNil NilLine]" and ?y = "encode (RNil NilLine) @ y"
  let ?R = "set_root 0 (Ref (length h)) (push_task 1 (Ref (length h)) (grown (typed REDIS_REPLY_PUSH ?s)))"
  let ?H = "h @ [Some (aggr_cell Push [NULL])]"
  note item = root_item [OF assms(2)]
  note R = default_builder.pushed [OF item(1), of "Ref (length h)" 1 REDIS_REPLY_PUSH]
  have e: "rd_err (push_task 1 (Ref (length h)) (grown (typed REDIS_REPLY_PUSH ?s))) = 0" "rd_ridx ?s = 0"
    using item(1) by (simp_all add: at_item_def)
  have "pitem strtod M (encode ?v @ y, ?s, h) = Some (REDIS_OK, ?y, ?R, ?H)"
    using default_builder.aggr_round [OF assms(1) item(1,2), of 1 Push strtod ?y] e
    by (simp add: item(3) set_root_def aggr_count_def)
  then have "pl strtod M (encode ?v @ y, ?s, h) = pl strtod M (?y, ?R, ?H)" using e(2) by (intro pl_step) simp_all
  moreover have "pitem strtod M (?y, ?R, ?H) = None"
    using assms(1) R(1) by (rule nil_in_push [where c = "aggr_cell Push [NULL]" and a = "length h"])
      (simp_all add: R(3) aggr_cell_def)
  then have "pl strtod M (?y, ?R, ?H) = None" using R(1) by (intro pl_abort) (simp_all add: at_item_def)
  ultimately have "pget strtod (\<lambda>_. M) (unread r, erase r, h) = None" by (simp only: pget_pl assms(3)) simp
  moreover have "unread r \<noteq> []" using assms(3) encode_nonempty by simp
  ultimately show ?thesis using idle_unread [OF assms(2), of strtod "\<lambda>_. M" h] by (simp add: obs_def)
qed

theorem push_nil_aborts_witness:
  "\<exists>r r1. redisReaderCreateWithFunctions mem_ok (Some defaultFunctions) = Some r
    \<and> redisReaderFeed mem_ok (encode (RAggr Push [RNil NilLine])) (r, []) = Some (REDIS_OK, r1, [])
    \<and> redisReaderGetReply no_strtod (\<lambda>_. mem_ok) True (r1, []) = None"
proof -
  let ?v = "RAggr Push [RNil NilLine]"
  have "length (encode ?v) < 100" by (simp add: CRLF_def dec_int_def dec_small aggr_count_def)
  then obtain r r1 where r: "redisReaderCreateWithFunctions mem_ok (Some defaultFunctions) = Some r"
    and f: "redisReaderFeed mem_ok (encode ?v) (r, []) = Some (REDIS_OK, r1, [])"
    and i: "reader_idle r1" and u: "unread r1 = encode ?v" by (rule example_idle)
  have "\<forall>n. granted mem_ok n" by simp
  from push_nil_aborts [OF this i, of "[]" no_strtod "[]"] u r f show ?thesis by auto
qed

end
