(* ===== verification/ReaderWait.thy ===== *)
theory ReaderWait
  imports ReaderTrip
begin

text \<open>
  A reader in the middle of a reply that arrives in pieces: as long as bytes are missing every call
  returns no reply, and the call after the last piece returns the whole tree, however the encoding
  was cut.
\<close>

section \<open>Incomplete input\<close>

lemma pget_prefix:
  assumes "stack_ok e" and "rd_err e = 0" and "y \<noteq> []"
    and "pget strtod (\<lambda>_. M) (u @ y, e, h) = Some (REDIS_OK, p, [], x, hx)"
  obtains u' e' h' where "pget strtod (\<lambda>_. M) (u, e, h) = Some (REDIS_OK, NULL, u', e', h')" and "0 \<le> rd_ridx e'"
proof -
  let ?s = "start_task e"
  have s: "stack_ok ?s" "rd_err ?s = 0" using assms(1,2) by (simp_all add: start_task_keeps start_task_stack)
  obtain x' where w: "ploop strtod (\<lambda>_. M) (length (u @ y) + 1) (u @ y, ?s, h) = Some ([], x', hx)" and "rd_err x' = 0"
    using assms(4) by (auto simp: pget_def split: option.splits if_splits)
  note app = ploop_append [OF s(2,1), of u "length u + 1" y "length (u @ y) + 1" strtod M h]
  show ?thesis
  proof (cases "ploop strtod (\<lambda>_. M) (length u + 1) (u, ?s, h)")
    case None
    with app w show ?thesis by simp
  next
    case (Some a)
    obtain u' e' h' where a: "a = (u', e', h')" by (cases a) auto
    have "rd_err e' = 0" "0 \<le> rd_ridx e'"
      using app w Some a assms(3) \<open>rd_err x' = 0\<close> by (auto split: if_splits)
    with Some a show ?thesis by (intro that [of u' e' h']) (simp_all add: pget_def)
  qed
qed

text \<open>The reader will return the tree of \<open>v\<close> behind \<open>h0\<close> once it has also got the bytes \<open>rest\<close>.\<close>

definition awaits :: "strtod_fn \<Rightarrow> mem \<Rightarrow> resp \<Rightarrow> heap \<Rightarrow> bytes \<Rightarrow> heap rstate \<Rightarrow> bool" where
  "awaits strtod M v h0 rest = (\<lambda>(r, h). reader_ready r \<and>
     (\<exists>x. pget strtod (\<lambda>_. M) (unread r @ rest, erase r, h) = Some (REDIS_OK, Ref (length h0), [], x, h0 @ layout (length h0) v)
       \<and> rd_ridx x = -1 \<and> rd_fn x = Some defaultFunctions \<and> rd_maxelements x = REDIS_READER_MAX_ARRAY_ELEMENTS))"

lemma awaits_idle:
  assumes "\<forall>n. granted M n" and "resp_ok strtod v" and "reader_idle r" and "unread r = []"
  shows "awaits strtod M v h (encode v) (r, h)"
  using pget_encode [OF assms(1-3), of "[]" h] assms(3,4) by (simp add: awaits_def reader_idle_def)

lemma awaits_feed:
  assumes "\<forall>n. granted M n" and "awaits strtod M v h0 (d @ rest) (r, h)" and "d \<noteq> []" and "rd_len r + length d < 2 ^ 31"
  obtains r' where "redisReaderFeed M d (r, h) = Some (REDIS_OK, r', h)" and "awaits strtod M v h0 rest (r', h)"
    and "rd_len r' \<noteq> 0" and "rd_len r' \<le> rd_len r + length d"
proof -
  have rdy: "reader_ready r" using assms(2) by (simp add: awaits_def)
  then have r: "buf_wf r" "rd_err r = 0" by (simp_all add: reader_ready_def)
  obtain r' where f: "redisReaderFeed M d (r, h) = Some (REDIS_OK, r', h)" using feed_granted [OF r assms(1)] by blast
  have u: "length (unread r) \<le> rd_len r" using r(1) by (rule buf_wfE) simp
  have s: "pabs (r', h) = (unread r @ d, erase r, h)" "rd_len r' \<noteq> 0" "rd_len r' \<le> rd_len r + length d"
    using redisReaderFeed_spec [OF r f] u assms(3,4) by simp_all
  moreover have "reader_ready r'" using feed_state [OF rdy f assms(4)] by auto
  ultimately show ?thesis using f assms(2) by (intro that) (simp_all add: awaits_def pabs_def)
qed

text \<open>While bytes are missing there is no reply.\<close>

lemma awaits_none:
  assumes "awaits strtod M v h0 rest (r, h)" and "rest \<noteq> []"
  obtains r' h' where "redisReaderGetReply strtod (\<lambda>_. M) True (r, h) = Some (REDIS_OK, NULL, r', h')"
    and "awaits strtod M v h0 rest (r', h')" and "rd_len r' \<le> rd_len r"
proof (cases "rd_len r = 0")
  case True
  with assms that show ?thesis by (auto simp: awaits_def reader_ready_def redisReaderGetReply_def)
next
  case False
  have rdy: "reader_ready r" using assms(1) by (simp add: awaits_def)
  then have r: "buf_wf r" "rd_err r = 0" "stack_ok r" by (simp_all add: reader_ready_def)
  then have e: "stack_ok (erase r)" "rd_err (erase r) = 0" by simp_all
  from assms(1) obtain x where x: "pget strtod (\<lambda>_. M) (unread r @ rest, erase r, h)
      = Some (REDIS_OK, Ref (length h0), [], x, h0 @ layout (length h0) v)"
    "rd_ridx x = -1" "rd_fn x = Some defaultFunctions" "rd_maxelements x = REDIS_READER_MAX_ARRAY_ELEMENTS"
    by (auto simp: awaits_def)
  obtain u' e' h' where p: "pget strtod (\<lambda>_. M) (unread r, erase r, h) = Some (REDIS_OK, NULL, u', e', h')" "0 \<le> rd_ridx e'"
    by (rule pget_prefix [OF e assms(2) x(1)])
  have "obs (redisReaderGetReply strtod (\<lambda>_. M) True (r, h)) = Some (REDIS_OK, NULL, u', e', h')"
    using redisReaderGetReply_spec [OF r(1,2) False, of strtod "\<lambda>_. M" h] p(1) by (simp add: pabs_def)
  then obtain r' where g: "redisReaderGetReply strtod (\<lambda>_. M) True (r, h) = Some (REDIS_OK, NULL, r', h')"
    "unread r' = u'" "erase r' = e'"
    by (auto simp: obs_def pabs_def)
  have st: "reader_ready r'" "rd_len r' \<le> rd_len r" using redisReaderGetReply_state [OF rdy g(1)] by auto
  have "pget strtod (\<lambda>_. M) (u' @ rest, e', h') = pget strtod (\<lambda>_. M) (unread r @ rest, erase r, h)"
    by (rule pget_cut [OF e p])
  with x g st that show ?thesis by (simp add: awaits_def)
qed

lemma awaits_all:
  assumes "awaits strtod M v h0 [] (r, h)" and "rd_len r \<noteq> 0"
  obtains r' where "redisReaderGetReply strtod (\<lambda>_. M) True (r, h)
      = Some (REDIS_OK, Ref (length h0), r', h0 @ layout (length h0) v)"
    and "reader_idle r'" and "unread r' = []" and "rd_len r' < 1024"
proof -
  have rdy: "reader_ready r" using assms(1) by (simp add: awaits_def)
  then have r: "buf_wf r" "rd_err r = 0" by (simp_all add: reader_ready_def)
  from assms(1) obtain x where x: "pget strtod (\<lambda>_. M) (unread r, erase r, h)
      = Some (REDIS_OK, Ref (length h0), [], x, h0 @ layout (length h0) v)"
    "rd_ridx x = -1" "rd_fn x = Some defaultFunctions" "rd_maxelements x = REDIS_READER_MAX_ARRAY_ELEMENTS"
    by (auto simp: awaits_def)
  have "obs (redisReaderGetReply strtod (\<lambda>_. M) True (r, h)) = Some (REDIS_OK, Ref (length h0), [], x, h0 @ layout (length h0) v)"
    using redisReaderGetReply_spec [OF r assms(2), of strtod "\<lambda>_. M" h] x(1) by (simp add: pabs_def)
  then obtain r' where g: "redisReaderGetReply strtod (\<lambda>_. M) True (r, h)
      = Some (REDIS_OK, Ref (length h0), r', h0 @ layout (length h0) v)" "unread r' = []" "erase r' = x"
    by (auto simp: obs_def pabs_def)
  have "reader_ready r'" using redisReaderGetReply_state [OF rdy g(1)] by auto
  with x(2-4) g(3) have "reader_idle r'" by (auto simp: reader_idle_def)
  with g that redisReaderGetReply_small [OF rdy assms(2) g(1,2)] show ?thesis by blast
qed

text \<open>The cell of a reply that is not a push message.\<close>

definition not_push :: "resp \<Rightarrow> bool" where
  "not_push v \<longleftrightarrow> (\<forall>vs. v \<noteq> RAggr Push vs)"

lemma root_cell:
  assumes "not_push v"
  obtains cell where "hget (h @ layout (length h) v) (Ref (length h)) = Some cell" and "rr_type cell \<noteq> REDIS_REPLY_PUSH"
proof (cases v)
  case (RAggr k vs)
  then have "aggr_type k \<noteq> REDIS_REPLY_PUSH"
    using assms by (cases k) (auto simp: not_push_def reply_type_defs)
  with RAggr show ?thesis by (intro that [of "aggr_cell k (map Ref (addrs (length h + 1) vs))"]) (simp_all add: aggr_cell_def)
qed (auto intro!: that simp: reply_type_defs)

end
