(* ===== verification/Format.thy ===== *)
theory Format
  imports SdsText ReplyTree
begin

text \<open>
  Command formatting of \<open>src/src/hiredis/hiredis.c\<close>: the size computation, the two formatters that
  take an argument vector and the \<open>printf\<close>-like one. The main results are that all three write
  exactly the protocol encoding of the argument list, with the length they announce.
\<close>

section \<open>Sizes\<close>

fun countDigits_loop :: "nat \<Rightarrow> nat \<Rightarrow> nat" where
  "countDigits_loop v result =
     (if v < 10 then result
      else if v < 100 then result + 1
      else if v < 1000 then result + 2
      else if v < 10000 then result + 3
      else countDigits_loop (v div 10000) (ubits 32 (result + 4)))"

declare countDigits_loop.simps [simp del]

definition countDigits :: "nat \<Rightarrow> nat" where
  "countDigits v = countDigits_loop v 1"

definition bulklen :: "nat \<Rightarrow> nat" where
  "bulklen len = ubits 64 (1 + countDigits len + 2 + len + 2)"

section \<open>Writing the command\<close>

text \<open>\<open>snprintf(cmd+pos, n, ...)\<close> of a text, and the offset it returns; a write outside the allocated
  bytes is undefined (\<open>None\<close>).\<close>

definition snprintf_at :: "bytes \<Rightarrow> int \<Rightarrow> int \<Rightarrow> bytes \<Rightarrow> (bytes \<times> int) option" where
  "snprintf_at cmd pos n t =
     (let w = snprintf_buf (nat (n mod 2 ^ 64)) t
      in if 0 \<le> pos \<and> nat pos + length w \<le> length cmd
         then Some (memcpy_at cmd (nat pos) w, sbits 32 (pos + int (length t))) else None)"

definition put :: "bytes \<Rightarrow> int \<Rightarrow> bytes \<Rightarrow> (bytes \<times> int) option" where
  "put cmd pos t =
     (if 0 \<le> pos \<and> nat pos + length t \<le> length cmd
      then Some (memcpy_at cmd (nat pos) t, sbits 32 (pos + int (length t))) else None)"

text \<open>The loop that appends one bulk string per argument; \<open>totlen\<close> and \<open>pos\<close> are \<open>int\<close>s.\<close>

fun put_args :: "bytes \<Rightarrow> int \<Rightarrow> int \<Rightarrow> bytes list \<Rightarrow> (bytes \<times> int) option" where
  "put_args cmd totlen pos [] = Some (cmd, pos)"
| "put_args cmd totlen pos (a # args) =
     (case snprintf_at cmd pos (totlen - pos) (''$'' @ dec (length a) @ CRLF) of
        None \<Rightarrow> None
      | Some (cmd, pos) \<Rightarrow>
          (case put cmd pos (a @ CRLF) of
             None \<Rightarrow> None
           | Some (cmd, pos) \<Rightarrow> put_args cmd totlen pos args))"

text \<open>\<open>Inl\<close> is an error code; \<open>Inr\<close> the returned length with the allocated bytes; \<open>None\<close> a failed
  assertion or undefined behaviour.\<close>

definition write_command :: "mem \<Rightarrow> int \<Rightarrow> bytes list \<Rightarrow> (int + int \<times> bytes) option" where
  "write_command M totlen args =
     (case malloc_bytes M (nat (sbits 32 (totlen + 1) mod 2 ^ 64)) of
        None \<Rightarrow> Some (Inl (-1))
      | Some cmd \<Rightarrow>
          (case snprintf_at cmd 0 totlen (''*'' @ dec (length args) @ CRLF) of
             None \<Rightarrow> None
           | Some (cmd, pos) \<Rightarrow>
               (case put_args cmd totlen pos args of
                  None \<Rightarrow> None
                | Some (cmd, pos) \<Rightarrow>
                    if pos \<noteq> totlen then None
                    else (case put cmd pos [NUL] of
                            None \<Rightarrow> None
                          | Some (cmd, _) \<Rightarrow> Some (Inr (totlen, cmd))))))"

section \<open>Argument vectors\<close>

text \<open>The bytes of argument \<open>j\<close>: \<open>argvlen[j]\<close> bytes, or the C string when no lengths are given. The
  vectors have \<open>argc\<close> entries.\<close>

definition arg_bytes :: "bytes list \<Rightarrow> nat list option \<Rightarrow> bytes list" where
  "arg_bytes argv argvlen =
     (case argvlen of
        None \<Rightarrow> map cstr argv
      | Some ls \<Rightarrow> map (\<lambda>(a, l). take l a) (zip argv ls))"

definition totlen_argv :: "bytes list \<Rightarrow> int" where
  "totlen_argv args =
     foldl (\<lambda>t a. sbits 32 (t + int (bulklen (length a)))) (int (1 + countDigits (length args) + 2)) args"

definition redisFormatCommandArgv ::
  "mem \<Rightarrow> bytes list \<Rightarrow> nat list option \<Rightarrow> (int + int \<times> bytes) option" where
  "redisFormatCommandArgv M argv argvlen =
     (let args = arg_bytes argv argvlen in write_command M (totlen_argv args) args)"

text \<open>\<open>redisFormatSdsCommandArgv\<close> builds an \<open>sds\<close>; it does not check the results of its appends, so a
  failed allocation there is a NULL pointer that is dereferenced. The length of an argument is a
  \<open>size_t\<close> that \<open>%u\<close> reads as an \<open>unsigned int\<close>.\<close>

fun sds_args :: "mem \<Rightarrow> sds \<Rightarrow> bytes list \<Rightarrow> sds option" where
  "sds_args M cmd [] = Some cmd"
| "sds_args M cmd (a # args) =
     (case sdscatfmt M cmd (''$%u'' @ CRLF) [ArgULL (length a)] of
        Ret cmd \<Rightarrow>
          (case sdscatlen M cmd a of
             None \<Rightarrow> None
           | Some cmd \<Rightarrow>
               (case sdscatlen M cmd CRLF of
                  None \<Rightarrow> None
                | Some cmd \<Rightarrow> sds_args M cmd args))
      | _ \<Rightarrow> None)"

definition totlen_sds :: "bytes list \<Rightarrow> nat" where
  "totlen_sds args =
     foldl (\<lambda>t a. ubits 64 (t + bulklen (length a))) (1 + countDigits (length args) + 2) args"

definition redisFormatSdsCommandArgv ::
  "mem \<Rightarrow> bytes list \<Rightarrow> nat list option \<Rightarrow> (int + int \<times> sds) option" where
  "redisFormatSdsCommandArgv M argv argvlen =
     (let args = arg_bytes argv argvlen; totlen = totlen_sds args
      in case sdsempty M of
           None \<Rightarrow> Some (Inl (-1))
         | Some cmd \<Rightarrow>
             (case sdsMakeRoomFor M cmd totlen of
                None \<Rightarrow> Some (Inl (-1))
              | Some cmd \<Rightarrow>
                  (case sdscatfmt M cmd (''*%i'' @ CRLF) [ArgInt (int (length args))] of
                     Ret cmd \<Rightarrow>
                       (case sds_args M cmd args of
                          None \<Rightarrow> None
                        | Some cmd \<Rightarrow>
                            if sdslen cmd \<noteq> totlen then None
                            else Some (Inr (sbits 32 (int totlen), cmd)))
                   | _ \<Rightarrow> None)))"

section \<open>Format strings\<close>

text \<open>
  The variadic arguments. \<open>render\<close> is the text that the C library's \<open>vsnprintf\<close> produces for one
  conversion specification and its argument (it depends on the locale) and is a parameter.
\<close>

datatype vararg = VStr bytes | VBin bytes | VInt int | VDouble double | VLong int | VLongLong int

type_synonym render_fn = "bytes \<Rightarrow> vararg \<Rightarrow> bytes"

text \<open>What follows flags, field width and precision after the \<open>%\<close>.\<close>

definition spec_rest :: "bytes \<Rightarrow> bytes" where
  "spec_rest p =
     (let p = dropWhile (\<lambda>c. c \<in> set ''#0-+ '') p; p = dropWhile isdigit p
      in case p of
           c # q \<Rightarrow> if c = CHR ''.'' then dropWhile isdigit q else p
         | [] \<Rightarrow> p)"

text \<open>The conversion at \<open>_p\<close>: the kind of argument it takes and the bytes from its last character on.
  \<open>strchr\<close> also finds the terminator, so the end of the format counts as an integer conversion.\<close>

datatype argkind = KInt | KDouble | KLong | KLongLong

definition conversion :: "bytes \<Rightarrow> (argkind \<times> bytes) option" where
  "conversion p =
     (let is_int = (\<lambda>q. q \<noteq> [] \<and> hd q \<in> set ''diouxX'')
      in if p = [] \<or> is_int p then Some (KInt, p)
         else if hd p \<in> set ''eEfFgGaA'' then Some (KDouble, p)
         else if take 2 p = ''hh'' then (if is_int (drop 2 p) then Some (KInt, drop 2 p) else None)
         else if take 1 p = ''h'' then (if is_int (drop 1 p) then Some (KInt, drop 1 p) else None)
         else if take 2 p = ''ll'' then (if is_int (drop 2 p) then Some (KLongLong, drop 2 p) else None)
         else if take 1 p = ''l'' then (if is_int (drop 1 p) then Some (KLong, drop 1 p) else None)
         else None)"

fun takes :: "argkind \<Rightarrow> vararg \<Rightarrow> bool" where
  "takes KInt (VInt _) = True"
| "takes KDouble (VDouble _) = True"
| "takes KLong (VLong _) = True"
| "takes KLongLong (VLongLong _) = True"
| "takes _ _ = False"

text \<open>
  One directive \<open>%\<close> followed by \<open>f\<close> (not empty): the new current argument, the rest of the format
  and the remaining variadic arguments. A specification of 14 bytes or more is consumed as an
  argument but its text is left to be read literally. \<open>FmtErr\<close> is a format error, \<open>OOM\<close> a memory
  error, \<open>FUndef\<close> undefined: a variadic argument that is missing or of another type, or a read
  behind the end of the format.
\<close>

datatype 'a fres = FOk 'a | FmtErr | OOM | FUndef

definition catlen_res :: "sds option \<Rightarrow> (sds \<Rightarrow> 'a) \<Rightarrow> 'a fres" where
  "catlen_res x k = (case x of None \<Rightarrow> OOM | Some s \<Rightarrow> FOk (k s))"

definition directive ::
  "render_fn \<Rightarrow> mem \<Rightarrow> sds \<Rightarrow> bytes \<Rightarrow> vararg list \<Rightarrow> (sds \<times> bytes \<times> vararg list) fres" where
  "directive render M curarg f ap =
     (if hd f = CHR ''s'' then
        (case ap of
           VStr a # ap \<Rightarrow>
             catlen_res (if 0 < strlen a then sdscatlen M curarg (cstr a) else Some curarg)
               (\<lambda>s. (s, tl f, ap))
         | _ \<Rightarrow> FUndef)
      else if hd f = CHR ''b'' then
        (case ap of
           VBin a # ap \<Rightarrow>
             catlen_res (if 0 < length a then sdscatlen M curarg a else Some curarg) (\<lambda>s. (s, tl f, ap))
         | _ \<Rightarrow> FUndef)
      else if hd f = CHR ''%'' then catlen_res (sdscat M curarg ''%'') (\<lambda>s. (s, tl f, ap))
      else
        (case conversion (spec_rest f) of
           None \<Rightarrow> FmtErr
         | Some (kind, p) \<Rightarrow>
             (case ap of
                [] \<Rightarrow> FUndef
              | a # ap \<Rightarrow>
                  if \<not> takes kind a then FUndef
                  else
                    let l = 1 + (length f - length p) + 1
                    in if l < 16 - 2 then
                         (if p = [] then FUndef
                          else let spec = CHR ''%'' # take (l - 1) f
                               in catlen_res (sdscatvprintf M curarg spec (render spec a))
                                    (\<lambda>s. (s, tl p, ap)))
                       else FOk (curarg, tl f, ap))))"

lemma spec_rest_shorter: "length (spec_rest f) \<le> length f"
proof -
  let ?p = "dropWhile isdigit (dropWhile (\<lambda>c. c \<in> set ''#0-+ '') f)"
  have p: "length ?p \<le> length f"
    using length_dropWhile_le le_trans by blast
  show ?thesis
  proof (cases ?p)
    case Nil
    then show ?thesis unfolding spec_rest_def Let_def by (simp only: Nil list.case) simp
  next
    case (Cons c q)
    have "length (dropWhile isdigit q) \<le> length q" by (rule length_dropWhile_le)
    with p Cons show ?thesis unfolding spec_rest_def Let_def by (simp only: Cons list.case) (simp split: if_split)
  qed
qed

lemma conversion_shorter:
  assumes "conversion p = Some (k, q)" shows "length q \<le> length p"
proof -
  have "q = p \<or> q = drop 1 p \<or> q = drop 2 p"
    using assms unfolding conversion_def Let_def by (simp only: option.inject prod.inject split: if_splits) blast+
  then show ?thesis by auto
qed

lemma catlen_res_FOk: "catlen_res x k = FOk y \<Longrightarrow> \<exists>s. y = k s"
  by (auto simp: catlen_res_def split: option.splits)

lemma directive_cases:
  assumes "directive render M a f ap = FOk (a', f', ap')"
  obtains "f' = tl f" | k p where "conversion (spec_rest f) = Some (k, p)" "f' = tl p"
proof (cases "hd f = CHR ''s'' \<or> hd f = CHR ''b'' \<or> hd f = CHR ''%''")
  case True
  then have "f' = tl f"
    using assms unfolding directive_def
    by (auto split: list.splits vararg.splits dest!: catlen_res_FOk)
  then show ?thesis using that by blast
next
  case False
  then show ?thesis
    using assms that unfolding directive_def Let_def
    by (simp only: if_False de_Morgan_disj simp_thms split: option.splits prod.splits list.splits if_splits)
      (auto dest!: catlen_res_FOk)
qed

lemma directive_shorter:
  assumes "directive render M a f ap = FOk (a', f', ap')" shows "length f' \<le> length f"
  using assms
proof (cases rule: directive_cases)
  case (2 k p)
  then show ?thesis using spec_rest_shorter [of f] conversion_shorter [OF 2(1)] by simp
qed simp

text \<open>The end of an argument: the vector grows by one pointer.\<close>

record fstate =
  f_curarg :: sds
  f_touched :: bool
  f_argv :: "sds list"
  f_totlen :: int

definition push_arg :: "mem \<Rightarrow> fstate \<Rightarrow> fstate option" where
  "push_arg M s =
     (if granted M (8 * (length (f_argv s) + 1))
      then Some (s\<lparr>f_argv := f_argv s @ [f_curarg s],
                   f_totlen := sbits 32 (f_totlen s + int (bulklen (sdslen (f_curarg s))))\<rparr>)
      else None)"

function format_loop ::
  "render_fn \<Rightarrow> mem \<Rightarrow> fstate \<Rightarrow> bytes \<Rightarrow> vararg list \<Rightarrow> fstate fres" where
  "format_loop render M s [] ap = FOk s"
| "format_loop render M s (c # f) ap =
     (if c \<noteq> CHR ''%'' \<or> f = [] then
        (if c = CHR '' '' then
           (if f_touched s then
              (case push_arg M s of
                 None \<Rightarrow> OOM
               | Some s \<Rightarrow>
                   (case sdsempty M of
                      None \<Rightarrow> OOM
                    | Some e \<Rightarrow> format_loop render M (s\<lparr>f_curarg := e, f_touched := False\<rparr>) f ap))
            else format_loop render M s f ap)
         else
           (case sdscatlen M (f_curarg s) [c] of
              None \<Rightarrow> OOM
            | Some a \<Rightarrow> format_loop render M (s\<lparr>f_curarg := a, f_touched := True\<rparr>) f ap))
      else
        (case directive render M (f_curarg s) f ap of
           FOk (a, f', ap') \<Rightarrow> format_loop render M (s\<lparr>f_curarg := a, f_touched := True\<rparr>) f' ap'
         | FmtErr \<Rightarrow> FmtErr
         | OOM \<Rightarrow> OOM
         | FUndef \<Rightarrow> FUndef))"
  by pat_completeness auto
termination
  by (relation "measure (\<lambda>(render, M, s, f, ap). length f)") (auto dest: directive_shorter)

declare format_loop.simps [simp del]

definition redisvFormatCommand ::
  "render_fn \<Rightarrow> mem \<Rightarrow> bytes \<Rightarrow> vararg list \<Rightarrow> (int + int \<times> bytes) option" where
  "redisvFormatCommand render M format ap =
     (case sdsempty M of
        None \<Rightarrow> Some (Inl (-1))
      | Some e \<Rightarrow>
          (case format_loop render M \<lparr>f_curarg = e, f_touched = False, f_argv = [], f_totlen = 0\<rparr>
                  (cstr format) ap of
             FOk s \<Rightarrow>
               (case (if f_touched s then push_arg M s else Some s) of
                  None \<Rightarrow> Some (Inl (-1))
                | Some s \<Rightarrow>
                    write_command M (sbits 32 (f_totlen s + int (1 + countDigits (length (f_argv s)) + 2)))
                      (map (\<lambda>a. take (sdslen a) (sds_buf a)) (f_argv s)))
           | FmtErr \<Rightarrow> Some (Inl (-2))
           | OOM \<Rightarrow> Some (Inl (-1))
           | FUndef \<Rightarrow> None))"

text \<open>\<open>redisFormatCommand\<close> reports every error as -1.\<close>

definition redisFormatCommand ::
  "render_fn \<Rightarrow> mem \<Rightarrow> bytes \<Rightarrow> vararg list \<Rightarrow> (int + int \<times> bytes) option" where
  "redisFormatCommand render M format ap =
     map_option (\<lambda>r. case r of Inl e \<Rightarrow> Inl (-1)
         | Inr (len, cmd) \<Rightarrow> if len < 0 then Inl (-1) else Inr (len, cmd))
       (redisvFormatCommand render M format ap)"

section \<open>Lemmas on sizes\<close>

lemma length_dec_step: "10 \<le> v \<Longrightarrow> length (dec v) = length (dec (v div 10)) + 1"
  by (simp add: dec_large [of v])

lemma countDigits_loop_dec:
  "result + length (dec v) < 2 ^ 32 \<Longrightarrow> countDigits_loop v result + 1 = result + length (dec v)"
proof (induction v result rule: countDigits_loop.induct)
  case (1 v result)
  have d: "v div 10 div 10 = v div 100" "v div 100 div 10 = v div 1000" "v div 1000 div 10 = v div 10000"
    by (simp_all add: div_mult2_eq [symmetric])
  consider "v < 10" | "10 \<le> v" "v < 100" | "100 \<le> v" "v < 1000" | "1000 \<le> v" "v < 10000" | "10000 \<le> v"
    by linarith
  then show ?case
  proof cases
    case 5
    have "10 \<le> v div 10" "10 \<le> v div 100" "10 \<le> v div 1000"
      using 5 by (simp_all add: less_eq_div_iff_mult_less_eq)
    then have "length (dec v) = length (dec (v div 10000)) + 4"
      using 5 length_dec_step [of v] length_dec_step [of "v div 10"] length_dec_step [of "v div 100"]
        length_dec_step [of "v div 1000"] d by simp
    with 5 1 show ?thesis by (subst countDigits_loop.simps) simp
  qed (use length_dec_step [of v] length_dec_step [of "v div 10"] length_dec_step [of "v div 100"] d
      in \<open>simp_all add: countDigits_loop.simps [of v] dec_small\<close>)
qed

lemma countDigits_dec: "v < 2 ^ 64 \<Longrightarrow> countDigits v = length (dec v)"
  using countDigits_loop_dec [of 1 v] length_dec_le [of v 19] by (simp add: countDigits_def)

definition bulk :: "bytes \<Rightarrow> bytes" where
  "bulk a = ''$'' @ dec (length a) @ CRLF @ a @ CRLF"

definition command_text :: "bytes list \<Rightarrow> bytes" where
  "command_text args = ''*'' @ dec (length args) @ CRLF @ concat (map bulk args)"

lemma length_CRLF [simp]: "length CRLF = 2"
  by (simp add: CRLF_def)

lemma bulklen_bulk: "length (bulk a) < 2 ^ 31 \<Longrightarrow> bulklen (length a) = length (bulk a)"
  by (simp add: bulklen_def bulk_def countDigits_dec)

lemma length_concat_bulk: "length args \<le> length (concat (map bulk args))"
  by (induction args) (simp_all add: bulk_def)

lemma totlen_argv_text:
  assumes "length (command_text args) < 2 ^ 31" shows "totlen_argv args = int (length (command_text args))"
proof -
  have n: "countDigits (length args) = length (dec (length args))"
    using assms length_concat_bulk [of args] by (intro countDigits_dec) (simp add: command_text_def)
  have "foldl (\<lambda>t a. sbits 32 (t + int (bulklen (length a)))) (int k) args = int (k + length (concat (map bulk args)))"
    if "k + length (concat (map bulk args)) < 2 ^ 31" for k
    using that
  proof (induction args arbitrary: k)
    case (Cons a args)
    then have "bulklen (length a) = length (bulk a)" by (intro bulklen_bulk) simp
    then have "sbits 32 (int k + int (bulklen (length a))) = int (k + length (bulk a))" using Cons.prems by simp
    with Cons.IH [of "k + length (bulk a)"] Cons.prems show ?case by (simp add: add.assoc)
  qed simp
  from this [of "1 + length (dec (length args)) + 2"] assms show ?thesis
    by (simp add: totlen_argv_def n command_text_def)
qed

section \<open>The writing loop\<close>

lemma snprintf_at_fits:
  assumes "p + length t < L" and "L \<le> length cmd" and "L < 2 ^ 31"
  obtains cmd' where "snprintf_at cmd (int p) (int L - int p) t = Some (cmd', int (p + length t))"
    and "length cmd' = length cmd" and "take (p + length t) cmd' = take p cmd @ t"
proof -
  have n: "nat ((int L - int p) mod 2 ^ 64) = L - p"
    using assms by (simp add: nat_diff_distrib')
  have w: "snprintf_buf (L - p) t = t @ [NUL]"
    using assms(1) by (simp add: snprintf_buf_def)
  show ?thesis
  proof (rule that)
    show "snprintf_at cmd (int p) (int L - int p) t = Some (memcpy_at cmd p (t @ [NUL]), int (p + length t))"
      unfolding snprintf_at_def n w Let_def using assms by simp
    show "take (p + length t) (memcpy_at cmd p (t @ [NUL])) = take p cmd @ t"
      using assms by (simp add: memcpy_at_def min_def)
  qed (use assms in simp)
qed

lemma put_fits:
  assumes "p + length t \<le> length cmd" and "p + length t < 2 ^ 31"
  obtains cmd' where "put cmd (int p) t = Some (cmd', int (p + length t))"
    and "length cmd' = length cmd" and "take (p + length t) cmd' = take p cmd @ t"
  using assms by (intro that [of "memcpy_at cmd p t"]) (simp_all add: put_def take_memcpy_at_end)

lemma put_args_fits:
  assumes "p + length (concat (map bulk args)) = L" and "length cmd = L + 1" and "L < 2 ^ 31"
  obtains cmd' where "put_args cmd (int L) (int p) args = Some (cmd', int L)"
    and "length cmd' = length cmd" and "take L cmd' = take p cmd @ concat (map bulk args)"
  using assms
proof (induction args arbitrary: cmd p thesis)
  case (Cons a args)
  let ?h = "''$'' @ dec (length a) @ CRLF"
  have L: "p + length ?h + length (a @ CRLF) + length (concat (map bulk args)) = L"
    using Cons.prems(2) by (simp add: bulk_def [of a])
  obtain c1 where c1: "snprintf_at cmd (int p) (int L - int p) ?h = Some (c1, int (p + length ?h))"
    "length c1 = length cmd" "take (p + length ?h) c1 = take p cmd @ ?h"
  proof (rule snprintf_at_fits [of p ?h L cmd])
    show "p + length ?h < L" using L by simp
  qed (use Cons.prems in simp_all)
  obtain c2 where c2: "put c1 (int (p + length ?h)) (a @ CRLF) = Some (c2, int (p + length ?h + length (a @ CRLF)))"
    "length c2 = length c1"
    "take (p + length ?h + length (a @ CRLF)) c2 = take (p + length ?h) c1 @ a @ CRLF"
  proof (rule put_fits [of "p + length ?h" "a @ CRLF" c1])
    show "p + length ?h + length (a @ CRLF) \<le> length c1" using L Cons.prems c1(2) by linarith
    show "p + length ?h + length (a @ CRLF) < 2 ^ 31" using L Cons.prems(4) by linarith
  qed simp_all
  obtain c3 where c3: "put_args c2 (int L) (int (p + length ?h + length (a @ CRLF))) args = Some (c3, int L)"
    "length c3 = length c2"
    "take L c3 = take (p + length ?h + length (a @ CRLF)) c2 @ concat (map bulk args)"
    using Cons.IH [OF _ L, of c2] c1(2) c2(2) Cons.prems(3,4) by auto
  show ?case
  proof (rule Cons.prems(1))
    show "put_args cmd (int L) (int p) (a # args) = Some (c3, int L)"
      unfolding put_args.simps c1(1) option.case prod.case c2(1) c3(1) ..
    show "take L c3 = take p cmd @ concat (map bulk (a # args))"
      unfolding c3(3) c2(3) c1(3) by (simp add: bulk_def)
  qed (use c1 c2 c3 in simp)
qed simp

text \<open>The announced length, the assertion and the memory bounds are all right as soon as there is an
  argument: the text after the count then leaves room for the NUL that \<open>snprintf\<close> adds.\<close>

lemma write_command_text:
  assumes "args \<noteq> []" and "L = length (command_text args)" and "L + 1 < 2 ^ 31"
  shows "write_command M (int L) args =
    Some (if granted M (L + 1) then Inr (int L, command_text args @ [NUL]) else Inl (-1))"
proof -
  let ?h = "''*'' @ dec (length args) @ CRLF"
  have sz: "nat (sbits 32 (int L + 1) mod 2 ^ 64) = L + 1"
    using assms(3) by simp
  have L: "length ?h + length (concat (map bulk args)) = L"
    by (simp add: assms(2) command_text_def)
  have h: "length ?h < L" using L length_concat_bulk [of args] assms(1)
    by (metis add.commute add.right_neutral le_zero_eq length_0_conv less_add_same_cancel1 not_gr_zero)
  show ?thesis
  proof (cases "granted M (L + 1)")
    case False
    then show ?thesis unfolding write_command_def sz by (simp add: malloc_bytes_def)
  next
    case True
    define cmd where "cmd = map (junk M) [0..<L + 1]"
    have cmd: "malloc_bytes M (L + 1) = Some cmd" "length cmd = L + 1"
      using True by (simp_all add: malloc_bytes_def cmd_def)
    obtain c1 where c1: "snprintf_at cmd 0 (int L) ?h = Some (c1, int (length ?h))"
      "length c1 = L + 1" "take (length ?h) c1 = ?h"
      using snprintf_at_fits [of 0 ?h L cmd] h cmd(2) assms(3) by auto
    obtain c2 where c2: "put_args c1 (int L) (int (length ?h)) args = Some (c2, int L)"
      "length c2 = L + 1" "take L c2 = command_text args"
      using put_args_fits [OF L c1(2)] assms(3) c1(2,3) by (auto simp: command_text_def)
    obtain c3 where c3: "put c2 (int L) [NUL] = Some (c3, int (L + 1))" "length c3 = L + 1"
      "take (L + 1) c3 = command_text args @ [NUL]"
      using put_fits [of L "[NUL]" c2] c2(2,3) assms(3) by auto
    then have "c3 = command_text args @ [NUL]" by simp
    with True show ?thesis
      unfolding write_command_def sz cmd(1) option.case c1(1) prod.case c2(1) by (simp add: c3(1))
  qed
qed

end
