(* ===== verification/FormatSpec.thy ===== *)
theory FormatSpec
  imports Format
begin

text \<open>
  What the command formatters of \<open>Format\<close> write: the agreement of the two formatters that take
  an argument vector, and the arguments that a format string stands for, given as words made of
  pieces (literal bytes and conversions).
\<close>

section \<open>The command as a reply value\<close>

lemma bulk_encode: "bulk a = encode (RString a)"
  by (simp add: bulk_def dec_int_def)

lemma command_text_encode: "command_text args = encode (RAggr Array (map RString args))"
  by (simp add: command_text_def dec_int_def aggr_count_def bulk_encode [abs_def] comp_def)

section \<open>The sds formatter\<close>

lemma cstr_fmt_count: "cstr (''*%i'' @ CRLF) = ''*%i'' @ CRLF"
  by (simp add: cstr_def CRLF_def)

lemma cstr_fmt_len: "cstr (''$%u'' @ CRLF) = ''$%u'' @ CRLF"
  by (simp add: cstr_def CRLF_def)

lemma sds_args_text:
  assumes "\<forall>n. granted M n" and "sds_wf cmd" and "sdslen cmd + length (concat (map bulk args)) + 1 < 2 ^ 31"
  obtains s where "sds_args M cmd args = Some s" and "sds_wf s"
    and "sdsval s = sdsval cmd @ concat (map bulk args)"
  using assms
proof (induction args arbitrary: cmd thesis)
  case (Cons a args)
  let ?h = "''$'' @ dec (length a) @ CRLF"
  have L: "sdslen cmd + length ?h + length a + 2 + length (concat (map bulk args)) + 1 < 2 ^ 31"
    using Cons.prems(4) by (simp add: bulk_def [of a])
  have f: "fmt_spec (cstr (''$%u'' @ CRLF)) [ArgULL (length a)] = Some ?h"
    using L unfolding cstr_fmt_len by (simp add: CRLF_def sdsull2str_dec)
  from sdscatfmt_wf [OF Cons.prems(3) f, of M] L Cons.prems(2)
  obtain c1 where c1: "sdscatfmt M cmd (''$%u'' @ CRLF) [ArgULL (length a)] = Ret c1"
    "sds_wf c1" "sdsval c1 = sdsval cmd @ ?h"
    by (cases "sdscatfmt M cmd (''$%u'' @ CRLF) [ArgULL (length a)]") simp_all
  then have l1: "sdslen c1 = sdslen cmd + length ?h"
    using length_sdsval [of c1] length_sdsval [OF Cons.prems(3)] by simp
  obtain c2 where c2': "sdscatlen M c1 a = Some c2" using sdscatlen_granted [OF Cons.prems(2)] by blast
  with sdscatlen_wf [OF c1(2) c2'] L l1
  have c2: "sds_wf c2" "sdsval c2 = sdsval c1 @ a" "sdslen c2 = sdslen c1 + length a" by simp_all
  obtain c3 where c3': "sdscatlen M c2 CRLF = Some c3" using sdscatlen_granted [OF Cons.prems(2)] by blast
  with sdscatlen_wf [OF c2(1) c3'] L l1 c2
  have c3: "sds_wf c3" "sdsval c3 = sdsval c2 @ CRLF" "sdslen c3 = sdslen c2 + 2" by simp_all
  have "sdslen c3 + length (concat (map bulk args)) + 1 < 2 ^ 31" using L l1 c2 c3 by simp
  from Cons.IH [OF _ Cons.prems(2) c3(1) this] obtain s where s: "sds_args M c3 args = Some s"
    "sds_wf s" "sdsval s = sdsval c3 @ concat (map bulk args)" by blast
  show ?case
  proof (rule Cons.prems(1))
    show "sds_args M cmd (a # args) = Some s" unfolding sds_args.simps c1(1) outcome.case c2' option.case c3' s(1) ..
  qed (use s c3 c2 c1 in \<open>simp_all add: bulk_def [of a]\<close>)
qed simp

lemma totlen_sds_text:
  assumes "length (command_text args) < 2 ^ 31" shows "totlen_sds args = length (command_text args)"
proof -
  have n: "countDigits (length args) = length (dec (length args))"
    using assms length_concat_bulk [of args] by (intro countDigits_dec) (simp add: command_text_def)
  have "foldl (\<lambda>t a. ubits 64 (t + bulklen (length a))) k args = k + length (concat (map bulk args))"
    if "k + length (concat (map bulk args)) < 2 ^ 31" for k
    using that
  proof (induction args arbitrary: k)
    case (Cons a args)
    then have "bulklen (length a) = length (bulk a)" by (intro bulklen_bulk) simp
    with Cons.IH [of "k + length (bulk a)"] Cons.prems show ?case by (simp add: add.assoc)
  qed simp
  from this [of "1 + length (dec (length args)) + 2"] assms show ?thesis
    by (simp add: totlen_sds_def n command_text_def)
qed

lemma sds_command_text:
  assumes "\<forall>n. granted M n" and "args = arg_bytes argv argvlen" and "length (command_text args) + 1 < 2 ^ 31"
  obtains s where "redisFormatSdsCommandArgv M argv argvlen = Some (Inr (int (length (command_text args)), s))"
    and "sds_wf s" and "sdsval s = command_text args"
proof -
  let ?L = "length (command_text args)" and ?h = "''*'' @ dec (length args) @ CRLF"
  have tot: "totlen_sds args = ?L" using assms(3) by (intro totlen_sds_text) simp
  obtain e where e': "sdsempty M = Some e" using sdsnewlen_granted [OF assms(1)] by (auto simp: sdsempty_def)
  note e = sdsempty_wf [OF e']
  obtain c where c': "sdsMakeRoomFor M e ?L = Some c" using sdsMakeRoomFor_granted [OF assms(1)] by blast
  have c: "sds_wf c" "sdsval c = []" "sdslen c = 0"
    using sdsMakeRoomFor_wf [OF _ c'] e assms(3) by simp_all
  have n: "length args < 2 ^ 31" using assms(3) length_concat_bulk [of args] by (simp add: command_text_def)
  then have f: "fmt_spec (cstr (''*%i'' @ CRLF)) [ArgInt (int (length args))] = Some ?h"
    unfolding cstr_fmt_count by (simp add: CRLF_def sdsll2str_dec_int dec_int_def)
  have L: "length ?h + length (concat (map bulk args)) + 1 < 2 ^ 31" using assms(3) by (simp add: command_text_def)
  from sdscatfmt_wf [OF c(1) f, of M] L c(3) assms(1)
  obtain c1 where c1: "sdscatfmt M c (''*%i'' @ CRLF) [ArgInt (int (length args))] = Ret c1"
    "sds_wf c1" "sdsval c1 = ?h"
    by (cases "sdscatfmt M c (''*%i'' @ CRLF) [ArgInt (int (length args))]") (simp_all add: c(2))
  have "sdslen c1 = length ?h" using length_sdsval [OF c1(2)] c1(3) by simp
  with L obtain s where s: "sds_args M c1 args = Some s" "sds_wf s"
    "sdsval s = sdsval c1 @ concat (map bulk args)"
    using sds_args_text [OF assms(1) c1(2)] by metis
  then have v: "sdsval s = command_text args" by (simp add: c1(3) command_text_def)
  then have "sdslen s = ?L" using length_sdsval [OF s(2)] by simp
  then have "redisFormatSdsCommandArgv M argv argvlen = Some (Inr (int ?L, s))"
    unfolding redisFormatSdsCommandArgv_def assms(2) [symmetric] Let_def tot e' c' option.case c1(1) outcome.case s(1)
    using assms(3) by simp
  with s(2) v show ?thesis by (intro that)
qed

section \<open>Words of a format string\<close>

text \<open>
  A word is a sequence of literal bytes, of \<open>%s\<close> and \<open>%b\<close> interpolations, of \<open>%%\<close> and of \<open>printf\<close>
  conversions of one letter. Each piece has a text in the format string, variadic arguments it
  takes and bytes it stands for.
\<close>

datatype piece = PLit char | PStr bytes | PBin bytes | PPercent | PConv char vararg

fun piece_ok :: "piece \<Rightarrow> bool" where
  "piece_ok (PLit c) \<longleftrightarrow> c \<noteq> CHR '' '' \<and> c \<noteq> CHR ''%'' \<and> c \<noteq> NUL"
| "piece_ok (PConv c a) \<longleftrightarrow> c \<in> set ''diouxX'' \<and> takes KInt a \<or> c \<in> set ''eEfFgGaA'' \<and> takes KDouble a"
| "piece_ok _ \<longleftrightarrow> True"

fun piece_fmt :: "piece \<Rightarrow> bytes" where
  "piece_fmt (PLit c) = [c]"
| "piece_fmt (PStr _) = ''%s''"
| "piece_fmt (PBin _) = ''%b''"
| "piece_fmt PPercent = ''%%''"
| "piece_fmt (PConv c _) = [CHR ''%'', c]"

fun piece_ap :: "piece \<Rightarrow> vararg list" where
  "piece_ap (PStr s) = [VStr s]"
| "piece_ap (PBin s) = [VBin s]"
| "piece_ap (PConv _ a) = [a]"
| "piece_ap _ = []"

fun piece_val :: "render_fn \<Rightarrow> piece \<Rightarrow> bytes" where
  "piece_val render (PLit c) = [c]"
| "piece_val render (PStr s) = cstr s"
| "piece_val render (PBin s) = s"
| "piece_val render PPercent = ''%''"
| "piece_val render (PConv c a) = cstr (render [CHR ''%'', c] a)"

type_synonym fword = "piece list"

definition word_ok :: "fword \<Rightarrow> bool" where
  "word_ok w \<longleftrightarrow> w \<noteq> [] \<and> (\<forall>p \<in> set w. piece_ok p)"

definition word_fmt :: "fword \<Rightarrow> bytes" where "word_fmt w = concat (map piece_fmt w)"
definition word_ap :: "fword \<Rightarrow> vararg list" where "word_ap w = concat (map piece_ap w)"
definition word_val :: "render_fn \<Rightarrow> fword \<Rightarrow> bytes" where "word_val render w = concat (map (piece_val render) w)"

text \<open>The format string: the words, one blank between two of them.\<close>

fun words_fmt :: "fword list \<Rightarrow> bytes" where
  "words_fmt [] = []"
| "words_fmt [w] = word_fmt w"
| "words_fmt (w # ws) = word_fmt w @ '' '' @ words_fmt ws"

section \<open>The formatting loop on words\<close>

text \<open>The state of the loop: the bytes of the current argument and of the finished ones.\<close>

definition fstate_ok :: "fstate \<Rightarrow> bytes \<Rightarrow> bytes list \<Rightarrow> bool" where
  "fstate_ok s cur done \<longleftrightarrow> sds_wf (f_curarg s) \<and> sdsval (f_curarg s) = cur
     \<and> map sdsval (f_argv s) = done \<and> (\<forall>a \<in> set (f_argv s). sds_wf a)
     \<and> f_totlen s = int (length (concat (map bulk done)))"

lemma sdscatlen_ok:
  assumes "\<forall>n. granted M n" and "sds_wf a" and "length (sdsval a) + length t < 2 ^ 31"
  obtains a' where "sdscatlen M a t = Some a'" and "sds_wf a'" and "sdsval a' = sdsval a @ t"
proof -
  obtain a' where a': "sdscatlen M a t = Some a'" using sdscatlen_granted [OF assms(1)] by blast
  have "sdslen a + length t < 2 ^ 63" using assms(2,3) by simp
  from sdscatlen_wf [OF assms(2) a' this] show ?thesis by (intro that [OF a']) simp_all
qed

text \<open>A directive for one piece appends the bytes of the piece and consumes its arguments.\<close>

lemma one_letter_chars:
  "\<forall>c \<in> set ''diouxXeEfFgGaA''. \<not> isdigit c \<and> c \<noteq> CHR ''s'' \<and> c \<noteq> CHR ''b'' \<and> c \<noteq> CHR ''%'' \<and> c \<noteq> CHR ''.''"
  "\<forall>c \<in> set ''diouxXeEfFgGaA''. c \<notin> set ''#0-+ ''"
  "\<forall>c \<in> set ''eEfFgGaA''. c \<notin> set ''diouxX''"
  by (simp_all add: isdigit_def byte_code_def)

lemma one_letter_spec:
  assumes "c \<in> set ''diouxXeEfFgGaA''"
  shows "spec_rest (c # f) = c # f" and "c \<noteq> CHR ''s''" "c \<noteq> CHR ''b''" "c \<noteq> CHR ''%''"
proof -
  have c: "\<not> isdigit c" "c \<noteq> CHR ''.''" "c \<notin> set ''#0-+ ''" using one_letter_chars(1,2) assms by blast+
  then show "spec_rest (c # f) = c # f" unfolding spec_rest_def Let_def by (simp del: set_simps)
qed (use one_letter_chars(1) assms in blast)+

lemma one_letter_conversion:
  "c \<in> set ''diouxX'' \<Longrightarrow> conversion (c # f) = Some (KInt, c # f)"
  "c \<in> set ''eEfFgGaA'' \<Longrightarrow> conversion (c # f) = Some (KDouble, c # f)"
  using one_letter_chars(3) unfolding conversion_def Let_def by (simp_all del: set_simps)

lemma directive_conv:
  assumes "\<forall>n. granted M n" and "sds_wf a" and "piece_ok (PConv c v)"
    and "length (sdsval a) + length (cstr (render [CHR ''%'', c] v)) < 2 ^ 31"
  obtains a' where "directive render M a (c # f) (v # ap) = FOk (a', f, ap)"
    and "sds_wf a'" and "sdsval a' = sdsval a @ cstr (render [CHR ''%'', c] v)"
proof -
  obtain k where k: "conversion (c # f) = Some (k, c # f)" "takes k v"
    using assms(3) one_letter_conversion [of c f] unfolding piece_ok.simps by blast
  obtain a' where a': "sdscatvprintf M a [CHR ''%'', c] (render [CHR ''%'', c] v) = Some a'"
    using sdscatvprintf_granted [OF assms(1)] by blast
  have "sdslen a + length (cstr (render [CHR ''%'', c] v)) < 2 ^ 63" using assms(2,4) by simp
  from sdscatvprintf_wf [OF assms(2) a' this]
  have w: "sds_wf a'" "sdsval a' = sdsval a @ cstr (render [CHR ''%'', c] v)" by simp_all
  have "set ''diouxXeEfFgGaA'' = set ''diouxX'' \<union> set ''eEfFgGaA''"
    unfolding set_append [symmetric] by simp
  then have ok: "c \<in> set ''diouxXeEfFgGaA''" using assms(3) unfolding piece_ok.simps by blast
  have "directive render M a (c # f) (v # ap) = FOk (a', f, ap)"
    using one_letter_spec(2-4) [OF ok] k(2)
    by (simp add: directive_def one_letter_spec(1) [OF ok] k(1) catlen_res_def a' Let_def)
  with w show ?thesis by (intro that)
qed

lemma piece_step:
  assumes "\<forall>n. granted M n" and "fstate_ok s cur done" and "piece_ok p"
    and "length cur + length (piece_val render p) < 2 ^ 31"
  obtains s' where "format_loop render M s (piece_fmt p @ f) (piece_ap p @ ap) = format_loop render M s' f ap"
    and "fstate_ok s' (cur @ piece_val render p) done" and "f_touched s'"
proof -
  have wf: "sds_wf (f_curarg s)" "sdsval (f_curarg s) = cur" using assms(2) by (simp_all add: fstate_ok_def)
  note ret = that
  have fin: thesis
    if "format_loop render M s (piece_fmt p @ f) (piece_ap p @ ap)
        = format_loop render M (s\<lparr>f_curarg := a, f_touched := True\<rparr>) f ap"
      and "sds_wf a" and "sdsval a = cur @ piece_val render p" for a
    using that assms(2) by (intro ret [of "s\<lparr>f_curarg := a, f_touched := True\<rparr>"]) (simp_all add: fstate_ok_def)
  obtain a where a: "sdscatlen M (f_curarg s) (piece_val render p) = Some a"
    "sds_wf a" "sdsval a = cur @ piece_val render p"
    using sdscatlen_ok [OF assms(1) wf(1), of "piece_val render p"] wf(2) assms(4) by metis
  show ?thesis
  proof (cases p)
    case (PLit c)
    with a(1) assms(3) show ?thesis
      by (intro fin [OF _ a(2,3)]) (simp add: format_loop.simps(2))
  next
    case (PStr t)
    show ?thesis
    proof (cases "strlen t = 0")
      case True
      then have "cstr t = []" by (simp add: strlen_def)
      with PStr True wf show ?thesis
        by (intro fin [of "f_curarg s"]) (simp_all add: format_loop.simps(2) directive_def catlen_res_def)
    next
      case False
      with PStr a(1) show ?thesis
        by (intro fin [OF _ a(2,3)]) (simp add: format_loop.simps(2) directive_def catlen_res_def)
    qed
  next
    case (PBin t)
    show ?thesis
    proof (cases "t = []")
      case True
      with PBin wf show ?thesis
        by (intro fin [of "f_curarg s"]) (simp_all add: format_loop.simps(2) directive_def catlen_res_def)
    next
      case False
      with PBin a(1) show ?thesis
        by (intro fin [OF _ a(2,3)]) (simp add: format_loop.simps(2) directive_def catlen_res_def)
    qed
  next
    case PPercent
    with a(1) show ?thesis
      by (intro fin [OF _ a(2,3)]) (simp add: format_loop.simps(2) directive_def catlen_res_def sdscat_def)
  next
    case (PConv c v)
    from directive_conv [OF assms(1) wf(1), of c v render f ap] assms(3,4) PConv wf(2)
    obtain a' where "directive render M (f_curarg s) (c # f) (v # ap) = FOk (a', f, ap)"
      "sds_wf a'" "sdsval a' = cur @ cstr (render [CHR ''%'', c] v)" by (auto simp del: piece_ok.simps)
    with PConv show ?thesis
      by (intro fin [of a']) (simp_all add: format_loop.simps(2))
  qed
qed

lemma word_step:
  assumes "\<forall>n. granted M n" and "fstate_ok s cur done" and "\<forall>p \<in> set w. piece_ok p"
    and "length cur + length (word_val render w) < 2 ^ 31"
  obtains s' where "format_loop render M s (word_fmt w @ f) (word_ap w @ ap) = format_loop render M s' f ap"
    and "fstate_ok s' (cur @ word_val render w) done" and "f_touched s' \<longleftrightarrow> w \<noteq> [] \<or> f_touched s"
  using assms
proof (induction w arbitrary: s cur thesis)
  case Nil
  then show ?case by (simp add: word_fmt_def word_ap_def word_val_def)
next
  case (Cons p w)
  have e: "word_fmt (p # w) @ f = piece_fmt p @ word_fmt w @ f" "word_ap (p # w) @ ap = piece_ap p @ word_ap w @ ap"
    "word_val render (p # w) = piece_val render p @ word_val render w"
    by (simp_all add: word_fmt_def word_ap_def word_val_def)
  have "piece_ok p" "length cur + length (piece_val render p) < 2 ^ 31" using Cons.prems by (simp_all add: e)
  from piece_step [OF assms(1) Cons.prems(3) this] obtain s1 where s1:
    "format_loop render M s (piece_fmt p @ word_fmt w @ f) (piece_ap p @ word_ap w @ ap)
      = format_loop render M s1 (word_fmt w @ f) (word_ap w @ ap)"
    "fstate_ok s1 (cur @ piece_val render p) done" "f_touched s1" by metis
  have "\<forall>p \<in> set w. piece_ok p" "length (cur @ piece_val render p) + length (word_val render w) < 2 ^ 31"
    using Cons.prems by (simp_all add: e)
  from Cons.IH [OF _ assms(1) s1(2) this] obtain s2 where
    "format_loop render M s1 (word_fmt w @ f) (word_ap w @ ap) = format_loop render M s2 f ap"
    "fstate_ok s2 ((cur @ piece_val render p) @ word_val render w) done" "f_touched s2 \<longleftrightarrow> w \<noteq> [] \<or> f_touched s1"
    by blast
  with s1 show ?case by (intro Cons.prems(1) [of s2]) (simp_all add: e)
qed

lemma push_arg_ok:
  assumes "\<forall>n. granted M n" and "fstate_ok s cur done"
    and "length (concat (map bulk (done @ [cur]))) < 2 ^ 31"
  obtains s' where "push_arg M s = Some s'" and "fstate_ok (s'\<lparr>f_curarg := e\<rparr>) (sdsval e) (done @ [cur]) \<longleftrightarrow> sds_wf e"
    and "map sdsval (f_argv s') = done @ [cur]" and "f_totlen s' = int (length (concat (map bulk (done @ [cur]))))"
proof -
  have cur: "sds_wf (f_curarg s)" "sdsval (f_curarg s) = cur" using assms(2) by (simp_all add: fstate_ok_def)
  have b: "bulklen (sdslen (f_curarg s)) = length (bulk cur)"
    using cur length_sdsval [OF cur(1)] bulklen_bulk [of cur] assms(3) by simp
  show ?thesis
    using assms cur b
    by (intro that [of "s\<lparr>f_argv := f_argv s @ [f_curarg s],
        f_totlen := sbits 32 (f_totlen s + int (bulklen (sdslen (f_curarg s))))\<rparr>"])
      (auto simp: push_arg_def fstate_ok_def)
qed

lemma words_step:
  assumes "\<forall>n. granted M n" and "ws \<noteq> []" and "\<forall>w \<in> set ws. word_ok w"
    and "fstate_ok s [] done" and "\<not> f_touched s"
    and "length (concat (map bulk (done @ map (word_val render) ws))) < 2 ^ 31"
  obtains s' where
    "format_loop render M s (words_fmt ws @ f) (concat (map word_ap ws) @ ap) = format_loop render M s' f ap"
    and "fstate_ok s' (word_val render (last ws)) (done @ map (word_val render) (butlast ws))" and "f_touched s'"
  using assms(2-)
proof (induction ws arbitrary: s "done" thesis rule: words_fmt.induct)
  case (2 w)
  have w: "\<forall>p \<in> set w. piece_ok p" "w \<noteq> []" using "2.prems"(3) by (simp_all add: word_ok_def)
  have l: "length [] + length (word_val render w) < 2 ^ 31" using "2.prems"(6) by (simp add: bulk_def)
  from word_step [OF assms(1) "2.prems"(4) w(1) l, of f ap] obtain s' where
    "format_loop render M s (word_fmt w @ f) (word_ap w @ ap) = format_loop render M s' f ap"
    "fstate_ok s' ([] @ word_val render w) done" "f_touched s' \<longleftrightarrow> w \<noteq> [] \<or> f_touched s" by blast
  with w(2) show ?case by (intro "2.prems"(1) [of s']) simp_all
next
  case (3 w v ws)
  let ?g = "words_fmt (v # ws) @ f" and ?ap = "concat (map word_ap (v # ws)) @ ap"
  have w: "\<forall>p \<in> set w. piece_ok p" "w \<noteq> []" using "3.prems"(3) by (simp_all add: word_ok_def)
  have l: "length [] + length (word_val render w) < 2 ^ 31" using "3.prems"(6) by (simp add: bulk_def)
  obtain s1 where s1: "format_loop render M s (word_fmt w @ '' '' @ ?g) (word_ap w @ ?ap)
      = format_loop render M s1 ('' '' @ ?g) ?ap" "fstate_ok s1 (word_val render w) done" "f_touched s1"
    using word_step [OF assms(1) "3.prems"(4) w(1) l, of "'' '' @ ?g" ?ap] w(2)
    unfolding append_Nil by blast
  obtain e where e: "sdsempty M = Some e" using sdsnewlen_granted [OF assms(1)] by (auto simp: sdsempty_def)
  have "length (concat (map bulk (done @ [word_val render w]))) < 2 ^ 31" using "3.prems"(6) by simp
  from push_arg_ok [OF assms(1) s1(2) this, of e] obtain s2 where s2: "push_arg M s1 = Some s2"
    "fstate_ok (s2\<lparr>f_curarg := e\<rparr>) (sdsval e) (done @ [word_val render w]) \<longleftrightarrow> sds_wf e" by blast
  let ?s3 = "s2\<lparr>f_curarg := e, f_touched := False\<rparr>"
  have s3: "fstate_ok ?s3 [] (done @ [word_val render w])"
    using s2(2) sdsempty_wf [OF e] by (simp add: fstate_ok_def)
  have step: "format_loop render M s1 ('' '' @ ?g) ?ap = format_loop render M ?s3 ?g ?ap"
    using s1(3) s2(1) e by (simp add: format_loop.simps(2))
  have "\<forall>w \<in> set (v # ws). word_ok w" using "3.prems"(3) by simp
  moreover have "\<not> f_touched ?s3" by simp
  moreover have "length (concat (map bulk ((done @ [word_val render w]) @ map (word_val render) (v # ws)))) < 2 ^ 31"
    using "3.prems"(6) by simp
  ultimately obtain s' where
    "format_loop render M ?s3 ?g ?ap = format_loop render M s' f ap"
    "fstate_ok s' (word_val render (last (v # ws))) ((done @ [word_val render w]) @ map (word_val render) (butlast (v # ws)))"
    "f_touched s'" using "3.IH" [OF _ list.discI, OF _ refl, of ?s3 "done @ [word_val render w]"] s3 by blast
  with s1(1) step show ?case by (intro "3.prems"(1) [of s']) simp_all
qed simp

lemma words_command:
  assumes "\<forall>n. granted M n" and "ws \<noteq> []" and "\<forall>w \<in> set ws. word_ok w"
    and "NUL \<notin> set (words_fmt ws)" and "args = map (word_val render) ws"
    and "length (command_text args) + 1 < 2 ^ 31"
  shows "redisvFormatCommand render M (words_fmt ws) (concat (map word_ap ws))
    = Some (Inr (int (length (command_text args)), command_text args @ [NUL]))"
proof -
  obtain e where e: "sdsempty M = Some e" using sdsnewlen_granted [OF assms(1)] by (auto simp: sdsempty_def)
  let ?s = "\<lparr>f_curarg = e, f_touched = False, f_argv = [], f_totlen = 0\<rparr>"
  have s: "fstate_ok ?s [] []" using sdsempty_wf [OF e] by (simp add: fstate_ok_def)
  have len: "length (concat (map bulk ([] @ args))) < 2 ^ 31" using assms(6) by (simp add: command_text_def)
  from words_step [OF assms(1,2,3) s, where f = "[]" and ap = "[]"] len assms(5) obtain s1 where s1:
    "format_loop render M ?s (words_fmt ws) (concat (map word_ap ws)) = FOk s1"
    "fstate_ok s1 (word_val render (last ws)) (map (word_val render) (butlast ws))" "f_touched s1"
    by (auto simp: format_loop.simps(1))
  have a: "map (word_val render) (butlast ws) @ [word_val render (last ws)] = args"
    using assms(2,5) by (metis append_butlast_last_id list.map(1,2) map_append)
  from push_arg_ok [OF assms(1) s1(2)] len a obtain s2 where s2: "push_arg M s1 = Some s2"
    "map sdsval (f_argv s2) = args" "f_totlen s2 = int (length (concat (map bulk args)))" by auto
  have "length args < 2 ^ 64" using length_concat_bulk [of args] len by simp
  then have "countDigits (length (f_argv s2)) = length (dec (length args))"
    using s2(2) countDigits_dec by (metis length_map)
  then have tot: "sbits 32 (f_totlen s2 + int (1 + countDigits (length (f_argv s2)) + 2)) = int (length (command_text args))"
    using s2(3) assms(6) by (simp add: command_text_def)
  have "map (\<lambda>a. take (sdslen a) (sds_buf a)) (f_argv s2) = args"
    using s2(2) by (simp add: sdsval_def [abs_def])
  moreover have "args \<noteq> []" using assms(2,5) by simp
  ultimately show ?thesis
    using e s1 s2(1) tot write_command_text [OF _ refl assms(6), of M] assms(1,4)
    by (simp add: redisvFormatCommand_def)
qed

text \<open>A conversion that is not recognised stops the loop.\<close>

lemma directive_bad:
  assumes "hd f \<notin> set ''sb%''" and "conversion (spec_rest f) = None"
  shows "directive render M a f ap = FmtErr"
  using assms by (simp add: directive_def)

lemma format_loop_bad:
  assumes "f \<noteq> []" and "hd f \<notin> set ''sb%''" and "conversion (spec_rest f) = None"
  shows "format_loop render M s (CHR ''%'' # f) ap = FmtErr"
  using assms(1) directive_bad [OF assms(2,3)] by (simp add: format_loop.simps(2))

section \<open>Properties\<close>

text \<open>C16: \<open>redisFormatCommandArgv\<close> writes exactly the protocol encoding of its arguments followed by
  a NUL, and returns its length: the size computed in advance is right for every argument list
  (so the assertion holds and no write leaves the allocation), whether lengths are given or
  \<open>strlen\<close> is used, as long as there is an argument and the size fits an \<open>int\<close>. The only error is
  a refused allocation.\<close>

theorem redisFormatCommandArgv_encodes:
  assumes "args = arg_bytes argv argvlen" and "args \<noteq> []"
    and "cmd = encode (RAggr Array (map RString args))" and "length cmd + 1 < 2 ^ 31"
  shows "redisFormatCommandArgv M argv argvlen =
    Some (if granted M (length cmd + 1) then Inr (int (length cmd), cmd @ [NUL]) else Inl (-1))"
proof -
  have cmd: "cmd = command_text args" by (simp only: assms(3) command_text_encode)
  with assms(4) have "totlen_argv args = int (length cmd)" by (simp add: totlen_argv_text)
  with write_command_text [OF assms(2) arg_cong [OF cmd, of length] assms(4), of M] show ?thesis
    by (simp add: redisFormatCommandArgv_def assms(1) [symmetric] cmd)
qed

theorem redisFormatCommandArgv_encodes_witness:
  "redisFormatCommandArgv mem_ok [''GET'', ''k'' @ [NUL] @ ''xy''] (Some [3, 2]) =
    Some (Inr (21, ''*2'' @ CRLF @ ''$3'' @ CRLF @ ''GET'' @ CRLF @ ''$2'' @ CRLF @ ''k'' @ [NUL] @ CRLF @ [NUL]))"
proof -
  have d: "dec 2 = ''2''" "dec 3 = ''3''" by (simp_all add: dec_small digit_char_def char_of_eq_iff)
  have "encode (RAggr Array (map RString [''GET'', ''k'' @ [NUL]]))
      = ''*2'' @ CRLF @ ''$3'' @ CRLF @ ''GET'' @ CRLF @ ''$2'' @ CRLF @ ''k'' @ [NUL] @ CRLF"
    by (simp add: dec_int_def aggr_count_def d)
  from redisFormatCommandArgv_encodes [OF _ _ this [symmetric], of "[''GET'', ''k'' @ [NUL] @ ''xy'']" "Some [3, 2]" mem_ok]
  show ?thesis by (simp add: arg_bytes_def)
qed

text \<open>C18: The two formatters that take an argument vector are interchangeable: given memory,
  \<open>redisFormatSdsCommandArgv\<close> returns the same length as \<open>redisFormatCommandArgv\<close> and a well-formed
  \<open>sds\<close> whose bytes are the bytes that \<open>redisFormatCommandArgv\<close> allocates (less its final NUL).\<close>

theorem formatters_agree:
  assumes "\<forall>n. granted M n" and "arg_bytes argv argvlen \<noteq> []"
    and "length (command_text (arg_bytes argv argvlen)) + 1 < 2 ^ 31"
  shows "\<exists>len cmd s. redisFormatCommandArgv M argv argvlen = Some (Inr (len, cmd @ [NUL]))
    \<and> redisFormatSdsCommandArgv M argv argvlen = Some (Inr (len, s)) \<and> sds_wf s \<and> sdsval s = cmd"
proof -
  obtain s where s: "redisFormatSdsCommandArgv M argv argvlen
      = Some (Inr (int (length (command_text (arg_bytes argv argvlen))), s))"
    "sds_wf s" "sdsval s = command_text (arg_bytes argv argvlen)"
    using sds_command_text [OF assms(1) refl assms(3)] by blast
  have "totlen_argv (arg_bytes argv argvlen) = int (length (command_text (arg_bytes argv argvlen)))"
    using assms(3) by (intro totlen_argv_text) simp
  with write_command_text [OF assms(2) refl assms(3), of M] assms(1)
  have "redisFormatCommandArgv M argv argvlen = Some (Inr (int (length (command_text (arg_bytes argv argvlen))),
      command_text (arg_bytes argv argvlen) @ [NUL]))"
    by (simp add: redisFormatCommandArgv_def Let_def)
  with s show ?thesis by blast
qed

theorem formatters_agree_witness:
  "\<exists>len cmd s. redisFormatCommandArgv mem_ok [''PING''] None = Some (Inr (len, cmd @ [NUL]))
    \<and> redisFormatSdsCommandArgv mem_ok [''PING''] None = Some (Inr (len, s)) \<and> sds_wf s \<and> sdsval s = cmd"
proof -
  have "cstr ''PING'' = ''PING''" by (simp add: cstr_def)
  then have "arg_bytes [''PING''] None = [''PING'']" by (simp add: arg_bytes_def)
  moreover have "length (command_text [''PING'']) = 14"
    by (simp add: command_text_def bulk_def dec_small)
  ultimately show ?thesis using formatters_agree [of mem_ok "[''PING'']" None] by simp
qed

text \<open>C17: Format strings cannot be broken out of: a format of words separated by blanks produces one
  argument per word, holding the bytes of the word's pieces, whatever bytes (blanks, percent
  signs, line ends, NULs in \<open>%b\<close>) the interpolated values contain. The result is the encoding of
  those arguments with its length.\<close>

theorem redisvFormatCommand_words:
  assumes "\<forall>n. granted M n" and "ws \<noteq> []" and "\<forall>w \<in> set ws. word_ok w"
    and "NUL \<notin> set (words_fmt ws)" and "cmd = encode (RAggr Array (map RString (map (word_val render) ws)))"
    and "length cmd + 1 < 2 ^ 31"
  shows "redisvFormatCommand render M (words_fmt ws) (concat (map word_ap ws))
    = Some (Inr (int (length cmd), cmd @ [NUL]))"
  using words_command [OF assms(1-4) refl] assms(5,6) by (simp only: command_text_encode)

theorem redisvFormatCommand_words_witness:
  "\<exists>cmd. cmd = encode (RAggr Array [RString ''SET'', RString ''k:a b'', RString [CR, NUL]])
    \<and> redisvFormatCommand (\<lambda>_ _. []) mem_ok ''SET k:%s %b'' [VStr ''a b'', VBin [CR, NUL]]
      = Some (Inr (int (length cmd), cmd @ [NUL]))"
proof -
  define ws where "ws = [[PLit CHR ''S'', PLit CHR ''E'', PLit CHR ''T''],
    [PLit CHR ''k'', PLit CHR '':'', PStr ''a b''], [PBin [CR, NUL]]]"
  define cmd where "cmd = encode (RAggr Array [RString ''SET'', RString ''k:a b'', RString [CR, NUL]])"
  have f: "words_fmt ws = ''SET k:%s %b''" "concat (map word_ap ws) = [VStr ''a b'', VBin [CR, NUL]]"
    by (simp_all add: ws_def word_fmt_def word_ap_def)
  have v: "map (word_val (\<lambda>_ _. [])) ws = [''SET'', ''k:a b'', [CR, NUL]]"
    by (simp add: ws_def word_val_def cstr_def)
  have ok: "\<forall>w \<in> set ws. word_ok w" "ws \<noteq> []" by (simp_all add: ws_def word_ok_def)
  have l: "length cmd + 1 < 2 ^ 31" by (simp add: cmd_def dec_int_def aggr_count_def dec_small)
  have "\<forall>n. granted mem_ok n" "NUL \<notin> set (words_fmt ws)" by (simp_all add: f(1))
  from redisvFormatCommand_words [OF this(1) ok(2,1) this(2) refl, of "\<lambda>_ _. []"] l
  have "redisvFormatCommand (\<lambda>_ _. []) mem_ok ''SET k:%s %b'' [VStr ''a b'', VBin [CR, NUL]]
      = Some (Inr (int (length cmd), cmd @ [NUL]))"
    unfolding f v list.map cmd_def by simp
  then show ?thesis unfolding cmd_def by blast
qed



text \<open>The empty command is not written correctly: with no arguments \<open>snprintf\<close> is told that only
  4 bytes are available although 5 are allocated, so the announced 4 bytes end in a NUL instead
  of the line feed of \<open>*0\<close>.\<close>

theorem redisFormatCommandArgv_empty:
  "redisFormatCommandArgv M [] argvlen =
    Some (if granted M 5 then Inr (4, ''*0'' @ [CR, NUL] @ [NUL]) else Inl (-1))
   \<and> encode (RAggr Array []) = ''*0'' @ CRLF"
proof -
  have d: "dec 0 = ''0''" by (simp add: dec_small digit_char_def char_of_eq_iff)
  have t: "totlen_argv [] = 4" by (simp add: totlen_argv_def countDigits_def countDigits_loop.simps)
  have a: "arg_bytes [] argvlen = []" by (simp add: arg_bytes_def split: option.split)
  have w: "snprintf_buf (nat (4 mod 2 ^ 64)) (''*0'' @ CRLF) = ''*0'' @ [CR, NUL]"
    by (simp add: snprintf_buf_def CRLF_def)
  have "write_command M 4 [] = Some (if granted M 5 then Inr (4, ''*0'' @ [CR, NUL] @ [NUL]) else Inl (-1))"
    by (simp add: write_command_def malloc_bytes_def d snprintf_at_def Let_def w put_def memcpy_at_def upt_rec CRLF_def
        snprintf_buf_def)
  with t a d show ?thesis by (simp add: redisFormatCommandArgv_def dec_int_def aggr_count_def)
qed

end
