(* ===== verification/Dict.thy ===== *)
theory Dict
  imports Prelude "HOL-Library.Monad_Syntax" "HOL-Library.Multiset"
begin

text \<open>
  The chained hash table of \<open>src/src/hiredis/dict.c\<close> and \<open>dict.h\<close>, which the asynchronous
  interface uses for its subscriptions. A chain of entries is the list of its entries, the
  bucket array the list of its chains. A result \<open>None\<close> stands for a failed assertion or an access
  outside the bucket array; \<open>unsigned long\<close> values are naturals below \<open>2^64\<close>, the indices that pass
  through an \<open>int\<close> are cut to 32 bits.
\<close>

unbundle bit_operations_syntax

section \<open>Data\<close>

definition DICT_OK :: nat where "DICT_OK = 0"
definition DICT_ERR :: nat where "DICT_ERR = 1"
definition DICT_HT_INITIAL_SIZE :: nat where "DICT_HT_INITIAL_SIZE = 4"
definition LONG_MAX :: nat where "LONG_MAX = 2 ^ 63 - 1"

record ('k, 'v) dictEntry =
  de_key :: 'k
  de_val :: 'v

text \<open>The callbacks of a table; a destructor is only known by whether it is set, and its calls are
  recorded.\<close>

record ('k, 'v) dictType =
  dt_hashFunction :: "'k \<Rightarrow> nat"
  dt_keyDup :: "('k \<Rightarrow> 'k) option"
  dt_valDup :: "('v \<Rightarrow> 'v) option"
  dt_keyCompare :: "('k \<Rightarrow> 'k \<Rightarrow> bool) option"
  dt_keyDestructor :: bool
  dt_valDestructor :: bool

datatype ('k, 'v) freed = FreedKey 'k | FreedVal 'v

type_synonym ('k, 'v) chain = "('k, 'v) dictEntry list"

text \<open>\<open>ht_freed\<close> is the sequence of destructor calls made so far.\<close>

record ('k, 'v) dict =
  ht_table :: "('k, 'v) chain list"
  ht_type :: "('k, 'v) dictType"
  ht_size :: nat
  ht_sizemask :: nat
  ht_used :: nat
  ht_freed :: "('k, 'v) freed list"

record ('k, 'v) dictIterator =
  it_index :: int
  it_entry :: "('k, 'v) chain"
  it_nextEntry :: "('k, 'v) chain"

text \<open>The macros of \<open>dict.h\<close>.\<close>

definition dictFreeEntryVal :: "('k, 'v) dict \<Rightarrow> ('k, 'v) dictEntry \<Rightarrow> ('k, 'v) dict" where
  "dictFreeEntryVal ht e =
     (if dt_valDestructor (ht_type ht) then ht\<lparr>ht_freed := ht_freed ht @ [FreedVal (de_val e)]\<rparr> else ht)"

definition dictFreeEntryKey :: "('k, 'v) dict \<Rightarrow> ('k, 'v) dictEntry \<Rightarrow> ('k, 'v) dict" where
  "dictFreeEntryKey ht e =
     (if dt_keyDestructor (ht_type ht) then ht\<lparr>ht_freed := ht_freed ht @ [FreedKey (de_key e)]\<rparr> else ht)"

definition dup_val :: "('k, 'v) dictType \<Rightarrow> 'v \<Rightarrow> 'v" where
  "dup_val ty v = (case dt_valDup ty of None \<Rightarrow> v | Some dup \<Rightarrow> dup v)"

definition dup_key :: "('k, 'v) dictType \<Rightarrow> 'k \<Rightarrow> 'k" where
  "dup_key ty k = (case dt_keyDup ty of None \<Rightarrow> k | Some dup \<Rightarrow> dup k)"

definition dictCompareHashKeys :: "('k, 'v) dictType \<Rightarrow> 'k \<Rightarrow> 'k \<Rightarrow> bool" where
  "dictCompareHashKeys ty a b = (case dt_keyCompare ty of None \<Rightarrow> a = b | Some cmp \<Rightarrow> cmp a b)"

text \<open>\<open>h = dictHashKey(ht, key) & sizemask\<close> as an \<open>unsigned int\<close>.\<close>

definition key_slot :: "('k, 'v) dictType \<Rightarrow> nat \<Rightarrow> 'k \<Rightarrow> nat" where
  "key_slot ty sizemask key = ubits 32 (ubits 32 (dt_hashFunction ty key) AND sizemask)"

section \<open>Hashing\<close>

definition dictGenHashFunction :: "bytes \<Rightarrow> 32 word" where
  "dictGenHashFunction buf =
     foldl (\<lambda>hash c. (push_bit 5 hash + hash) + word_of_nat (byte_code c)) 5381 buf"

section \<open>Creation and growth\<close>

definition dictReset :: "('k, 'v) dict \<Rightarrow> ('k, 'v) dict" where
  "dictReset ht = ht\<lparr>ht_table := [], ht_size := 0, ht_sizemask := 0, ht_used := 0\<rparr>"

definition dictInit :: "('k, 'v) dictType \<Rightarrow> ('k, 'v) dict" where
  "dictInit ty = \<lparr>ht_table = [], ht_type = ty, ht_size = 0, ht_sizemask = 0, ht_used = 0, ht_freed = []\<rparr>"

definition dictCreate :: "mem \<Rightarrow> ('k, 'v) dictType \<Rightarrow> ('k, 'v) dict option" where
  "dictCreate M ty = (if granted M 48 then Some (dictInit ty) else None)"

text \<open>The loop of \<open>_dictNextPower\<close> with \<open>i = DICT_HT_INITIAL_SIZE * 2^k\<close>; \<open>i\<close> stays below twice \<open>size\<close>, so
  it does not wrap for a \<open>size\<close> below \<open>LONG_MAX\<close>.\<close>

function next_power :: "nat \<Rightarrow> nat \<Rightarrow> nat" where
  "next_power k sz =
     (if sz \<le> DICT_HT_INITIAL_SIZE * 2 ^ k then DICT_HT_INITIAL_SIZE * 2 ^ k else next_power (Suc k) sz)"
  by auto
termination
proof (relation "measure (\<lambda>(k, sz). sz - k)")
  fix k sz :: nat assume "\<not> sz \<le> DICT_HT_INITIAL_SIZE * 2 ^ k"
  then have "4 * 2 ^ k < sz" by (simp add: DICT_HT_INITIAL_SIZE_def)
  then have "k < sz" using less_exp [of k] by linarith
  then show "((Suc k, sz), k, sz) \<in> measure (\<lambda>(k, sz). sz - k)" by simp
qed simp

declare next_power.simps [simp del]

definition dictNextPower :: "nat \<Rightarrow> nat" where
  "dictNextPower sz = (if LONG_MAX \<le> sz then LONG_MAX else next_power 0 sz)"

text \<open>\<open>hi_calloc\<close> refuses a product that overflows.\<close>

definition calloc_granted :: "mem \<Rightarrow> nat \<Rightarrow> nat \<Rightarrow> bool" where
  "calloc_granted M nmemb sz \<longleftrightarrow> nmemb \<le> SIZE_MAX div sz \<and> granted M (nmemb * sz)"

definition push_entry :: "('k, 'v) chain list \<Rightarrow> nat \<Rightarrow> ('k, 'v) dictEntry \<Rightarrow> ('k, 'v) chain list option" where
  "push_entry tab h e = (if h < length tab then Some (tab[h := e # tab ! h]) else None)"

text \<open>The move of one chain, and of the chains from slot \<open>i\<close> on, into the new table: \<open>(tab, used)\<close>
  holds the new buckets and what is left in the old table.\<close>

fun rehash_chain :: "('k, 'v) dictType \<Rightarrow> nat \<Rightarrow> ('k, 'v) chain \<Rightarrow> ('k, 'v) chain list \<times> nat
    \<Rightarrow> (('k, 'v) chain list \<times> nat) option" where
  "rehash_chain ty msk [] (tab, used) = Some (tab, used)"
| "rehash_chain ty msk (he # hes) (tab, used) =
     do { tab \<leftarrow> push_entry tab (key_slot ty msk (de_key he)) he;
          rehash_chain ty msk hes (tab, usub 64 used 1) }"

fun rehash_loop :: "('k, 'v) dictType \<Rightarrow> nat \<Rightarrow> ('k, 'v) chain list \<Rightarrow> ('k, 'v) chain list \<times> nat
    \<Rightarrow> (('k, 'v) chain list \<times> nat) option" where
  "rehash_loop ty msk [] (tab, used) = Some (tab, used)"
| "rehash_loop ty msk (c # cs) (tab, used) =
     (if used = 0 then Some (tab, used)
      else do { r \<leftarrow> rehash_chain ty msk c (tab, used); rehash_loop ty msk cs r })"

definition dictExpand :: "mem \<Rightarrow> ('k, 'v) dict \<Rightarrow> nat \<Rightarrow> (nat \<times> ('k, 'v) dict) option" where
  "dictExpand M ht sz =
     (let realsize = dictNextPower sz
      in if sz < ht_used ht then Some (DICT_ERR, ht)
         else if \<not> calloc_granted M realsize 8 then Some (DICT_ERR, ht)
         else do { (tab, left) \<leftarrow> rehash_loop (ht_type ht) (usub 64 realsize 1) (ht_table ht)
                     (replicate realsize [], ht_used ht);
                   if left = 0 then Some (DICT_OK, ht\<lparr>ht_table := tab, ht_size := realsize,
                       ht_sizemask := usub 64 realsize 1\<rparr>)
                   else None })"

definition dictExpandIfNeeded :: "mem \<Rightarrow> ('k, 'v) dict \<Rightarrow> (nat \<times> ('k, 'v) dict) option" where
  "dictExpandIfNeeded M ht =
     (if ht_size ht = 0 then dictExpand M ht DICT_HT_INITIAL_SIZE
      else if ht_used ht = ht_size ht then dictExpand M ht (ubits 64 (ht_size ht * 2))
      else Some (DICT_OK, ht))"

section \<open>Lookup and update\<close>

fun chain_find :: "('k, 'v) dictType \<Rightarrow> 'k \<Rightarrow> ('k, 'v) chain \<Rightarrow> ('k, 'v) dictEntry option" where
  "chain_find ty key [] = None"
| "chain_find ty key (he # hes) =
     (if dictCompareHashKeys ty key (de_key he) then Some he else chain_find ty key hes)"

definition chain_at :: "('k, 'v) dict \<Rightarrow> nat \<Rightarrow> ('k, 'v) chain option" where
  "chain_at ht h = (if h < length (ht_table ht) then Some (ht_table ht ! h) else None)"

text \<open>The slot for a new key, -1 if the key exists or the table cannot grow.\<close>

definition dictKeyIndex :: "mem \<Rightarrow> ('k, 'v) dict \<Rightarrow> 'k \<Rightarrow> (int \<times> ('k, 'v) dict) option" where
  "dictKeyIndex M ht key =
     do { (rc, ht) \<leftarrow> dictExpandIfNeeded M ht;
          if rc = DICT_ERR then Some (-1, ht)
          else do { let h = key_slot (ht_type ht) (ht_sizemask ht) key;
                    c \<leftarrow> chain_at ht h;
                    Some (case chain_find (ht_type ht) key c of
                        Some _ \<Rightarrow> (-1, ht)
                      | None \<Rightarrow> (sbits 32 (int h), ht)) } }"

definition dictAdd :: "mem \<Rightarrow> ('k, 'v) dict \<Rightarrow> 'k \<Rightarrow> 'v \<Rightarrow> (nat \<times> ('k, 'v) dict) option" where
  "dictAdd M ht key val =
     do { (index, ht) \<leftarrow> dictKeyIndex M ht key;
          if index = -1 then Some (DICT_ERR, ht)
          else if \<not> granted M 24 then Some (DICT_ERR, ht)
          else if index < 0 then None
          else do { tab \<leftarrow> push_entry (ht_table ht) (nat index)
                      \<lparr>de_key = dup_key (ht_type ht) key, de_val = dup_val (ht_type ht) val\<rparr>;
                    Some (DICT_OK, ht\<lparr>ht_table := tab, ht_used := ubits 64 (ht_used ht + 1)\<rparr>) } }"

definition dictFind :: "('k, 'v) dict \<Rightarrow> 'k \<Rightarrow> ('k, 'v) dictEntry option option" where
  "dictFind ht key =
     (if ht_size ht = 0 then Some None
      else do { c \<leftarrow> chain_at ht (key_slot (ht_type ht) (ht_sizemask ht) key);
                Some (chain_find (ht_type ht) key c) })"

text \<open>The assignment to the value of the entry that \<open>dictFind\<close> returned.\<close>

fun chain_set :: "('k, 'v) dictType \<Rightarrow> 'k \<Rightarrow> 'v \<Rightarrow> ('k, 'v) chain \<Rightarrow> ('k, 'v) chain" where
  "chain_set ty key val [] = []"
| "chain_set ty key val (he # hes) =
     (if dictCompareHashKeys ty key (de_key he) then he\<lparr>de_val := val\<rparr> # hes
      else he # chain_set ty key val hes)"

definition dictReplace :: "mem \<Rightarrow> ('k, 'v) dict \<Rightarrow> 'k \<Rightarrow> 'v \<Rightarrow> (nat \<times> ('k, 'v) dict) option" where
  "dictReplace M ht key val =
     do { (rc, ht) \<leftarrow> dictAdd M ht key val;
          if rc = DICT_OK then Some (1, ht)
          else do { entry \<leftarrow> dictFind ht key;
                    case entry of
                      None \<Rightarrow> Some (0, ht)
                    | Some auxentry \<Rightarrow>
                        (let h = key_slot (ht_type ht) (ht_sizemask ht) key;
                             ht = ht\<lparr>ht_table := (ht_table ht)[h := chain_set (ht_type ht) key
                                      (dup_val (ht_type ht) val) (ht_table ht ! h)]\<rparr>
                         in Some (0, dictFreeEntryVal ht auxentry)) } }"

fun chain_delete :: "('k, 'v) dictType \<Rightarrow> 'k \<Rightarrow> ('k, 'v) chain \<Rightarrow> ('k, 'v) chain" where
  "chain_delete ty key [] = []"
| "chain_delete ty key (he # hes) =
     (if dictCompareHashKeys ty key (de_key he) then hes else he # chain_delete ty key hes)"

definition dictDelete :: "('k, 'v) dict \<Rightarrow> 'k \<Rightarrow> (nat \<times> ('k, 'v) dict) option" where
  "dictDelete ht key =
     (if ht_size ht = 0 then Some (DICT_ERR, ht)
      else do { let h = key_slot (ht_type ht) (ht_sizemask ht) key;
                c \<leftarrow> chain_at ht h;
                Some (case chain_find (ht_type ht) key c of
                    None \<Rightarrow> (DICT_ERR, ht)
                  | Some de \<Rightarrow>
                      (let ht = ht\<lparr>ht_table := (ht_table ht)[h := chain_delete (ht_type ht) key c]\<rparr>;
                           ht = dictFreeEntryVal (dictFreeEntryKey ht de) de
                       in (DICT_OK, ht\<lparr>ht_used := usub 64 (ht_used ht) 1\<rparr>))) })"

section \<open>Release\<close>

fun clear_chain :: "('k, 'v) chain \<Rightarrow> ('k, 'v) dict \<Rightarrow> ('k, 'v) dict" where
  "clear_chain [] ht = ht"
| "clear_chain (he # hes) ht =
     clear_chain hes ((dictFreeEntryVal (dictFreeEntryKey ht he) he)\<lparr>ht_used := usub 64 (ht_used ht) 1\<rparr>)"

fun clear_loop :: "('k, 'v) chain list \<Rightarrow> ('k, 'v) dict \<Rightarrow> ('k, 'v) dict" where
  "clear_loop [] ht = ht"
| "clear_loop (c # cs) ht = (if ht_used ht = 0 then ht else clear_loop cs (clear_chain c ht))"

definition dictClear :: "('k, 'v) dict \<Rightarrow> ('k, 'v) dict" where
  "dictClear ht = dictReset (clear_loop (ht_table ht) ht)"

text \<open>The table itself is gone; what is left is the sequence of destructor calls.\<close>

definition dictRelease :: "('k, 'v) dict \<Rightarrow> ('k, 'v) freed list" where
  "dictRelease ht = ht_freed (dictClear ht)"

section \<open>Iteration\<close>

text \<open>An entry pointer is the rest of its chain; \<open>[]\<close> is NULL. The table is not changed while an
  iterator is in use.\<close>

definition dictGetIterator :: "mem \<Rightarrow> ('k, 'v) dictIterator option" where
  "dictGetIterator M =
     (if granted M 32 then Some \<lparr>it_index = -1, it_entry = [], it_nextEntry = []\<rparr> else None)"

function dictNext :: "('k, 'v) dict \<Rightarrow> ('k, 'v) dictIterator
    \<Rightarrow> (('k, 'v) dictEntry option \<times> ('k, 'v) dictIterator) option" where
  "dictNext ht it =
     (if it_entry it = [] then
        (let it = it\<lparr>it_index := it_index it + 1\<rparr>
         in if sbits 32 (int (ht_size ht)) \<le> it_index it then Some (None, it)
            else if it_index it < 0 then None
            else (case chain_at ht (nat (it_index it)) of
                    None \<Rightarrow> None
                  | Some [] \<Rightarrow> dictNext ht (it\<lparr>it_entry := []\<rparr>)
                  | Some (e # r) \<Rightarrow> Some (Some e, it\<lparr>it_entry := e # r, it_nextEntry := r\<rparr>)))
      else
        (case it_nextEntry it of
           [] \<Rightarrow> dictNext ht (it\<lparr>it_entry := []\<rparr>)
         | e # r \<Rightarrow> Some (Some e, it\<lparr>it_entry := e # r, it_nextEntry := r\<rparr>)))"
  by auto
termination
  by (relation "measure (\<lambda>(ht, it). 2 * nat (sbits 32 (int (ht_size ht)) - it_index it)
       + (if it_entry it = [] then 0 else 1))") auto

declare dictNext.simps [simp del]

text \<open>The client's loop \<open>while ((de = dictNext(it)) != NULL)\<close>: the entries it sees, at most \<open>n\<close>.\<close>

fun drain :: "nat \<Rightarrow> ('k, 'v) dict \<Rightarrow> ('k, 'v) dictIterator \<Rightarrow> ('k, 'v) dictEntry list option" where
  "drain 0 ht it = None"
| "drain (Suc n) ht it =
     do { (e, it) \<leftarrow> dictNext ht it;
          case e of None \<Rightarrow> Some [] | Some e \<Rightarrow> map_option (Cons e) (drain n ht it) }"

section \<open>Invariant and abstraction\<close>

text \<open>Keys are compared by equality (of the bytes they point to) and duplicated faithfully.\<close>

definition type_ok :: "('k, 'v) dictType \<Rightarrow> bool" where
  "type_ok ty \<longleftrightarrow> (\<forall>a b. dictCompareHashKeys ty a b \<longleftrightarrow> a = b) \<and> (\<forall>k. dup_key ty k = k)"

definition entries :: "('k, 'v) dict \<Rightarrow> ('k, 'v) dictEntry list" where
  "entries ht = concat (ht_table ht)"

definition entry_pair :: "('k, 'v) dictEntry \<Rightarrow> 'k \<times> 'v" where
  "entry_pair e = (de_key e, de_val e)"

text \<open>The table as a finite map.\<close>

definition dict_map :: "('k, 'v) dict \<Rightarrow> 'k \<rightharpoonup> 'v" where
  "dict_map ht = map_of (map entry_pair (entries ht))"

text \<open>Every entry is in the chain of its key.\<close>

definition placed :: "('k, 'v) dictType \<Rightarrow> nat \<Rightarrow> ('k, 'v) chain list \<Rightarrow> bool" where
  "placed ty msk tab \<longleftrightarrow> (\<forall>i < length tab. \<forall>e \<in> set (tab ! i). key_slot ty msk (de_key e) = i)"

definition dict_shape :: "('k, 'v) dict \<Rightarrow> bool" where
  "dict_shape ht \<longleftrightarrow>
     (if ht_size ht = 0 then ht_table ht = [] \<and> ht_sizemask ht = 0
      else (\<exists>k. 2 \<le> k \<and> k \<le> 30 \<and> ht_size ht = 2 ^ k) \<and> length (ht_table ht) = ht_size ht
        \<and> ht_sizemask ht = ht_size ht - 1)"

definition dict_ok :: "('k, 'v) dict \<Rightarrow> bool" where
  "dict_ok ht \<longleftrightarrow> type_ok (ht_type ht) \<and> dict_shape ht \<and> placed (ht_type ht) (ht_sizemask ht) (ht_table ht)
     \<and> distinct (map de_key (entries ht)) \<and> ht_used ht = length (entries ht)
     \<and> ht_used ht \<le> 2 ^ 30"

section \<open>Lemmas on sizes and slots\<close>

lemma next_power_spec:
  assumes "k \<le> m" and "sz \<le> DICT_HT_INITIAL_SIZE * 2 ^ m"
  shows "\<exists>j \<le> m. next_power k sz = DICT_HT_INITIAL_SIZE * 2 ^ j \<and> sz \<le> DICT_HT_INITIAL_SIZE * 2 ^ j
    \<and> (j = k \<or> DICT_HT_INITIAL_SIZE * 2 ^ j < 2 * sz)"
  using assms
proof (induction k sz rule: next_power.induct [case_names step])
  case (step k sz)
  show ?case
  proof (cases "sz \<le> DICT_HT_INITIAL_SIZE * 2 ^ k")
    case True
    with step.prems show ?thesis by (intro exI [of _ k]) (simp add: next_power.simps [of k])
  next
    case False
    with step.prems have "Suc k \<le> m" by (metis Suc_leI le_neq_implies_less)
    from step.IH [OF False this step.prems(2)] obtain j where j: "j \<le> m"
      "next_power (Suc k) sz = DICT_HT_INITIAL_SIZE * 2 ^ j" "sz \<le> DICT_HT_INITIAL_SIZE * 2 ^ j"
      "j = Suc k \<or> DICT_HT_INITIAL_SIZE * 2 ^ j < 2 * sz" by auto
    moreover have "DICT_HT_INITIAL_SIZE * 2 ^ Suc k < 2 * sz" using False by simp
    ultimately show ?thesis using False by (intro exI [of _ j]) (auto simp: next_power.simps [of k])
  qed
qed

lemma dictNextPower_pow:
  assumes "2 \<le> k" and "k \<le> 31" shows "dictNextPower (2 ^ k) = 2 ^ k"
proof -
  have "(2::nat) ^ k \<le> 2 ^ 31" by (rule power_increasing) (use assms in simp_all)
  then have small: "\<not> LONG_MAX \<le> 2 ^ k" by (simp add: LONG_MAX_def)
  have i: "DICT_HT_INITIAL_SIZE * 2 ^ j = 2 ^ (j + 2)" for j by (simp add: DICT_HT_INITIAL_SIZE_def power_add)
  have "k - 2 + 2 = k" using assms(1) by simp
  then have "2 ^ k \<le> DICT_HT_INITIAL_SIZE * 2 ^ (k - 2)" unfolding i by simp
  from next_power_spec [OF le0 this] obtain j where "j \<le> k - 2" "next_power 0 (2 ^ k) = DICT_HT_INITIAL_SIZE * 2 ^ j"
    "2 ^ k \<le> DICT_HT_INITIAL_SIZE * (2::nat) ^ j" by blast
  moreover from this(3) have "k \<le> j + 2" unfolding i by (rule power_le_imp_le_exp [rotated]) simp
  moreover from calculation assms(1) have "j + 2 = k" by linarith
  ultimately have "next_power 0 (2 ^ k) = 2 ^ k" unfolding i by metis
  with small show ?thesis by (simp add: dictNextPower_def)
qed

lemma key_slot_mask:
  assumes "k \<le> 32" shows "key_slot ty (2 ^ k - 1) key = dt_hashFunction ty key mod 2 ^ k"
proof -
  have "ubits 32 (dt_hashFunction ty key) AND (2 ^ k - 1) = ubits 32 (dt_hashFunction ty key) mod 2 ^ k"
    by (simp add: take_bit_eq_mod [symmetric] take_bit_eq_mask mask_eq_exp_minus_1)
  also have "\<dots> = dt_hashFunction ty key mod 2 ^ k"
    unfolding ubits_def by (rule mod_mod_cancel) (rule le_imp_power_dvd, rule assms)
  finally have h: "ubits 32 (dt_hashFunction ty key) AND (2 ^ k - 1) = dt_hashFunction ty key mod 2 ^ k" .
  have "dt_hashFunction ty key mod 2 ^ k < 2 ^ k" by simp
  also have "(2::nat) ^ k \<le> 2 ^ 32" by (rule power_increasing) (use assms in simp_all)
  finally show ?thesis unfolding key_slot_def h by (rule ubits_id)
qed

lemma shapeE:
  assumes "dict_shape ht" and "ht_size ht \<noteq> 0"
  obtains k where "2 \<le> k" "k \<le> 30" "ht_size ht = 2 ^ k" "length (ht_table ht) = 2 ^ k" "ht_sizemask ht = 2 ^ k - 1"
  using assms by (auto simp: dict_shape_def)

lemma slot_bound:
  assumes "dict_shape ht" and "ht_size ht \<noteq> 0"
  shows "key_slot (ht_type ht) (ht_sizemask ht) key < length (ht_table ht)"
    and "key_slot (ht_type ht) (ht_sizemask ht) key < 2 ^ 30"
proof -
  obtain k where k: "2 \<le> k" "k \<le> 30" "length (ht_table ht) = 2 ^ k" "ht_sizemask ht = 2 ^ k - 1"
    using assms by (rule shapeE)
  have s: "key_slot (ht_type ht) (ht_sizemask ht) key = dt_hashFunction (ht_type ht) key mod 2 ^ k"
    unfolding k(4) by (rule key_slot_mask) (use k in simp)
  also have "\<dots> < 2 ^ k" by simp
  finally show "key_slot (ht_type ht) (ht_sizemask ht) key < length (ht_table ht)" using k(3) by simp
  have "(2::nat) ^ k \<le> 2 ^ 30" by (rule power_increasing) (use k in simp_all)
  moreover have "dt_hashFunction (ht_type ht) key mod 2 ^ k < 2 ^ k" by simp
  ultimately show "key_slot (ht_type ht) (ht_sizemask ht) key < 2 ^ 30" unfolding s by (rule order_less_le_trans [rotated])
qed

lemma chain_at_slot:
  assumes "dict_shape ht" and "ht_size ht \<noteq> 0"
  shows "chain_at ht (key_slot (ht_type ht) (ht_sizemask ht) key)
    = Some (ht_table ht ! key_slot (ht_type ht) (ht_sizemask ht) key)"
  using slot_bound(1) [OF assms] by (simp add: chain_at_def)

section \<open>Lemmas on tables\<close>

lemma mset_concat_update:
  "h < length tab \<Longrightarrow> mset (concat (tab[h := c])) + mset (tab ! h) = mset (concat tab) + mset c"
proof (induction tab arbitrary: h)
  case (Cons d tab)
  then show ?case by (cases h) (simp_all add: union_ac)
qed simp

lemma mset_concat_push: "h < length tab \<Longrightarrow> mset (concat (tab[h := e # tab ! h])) = add_mset e (mset (concat tab))"
  using mset_concat_update [of h tab "e # tab ! h"] by simp

lemma in_entries: "e \<in> set (entries ht) \<longleftrightarrow> (\<exists>i < length (ht_table ht). e \<in> set (ht_table ht ! i))"
  by (auto simp: entries_def in_set_conv_nth) (metis nth_mem)+

lemma placed_push:
  assumes "placed ty msk tab" and "h < length tab" and "key_slot ty msk (de_key e) = h"
  shows "placed ty msk (tab[h := e # tab ! h])"
  using assms by (auto simp: placed_def nth_list_update)

lemma rehash_chain_spec:
  assumes "\<forall>e \<in> set c. key_slot ty msk (de_key e) < length tab" and "placed ty msk tab"
    and "length c \<le> used" and "used < 2 ^ 64"
  shows "\<exists>tab'. rehash_chain ty msk c (tab, used) = Some (tab', used - length c) \<and> length tab' = length tab
    \<and> placed ty msk tab' \<and> mset (concat tab') = mset (concat tab) + mset c"
  using assms
proof (induction c arbitrary: tab used)
  case (Cons e c)
  let ?h = "key_slot ty msk (de_key e)"
  let ?tab = "tab[?h := e # tab ! ?h]"
  have h: "?h < length tab" using Cons.prems(1) by simp
  have u: "usub 64 used 1 = used - 1" using Cons.prems(3,4) by (intro usub_id) simp_all
  have "length c \<le> used - 1" "used - 1 < 2 ^ 64" using Cons.prems(3,4) by simp_all
  with Cons.IH [of ?tab "used - 1"] Cons.prems(1) h placed_push [OF Cons.prems(2) h refl] obtain tab' where
    "rehash_chain ty msk c (?tab, used - 1) = Some (tab', used - 1 - length c)" "length tab' = length ?tab"
    "placed ty msk tab'" "mset (concat tab') = mset (concat ?tab) + mset c" by auto
  with h u show ?case by (simp add: push_entry_def mset_concat_push del: mset_concat)
qed simp

lemma rehash_loop_spec:
  assumes "\<forall>e \<in> set (concat cs). key_slot ty msk (de_key e) < length tab" and "placed ty msk tab"
    and "used = length (concat cs)" and "used < 2 ^ 64"
  shows "\<exists>tab'. rehash_loop ty msk cs (tab, used) = Some (tab', 0) \<and> length tab' = length tab
    \<and> placed ty msk tab' \<and> mset (concat tab') = mset (concat tab) + mset (concat cs)"
  using assms
proof (induction cs arbitrary: tab used)
  case (Cons c cs)
  show ?case
  proof (cases "used = 0")
    case True
    with Cons.prems show ?thesis by simp
  next
    case False
    have "\<forall>e \<in> set c. key_slot ty msk (de_key e) < length tab" "length c \<le> used" using Cons.prems by simp_all
    from rehash_chain_spec [OF this(1) Cons.prems(2) this(2) Cons.prems(4)] obtain tab1 where tab1:
      "rehash_chain ty msk c (tab, used) = Some (tab1, used - length c)" "length tab1 = length tab"
      "placed ty msk tab1" "mset (concat tab1) = mset (concat tab) + mset c" by blast
    from Cons.IH [of tab1 "used - length c"] Cons.prems tab1(2,3) obtain tab2 where
      "rehash_loop ty msk cs (tab1, used - length c) = Some (tab2, 0)" "length tab2 = length tab"
      "placed ty msk tab2" "mset (concat tab2) = mset (concat tab1) + mset (concat cs)" by auto
    with False tab1 show ?thesis by (simp add: union_ac del: mset_concat)
  qed
qed simp

text \<open>Growth moves the entries without changing them.\<close>

definition same_dict :: "('k, 'v) dict \<Rightarrow> ('k, 'v) dict \<Rightarrow> bool" where
  "same_dict ht ht' \<longleftrightarrow> dict_ok ht' \<and> mset (entries ht') = mset (entries ht) \<and> ht_type ht' = ht_type ht
     \<and> ht_freed ht' = ht_freed ht"

lemma distinct_mset_map: "mset xs = mset ys \<Longrightarrow> distinct (map f xs) \<longleftrightarrow> distinct (map f ys)"
  by (metis mset_eq_imp_distinct_iff mset_map)

lemma dictExpand_spec:
  assumes "dict_ok ht" and "2 \<le> k" and "k \<le> 30" and "ht_used ht \<le> 2 ^ k"
  shows "\<exists>ht'. dictExpand M ht (2 ^ k) = Some (if calloc_granted M (2 ^ k) 8 then DICT_OK else DICT_ERR, ht')
    \<and> same_dict ht ht' \<and> (calloc_granted M (2 ^ k) 8 \<longrightarrow> ht_size ht' = 2 ^ k) \<and> ht_used ht' = ht_used ht"
proof (cases "calloc_granted M (2 ^ k) 8")
  case False
  then show ?thesis using assms by (simp add: dictExpand_def dictNextPower_pow same_dict_def)
next
  case True
  let ?ty = "ht_type ht" and ?tab = "replicate (2 ^ k) [] :: ('a, 'b) chain list"
  have p30: "(2::nat) ^ k \<le> 2 ^ 30" by (rule power_increasing) (use assms in simp_all)
  have m: "usub 64 (2 ^ k) 1 = 2 ^ k - 1" using p30 by (intro usub_id) simp_all
  have "\<forall>e \<in> set (concat (ht_table ht)). key_slot ?ty (2 ^ k - 1) (de_key e) < length ?tab"
    using assms(3) key_slot_mask [of k ?ty] by simp
  moreover have "placed ?ty (2 ^ k - 1) ?tab" by (simp add: placed_def)
  moreover have u: "ht_used ht = length (concat (ht_table ht))" using assms(1) by (simp add: dict_ok_def entries_def)
  moreover have "ht_used ht < 2 ^ 64" using assms(4) p30 by simp
  ultimately obtain tab where tab: "rehash_loop ?ty (2 ^ k - 1) (ht_table ht) (?tab, ht_used ht) = Some (tab, 0)"
    "length tab = 2 ^ k" "placed ?ty (2 ^ k - 1) tab" "mset (concat tab) = mset (concat (ht_table ht))"
    using rehash_loop_spec [of "ht_table ht" ?ty "2 ^ k - 1" ?tab "ht_used ht"] by auto
  let ?ht = "ht\<lparr>ht_table := tab, ht_size := 2 ^ k, ht_sizemask := 2 ^ k - 1\<rparr>"
  have "dictExpand M ht (2 ^ k) = Some (DICT_OK, ?ht)"
    using True assms(4) tab(1) dictNextPower_pow [of k] assms(2,3) m by (simp add: dictExpand_def Let_def)
  moreover have "length (concat tab) = length (concat (ht_table ht))" using tab(4) by (rule mset_eq_length)
  then have "dict_ok ?ht"
    using assms(1-4) tab(2,3) u distinct_mset_map [OF tab(4), of de_key]
    by (auto simp: dict_ok_def dict_shape_def entries_def simp del: mset_concat)
  ultimately show ?thesis using True tab(4) by (simp add: same_dict_def entries_def del: mset_concat)
qed

section \<open>Lemmas on lookup\<close>

lemma dict_map_Some:
  "dict_ok ht \<Longrightarrow> dict_map ht k = Some v \<longleftrightarrow> (\<exists>e \<in> set (entries ht). de_key e = k \<and> de_val e = v)"
  by (auto simp: dict_map_def dict_ok_def entry_pair_def comp_def map_of_eq_Some_iff)

lemma dict_map_None: "dict_map ht k = None \<longleftrightarrow> k \<notin> de_key ` set (entries ht)"
  by (auto simp: dict_map_def map_of_eq_None_iff entry_pair_def image_image)

lemma dict_map_mset:
  assumes "dict_ok ht" and "dict_ok ht'" and "mset (entries ht') = mset (entries ht)"
  shows "dict_map ht' = dict_map ht"
proof
  fix k
  have "dict_map ht' k = Some v \<longleftrightarrow> dict_map ht k = Some v" for v
    unfolding dict_map_Some [OF assms(1)] dict_map_Some [OF assms(2)] mset_eq_setD [OF assms(3)] ..
  then show "dict_map ht' k = dict_map ht k" by (metis not_None_eq)
qed

lemma same_dictD: "same_dict ht ht' \<Longrightarrow> dict_ok ht \<Longrightarrow> dict_map ht' = dict_map ht"
  by (auto simp: same_dict_def intro: dict_map_mset)

lemma chain_find_eq: "type_ok ty \<Longrightarrow> chain_find ty key c = List.find (\<lambda>e. de_key e = key) c"
  by (induction c) (auto simp: type_ok_def)

lemma chain_find_None: "type_ok ty \<Longrightarrow> chain_find ty key c = None \<longleftrightarrow> key \<notin> de_key ` set c"
  by (auto simp: chain_find_eq find_None_iff)

lemma chain_find_Some: "type_ok ty \<Longrightarrow> chain_find ty key c = Some e \<Longrightarrow> e \<in> set c \<and> de_key e = key"
  by (auto simp: chain_find_eq find_Some_iff)

lemma dict_okD:
  assumes "dict_ok ht"
  shows "type_ok (ht_type ht)" "dict_shape ht" "placed (ht_type ht) (ht_sizemask ht) (ht_table ht)"
    "distinct (map de_key (entries ht))" "ht_used ht = length (entries ht)" "ht_used ht \<le> 2 ^ 30"
  using assms by (simp_all add: dict_ok_def)

text \<open>An entry with the key is in the key's chain.\<close>

lemma entry_in_slot:
  assumes "dict_ok ht" and "e \<in> set (entries ht)"
  shows "e \<in> set (ht_table ht ! key_slot (ht_type ht) (ht_sizemask ht) (de_key e))"
  using assms dict_okD(3) [OF assms(1)] by (auto simp: in_entries placed_def)

lemma slot_chain:
  assumes "dict_ok ht" and "ht_size ht \<noteq> 0"
  shows "set (ht_table ht ! key_slot (ht_type ht) (ht_sizemask ht) key) \<subseteq> set (entries ht)"
  using slot_bound(1) [OF dict_okD(2) [OF assms(1)] assms(2), of key] by (auto simp: in_entries)

lemma chain_find_map:
  assumes "dict_ok ht" and "ht_size ht \<noteq> 0"
  shows "map_option de_val (chain_find (ht_type ht) key
      (ht_table ht ! key_slot (ht_type ht) (ht_sizemask ht) key)) = dict_map ht key"
proof (cases "chain_find (ht_type ht) key (ht_table ht ! key_slot (ht_type ht) (ht_sizemask ht) key)")
  case None
  then have "key \<notin> de_key ` set (entries ht)"
    using entry_in_slot [OF assms(1)] chain_find_None [OF dict_okD(1) [OF assms(1)]] by auto
  then have "dict_map ht key = None" by (simp add: dict_map_None)
  with None show ?thesis by simp
next
  case (Some e)
  with chain_find_Some [OF dict_okD(1) [OF assms(1)]] slot_chain [OF assms]
  have "e \<in> set (entries ht)" "de_key e = key" by blast+
  then have "dict_map ht key = Some (de_val e)" using dict_map_Some [OF assms(1)] by blast
  with Some show ?thesis by simp
qed

lemma empty_map: "dict_ok ht \<Longrightarrow> ht_size ht = 0 \<Longrightarrow> dict_map ht = Map.empty"
  using dict_okD(2) [of ht] by (simp add: dict_shape_def dict_map_def entries_def)

lemma dictFind_spec:
  assumes "dict_ok ht" shows "\<exists>r. dictFind ht key = Some r \<and> map_option de_val r = dict_map ht key"
  using chain_find_map [OF assms, of key] chain_at_slot [OF dict_okD(2) [OF assms]] empty_map [OF assms]
  by (auto simp: dictFind_def)

section \<open>Lemmas on updates\<close>

lemma calloc_granted_pow: "\<forall>n. granted M n \<Longrightarrow> k \<le> 30 \<Longrightarrow> calloc_granted M (2 ^ k) 8"
  using power_increasing [of k 30 "2::nat"] by (simp add: calloc_granted_def SIZE_MAX_def)

lemma dictExpandIfNeeded_spec:
  assumes "dict_ok ht" and "ht_used ht < 2 ^ 30"
  obtains rc ht' where "dictExpandIfNeeded M ht = Some (rc, ht')" and "same_dict ht ht'"
    and "ht_used ht' = ht_used ht" and "rc = DICT_OK \<and> ht_size ht' \<noteq> 0 \<or> rc = DICT_ERR \<and> \<not> (\<forall>n. granted M n)"
proof (cases "ht_size ht = 0 \<or> ht_used ht = ht_size ht")
  case False
  then show ?thesis using assms by (intro that [of DICT_OK ht]) (simp_all add: dictExpandIfNeeded_def same_dict_def)
next
  case True
  have "\<exists>k. 2 \<le> k \<and> k \<le> 30 \<and> ht_used ht \<le> 2 ^ k \<and> dictExpandIfNeeded M ht = dictExpand M ht (2 ^ k)"
  proof (cases "ht_size ht = 0")
    case True
    then have "ht_used ht = 0" using dict_okD [OF assms(1)] by (simp add: dict_shape_def entries_def)
    with True show ?thesis by (intro exI [of _ 2]) (simp add: dictExpandIfNeeded_def DICT_HT_INITIAL_SIZE_def)
  next
    case nz: False
    obtain k where k: "2 \<le> k" "k \<le> 30" "ht_size ht = 2 ^ k"
      using shapeE [OF dict_okD(2) [OF assms(1)] nz] by metis
    have "(2::nat) ^ k < 2 ^ 30" using assms(2) True nz k(3) by simp
    then have "k < 30" by (rule power_less_imp_less_exp [rotated]) simp
    moreover from \<open>2 ^ k < 2 ^ 30\<close> have "ubits 64 (2 ^ k * 2) = 2 ^ Suc k" by simp
    ultimately show ?thesis using True nz k by (intro exI [of _ "Suc k"]) (simp add: dictExpandIfNeeded_def)
  qed
  then obtain k where k: "2 \<le> k" "k \<le> 30" "ht_used ht \<le> 2 ^ k" "dictExpandIfNeeded M ht = dictExpand M ht (2 ^ k)" by blast
  from dictExpand_spec [OF assms(1) k(1-3), of M] k(4) calloc_granted_pow [OF _ k(2), of M] that
  show ?thesis by (cases "calloc_granted M (2 ^ k) 8") auto
qed

lemma dictKeyIndex_spec:
  assumes "dict_ok ht" and "ht_used ht < 2 ^ 30"
  obtains i ht' where "dictKeyIndex M ht key = Some (i, ht')" and "same_dict ht ht'" and "ht_used ht' = ht_used ht"
    and "i = -1 \<and> (dict_map ht key \<noteq> None \<or> \<not> (\<forall>n. granted M n))
      \<or> i = int (key_slot (ht_type ht') (ht_sizemask ht') key) \<and> dict_map ht key = None \<and> ht_size ht' \<noteq> 0"
proof -
  obtain rc ht' where e: "dictExpandIfNeeded M ht = Some (rc, ht')" "same_dict ht ht'" "ht_used ht' = ht_used ht"
    "rc = DICT_OK \<and> ht_size ht' \<noteq> 0 \<or> rc = DICT_ERR \<and> \<not> (\<forall>n. granted M n)"
    using dictExpandIfNeeded_spec [OF assms] by blast
  note map = same_dictD [OF e(2) assms(1)]
  show ?thesis
  proof (cases "rc = DICT_ERR")
    case True
    with e show ?thesis by (intro that [of "-1" ht']) (auto simp: dictKeyIndex_def DICT_OK_def DICT_ERR_def)
  next
    case False
    with e(4) have nz: "ht_size ht' \<noteq> 0" by simp
    have ok: "dict_ok ht'" using e(2) by (simp add: same_dict_def)
    let ?h = "key_slot (ht_type ht') (ht_sizemask ht') key"
    have "sbits 32 (int ?h) = int ?h" using slot_bound(2) [OF dict_okD(2) [OF ok] nz, of key] by simp
    with False e nz chain_at_slot [OF dict_okD(2) [OF ok] nz, of key] chain_find_map [OF ok nz, of key, symmetric] map that
    show ?thesis
      by (cases "chain_find (ht_type ht') key (ht_table ht' ! ?h)") (auto simp: dictKeyIndex_def)
  qed
qed

text \<open>A new entry at the head of its chain.\<close>

lemma push_new:
  assumes "dict_ok ht" and "ht_size ht \<noteq> 0" and "dict_map ht key = None" and "ht_used ht < 2 ^ 30"
    and "h = key_slot (ht_type ht) (ht_sizemask ht) key"
    and "ht' = ht\<lparr>ht_table := (ht_table ht)[h := \<lparr>de_key = key, de_val = v\<rparr> # ht_table ht ! h],
      ht_used := ubits 64 (ht_used ht + 1)\<rparr>"
  shows "dict_ok ht'" and "dict_map ht' = (dict_map ht)(key \<mapsto> v)"
proof -
  let ?e = "\<lparr>de_key = key, de_val = v\<rparr>"
  have h: "h < length (ht_table ht)" using slot_bound(1) [OF dict_okD(2) [OF assms(1)] assms(2)] assms(5) by simp
  have m: "mset (entries ht') = add_mset ?e (mset (entries ht))"
    using mset_concat_push [OF h] by (simp add: entries_def assms(6) del: mset_concat)
  then have m': "mset (entries ht') = mset (?e # entries ht)" by simp
  have s: "set (entries ht') = insert ?e (set (entries ht))" using mset_eq_setD [OF m'] by simp
  have d: "distinct (map de_key (entries ht'))"
    using distinct_mset_map [OF m', of de_key] dict_okD(4) [OF assms(1)] assms(3) by (simp add: dict_map_None)
  have l: "length (entries ht') = Suc (length (entries ht))" using mset_eq_length [OF m'] by simp
  have p: "placed (ht_type ht) (ht_sizemask ht) ((ht_table ht)[h := ?e # ht_table ht ! h])"
    using placed_push [OF dict_okD(3) [OF assms(1)] h, of ?e] assms(5) by simp
  show ok: "dict_ok ht'"
    using dict_okD [OF assms(1)] d l p assms(2,4) by (simp add: dict_ok_def assms(6) dict_shape_def)
  have "dict_map ht' k = ((dict_map ht)(key \<mapsto> v)) k" for k
  proof -
    have "dict_map ht' k = Some w \<longleftrightarrow> ((dict_map ht)(key \<mapsto> v)) k = Some w" for w
      using dict_map_Some [OF assms(1), of k w] assms(3) by (auto simp: dict_map_Some [OF ok] s dict_map_None)
    then show ?thesis by (metis not_None_eq)
  qed
  then show "dict_map ht' = (dict_map ht)(key \<mapsto> v)" by blast
qed

lemma dictAdd_spec:
  assumes "dict_ok ht" and "ht_used ht < 2 ^ 30"
  obtains ht' where "dictAdd M ht key v = Some (DICT_ERR, ht')" and "same_dict ht ht'"
      and "dict_map ht key \<noteq> None \<or> \<not> (\<forall>n. granted M n)"
  | ht' where "dictAdd M ht key v = Some (DICT_OK, ht')" and "dict_map ht key = None" and "dict_ok ht'"
      and "dict_map ht' = (dict_map ht)(key \<mapsto> dup_val (ht_type ht) v)" and "ht_freed ht' = ht_freed ht"
      and "ht_type ht' = ht_type ht"
proof -
  obtain i ht1 where i: "dictKeyIndex M ht key = Some (i, ht1)" "same_dict ht ht1" "ht_used ht1 = ht_used ht"
    "i = -1 \<and> (dict_map ht key \<noteq> None \<or> \<not> (\<forall>n. granted M n))
      \<or> i = int (key_slot (ht_type ht1) (ht_sizemask ht1) key) \<and> dict_map ht key = None \<and> ht_size ht1 \<noteq> 0"
    using dictKeyIndex_spec [OF assms] by blast
  show ?thesis
  proof (cases "i = -1 \<or> \<not> granted M 24")
    case True
    show ?thesis
    proof (rule that(1))
      show "dictAdd M ht key v = Some (DICT_ERR, ht1)" using True i(1) by (auto simp: dictAdd_def)
    qed (use True i in auto)
  next
    case False
    let ?h = "key_slot (ht_type ht1) (ht_sizemask ht1) key"
    from False i(4) have k: "i = int ?h" "dict_map ht key = None" "ht_size ht1 \<noteq> 0" by simp_all
    have ok: "dict_ok ht1" and ty: "ht_type ht1 = ht_type ht" and fr: "ht_freed ht1 = ht_freed ht"
      using i(2) by (simp_all add: same_dict_def)
    have map: "dict_map ht1 = dict_map ht" using i(2) assms(1) by (rule same_dictD)
    have h: "?h < length (ht_table ht1)" using slot_bound(1) [OF dict_okD(2) [OF ok] k(3)] .
    have key: "dup_key (ht_type ht1) key = key" using dict_okD(1) [OF ok] by (simp add: type_ok_def)
    define ht2 where "ht2 = ht1\<lparr>ht_table := (ht_table ht1)[?h := \<lparr>de_key = key, de_val = dup_val (ht_type ht) v\<rparr>
      # ht_table ht1 ! ?h], ht_used := ubits 64 (ht_used ht1 + 1)\<rparr>"
    have "dictAdd M ht key v = Some (DICT_OK, ht2)"
      using False i(1) k(1) h key by (simp add: dictAdd_def push_entry_def ht2_def ty)
    moreover have "dict_map ht1 key = None" "ht_used ht1 < 2 ^ 30" using map k(2) assms(2) i(3) by simp_all
    note new = push_new [OF ok k(3) this refl ht2_def]
    ultimately show ?thesis using new k(2) by (intro that(2) [of ht2]) (simp_all add: map ty fr ht2_def)
  qed
qed

text \<open>On a chain with distinct keys, deleting and setting act on the one entry with the key.\<close>

lemma filter_key_id: "key \<notin> de_key ` set es \<Longrightarrow> filter (\<lambda>e. de_key e \<noteq> key) es = es"
  by (induction es) auto

lemma map_key_id: "key \<notin> de_key ` set es \<Longrightarrow> map (\<lambda>e. if de_key e = key then f e else e) es = es"
  by (induction es) auto

lemma chain_delete_filter:
  "type_ok ty \<Longrightarrow> distinct (map de_key c) \<Longrightarrow> chain_delete ty key c = filter (\<lambda>e. de_key e \<noteq> key) c"
  by (induction c) (auto simp: type_ok_def filter_key_id)

lemma chain_set_map:
  "type_ok ty \<Longrightarrow> distinct (map de_key c) \<Longrightarrow>
    chain_set ty key v c = map (\<lambda>e. if de_key e = key then e\<lparr>de_val := v\<rparr> else e) c"
  by (induction c) (auto simp: type_ok_def map_key_id)

lemma distinct_chain:
  "distinct (map de_key (concat tab)) \<Longrightarrow> h < length tab \<Longrightarrow> distinct (map de_key (tab ! h))"
  by (metis concat_append concat.simps(2) distinct_append id_take_nth_drop map_append)

lemma length_filter_key:
  "distinct (map de_key es) \<Longrightarrow> e \<in> set es \<Longrightarrow>
    length (filter (\<lambda>x. de_key x \<noteq> de_key e) es) = length es - 1"
proof (induction es)
  case (Cons a es)
  show ?case
  proof (cases "a = e")
    case True
    then show ?thesis using Cons.prems by (simp add: filter_key_id)
  next
    case False
    with Cons have "e \<in> set es" "de_key a \<noteq> de_key e" by auto
    moreover from this have "0 < length es" by auto
    ultimately show ?thesis using Cons by simp
  qed
qed simp

text \<open>What happens in the key's chain happens to the whole table when other entries are left alone.\<close>

lemma slot_others:
  assumes "dict_ok ht" and "ht_size ht \<noteq> 0" and "h = key_slot (ht_type ht) (ht_sizemask ht) key"
    and "g (ht_table ht ! h) = c" and "\<And>es. \<forall>e \<in> set es. de_key e \<noteq> key \<Longrightarrow> g es = es"
  shows "(ht_table ht)[h := c] = map g (ht_table ht)"
proof (rule nth_equalityI)
  fix i assume i: "i < length ((ht_table ht)[h := c])"
  have "\<forall>e \<in> set (ht_table ht ! i). de_key e \<noteq> key" if "i \<noteq> h"
    using dict_okD(3) [OF assms(1)] i that assms(3) by (auto simp: placed_def)
  with i assms(4,5) show "(ht_table ht)[h := c] ! i = map g (ht_table ht) ! i"
    by (cases "i = h") simp_all
qed simp

lemma placed_update:
  assumes "placed ty msk tab" and "h < length tab" and "\<forall>e \<in> set c. key_slot ty msk (de_key e) = h"
  shows "placed ty msk (tab[h := c])"
  using assms by (auto simp: placed_def nth_list_update)

lemma map_eqI: "(\<And>k v. m k = Some v \<longleftrightarrow> m' k = Some v) \<Longrightarrow> m = m'"
  by (intro ext) (metis not_None_eq)

lemma dictFreeEntry_simps [simp]:
  "ht_table (dictFreeEntryVal ht e) = ht_table ht" "ht_table (dictFreeEntryKey ht e) = ht_table ht"
  "ht_type (dictFreeEntryVal ht e) = ht_type ht" "ht_type (dictFreeEntryKey ht e) = ht_type ht"
  "ht_size (dictFreeEntryVal ht e) = ht_size ht" "ht_size (dictFreeEntryKey ht e) = ht_size ht"
  "ht_sizemask (dictFreeEntryVal ht e) = ht_sizemask ht" "ht_sizemask (dictFreeEntryKey ht e) = ht_sizemask ht"
  "ht_used (dictFreeEntryVal ht e) = ht_used ht" "ht_used (dictFreeEntryKey ht e) = ht_used ht"
  by (simp_all add: dictFreeEntryVal_def dictFreeEntryKey_def)

text \<open>The destructor calls for one entry.\<close>

definition destroyed :: "('k, 'v) dictType \<Rightarrow> ('k, 'v) dictEntry \<Rightarrow> ('k, 'v) freed list" where
  "destroyed ty e = (if dt_keyDestructor ty then [FreedKey (de_key e)] else [])
     @ (if dt_valDestructor ty then [FreedVal (de_val e)] else [])"

lemma freed_entry: "ht_freed (dictFreeEntryVal (dictFreeEntryKey ht e) e) = ht_freed ht @ destroyed (ht_type ht) e"
  by (simp add: dictFreeEntryVal_def dictFreeEntryKey_def destroyed_def)

lemma slot_distinct:
  assumes "dict_ok ht" and "ht_size ht \<noteq> 0"
  shows "distinct (map de_key (ht_table ht ! key_slot (ht_type ht) (ht_sizemask ht) key))"
  using distinct_chain [OF _ slot_bound(1) [OF dict_okD(2) [OF assms(1)] assms(2)]] dict_okD(4) [OF assms(1)]
  by (simp add: entries_def)

lemma placed_map:
  assumes "placed ty msk tab" and "\<And>es. de_key ` set (g es) \<subseteq> de_key ` set es"
  shows "placed ty msk (map g tab)"
  unfolding placed_def
proof (intro allI impI ballI)
  fix i e assume i: "i < length (map g tab)" and "e \<in> set (map g tab ! i)"
  then have "de_key e \<in> de_key ` set (tab ! i)" using assms(2) [of "tab ! i"] by auto
  then show "key_slot ty msk (de_key e) = i" using assms(1) i by (auto simp: placed_def)
qed

lemma delete_entry:
  assumes "dict_ok ht" and "ht_size ht \<noteq> 0" and "h = key_slot (ht_type ht) (ht_sizemask ht) key"
    and "dict_map ht key \<noteq> None" and "ht_used ht < 2 ^ 64"
    and "ht_table ht' = (ht_table ht)[h := chain_delete (ht_type ht) key (ht_table ht ! h)]"
    and "ht_used ht' = usub 64 (ht_used ht) 1"
    and "ht_type ht' = ht_type ht" "ht_size ht' = ht_size ht" "ht_sizemask ht' = ht_sizemask ht"
  shows "dict_ok ht'" and "dict_map ht' = (dict_map ht)(key := None)" and "ht_used ht' = ht_used ht - 1"
proof -
  let ?P = "\<lambda>e. de_key e \<noteq> key"
  note ok = dict_okD [OF assms(1)]
  have tab: "ht_table ht' = map (filter ?P) (ht_table ht)"
    unfolding assms(6) using chain_delete_filter [OF ok(1) slot_distinct [OF assms(1,2)]] assms(3)
    by (intro slot_others [OF assms(1-3)]) (simp_all add: filter_id_conv)
  have ent: "entries ht' = filter ?P (entries ht)" by (simp add: entries_def tab filter_concat)
  obtain e where e: "e \<in> set (entries ht)" "de_key e = key" using assms(4) by (auto simp: dict_map_None)
  have len: "length (entries ht') = length (entries ht) - 1"
    using length_filter_key [OF ok(4) e(1)] e(2) by (simp add: ent)
  have "1 \<le> ht_used ht" using e(1) ok(5) by (cases "entries ht") auto
  then show u: "ht_used ht' = ht_used ht - 1" using assms(5,7) usub_id [of 1 "ht_used ht" 64] by simp
  have "placed (ht_type ht) (ht_sizemask ht) (ht_table ht')"
    unfolding tab by (rule placed_map [OF ok(3)]) auto
  moreover have "dict_shape ht'" using ok(2) tab by (simp add: dict_shape_def assms(9,10))
  moreover have "distinct (map de_key (entries ht'))" unfolding ent using ok(4) by (rule distinct_map_filter)
  ultimately show ok': "dict_ok ht'" using ok(1,5,6) u len by (simp add: dict_ok_def assms(8,10))
  show "dict_map ht' = (dict_map ht)(key := None)"
    by (intro map_eqI) (auto simp: dict_map_Some [OF ok'] dict_map_Some [OF assms(1)] ent)
qed

lemma set_entry:
  assumes "dict_ok ht" and "ht_size ht \<noteq> 0" and "h = key_slot (ht_type ht) (ht_sizemask ht) key"
    and "dict_map ht key \<noteq> None"
    and "ht_table ht' = (ht_table ht)[h := chain_set (ht_type ht) key v (ht_table ht ! h)]"
    and "ht_used ht' = ht_used ht"
    and "ht_type ht' = ht_type ht" "ht_size ht' = ht_size ht" "ht_sizemask ht' = ht_sizemask ht"
  shows "dict_ok ht'" and "dict_map ht' = (dict_map ht)(key \<mapsto> v)"
proof -
  let ?f = "\<lambda>e. if de_key e = key then e\<lparr>de_val := v\<rparr> else e"
  note ok = dict_okD [OF assms(1)]
  have tab: "ht_table ht' = map (map ?f) (ht_table ht)"
    unfolding assms(5) using chain_set_map [OF ok(1) slot_distinct [OF assms(1,2)]] assms(3)
    by (intro slot_others [OF assms(1-3)]) (simp_all add: map_idI)
  have ent: "entries ht' = map ?f (entries ht)" by (simp add: entries_def tab map_concat)
  have keys: "map de_key (entries ht') = map de_key (entries ht)" by (simp add: ent)
  have "placed (ht_type ht) (ht_sizemask ht) (ht_table ht')"
    unfolding tab by (rule placed_map [OF ok(3)]) auto
  moreover have "dict_shape ht'" using ok(2) tab by (simp add: dict_shape_def assms(8,9))
  ultimately show ok': "dict_ok ht'" using ok(1,4-6) keys map_eq_imp_length_eq [OF keys] by (simp add: dict_ok_def assms(6,7,9))
  obtain e where e: "e \<in> set (entries ht)" "de_key e = key" using assms(4) by (auto simp: dict_map_None)
  then have "e\<lparr>de_val := v\<rparr> \<in> set (entries ht')" by (auto simp: ent image_iff intro!: bexI [of _ e])
  then have new: "dict_map ht' key = Some v" 
    using e(2) by (auto simp: dict_map_Some [OF ok'] intro!: bexI [of _ "e\<lparr>de_val := v\<rparr>"])
  have "dict_map ht' k = Some w \<longleftrightarrow> dict_map ht k = Some w" if "k \<noteq> key" for k w
    using that by (auto simp: dict_map_Some [OF ok'] dict_map_Some [OF assms(1)] ent)
  with new show "dict_map ht' = (dict_map ht)(key \<mapsto> v)" by (intro map_eqI) simp
qed

lemma dictDelete_spec:
  assumes "dict_ok ht"
  obtains "dictDelete ht key = Some (DICT_ERR, ht)" and "dict_map ht key = None"
  | ht' v where "dictDelete ht key = Some (DICT_OK, ht')" and "dict_map ht key = Some v" and "dict_ok ht'"
      and "dict_map ht' = (dict_map ht)(key := None)" and "ht_used ht' = ht_used ht - 1"
      and "ht_freed ht' = ht_freed ht @ destroyed (ht_type ht) \<lparr>de_key = key, de_val = v\<rparr>"
      and "ht_type ht' = ht_type ht"
proof (cases "ht_size ht = 0")
  case True
  with that(1) empty_map [OF assms] show ?thesis by (simp add: dictDelete_def)
next
  case nz: False
  have u: "ht_used ht < 2 ^ 64" using dict_okD(6) [OF assms] by simp
  let ?h = "key_slot (ht_type ht) (ht_sizemask ht) key"
  let ?c = "ht_table ht ! ?h"
  have at: "chain_at ht ?h = Some ?c" by (rule chain_at_slot [OF dict_okD(2) [OF assms] nz])
  note map = chain_find_map [OF assms nz, of key]
  show ?thesis
  proof (cases "chain_find (ht_type ht) key ?c")
    case None
    with map have "dict_map ht key = None" by simp
    with that(1) None nz at show ?thesis by (simp add: dictDelete_def)
  next
    case (Some e)
    with map have v: "dict_map ht key = Some (de_val e)" by simp
    have e: "de_key e = key" using chain_find_Some [OF dict_okD(1) [OF assms] Some] by simp
    define ht' where "ht' = (dictFreeEntryVal (dictFreeEntryKey
      (ht\<lparr>ht_table := (ht_table ht)[?h := chain_delete (ht_type ht) key ?c]\<rparr>) e) e)\<lparr>ht_used := usub 64 (ht_used ht) 1\<rparr>"
    have "dictDelete ht key = Some (DICT_OK, ht')" using nz at Some by (simp add: dictDelete_def ht'_def Let_def)
    moreover have "dict_ok ht'" "dict_map ht' = (dict_map ht)(key := None)" "ht_used ht' = ht_used ht - 1"
      using v by (intro delete_entry [OF assms nz refl _ u]; simp add: ht'_def)+
    moreover have "ht_freed ht' = ht_freed ht @ destroyed (ht_type ht) \<lparr>de_key = key, de_val = de_val e\<rparr>"
      using e by (simp add: ht'_def freed_entry destroyed_def)
    ultimately show ?thesis using v by (intro that(2) [of ht' "de_val e"]) (simp_all add: ht'_def)
  qed
qed

lemma dictReplace_spec:
  assumes "dict_ok ht" and "ht_used ht < 2 ^ 30"
  obtains ht' where "dictReplace M ht key v = Some (1, ht')" and "dict_map ht key = None" and "dict_ok ht'"
      and "dict_map ht' = (dict_map ht)(key \<mapsto> dup_val (ht_type ht) v)" and "ht_freed ht' = ht_freed ht"
      and "ht_type ht' = ht_type ht"
  | ht' w where "dictReplace M ht key v = Some (0, ht')" and "dict_map ht key = Some w" and "dict_ok ht'"
      and "dict_map ht' = (dict_map ht)(key \<mapsto> dup_val (ht_type ht) v)"
      and "ht_freed ht' = ht_freed ht @ (if dt_valDestructor (ht_type ht) then [FreedVal w] else [])"
      and "ht_type ht' = ht_type ht"
  | ht' where "dictReplace M ht key v = Some (0, ht')" and "dict_map ht key = None" and "same_dict ht ht'"
      and "\<not> (\<forall>n. granted M n)"
proof (rule dictAdd_spec [OF assms, of M key v])
  fix ht1 assume "dictAdd M ht key v = Some (DICT_OK, ht1)" "dict_map ht key = None" "dict_ok ht1"
    "dict_map ht1 = (dict_map ht)(key \<mapsto> dup_val (ht_type ht) v)" "ht_freed ht1 = ht_freed ht" "ht_type ht1 = ht_type ht"
  then show thesis by (intro that(1) [of ht1]) (simp_all add: dictReplace_def)
next
  fix ht1 assume add: "dictAdd M ht key v = Some (DICT_ERR, ht1)" and same: "same_dict ht ht1"
    and why: "dict_map ht key \<noteq> None \<or> \<not> (\<forall>n. granted M n)"
  have ok: "dict_ok ht1" and ty: "ht_type ht1 = ht_type ht" and fr: "ht_freed ht1 = ht_freed ht"
    using same by (simp_all add: same_dict_def)
  note map = same_dictD [OF same assms(1)]
  from dictFind_spec [OF ok, of key] obtain r where r: "dictFind ht1 key = Some r" "map_option de_val r = dict_map ht key"
    by (auto simp: map)
  show thesis
  proof (cases r)
    case None
    with r add same why show thesis
      by (intro that(3) [of ht1]) (auto simp: dictReplace_def DICT_OK_def DICT_ERR_def)
  next
    case (Some e)
    with r have w: "dict_map ht key = Some (de_val e)" by simp
    then have nz: "ht_size ht1 \<noteq> 0" using empty_map [OF ok] map by (metis option.distinct(1))
    let ?h = "key_slot (ht_type ht1) (ht_sizemask ht1) key"
    define ht2 where "ht2 = dictFreeEntryVal (ht1\<lparr>ht_table := (ht_table ht1)[?h :=
      chain_set (ht_type ht1) key (dup_val (ht_type ht1) v) (ht_table ht1 ! ?h)]\<rparr>) e"
    have "dictReplace M ht key v = Some (0, ht2)"
      using add r(1) Some by (simp add: dictReplace_def ht2_def DICT_OK_def DICT_ERR_def Let_def)
    moreover have "dict_ok ht2" "dict_map ht2 = (dict_map ht1)(key \<mapsto> dup_val (ht_type ht1) v)"
      using w map by (intro set_entry [OF ok nz refl]; simp add: ht2_def)+
    moreover have "ht_freed ht2 = ht_freed ht @ (if dt_valDestructor (ht_type ht) then [FreedVal (de_val e)] else [])"
      by (simp add: ht2_def dictFreeEntryVal_def ty fr)
    ultimately show thesis using w by (intro that(2) [of ht2 "de_val e"]) (simp_all add: map ty ht2_def)
  qed
qed

section \<open>Lemmas on release\<close>

lemma clear_chain_spec:
  "length c \<le> ht_used ht \<Longrightarrow> ht_used ht < 2 ^ 64 \<Longrightarrow>
    ht_used (clear_chain c ht) = ht_used ht - length c \<and> ht_type (clear_chain c ht) = ht_type ht
    \<and> ht_freed (clear_chain c ht) = ht_freed ht @ concat (map (destroyed (ht_type ht)) c)"
proof (induction c arbitrary: ht)
  case (Cons e c)
  let ?ht = "(dictFreeEntryVal (dictFreeEntryKey ht e) e)\<lparr>ht_used := usub 64 (ht_used ht) 1\<rparr>"
  have u: "ht_used ?ht = ht_used ht - 1" using Cons.prems usub_id [of 1 "ht_used ht" 64] by simp
  with Cons.prems have "length c \<le> ht_used ?ht" "ht_used ?ht < 2 ^ 64" by simp_all
  from Cons.IH [OF this] u show ?case using freed_entry [of ht e] by simp
qed simp

lemma clear_loop_spec:
  "ht_used ht = length (concat cs) \<Longrightarrow> ht_used ht < 2 ^ 64 \<Longrightarrow>
    ht_freed (clear_loop cs ht) = ht_freed ht @ concat (map (destroyed (ht_type ht)) (concat cs))"
proof (induction cs arbitrary: ht)
  case (Cons c cs)
  have "length c \<le> ht_used ht" using Cons.prems by simp
  note one = clear_chain_spec [OF this Cons.prems(2)]
  show ?case
  proof (cases "ht_used ht = 0")
    case True
    then have "concat (c # cs) = []" using Cons.prems(1) by (metis length_0_conv)
    with True show ?thesis unfolding \<open>concat (c # cs) = []\<close> by simp
  next
    case False
    then have "clear_loop (c # cs) ht = clear_loop cs (clear_chain c ht)" by simp
    with one Cons.IH [of "clear_chain c ht"] Cons.prems show ?thesis by (simp del: clear_loop.simps)
  qed
qed simp

section \<open>Lemmas on iteration\<close>

text \<open>What an iterator still has to return.\<close>

definition remaining :: "('k, 'v) dict \<Rightarrow> ('k, 'v) dictIterator \<Rightarrow> ('k, 'v) dictEntry list" where
  "remaining ht it = (if it_entry it = [] then [] else it_nextEntry it)
     @ concat (drop (nat (it_index it + 1)) (ht_table ht))"

definition iter_ok :: "('k, 'v) dict \<Rightarrow> ('k, 'v) dictIterator \<Rightarrow> bool" where
  "iter_ok ht it \<longleftrightarrow> - 1 \<le> it_index it \<and> it_index it < int (length (ht_table ht)) + 1"

lemma dictNext_spec:
  assumes "length (ht_table ht) = ht_size ht" and "ht_size ht < 2 ^ 31" and "iter_ok ht it"
  shows "case remaining ht it of
      [] \<Rightarrow> \<exists>it'. dictNext ht it = Some (None, it')
    | e # es \<Rightarrow> \<exists>it'. dictNext ht it = Some (Some e, it') \<and> iter_ok ht it' \<and> remaining ht it' = es"
  using assms
proof (induction ht it rule: dictNext.induct [case_names step])
  case (step ht it)
  have sz: "sbits 32 (int (ht_size ht)) = int (ht_size ht)" using step.prems(2) by simp
  show ?case
  proof (cases "it_entry it = []")
    case True
    let ?it = "it\<lparr>it_index := it_index it + 1\<rparr>"
    have i0: "0 \<le> it_index it + 1" using step.prems(3) by (simp add: iter_ok_def)
    show ?thesis
    proof (cases "int (ht_size ht) \<le> it_index it + 1")
      case end_: True
      have "remaining ht it = []" using True end_ step.prems(1) by (simp add: remaining_def)
      moreover have "dictNext ht it = Some (None, ?it)" using True end_ sz by (simp add: dictNext.simps [of ht it] Let_def)
      ultimately show ?thesis by simp
    next
      case in_: False
      let ?i = "nat (it_index it + 1)"
      have i: "?i < length (ht_table ht)" using in_ i0 step.prems(1) by simp
      have at: "chain_at ht ?i = Some (ht_table ht ! ?i)" using i by (simp add: chain_at_def)
      have rem: "remaining ht it = ht_table ht ! ?i @ concat (drop (Suc ?i) (ht_table ht))"
        using True i Cons_nth_drop_Suc [OF i, symmetric] by (simp add: remaining_def)
      have nxt: "nat (it_index it + 1 + 1) = Suc ?i" using i0 by simp
      have ok: "iter_ok ht ?it" using i i0 by (simp add: iter_ok_def)
      show ?thesis
      proof (cases "ht_table ht ! ?i")
        case Nil
        let ?it' = "?it\<lparr>it_entry := []\<rparr>"
        have "dictNext ht it = dictNext ht ?it'"
          using True in_ i0 sz at Nil by (simp add: dictNext.simps [of ht it] Let_def)
        moreover have "remaining ht ?it' = remaining ht it" using rem Nil nxt by (simp add: remaining_def)
        moreover have "iter_ok ht ?it'" using ok by (simp add: iter_ok_def)
        ultimately show ?thesis using step.IH(1) [OF True refl] in_ i0 sz at Nil step.prems(1,2)
          by (simp cong: list.case_cong)
      next
        case (Cons e r)
        with True in_ i0 sz at rem nxt ok show ?thesis
          by (simp add: dictNext.simps [of ht it] Let_def iter_ok_def remaining_def)
      qed
    qed
  next
    case False
    let ?it' = "it\<lparr>it_entry := []\<rparr>"
    show ?thesis
    proof (cases "it_nextEntry it")
      case Nil
      have "dictNext ht it = dictNext ht ?it'" using False Nil by (simp add: dictNext.simps [of ht it])
      moreover have "remaining ht ?it' = remaining ht it" using False Nil by (simp add: remaining_def)
      moreover have "iter_ok ht ?it'" using step.prems(3) by (simp add: iter_ok_def)
      ultimately show ?thesis using step.IH(2) [OF False Nil] step.prems(1,2)
        by (simp cong: list.case_cong)
    next
      case (Cons e r)
      with False step.prems(3) show ?thesis
        by (simp add: dictNext.simps [of ht it] iter_ok_def remaining_def)
    qed
  qed
qed

lemma drain_remaining:
  assumes "length (ht_table ht) = ht_size ht" and "ht_size ht < 2 ^ 31" and "iter_ok ht it"
    and "length (remaining ht it) < n"
  shows "drain n ht it = Some (remaining ht it)"
  using assms(3,4)
proof (induction n arbitrary: it)
  case (Suc n)
  note nx = dictNext_spec [OF assms(1,2) Suc.prems(1)]
  show ?case
  proof (cases "remaining ht it")
    case Nil
    with nx show ?thesis by auto
  next
    case (Cons e es)
    with nx obtain it' where "dictNext ht it = Some (Some e, it')" "iter_ok ht it'" "remaining ht it' = es" by auto
    with Suc Cons show ?thesis by simp
  qed
qed simp

section \<open>The table as an interface\<close>

text \<open>
  What the subscription code relies on: a table with an invariant and an abstraction to a map,
  whose lookup reads the map and whose updates change it at one key. An update may be dropped,
  but only for a key that is not present (it needs memory).
\<close>

locale kv_table =
  fixes ok :: "'d \<Rightarrow> bool" and room :: "'d \<Rightarrow> bool" and to_map :: "'d \<Rightarrow> 'k \<rightharpoonup> 'v"
    and stored :: "'d \<Rightarrow> 'v \<Rightarrow> 'v"
    and look :: "'d \<Rightarrow> 'k \<Rightarrow> 'v option option"
    and replace :: "'d \<Rightarrow> 'k \<Rightarrow> 'v \<Rightarrow> (nat \<times> 'd) option"
    and delete :: "'d \<Rightarrow> 'k \<Rightarrow> (nat \<times> 'd) option"
  assumes look: "ok d \<Longrightarrow> look d k = Some (to_map d k)"
    and replace: "ok d \<Longrightarrow> room d \<Longrightarrow> \<exists>d'. replace d k v = Some (if to_map d k = None \<and> to_map d' k \<noteq> None then 1 else 0, d')
      \<and> ok d' \<and> (to_map d' = (to_map d)(k \<mapsto> stored d v) \<or> to_map d k = None \<and> to_map d' = to_map d)"
    and delete: "ok d \<Longrightarrow> \<exists>d'. delete d k = Some (if to_map d k = None then DICT_ERR else DICT_OK, d')
      \<and> ok d' \<and> to_map d' = (to_map d)(k := None)"
begin

lemma look_replace:
  assumes "ok d" and "room d" and "replace d k v = Some (r, d')"
  shows "ok d' \<and> (look d' k = Some (Some (stored d v)) \<or> to_map d k = None \<and> look d' k = Some None)
    \<and> (j \<noteq> k \<longrightarrow> look d' j = look d j)"
  using replace [OF assms(1,2), of k v] assms look by auto

lemma look_delete:
  assumes "ok d" and "delete d k = Some (r, d')"
  shows "ok d' \<and> look d' k = Some None \<and> (j \<noteq> k \<longrightarrow> look d' j = look d j) \<and> (r = DICT_OK \<longleftrightarrow> look d k \<noteq> Some None)"
  using delete [OF assms(1), of k] assms look [OF assms(1)] look by (auto simp: DICT_OK_def DICT_ERR_def split: if_splits)

lemma delete_replace:
  assumes "ok d" and "room d" and "to_map d k = None" and "replace d k v = Some (r, d1)" and "delete d1 k = Some (r', d2)"
  shows "to_map d2 = to_map d \<and> (r' = DICT_OK \<longleftrightarrow> r = 1)"
  using replace [OF assms(1,2), of k v] delete [of d1 k] assms(3-5)
  by (auto simp: DICT_OK_def DICT_ERR_def split: if_splits)

end

interpretation dict_table: kv_table dict_ok "\<lambda>ht. ht_used ht < 2 ^ 30" dict_map "\<lambda>ht. dup_val (ht_type ht)"
    "\<lambda>ht k. map_option (map_option de_val) (dictFind ht k)" "dictReplace M" dictDelete for M
proof (unfold_locales, goal_cases)
  case (1 d k)
  then show ?case using dictFind_spec [of d k] by auto
next
  case (2 d k v)
  then show ?case
    by (rule_tac dictReplace_spec [of d M k v]) (auto simp: same_dict_def dest: dict_map_mset [of d])
next
  case (3 d k)
  then show ?case by (rule_tac dictDelete_spec [of d k]) auto
qed

section \<open>Histories\<close>

text \<open>The tables that arise from a new one by insertions and deletions, each under its own allocator.\<close>

inductive dict_run :: "('k, 'v) dictType \<Rightarrow> ('k, 'v) dict \<Rightarrow> bool" for ty where
  create: "dictCreate M ty = Some ht \<Longrightarrow> dict_run ty ht"
| add: "dict_run ty ht \<Longrightarrow> ht_used ht < 2 ^ 30 \<Longrightarrow> dictAdd M ht key v = Some (rc, ht') \<Longrightarrow> dict_run ty ht'"
| replace: "dict_run ty ht \<Longrightarrow> ht_used ht < 2 ^ 30 \<Longrightarrow> dictReplace M ht key v = Some (rc, ht') \<Longrightarrow> dict_run ty ht'"
| delete: "dict_run ty ht \<Longrightarrow> dictDelete ht key = Some (rc, ht') \<Longrightarrow> dict_run ty ht'"

lemma dictInit_ok: "type_ok ty \<Longrightarrow> dict_ok (dictInit ty)"
  by (simp add: dictInit_def dict_ok_def dict_shape_def placed_def entries_def)

lemma dict_run_ok:
  assumes "dict_run ty ht" and "type_ok ty" shows "dict_ok ht"
  using assms
proof (induction rule: dict_run.induct)
  case (create M ht)
  then show ?case by (auto simp: dictCreate_def dictInit_ok split: if_splits)
next
  case (add ht M key v rc ht')
  from dictAdd_spec [of ht M key v] add show ?case by (auto simp: same_dict_def)
next
  case (replace ht M key v rc ht')
  from dict_table.replace [of ht M key v] replace show ?case by auto
next
  case (delete ht key rc ht')
  from dict_table.delete [of ht key] delete show ?case by auto
qed

section \<open>Properties\<close>

text \<open>A table of the kind the asynchronous interface uses: byte strings as keys.\<close>

definition bytes_type :: "(bytes, nat) dictType" where
  "bytes_type = \<lparr>dt_hashFunction = (\<lambda>k. unat (dictGenHashFunction k)), dt_keyDup = None, dt_valDup = None,
     dt_keyCompare = Some (=), dt_keyDestructor = True, dt_valDestructor = True\<rparr>"

lemma bytes_type_ok: "type_ok bytes_type"
  by (simp add: type_ok_def bytes_type_def dictCompareHashKeys_def dup_key_def)

text \<open>C24: The invariant of the hash table: whatever sequence of insertions, replacements and deletions
  is made from its creation, whatever allocations fail on the way, and however keys collide, the
  size is 0 or a power of two with the matching mask, every entry is in the chain of its hash,
  keys are distinct and \<open>used\<close> counts the entries.\<close>

theorem dict_run_invariant:
  assumes "dict_run ty ht" and "type_ok ty"
  shows "dict_ok ht"
  using assms by (rule dict_run_ok)

theorem dict_run_invariant_witness:
  "\<exists>ht. dictReplace mem_ok (dictInit bytes_type) ''k'' 7 = Some (1, ht) \<and> dict_ok ht"
proof -
  have "dictCreate mem_ok bytes_type = Some (dictInit bytes_type)" by (simp add: dictCreate_def)
  then have run: "dict_run bytes_type (dictInit bytes_type)" by (rule create)
  obtain ht where ht: "dictReplace mem_ok (dictInit bytes_type) ''k'' 7 = Some (1, ht)"
    using dictReplace_spec [OF dictInit_ok [OF bytes_type_ok], of mem_ok "''k''" 7]
    by (auto simp: dictInit_def dict_map_def entries_def)
  have "ht_used (dictInit bytes_type) < 2 ^ 30" by (simp add: dictInit_def)
  from dict_run_invariant [OF replace [OF run this ht] bytes_type_ok] ht show ?thesis by blast
qed

text \<open>C25: The hash table is a map: \<open>dictReplace\<close> maps the key to (a copy of) the value and returns 1 for a
  new key and 0 for an old one, across every growth of the table; only when an allocation fails
  may a new key be dropped, with result 0 and the map unchanged. Lookups then find exactly the
  entries of the map.\<close>

theorem dictReplace_refines:
  assumes "dict_ok ht" and "ht_used ht < 2 ^ 30"
  shows "\<exists>rc ht'. dictReplace M ht key v = Some (rc, ht') \<and> dict_ok ht'
    \<and> (rc = (if dict_map ht key = None then 1 else 0) \<and> dict_map ht' = (dict_map ht)(key \<mapsto> dup_val (ht_type ht) v)
      \<or> rc = 0 \<and> dict_map ht key = None \<and> dict_map ht' = dict_map ht \<and> \<not> (\<forall>n. granted M n))
    \<and> (\<forall>k. map_option (map_option de_val) (dictFind ht' k) = Some (dict_map ht' k))"
proof -
  have "\<exists>rc ht'. dictReplace M ht key v = Some (rc, ht') \<and> dict_ok ht'
    \<and> (rc = (if dict_map ht key = None then 1 else 0) \<and> dict_map ht' = (dict_map ht)(key \<mapsto> dup_val (ht_type ht) v)
      \<or> rc = 0 \<and> dict_map ht key = None \<and> dict_map ht' = dict_map ht \<and> \<not> (\<forall>n. granted M n))"
    using assms by (rule dictReplace_spec [of ht M key v])
      (auto simp: same_dict_def dict_map_mset [OF assms(1)])
  moreover have "map_option (map_option de_val) (dictFind d k) = Some (dict_map d k)" if "dict_ok d" for d :: "('a, 'b) dict" and k
    using that by (rule dict_table.look)
  ultimately show ?thesis by blast
qed

theorem dictReplace_refines_witness:
  "\<exists>ht ht'. dictReplace mem_ok (dictInit bytes_type) ''k'' 7 = Some (1, ht)
    \<and> dictReplace mem_ok ht ''k'' 8 = Some (0, ht') \<and> dict_map ht' ''k'' = Some 8"
proof -
  have d: "dup_val bytes_type = (\<lambda>v. v)" by (simp add: dup_val_def bytes_type_def fun_eq_iff)
  have m: "dict_map (dictInit bytes_type) = Map.empty" by (simp add: dictInit_def dict_map_def entries_def)
  have g: "\<forall>n. granted mem_ok n" by simp
  obtain ht where ht: "dictReplace mem_ok (dictInit bytes_type) ''k'' 7 = Some (1, ht)" "dict_ok ht"
    "dict_map ht = [''k'' \<mapsto> 7]"
    using dictReplace_refines [OF dictInit_ok [OF bytes_type_ok], of mem_ok "''k''" 7] g m d
    by (auto simp: dictInit_def)
  have ty: "ht_type ht = bytes_type"
    using ht(1) dictReplace_spec [OF dictInit_ok [OF bytes_type_ok], of mem_ok "''k''" 7]
    by (auto simp: dictInit_def)
  have "length (entries ht) = card (dom (dict_map ht))"
    using distinct_card [OF dict_okD(4) [OF ht(2)]]
    by (simp add: dict_map_def dom_map_of_conv_image_fst entry_pair_def image_image)
  then have "ht_used ht < 2 ^ 30" using dict_okD(5) [OF ht(2)] ht(3) by simp
  from dictReplace_refines [OF ht(2) this, of mem_ok "''k''" 8] g ht d ty show ?thesis by auto
qed

text \<open>C26: \<open>dictDelete\<close> removes exactly the given key: it succeeds if and only if the key was present,
  afterwards a lookup of the key finds nothing and every other lookup is unchanged; the key and
  the value are given to their destructors.\<close>

theorem dictDelete_dictFind:
  assumes "dict_ok ht"
  shows "\<exists>rc ht'. dictDelete ht key = Some (rc, ht') \<and> dict_ok ht' \<and> dictFind ht' key = Some None
    \<and> (\<forall>k. k \<noteq> key \<longrightarrow> map_option (map_option de_val) (dictFind ht' k) = map_option (map_option de_val) (dictFind ht k))
    \<and> (case dict_map ht key of
         None \<Rightarrow> rc = DICT_ERR \<and> ht_freed ht' = ht_freed ht
       | Some v \<Rightarrow> rc = DICT_OK \<and> ht_freed ht' = ht_freed ht @ destroyed (ht_type ht) \<lparr>de_key = key, de_val = v\<rparr>)"
  using assms
proof (rule dictDelete_spec [of ht key])
  assume "dictDelete ht key = Some (DICT_ERR, ht)" and "dict_map ht key = None"
  with assms dictFind_spec [OF assms, of key] show ?thesis by auto
next
  fix ht' v assume d: "dictDelete ht key = Some (DICT_OK, ht')" "dict_map ht key = Some v" "dict_ok ht'"
    "dict_map ht' = (dict_map ht)(key := None)"
    "ht_freed ht' = ht_freed ht @ destroyed (ht_type ht) \<lparr>de_key = key, de_val = v\<rparr>"
  with dictFind_spec [OF d(3), of key] have "dictFind ht' key = Some None" by simp
  moreover have "\<forall>k. k \<noteq> key \<longrightarrow> map_option (map_option de_val) (dictFind ht' k) = map_option (map_option de_val) (dictFind ht k)"
    using d(4) by (simp add: dict_table.look [OF assms] dict_table.look [OF d(3)])
  ultimately show ?thesis using d by simp
qed

theorem dictDelete_dictFind_witness:
  "\<exists>rc ht'. dictDelete (dictInit bytes_type) ''k'' = Some (rc, ht') \<and> dictFind ht' ''k'' = Some None"
  using dictDelete_dictFind [OF dictInit_ok [OF bytes_type_ok], of "''k''"] by blast

text \<open>C27: Iteration terminates and sees every entry of the table exactly once: a client that calls
  \<open>dictNext\<close> until it returns NULL gets, after \<open>used\<close> entries, a list of entries with distinct keys
  that holds exactly the pairs of the map.\<close>

theorem dict_iteration:
  assumes "dict_ok ht" and "granted M 32"
  shows "\<exists>it es. dictGetIterator M = Some it \<and> drain (ht_used ht + 1) ht it = Some es
    \<and> length es = ht_used ht \<and> distinct (map de_key es)
    \<and> (\<forall>k v. dict_map ht k = Some v \<longleftrightarrow> (\<exists>e \<in> set es. de_key e = k \<and> de_val e = v))"
proof -
  let ?it = "\<lparr>it_index = -1, it_entry = [], it_nextEntry = []\<rparr> :: ('a, 'b) dictIterator"
  have len: "length (ht_table ht) = ht_size ht \<and> ht_size ht < 2 ^ 31"
  proof (cases "ht_size ht = 0")
    case False
    then obtain k where k: "k \<le> 30" "ht_size ht = 2 ^ k" "length (ht_table ht) = 2 ^ k"
      using shapeE [OF dict_okD(2) [OF assms(1)]] by metis
    have "(2::nat) ^ k < 2 ^ 31" by (rule power_strict_increasing) (use k in simp_all)
    with k show ?thesis by simp
  qed (use dict_okD(2) [OF assms(1)] in \<open>simp add: dict_shape_def\<close>)
  have it: "iter_ok ht ?it" "remaining ht ?it = entries ht" by (simp_all add: iter_ok_def remaining_def entries_def)
  have "drain (ht_used ht + 1) ht ?it = Some (entries ht)"
    using drain_remaining [of ht ?it "ht_used ht + 1"] len it dict_okD(5) [OF assms(1)] by simp
  with assms dict_okD [OF assms(1)] dict_map_Some [OF assms(1)] show ?thesis
    by (intro exI [of _ ?it] exI [of _ "entries ht"]) (simp add: dictGetIterator_def)
qed

theorem dict_iteration_witness:
  "\<exists>ht it es. dictReplace mem_ok (dictInit bytes_type) ''k'' 7 = Some (1, ht) \<and> dictGetIterator mem_ok = Some it
    \<and> drain (ht_used ht + 1) ht it = Some es \<and> length es = ht_used ht"
proof -
  obtain ht where ht: "dictReplace mem_ok (dictInit bytes_type) ''k'' 7 = Some (1, ht)" "dict_ok ht"
    using dictReplace_spec [OF dictInit_ok [OF bytes_type_ok], of mem_ok "''k''" 7]
    by (auto simp: dictInit_def dict_map_def entries_def)
  with dict_iteration [OF ht(2), of mem_ok] show ?thesis by auto
qed

text \<open>Releasing a table gives every remaining key and value to its destructor exactly once, in the
  order of the buckets, and calls no destructor for anything else.\<close>

theorem dictRelease_destroys:
  assumes "dict_ok ht"
  shows "dictRelease ht = ht_freed ht @ concat (map (destroyed (ht_type ht)) (entries ht))"
  using clear_loop_spec [of ht "ht_table ht"] dict_okD(5,6) [OF assms]
  by (simp add: dictRelease_def dictClear_def dictReset_def entries_def)

theorem dictRelease_destroys_witness:
  "\<exists>ht. dictReplace mem_ok (dictInit bytes_type) ''k'' 7 = Some (1, ht)
    \<and> dictRelease ht = concat (map (destroyed bytes_type) (entries ht))"
proof -
  obtain ht where ht: "dictReplace mem_ok (dictInit bytes_type) ''k'' 7 = Some (1, ht)" "dict_ok ht"
    "ht_freed ht = []" "ht_type ht = bytes_type"
    using dictReplace_spec [OF dictInit_ok [OF bytes_type_ok], of mem_ok "''k''" 7]
    by (auto simp: dictInit_def dict_map_def entries_def)
  with dictRelease_destroys [OF ht(2)] show ?thesis by simp
qed

end
