(* ===== verification/Net.thy ===== *)
theory Net
  imports Reader "HOL-Library.Signed_Division"
begin

text \<open>
  Sockets and connection set-up of \<open>src/src/hiredis/net.c\<close>, with the connection state of
  \<open>hiredis.h\<close>. The operating system is an environment: an oracle gives the result of the \<open>n\<close>-th
  system call, and the calls made so far are kept with their results. The texts of \<open>strerror\<close> and
  \<open>gai_strerror\<close> are parameters.
\<close>

unbundle bit_operations_syntax

section \<open>The operating system\<close>

datatype errno = EWOULDBLOCK | EINTR | ETIMEDOUT | EINPROGRESS | EHOSTUNREACH | EADDRNOTAVAIL
  | EISCONN | EALREADY | EOTHER nat

record timeval =
  tv_sec :: int
  tv_usec :: int

record addrinfo =
  ai_family :: int
  ai_addr :: bytes

definition AF_UNIX :: int where "AF_UNIX = 1"
definition AF_INET :: int where "AF_INET = 2"
definition AF_INET6 :: int where "AF_INET6 = 10"
definition O_NONBLOCK :: "32 word" where "O_NONBLOCK = 0x800"

datatype sockopt = SO_REUSEADDR | SO_KEEPALIVE | TCP_KEEPIDLE int | TCP_KEEPINTVL int | TCP_KEEPCNT int
  | TCP_NODELAY | SO_RCVTIMEO timeval | SO_SNDTIMEO timeval

datatype syscall = SysSocket int | SysClose int | SysConnect int bytes | SysGetfl int | SysSetfl int "32 word"
  | SysSetsockopt int sockopt | SysGetsockopt int | SysPoll int int | SysBind int bytes
  | SysGetaddrinfo "bytes option" bytes int | SysRecv int nat | SysSend int bytes

text \<open>A result: the value returned, the \<open>errno\<close> of a failed call, the bytes received, the addresses
  found, and the pending error of \<open>getsockopt(SO_ERROR)\<close>.\<close>

record sysret =
  sr_val :: int
  sr_errno :: errno
  sr_data :: bytes
  sr_addrs :: "addrinfo list"
  sr_soerr :: "errno option"

text \<open>\<open>os_errno\<close> is the variable \<open>errno\<close> (\<open>None\<close> is 0).\<close>

record os =
  os_oracle :: "nat \<Rightarrow> sysret"
  os_trace :: "(syscall \<times> sysret) list"
  os_errno :: "errno option"

definition sys :: "syscall \<Rightarrow> os \<Rightarrow> sysret \<times> os" where
  "sys k w = (let r = os_oracle w (length (os_trace w))
     in (r, w\<lparr>os_trace := os_trace w @ [(k, r)],
              os_errno := (if sr_val r = -1 then Some (sr_errno r) else os_errno w)\<rparr>))"

record libc =
  lc_strerror :: "errno option \<Rightarrow> bytes"
  lc_gai_strerror :: "int \<Rightarrow> bytes"
  lc_strtod :: strtod_fn

section \<open>The connection state\<close>

definition REDIS_BLOCK :: "32 word" where "REDIS_BLOCK = 0x1"
definition REDIS_CONNECTED :: "32 word" where "REDIS_CONNECTED = 0x2"
definition REDIS_DISCONNECTING :: "32 word" where "REDIS_DISCONNECTING = 0x4"
definition REDIS_FREEING :: "32 word" where "REDIS_FREEING = 0x8"
definition REDIS_IN_CALLBACK :: "32 word" where "REDIS_IN_CALLBACK = 0x10"
definition REDIS_SUBSCRIBED :: "32 word" where "REDIS_SUBSCRIBED = 0x20"
definition REDIS_MONITORING :: "32 word" where "REDIS_MONITORING = 0x40"
definition REDIS_REUSEADDR :: "32 word" where "REDIS_REUSEADDR = 0x80"
definition REDIS_NO_AUTO_FREE :: "32 word" where "REDIS_NO_AUTO_FREE = 0x200"
definition REDIS_KEEPALIVE_INTERVAL :: int where "REDIS_KEEPALIVE_INTERVAL = 15"
definition REDIS_CONNECT_RETRIES :: nat where "REDIS_CONNECT_RETRIES = 10"
definition REDIS_INVALID_FD :: int where "REDIS_INVALID_FD = -1"

datatype redisConnectionType = REDIS_CONN_TCP | REDIS_CONN_UNIX | REDIS_CONN_USERFD

text \<open>\<open>rc_errstr\<close> is the C string in \<open>errstr\<close>; a push handler acts on the heap of replies.\<close>

type_synonym push_fn = "heap \<Rightarrow> ptr \<Rightarrow> heap option"

record redisContext =
  rc_err :: int
  rc_errstr :: bytes
  rc_fd :: int
  rc_flags :: "32 word"
  rc_obuf :: "sds option"
  rc_reader :: "heap redisReader option"
  rc_connection_type :: redisConnectionType
  rc_connect_timeout :: "timeval option"
  rc_command_timeout :: "timeval option"
  rc_host :: "bytes option"
  rc_source_addr :: "bytes option"
  rc_port :: int
  rc_path :: "bytes option"
  rc_saddr :: "bytes option"
  rc_push_cb :: "push_fn option"

definition has_flag :: "redisContext \<Rightarrow> 32 word \<Rightarrow> bool" where
  "has_flag c f \<longleftrightarrow> rc_flags c AND f \<noteq> 0"

type_synonym cstate = "redisContext \<times> os"

text \<open>\<open>__redisSetError\<close> with a description, and with NULL, which only \<open>REDIS_ERR_IO\<close> may have.\<close>

definition redisSetError :: "redisContext \<Rightarrow> int \<Rightarrow> bytes \<Rightarrow> redisContext" where
  "redisSetError c type str = c\<lparr>rc_err := type, rc_errstr := take 127 (cstr str)\<rparr>"

definition redisSetErrorIO :: "libc \<Rightarrow> cstate \<Rightarrow> redisContext" where
  "redisSetErrorIO L = (\<lambda>(c, w). c\<lparr>rc_err := REDIS_ERR_IO, rc_errstr := take 127 (cstr (lc_strerror L (os_errno w)))\<rparr>)"

section \<open>Reading and writing\<close>

definition redisNetClose :: "cstate \<Rightarrow> cstate" where
  "redisNetClose = (\<lambda>(c, w).
     if rc_fd c \<noteq> REDIS_INVALID_FD then (c\<lparr>rc_fd := REDIS_INVALID_FD\<rparr>, snd (sys (SysClose (rc_fd c)) w)) else (c, w))"

text \<open>\<open>recv\<close> returns at most \<open>bufcap\<close> bytes. The bytes stored are returned with the count.\<close>

definition redisNetRead :: "libc \<Rightarrow> nat \<Rightarrow> cstate \<Rightarrow> int \<times> bytes \<times> cstate" where
  "redisNetRead L bufcap = (\<lambda>(c, w).
     let (r, w) = sys (SysRecv (rc_fd c) bufcap) w; d = take bufcap (sr_data r)
     in if sr_val r = -1 then
          (if os_errno w = Some EWOULDBLOCK \<and> \<not> has_flag c REDIS_BLOCK \<or> os_errno w = Some EINTR then (0, [], c, w)
           else if os_errno w = Some ETIMEDOUT \<and> has_flag c REDIS_BLOCK
                then (-1, [], redisSetError c REDIS_ERR_TIMEOUT ''recv timeout'', w)
           else (-1, [], redisSetErrorIO L (c, w), w))
        else if d = [] then (-1, [], redisSetError c REDIS_ERR_EOF ''Server closed the connection'', w)
        else (int (length d), d, c, w))"

text \<open>\<open>send\<close> accepts at most the bytes it is given; \<open>None\<close> is an output buffer that is NULL.\<close>

definition redisNetWrite :: "libc \<Rightarrow> cstate \<Rightarrow> (int \<times> cstate) option" where
  "redisNetWrite L = (\<lambda>(c, w).
     case rc_obuf c of
       None \<Rightarrow> None
     | Some b \<Rightarrow>
         let (r, w) = sys (SysSend (rc_fd c) (take (sdslen b) (sds_buf b))) w;
             nwritten = (if sr_val r < 0 then -1 else min (sr_val r) (int (sdslen b)))
         in if nwritten < 0 then
              (if os_errno w = Some EWOULDBLOCK \<and> \<not> has_flag c REDIS_BLOCK \<or> os_errno w = Some EINTR
               then Some (nwritten, c, w)
               else Some (-1, redisSetErrorIO L (c, w), w))
            else Some (nwritten, c, w))"

section \<open>Socket options\<close>

definition redisSetErrorFromErrno :: "libc \<Rightarrow> int \<Rightarrow> bytes option \<Rightarrow> cstate \<Rightarrow> cstate" where
  "redisSetErrorFromErrno L type prefix = (\<lambda>(c, w).
     let pre = (case prefix of None \<Rightarrow> [] | Some p \<Rightarrow> take 127 (p @ '': ''))
     in (redisSetError c type (pre @ take (127 - length pre) (cstr (lc_strerror L (os_errno w)))), w))"

definition redisSetReuseAddr :: "libc \<Rightarrow> cstate \<Rightarrow> int \<times> cstate" where
  "redisSetReuseAddr L = (\<lambda>(c, w).
     let (r, w) = sys (SysSetsockopt (rc_fd c) SO_REUSEADDR) w
     in if sr_val r = -1 then (REDIS_ERR, redisNetClose (redisSetErrorFromErrno L REDIS_ERR_IO None (c, w)))
        else (REDIS_OK, c, w))"

definition redisCreateSocket :: "libc \<Rightarrow> int \<Rightarrow> cstate \<Rightarrow> int \<times> cstate" where
  "redisCreateSocket L type = (\<lambda>(c, w).
     let (r, w) = sys (SysSocket type) w
     in if sr_val r = REDIS_INVALID_FD then (REDIS_ERR, redisSetErrorFromErrno L REDIS_ERR_IO None (c, w))
        else let c = c\<lparr>rc_fd := sr_val r\<rparr>
             in if type = AF_INET then
                  (let (rc, s) = redisSetReuseAddr L (c, w)
                   in if rc = REDIS_ERR then (REDIS_ERR, s) else (REDIS_OK, s))
                else (REDIS_OK, c, w))"

definition redisSetBlocking :: "libc \<Rightarrow> bool \<Rightarrow> cstate \<Rightarrow> int \<times> cstate" where
  "redisSetBlocking L blocking = (\<lambda>(c, w).
     let (r, w) = sys (SysGetfl (rc_fd c)) w
     in if sr_val r = -1
        then (REDIS_ERR, redisNetClose (redisSetErrorFromErrno L REDIS_ERR_IO (Some ''fcntl(F_GETFL)'') (c, w)))
        else
          let flags = (if blocking then word_of_int (sr_val r) AND NOT O_NONBLOCK
                       else word_of_int (sr_val r) OR O_NONBLOCK);
              (r, w) = sys (SysSetfl (rc_fd c) flags) w
          in if sr_val r = -1
             then (REDIS_ERR, redisNetClose (redisSetErrorFromErrno L REDIS_ERR_IO (Some ''fcntl(F_SETFL)'') (c, w)))
             else (REDIS_OK, c, w))"

text \<open>The options of \<open>redisKeepAlive\<close> are set one after another until one fails.\<close>

fun set_options :: "libc \<Rightarrow> sockopt list \<Rightarrow> cstate \<Rightarrow> int \<times> cstate" where
  "set_options L [] s = (REDIS_OK, s)"
| "set_options L (opt # opts) (c, w) =
     (let (r, w) = sys (SysSetsockopt (rc_fd c) opt) w
      in if sr_val r < 0 then (REDIS_ERR, redisSetError c REDIS_ERR_OTHER (lc_strerror L (os_errno w)), w)
         else set_options L opts (c, w))"

definition redisKeepAlive :: "libc \<Rightarrow> int \<Rightarrow> cstate \<Rightarrow> int \<times> cstate" where
  "redisKeepAlive L interval =
     (let intvl = (if interval sdiv 3 = 0 then 1 else interval sdiv 3)
      in set_options L [SO_KEEPALIVE, TCP_KEEPIDLE interval, TCP_KEEPINTVL intvl, TCP_KEEPCNT 3])"

definition redisSetTcpNoDelay :: "libc \<Rightarrow> cstate \<Rightarrow> int \<times> cstate" where
  "redisSetTcpNoDelay L = (\<lambda>(c, w).
     let (r, w) = sys (SysSetsockopt (rc_fd c) TCP_NODELAY) w
     in if sr_val r = -1
        then (REDIS_ERR, redisNetClose (redisSetErrorFromErrno L REDIS_ERR_IO (Some ''setsockopt(TCP_NODELAY)'') (c, w)))
        else (REDIS_OK, c, w))"

section \<open>Timeouts\<close>

definition MAX_MSEC :: int where "MAX_MSEC = (2 ^ 63 - 1 - 999) div 1000"

definition redisContextTimeoutMsec :: "redisContext \<Rightarrow> int \<times> int" where
  "redisContextTimeoutMsec c =
     (case rc_connect_timeout c of
        None \<Rightarrow> (REDIS_OK, -1)
      | Some t \<Rightarrow>
          if 1000000 < tv_usec t \<or> MAX_MSEC < tv_sec t then (REDIS_ERR, -1)
          else
            let msec = sbits 64 (sbits 64 (tv_sec t * 1000) + sbits 64 (tv_usec t + 999) sdiv 1000)
            in (REDIS_OK, if msec < 0 \<or> INT_MAX < msec then INT_MAX else msec))"

definition redisContextSetTimeout :: "libc \<Rightarrow> timeval \<Rightarrow> cstate \<Rightarrow> int \<times> cstate" where
  "redisContextSetTimeout L tv = (\<lambda>(c, w).
     let (r, w) = sys (SysSetsockopt (rc_fd c) (SO_RCVTIMEO tv)) w
     in if sr_val r = -1
        then (REDIS_ERR, redisSetErrorFromErrno L REDIS_ERR_IO (Some ''setsockopt(SO_RCVTIMEO)'') (c, w))
        else
          let (r, w) = sys (SysSetsockopt (rc_fd c) (SO_SNDTIMEO tv)) w
          in if sr_val r = -1
             then (REDIS_ERR, redisSetErrorFromErrno L REDIS_ERR_IO (Some ''setsockopt(SO_SNDTIMEO)'') (c, w))
             else (REDIS_OK, c, w))"

text \<open>Two equal pointers leave the context alone, which is the same as copying equal values; a NULL
  argument is only equal to a NULL field (\<open>None\<close>: NULL is read otherwise).\<close>

definition redisContextUpdateConnectTimeout ::
  "mem \<Rightarrow> timeval option \<Rightarrow> redisContext \<Rightarrow> (int \<times> redisContext) option" where
  "redisContextUpdateConnectTimeout M timeout c =
     (case timeout of
        None \<Rightarrow> (case rc_connect_timeout c of
            None \<Rightarrow> Some (REDIS_OK, c)
          | Some _ \<Rightarrow> None)
      | Some t \<Rightarrow>
          if rc_connect_timeout c = None \<and> \<not> granted M 16 then Some (REDIS_ERR, c)
          else Some (REDIS_OK, c\<lparr>rc_connect_timeout := Some t\<rparr>))"

definition redisContextUpdateCommandTimeout ::
  "mem \<Rightarrow> timeval option \<Rightarrow> redisContext \<Rightarrow> (int \<times> redisContext) option" where
  "redisContextUpdateCommandTimeout M timeout c =
     (case timeout of
        None \<Rightarrow> (case rc_command_timeout c of
            None \<Rightarrow> Some (REDIS_OK, c)
          | Some _ \<Rightarrow> None)
      | Some t \<Rightarrow>
          if rc_command_timeout c = None \<and> \<not> granted M 16 then Some (REDIS_ERR, c)
          else Some (REDIS_OK, c\<lparr>rc_command_timeout := Some t\<rparr>))"

section \<open>Connecting\<close>

definition redisCheckConnectDone :: "cstate \<Rightarrow> int \<times> bool \<times> cstate" where
  "redisCheckConnectDone = (\<lambda>(c, w).
     let (r, w) = sys (SysConnect (rc_fd c) (case rc_saddr c of None \<Rightarrow> [] | Some a \<Rightarrow> a)) w
     in if sr_val r = 0 then (REDIS_OK, True, c, w)
        else (case os_errno w of
                Some EISCONN \<Rightarrow> (REDIS_OK, True, c, w)
              | Some EALREADY \<Rightarrow> (REDIS_OK, False, c, w)
              | Some EINPROGRESS \<Rightarrow> (REDIS_OK, False, c, w)
              | Some EWOULDBLOCK \<Rightarrow> (REDIS_OK, False, c, w)
              | _ \<Rightarrow> (REDIS_ERR, False, c, w)))"

definition redisCheckSocketError :: "libc \<Rightarrow> cstate \<Rightarrow> int \<times> cstate" where
  "redisCheckSocketError L = (\<lambda>(c, w).
     let errno_saved = os_errno w; (r, w) = sys (SysGetsockopt (rc_fd c)) w
     in if sr_val r = -1
        then (REDIS_ERR, redisSetErrorFromErrno L REDIS_ERR_IO (Some ''getsockopt(SO_ERROR)'') (c, w))
        else
          let err = (if sr_soerr r = None then errno_saved else sr_soerr r)
          in if err \<noteq> None then (REDIS_ERR, redisSetErrorFromErrno L REDIS_ERR_IO None (c, w\<lparr>os_errno := err\<rparr>))
             else (REDIS_OK, c, w))"

definition redisContextWaitReady :: "libc \<Rightarrow> int \<Rightarrow> cstate \<Rightarrow> int \<times> cstate" where
  "redisContextWaitReady L msec = (\<lambda>(c, w).
     if os_errno w = Some EINPROGRESS then
       (let (r, w) = sys (SysPoll (rc_fd c) (sbits 32 msec)) w
        in if sr_val r = -1
           then (REDIS_ERR, redisNetClose (redisSetErrorFromErrno L REDIS_ERR_IO (Some ''poll(2)'') (c, w)))
           else if sr_val r = 0
           then (REDIS_ERR, redisNetClose (redisSetErrorFromErrno L REDIS_ERR_IO None (c, w\<lparr>os_errno := Some ETIMEDOUT\<rparr>)))
           else
             let (rc, completed, s) = redisCheckConnectDone (c, w)
             in if rc \<noteq> REDIS_OK \<or> \<not> completed then (REDIS_ERR, snd (redisCheckSocketError L s))
                else (REDIS_OK, s))
     else (REDIS_ERR, redisNetClose (redisSetErrorFromErrno L REDIS_ERR_IO None (c, w))))"

text \<open>The source address: look it up, allow its reuse if asked to, bind the first address that works.\<close>

fun bind_loop :: "int \<Rightarrow> addrinfo list \<Rightarrow> os \<Rightarrow> bool \<times> os" where
  "bind_loop s [] w = (False, w)"
| "bind_loop s (b # bs) w =
     (let (r, w) = sys (SysBind s (ai_addr b)) w
      in if sr_val r \<noteq> -1 then (True, w) else bind_loop s bs w)"

definition bind_source :: "libc \<Rightarrow> bool \<Rightarrow> int \<Rightarrow> bytes \<Rightarrow> cstate \<Rightarrow> bool \<times> cstate" where
  "bind_source L reuseaddr family source_addr = (\<lambda>(c, w).
     let (r, w) = sys (SysGetaddrinfo (Some source_addr) [] family) w
     in if sr_val r \<noteq> 0
        then (False, redisSetError c REDIS_ERR_OTHER (take 127 (''Can't get addr: '' @ lc_gai_strerror L (sr_val r))), w)
        else
          let (n, w) = (if reuseaddr then sys (SysSetsockopt (rc_fd c) SO_REUSEADDR) w else (r, w))
          in if reuseaddr \<and> sr_val n < 0 then (False, c, w)
             else
               let (bound, w) = bind_loop (rc_fd c) (sr_addrs r) w
               in if bound then (True, c, w)
                  else (False, redisSetError c REDIS_ERR_OTHER
                          (take 127 (''Can't bind socket: '' @ lc_strerror L (os_errno w))), w))"

text \<open>
  The loop over the addresses of the server. The jump \<open>addrretry\<close> takes the same address again; the
  label \<open>wait_for_ready\<close> is \<open>conn_wait\<close>; the exits of the loop are the labels \<open>end\<close>, \<open>error\<close> and \<open>oom\<close>, and
  running out of addresses.
\<close>

datatype conn_end = ConnEnd | ConnError | ConnOom | ConnNoAddr

definition conn_done :: "libc \<Rightarrow> bool \<Rightarrow> cstate \<Rightarrow> conn_end \<times> cstate" where
  "conn_done L blocking s =
     (let (rc, c, w) = (if blocking then redisSetBlocking L True s else (REDIS_OK, s))
      in if rc \<noteq> REDIS_OK then (ConnError, c, w)
         else (ConnEnd, c\<lparr>rc_flags := rc_flags c OR REDIS_CONNECTED\<rparr>, w))"

definition conn_wait :: "libc \<Rightarrow> bool \<Rightarrow> int \<Rightarrow> cstate \<Rightarrow> conn_end \<times> cstate" where
  "conn_wait L blocking timeout_msec s =
     (let (rc, s) = redisContextWaitReady L timeout_msec s
      in if rc \<noteq> REDIS_OK then (ConnError, s)
         else let (rc, s) = redisSetTcpNoDelay L s
              in if rc \<noteq> REDIS_OK then (ConnError, s) else conn_done L blocking s)"

text \<open>What one address leads to: an exit, the next address, or another try.\<close>

datatype conn_step = Exit conn_end | NextAddr | Retry

definition conn_try ::
  "libc \<Rightarrow> bool \<Rightarrow> bool \<Rightarrow> int \<Rightarrow> nat \<Rightarrow> addrinfo \<Rightarrow> cstate \<Rightarrow> conn_step \<times> cstate" where
  "conn_try L blocking reuseaddr timeout_msec reuses p = (\<lambda>(c, w).
     let (r, w) = sys (SysConnect (rc_fd c) (ai_addr p)) w
     in if sr_val r \<noteq> -1 then (let (e, s) = conn_done L blocking (c, w) in (Exit e, s))
        else if os_errno w = Some EHOSTUNREACH then (NextAddr, redisNetClose (c, w))
        else if os_errno w = Some EINPROGRESS \<and> \<not> blocking
        then (let (e, s) = conn_done L blocking (c, w) in (Exit e, s))
        else if os_errno w = Some EADDRNOTAVAIL \<and> reuseaddr then
          (if REDIS_CONNECT_RETRIES \<le> reuses + 1 then (Exit ConnError, c, w)
           else (Retry, redisNetClose (c, w)))
        else (let (e, s) = conn_wait L blocking timeout_msec (c, w) in (Exit e, s)))"

definition conn_addr ::
  "libc \<Rightarrow> mem \<Rightarrow> bool \<Rightarrow> bool \<Rightarrow> int \<Rightarrow> int \<Rightarrow> nat \<Rightarrow> addrinfo \<Rightarrow> cstate \<Rightarrow> conn_step \<times> cstate" where
  "conn_addr L M blocking reuseaddr family timeout_msec reuses p = (\<lambda>(c, w).
     let (r, w) = sys (SysSocket (ai_family p)) w
     in if sr_val r = REDIS_INVALID_FD then (NextAddr, c, w)
        else
          let (rc, c, w) = redisSetBlocking L False (c\<lparr>rc_fd := sr_val r\<rparr>, w)
          in if rc \<noteq> REDIS_OK then (Exit ConnError, c, w)
             else
               let (ok, c, w) = (case rc_source_addr c of
                                   None \<Rightarrow> (True, c, w)
                                 | Some a \<Rightarrow> bind_source L reuseaddr family a (c, w))
               in if \<not> ok then (Exit ConnError, c, w)
                  else if \<not> granted M (length (ai_addr p)) then (Exit ConnOom, c\<lparr>rc_saddr := None\<rparr>, w)
                  else conn_try L blocking reuseaddr timeout_msec reuses p (c\<lparr>rc_saddr := Some (ai_addr p)\<rparr>, w))"

lemma conn_addr_retry:
  assumes "conn_addr L M blocking reuseaddr family msec reuses p s = (Retry, s')"
  shows "reuses + 1 < REDIS_CONNECT_RETRIES"
  using assms unfolding conn_addr_def conn_try_def Let_def
  by (auto split: prod.splits if_splits)

function conn_loop ::
  "libc \<Rightarrow> mem \<Rightarrow> bool \<Rightarrow> bool \<Rightarrow> int \<Rightarrow> int \<Rightarrow> nat \<Rightarrow> addrinfo list \<Rightarrow> cstate \<Rightarrow> conn_end \<times> cstate" where
  "conn_loop L M blocking reuseaddr family msec reuses [] s = (ConnNoAddr, s)"
| "conn_loop L M blocking reuseaddr family msec reuses (p # ps) s =
     (case conn_addr L M blocking reuseaddr family msec reuses p s of
        (Exit e, s) \<Rightarrow> (e, s)
      | (NextAddr, s) \<Rightarrow> conn_loop L M blocking reuseaddr family msec reuses ps s
      | (Retry, s) \<Rightarrow> conn_loop L M blocking reuseaddr family msec (reuses + 1) (p # ps) s)"
  by pat_completeness auto
termination
  by (relation "(\<lambda>(L, M, b, ra, f, ms, reuses, ps, s). length ps) <*mlex*>
      measure (\<lambda>(L, M, b, ra, f, ms, reuses, ps, s). REDIS_CONNECT_RETRIES - reuses)")
    (auto simp: mlex_prod_def dest!: conn_addr_retry [OF sym])

declare conn_loop.simps [simp del]

text \<open>
  \<open>own\<close> tells that the strings passed are the context's own (a reconnect), which are not copied.
  A source address that cannot be copied is dropped without an error. The port is printed into
  six bytes. A host that is NULL is passed to \<open>getaddrinfo\<close> as it is, which happens when a
  connection made from a descriptor reconnects.
\<close>

definition tcp_timeout :: "mem \<Rightarrow> timeval option \<Rightarrow> redisContext \<Rightarrow> (int \<times> redisContext) option" where
  "tcp_timeout M timeout c =
     (case timeout of
        Some t \<Rightarrow> redisContextUpdateConnectTimeout M timeout c
      | None \<Rightarrow> Some (REDIS_OK, c\<lparr>rc_connect_timeout := None\<rparr>))"

definition tcp_source :: "mem \<Rightarrow> bool \<Rightarrow> bytes option \<Rightarrow> redisContext \<Rightarrow> redisContext" where
  "tcp_source M own source_addr c =
     (case source_addr of
        None \<Rightarrow> c\<lparr>rc_source_addr := None\<rparr>
      | Some a \<Rightarrow>
          if own then c
          else c\<lparr>rc_source_addr := (if granted M (strlen a + 1) then Some (cstr a) else None)\<rparr>)"

definition tcp_resolve :: "bytes option \<Rightarrow> bytes \<Rightarrow> os \<Rightarrow> sysret \<times> int \<times> os" where
  "tcp_resolve host port w =
     (let (r, w) = sys (SysGetaddrinfo host port AF_INET) w
      in if sr_val r \<noteq> 0 then (let (r, w) = sys (SysGetaddrinfo host port AF_INET6) w in (r, AF_INET6, w))
         else (r, AF_INET, w))"

text \<open>The parameters taken into the context, up to the timeout in milliseconds: \<open>Inl\<close> is an error.\<close>

definition out_of_memory :: "redisContext \<Rightarrow> redisContext" where
  "out_of_memory c = redisSetError c REDIS_ERR_OOM ''Out of memory''"

definition tcp_prepare ::
  "mem \<Rightarrow> bool \<Rightarrow> bytes option \<Rightarrow> int \<Rightarrow> timeval option \<Rightarrow> bytes option \<Rightarrow> redisContext
    \<Rightarrow> (redisContext + redisContext \<times> int) option" where
  "tcp_prepare M own addr port timeout source_addr c =
     (let c = c\<lparr>rc_connection_type := REDIS_CONN_TCP, rc_port := port\<rparr>;
          c = (if own then c
               else c\<lparr>rc_host := (case addr of
                   None \<Rightarrow> None
                 | Some a \<Rightarrow> if granted M (strlen a + 1) then Some (cstr a) else None)\<rparr>)
      in if \<not> own \<and> rc_host c = None then Some (Inl (out_of_memory c))
         else
           (case tcp_timeout M timeout c of
              None \<Rightarrow> None
            | Some (rc, c) \<Rightarrow>
                if rc = REDIS_ERR then Some (Inl (out_of_memory c))
                else
                  let (rc, msec) = redisContextTimeoutMsec c
                  in if rc \<noteq> REDIS_OK then Some (Inl (redisSetError c REDIS_ERR_IO ''Invalid timeout specified''))
                     else Some (Inr (tcp_source M own source_addr c, msec))))"

definition tcp_run :: "libc \<Rightarrow> mem \<Rightarrow> int \<Rightarrow> cstate \<Rightarrow> int \<times> cstate" where
  "tcp_run L M msec = (\<lambda>(c, w).
     let (r, family, w) = tcp_resolve (rc_host c) (take 5 (dec_int (rc_port c))) w
     in if sr_val r \<noteq> 0 then (REDIS_ERR, redisSetError c REDIS_ERR_OTHER (lc_gai_strerror L (sr_val r)), w)
        else
          (case conn_loop L M (has_flag c REDIS_BLOCK) (has_flag c REDIS_REUSEADDR) family msec 0 (sr_addrs r) (c, w) of
             (ConnEnd, s) \<Rightarrow> (REDIS_OK, s)
           | (ConnError, s) \<Rightarrow> (REDIS_ERR, s)
           | (ConnOom, c, w) \<Rightarrow> (REDIS_ERR, out_of_memory c, w)
           | (ConnNoAddr, c, w) \<Rightarrow>
               (REDIS_ERR, redisSetError c REDIS_ERR_OTHER
                  (take 127 (''Can't create socket: '' @ lc_strerror L (os_errno w))), w)))"

definition redisContextConnectBindTcp ::
  "libc \<Rightarrow> mem \<Rightarrow> bool \<Rightarrow> bytes option \<Rightarrow> int \<Rightarrow> timeval option \<Rightarrow> bytes option \<Rightarrow> cstate \<Rightarrow> (int \<times> cstate) option" where
  "redisContextConnectBindTcp L M own addr port timeout source_addr = (\<lambda>(c, w).
     case tcp_prepare M own addr port timeout source_addr c of
       None \<Rightarrow> None
     | Some (Inl c) \<Rightarrow> Some (REDIS_ERR, c, w)
     | Some (Inr (c, msec)) \<Rightarrow> Some (tcp_run L M msec (c, w)))"

definition redisContextConnectTcp ::
  "libc \<Rightarrow> mem \<Rightarrow> bool \<Rightarrow> bytes option \<Rightarrow> int \<Rightarrow> timeval option \<Rightarrow> cstate \<Rightarrow> (int \<times> cstate) option" where
  "redisContextConnectTcp L M own addr port timeout = redisContextConnectBindTcp L M own addr port timeout None"

text \<open>The part after the socket has been made non-blocking; \<open>sun_path\<close> has 108 bytes.\<close>

definition unix_connect :: "libc \<Rightarrow> bool \<Rightarrow> int \<Rightarrow> cstate \<Rightarrow> int \<times> cstate" where
  "unix_connect L blocking msec = (\<lambda>(c, w).
     let (r, w) = sys (SysConnect (rc_fd c) (case rc_saddr c of None \<Rightarrow> [] | Some a \<Rightarrow> a)) w;
         (rc, s) = (if sr_val r = -1 \<and> \<not> (os_errno w = Some EINPROGRESS \<and> \<not> blocking)
                    then redisContextWaitReady L msec (c, w) else (REDIS_OK, c, w))
     in if rc \<noteq> REDIS_OK then (REDIS_ERR, s)
        else
          let (rc, c, w) = (if blocking then redisSetBlocking L True s else (REDIS_OK, s))
          in if rc \<noteq> REDIS_OK then (REDIS_ERR, c, w)
             else (REDIS_OK, c\<lparr>rc_flags := rc_flags c OR REDIS_CONNECTED\<rparr>, w))"

definition unix_prepare ::
  "mem \<Rightarrow> bool \<Rightarrow> bytes \<Rightarrow> timeval option \<Rightarrow> redisContext \<Rightarrow> (redisContext + redisContext \<times> int) option" where
  "unix_prepare M own path timeout c =
     (let c = c\<lparr>rc_connection_type := REDIS_CONN_UNIX\<rparr>;
          c = (if own then c
               else c\<lparr>rc_path := (if granted M (strlen path + 1) then Some (cstr path) else None)\<rparr>)
      in if rc_path c = None then (if own then None else Some (Inl (out_of_memory c)))
         else
           (case tcp_timeout M timeout c of
              None \<Rightarrow> None
            | Some (rc, c) \<Rightarrow>
                if rc = REDIS_ERR then Some (Inl (out_of_memory c))
                else
                  let (rc, msec) = redisContextTimeoutMsec c
                  in if rc \<noteq> REDIS_OK then Some (Inl c)
                     else if \<not> granted M 110 then Some (Inl (out_of_memory (c\<lparr>rc_saddr := None\<rparr>)))
                     else Some (Inr (c\<lparr>rc_saddr := Some (take 107 (cstr path))\<rparr>, msec))))"

definition redisContextConnectUnix ::
  "libc \<Rightarrow> mem \<Rightarrow> bool \<Rightarrow> bytes \<Rightarrow> timeval option \<Rightarrow> cstate \<Rightarrow> (int \<times> cstate) option" where
  "redisContextConnectUnix L M own path timeout s =
     (let (rc, s) = redisCreateSocket L AF_UNIX s
      in if rc < 0 then Some (REDIS_ERR, s)
         else
           let (rc, c, w) = redisSetBlocking L False s
           in if rc \<noteq> REDIS_OK then Some (REDIS_ERR, c, w)
              else
                (case unix_prepare M own path timeout c of
                   None \<Rightarrow> None
                 | Some (Inl c) \<Rightarrow> Some (REDIS_ERR, c, w)
                 | Some (Inr (c, msec)) \<Rightarrow> Some (unix_connect L (has_flag c REDIS_BLOCK) msec (c, w))))"

end
