(* ===== verification/NetSpec.thy ===== *)
theory NetSpec
  imports Net
begin

text \<open>
  Properties of the socket layer: which descriptors are open after any connection attempt, and the
  conversion of timeouts.
\<close>

section \<open>Open descriptors\<close>

text \<open>The descriptors that the calls made so far have opened and not closed.\<close>

fun open_step :: "int set \<Rightarrow> syscall \<times> sysret \<Rightarrow> int set" where
  "open_step S (SysSocket _, r) = (if sr_val r = REDIS_INVALID_FD then S else insert (sr_val r) S)"
| "open_step S (SysClose fd, r) = S - {fd}"
| "open_step S _ = S"

definition open_fds :: "os \<Rightarrow> int set" where
  "open_fds w = foldl open_step {} (os_trace w)"

text \<open>The context holds the one descriptor that is open, if there is one.\<close>

definition held :: "cstate \<Rightarrow> bool" where
  "held = (\<lambda>(c, w). open_fds w = (if rc_fd c = REDIS_INVALID_FD then {} else {rc_fd c}))"

fun plain_call :: "syscall \<Rightarrow> bool" where
  "plain_call (SysSocket _) = False"
| "plain_call (SysClose _) = False"
| "plain_call _ = True"

lemma open_fds_sys: "open_fds (snd (sys k w)) = open_step (open_fds w) (k, fst (sys k w))"
  by (simp add: open_fds_def sys_def Let_def)

lemma open_step_plain: "plain_call k \<Longrightarrow> open_step S (k, r) = S"
  by (cases k) simp_all

lemma open_fds_errno [simp]: "open_fds (w\<lparr>os_errno := e\<rparr>) = open_fds w"
  by (simp add: open_fds_def)

lemma held_sys [simp]: "plain_call k \<Longrightarrow> held (c, snd (sys k w)) = held (c, w)"
  by (simp add: held_def open_fds_sys open_step_plain)

lemma held_errno [simp]: "held (c, w\<lparr>os_errno := e\<rparr>) = held (c, w)"
  by (simp add: held_def)

lemma held_cong: "rc_fd c' = rc_fd c \<Longrightarrow> held (c', w) = held (c, w)"
  by (simp add: held_def)

lemma rc_fd_errors [simp]:
  "rc_fd (redisSetError c ty str) = rc_fd c" "rc_fd (redisSetErrorIO L s) = rc_fd (fst s)"
  "rc_fd (fst (redisSetErrorFromErrno L ty pre s)) = rc_fd (fst s)"
  "snd (redisSetErrorFromErrno L ty pre s) = snd s"
  by (simp_all add: redisSetError_def redisSetErrorIO_def redisSetErrorFromErrno_def Let_def split_beta)

lemma held_errors [simp]:
  "held (redisSetError c ty str, w) = held (c, w)" "held (redisSetErrorIO L s, w) = held (fst s, w)"
  "held (redisSetErrorFromErrno L ty pre s) = held s"
proof -
  show "held (redisSetErrorFromErrno L ty pre s) = held s"
    by (simp add: redisSetErrorFromErrno_def Let_def split_beta held_def)
qed (simp_all add: held_def)

lemma held_close: "held s \<Longrightarrow> held (redisNetClose s) \<and> rc_fd (fst (redisNetClose s)) = REDIS_INVALID_FD"
  by (auto simp: redisNetClose_def held_def open_fds_sys split: prod.splits if_splits)

lemma held_socket:
  "held (c, w) \<Longrightarrow> rc_fd c = REDIS_INVALID_FD \<Longrightarrow>
    held (c\<lparr>rc_fd := sr_val (fst (sys (SysSocket ty) w))\<rparr>, snd (sys (SysSocket ty) w))"
  by (simp add: held_def open_fds_sys)

lemma held_no_socket:
  "held (c, w) \<Longrightarrow> sr_val (fst (sys (SysSocket ty) w)) = REDIS_INVALID_FD \<Longrightarrow> held (c, snd (sys (SysSocket ty) w))"
  by (simp add: held_def open_fds_sys)

text \<open>Every operation keeps the descriptor held: the lemmas below are by unfolding.\<close>

lemmas net_unfold = Let_def split_beta

lemma held_setBlocking: "held s \<Longrightarrow> held (snd (redisSetBlocking L b s))"
  by (simp add: redisSetBlocking_def net_unfold held_close)

lemma held_reuse: "held s \<Longrightarrow> held (snd (redisSetReuseAddr L s))"
  by (simp add: redisSetReuseAddr_def net_unfold held_close)

lemma held_createSocket: "held s \<Longrightarrow> rc_fd (fst s) = REDIS_INVALID_FD \<Longrightarrow> held (snd (redisCreateSocket L ty s))"
  using held_socket [of "fst s" "snd s" ty] held_no_socket [of "fst s" "snd s" ty]
  by (auto simp: redisCreateSocket_def net_unfold intro!: held_reuse)

lemma held_noDelay: "held s \<Longrightarrow> held (snd (redisSetTcpNoDelay L s))"
  by (simp add: redisSetTcpNoDelay_def net_unfold held_close)

lemma held_setTimeout: "held s \<Longrightarrow> held (snd (redisContextSetTimeout L tv s))"
  by (simp add: redisContextSetTimeout_def net_unfold)

lemma held_socketError: "held s \<Longrightarrow> held (snd (redisCheckSocketError L s))"
  by (simp add: redisCheckSocketError_def net_unfold)

lemma held_connectDone: "held s \<Longrightarrow> held (snd (snd (redisCheckConnectDone s)))"
  by (simp add: redisCheckConnectDone_def net_unfold split: option.split errno.split)

lemma held_waitReady: "held s \<Longrightarrow> held (snd (redisContextWaitReady L msec s))"
  using held_socketError held_connectDone
  by (simp add: redisContextWaitReady_def net_unfold held_close)

lemma held_bind_loop [simp]: "held (c, snd (bind_loop s bs w)) = held (c, w)"
  by (induction bs arbitrary: w) (simp_all add: net_unfold)

lemma held_bind_source: "held s \<Longrightarrow> held (snd (bind_source L ra fam a s))"
  by (simp add: bind_source_def net_unfold)

lemma held_conn_done: "held s \<Longrightarrow> held (snd (conn_done L b s))"
  using held_setBlocking [of s L True] by (simp add: conn_done_def net_unfold held_def)

lemma held_conn_wait: "held s \<Longrightarrow> held (snd (conn_wait L b msec s))"
  using held_waitReady [of s L msec] held_noDelay held_conn_done by (simp add: conn_wait_def net_unfold)

text \<open>A step that goes on to another try or address has closed its socket.\<close>

definition step_held :: "conn_step \<times> cstate \<Rightarrow> bool" where
  "step_held = (\<lambda>(k, s). held s \<and> (k = NextAddr \<or> k = Retry \<longrightarrow> rc_fd (fst s) = REDIS_INVALID_FD))"

lemma held_conn_try: "held s \<Longrightarrow> step_held (conn_try L b ra msec n p s)"
  by (simp add: conn_try_def net_unfold step_held_def held_close held_conn_done held_conn_wait)

lemma held_conn_addr:
  assumes "held s" and "rc_fd (fst s) = REDIS_INVALID_FD"
  shows "step_held (conn_addr L M b ra fam msec n p s)"
proof -
  obtain c w where s: "s = (c, w)" by (cases s)
  obtain r w1 where r: "sys (SysSocket (ai_family p)) w = (r, w1)" by force
  show ?thesis
  proof (cases "sr_val r = REDIS_INVALID_FD")
    case True
    with s r assms held_no_socket [of c w "ai_family p"] show ?thesis by (simp add: conn_addr_def step_held_def)
  next
    case False
    have h1: "held (c\<lparr>rc_fd := sr_val r\<rparr>, w1)" using held_socket [of c w "ai_family p"] assms s r by simp
    obtain rc c2 w2 where b: "redisSetBlocking L False (c\<lparr>rc_fd := sr_val r\<rparr>, w1) = (rc, c2, w2)" by (metis prod_cases3)
    have h2: "held (c2, w2)" using held_setBlocking [OF h1, of L False] b by simp
    obtain ok c3 w3 where e: "(case rc_source_addr c2 of None \<Rightarrow> (True, c2, w2)
        | Some a \<Rightarrow> bind_source L ra fam a (c2, w2)) = (ok, c3, w3)" by (metis prod_cases3)
    have h3: "held (c3, w3)"
      using e h2 held_bind_source [OF h2, of L ra fam] by (cases "rc_source_addr c2") (auto, metis snd_conv)
    have h4: "held (c3\<lparr>rc_saddr := x\<rparr>, w3)" for x using h3 by (simp add: held_def)
    have "conn_addr L M b ra fam msec n p s =
        (if rc \<noteq> REDIS_OK then (Exit ConnError, c2, w2) else if \<not> ok then (Exit ConnError, c3, w3)
         else if \<not> granted M (length (ai_addr p)) then (Exit ConnOom, c3\<lparr>rc_saddr := None\<rparr>, w3)
         else conn_try L b ra msec n p (c3\<lparr>rc_saddr := Some (ai_addr p)\<rparr>, w3))"
      using False by (simp add: conn_addr_def s r b e)
    then show ?thesis using h2 h3 h4 held_conn_try [OF h4] by (simp add: step_held_def)
  qed
qed

lemma held_conn_loop:
  "held s \<Longrightarrow> rc_fd (fst s) = REDIS_INVALID_FD \<Longrightarrow> held (snd (conn_loop L M b ra fam msec n ps s))"
proof (induction L M b ra fam msec n ps s rule: conn_loop.induct)
  case (2 L M b ra fam msec n p ps s)
  obtain k s' where k: "conn_addr L M b ra fam msec n p s = (k, s')" by (meson surj_pair)
  have "step_held (k, s')" using held_conn_addr [OF "2.prems", of L M b ra fam msec n p] k by simp
  then show ?case using "2.IH" k
    by (cases k) (simp_all add: conn_loop.simps(2) step_held_def)
qed (simp add: conn_loop.simps(1))

lemma tcp_keeps_fd:
  "tcp_timeout M timeout c = Some (rc, c') \<Longrightarrow> rc_fd c' = rc_fd c"
  "rc_fd (tcp_source M own src c) = rc_fd c"
  by (auto simp: tcp_timeout_def redisContextUpdateConnectTimeout_def tcp_source_def
      split: option.splits if_splits)

lemma held_resolve [simp]: "held (c, snd (snd (tcp_resolve host port w))) = held (c, w)"
  by (simp add: tcp_resolve_def net_unfold)

lemma fd_out_of_memory [simp]: "rc_fd (out_of_memory c) = rc_fd c"
  by (simp add: out_of_memory_def)

lemma tcp_prepare_fd:
  "tcp_prepare M own addr port timeout src c = Some (Inl c') \<Longrightarrow> rc_fd c' = rc_fd c"
  "tcp_prepare M own addr port timeout src c = Some (Inr (c', msec)) \<Longrightarrow> rc_fd c' = rc_fd c"
  by (auto simp: tcp_prepare_def Let_def tcp_keeps_fd(2) dest!: tcp_keeps_fd(1) split: option.splits prod.splits if_splits)

lemma held_tcp_run:
  assumes "held s" and "rc_fd (fst s) = REDIS_INVALID_FD" shows "held (snd (tcp_run L M msec s))"
proof -
  obtain c w where s: "s = (c, w)" by (cases s)
  obtain r family w1 where r: "tcp_resolve (rc_host c) (take 5 (dec_int (rc_port c))) w = (r, family, w1)"
    by (meson prod_cases3)
  have h: "held (c, w1)" using held_resolve [of c "rc_host c" "take 5 (dec_int (rc_port c))" w] r assms s by simp
  obtain e c2 w2 where e: "conn_loop L M (has_flag c REDIS_BLOCK) (has_flag c REDIS_REUSEADDR) family msec 0
      (sr_addrs r) (c, w1) = (e, c2, w2)" by (meson prod_cases3)
  have "held (c2, w2)"
    using held_conn_loop [OF h, of L M "has_flag c REDIS_BLOCK" "has_flag c REDIS_REUSEADDR" family msec 0 "sr_addrs r"]
      assms(2) s e by simp
  then show ?thesis using h by (cases e) (simp_all add: tcp_run_def s r e held_def)
qed

lemma held_connectTcp:
  assumes "held s" and "rc_fd (fst s) = REDIS_INVALID_FD"
    and "redisContextConnectBindTcp L M own addr port timeout src s = Some (rc, s')"
  shows "held s'"
proof -
  obtain c w where s: "s = (c, w)" by (cases s)
  have keep: "held (x, w)" if "rc_fd x = rc_fd c" for x
    using assms(1) that held_cong [of x c w] by (simp add: s)
  from assms(3) s consider c' where "tcp_prepare M own addr port timeout src c = Some (Inl c')" "s' = (c', w)"
    | c' msec where "tcp_prepare M own addr port timeout src c = Some (Inr (c', msec))"
        "s' = snd (tcp_run L M msec (c', w))"
    by (auto simp: redisContextConnectBindTcp_def split: option.splits sum.splits)
  then show ?thesis
  proof cases
    case 1
    with keep tcp_prepare_fd(1) [OF 1(1)] show ?thesis by simp
  next
    case 2
    note fd = tcp_prepare_fd(2) [OF 2(1)]
    with held_tcp_run [of "(c', w)" L M msec] keep [OF fd] assms(2) s 2(2) show ?thesis by simp
  qed
qed

lemma unix_prepare_fd:
  "unix_prepare M own path timeout c = Some (Inl c') \<Longrightarrow> rc_fd c' = rc_fd c"
  "unix_prepare M own path timeout c = Some (Inr (c', msec)) \<Longrightarrow> rc_fd c' = rc_fd c"
  by (auto simp: unix_prepare_def Let_def dest!: tcp_keeps_fd(1) split: option.splits prod.splits if_splits)

lemma held_unix_connect:
  assumes "held s" shows "held (snd (unix_connect L b msec s))"
proof -
  obtain c w where s: "s = (c, w)" by (cases s)
  obtain r w1 where r: "sys (SysConnect (rc_fd c) (case rc_saddr c of None \<Rightarrow> [] | Some a \<Rightarrow> a)) w = (r, w1)" by force
  have h1: "held (c, w1)" using assms held_sys [of "SysConnect (rc_fd c) (case rc_saddr c of None \<Rightarrow> [] | Some a \<Rightarrow> a)" c w]
    by (simp add: s r)
  define s2 where "s2 = (if sr_val r = -1 \<and> \<not> (os_errno w1 = Some EINPROGRESS \<and> \<not> b)
    then redisContextWaitReady L msec (c, w1) else (REDIS_OK, c, w1))"
  have h2: "held (snd s2)" using held_waitReady [OF h1, of L msec] h1 by (simp add: s2_def)
  obtain rc s3 where s3: "s2 = (rc, s3)" by (meson surj_pair)
  obtain rc4 c4 w4 where s4: "(if b then redisSetBlocking L True s3 else (REDIS_OK, s3)) = (rc4, c4, w4)" by (meson prod_cases3)
  have h4: "held (c4, w4)" using held_setBlocking [of s3 L True] h2 s3 s4 by (auto split: if_splits)
  have "unix_connect L b msec s = (if rc \<noteq> REDIS_OK then (REDIS_ERR, s3) else if rc4 \<noteq> REDIS_OK then (REDIS_ERR, c4, w4)
      else (REDIS_OK, c4\<lparr>rc_flags := rc_flags c4 OR REDIS_CONNECTED\<rparr>, w4))"
    using s3 s4 unfolding s2_def by (simp add: unix_connect_def s r)
  then show ?thesis using h2 h4 s3 by (simp add: held_def split: if_splits)
qed

lemma held_connectUnix:
  assumes "held s" and "rc_fd (fst s) = REDIS_INVALID_FD"
    and "redisContextConnectUnix L M own path timeout s = Some (rc, s')"
  shows "held s'"
proof -
  obtain rc1 s1 where s1: "redisCreateSocket L AF_UNIX s = (rc1, s1)" by (meson surj_pair)
  obtain rc2 c2 w2 where s2: "redisSetBlocking L False s1 = (rc2, c2, w2)" by (meson prod_cases3)
  have h1: "held s1" using held_createSocket [OF assms(1,2), of L AF_UNIX] s1 by simp
  then have h2: "held (c2, w2)" using held_setBlocking [of s1 L False] s2 by simp
  have keep: "held (x, w2)" if "rc_fd x = rc_fd c2" for x using h2 that held_cong [of x c2 w2] by simp
  from assms(3) s1 s2 consider "s' = s1" | "s' = (c2, w2)"
    | c' where "unix_prepare M own path timeout c2 = Some (Inl c')" "s' = (c', w2)"
    | c' msec where "unix_prepare M own path timeout c2 = Some (Inr (c', msec))"
        "s' = snd (unix_connect L (has_flag c' REDIS_BLOCK) msec (c', w2))"
    by (auto simp: redisContextConnectUnix_def split: option.splits sum.splits if_splits)
  then show ?thesis
  proof cases
    case 3
    with keep unix_prepare_fd(1) [OF 3(1)] show ?thesis by simp
  next
    case 4
    with held_unix_connect [OF keep [OF unix_prepare_fd(2) [OF 4(1)]]] show ?thesis by simp
  qed (use h1 h2 in simp_all)
qed

section \<open>Timeouts\<close>

lemma sdiv_1000: "0 \<le> (x::int) \<Longrightarrow> x sdiv 1000 = x div 1000"
  by (cases "x = 0") (simp_all add: signed_divide_int_def)



end
