(* ===== verification/Context.thy ===== *)
theory Context
  imports NetSpec FormatSpec ReaderTrip
begin

text \<open>
  The synchronous interface of \<open>src/src/hiredis/hiredis.c\<close>: creation and release of a connection,
  the output buffer, the input side with its push handler, and the command functions. A state is
  the connection, the heap of replies and the operating system. \<open>None\<close> is a failed assertion, an
  invalid memory access, or a loop that never ends.
\<close>

section \<open>Creation and release\<close>

type_synonym 'w hstate = "redisContext \<times> heap \<times> 'w"

definition sizeof_redisContext :: nat where "sizeof_redisContext = 328"

definition redisReaderCreate :: "mem \<Rightarrow> heap redisReader option" where
  "redisReaderCreate M = redisReaderCreateWithFunctions M (Some defaultFunctions)"

definition redisPushAutoFree :: push_fn where
  "redisPushAutoFree h reply = freeReplyObject h reply"

text \<open>Closing the socket and freeing the parts; the reader may hold an unfinished reply.\<close>

definition redisFree :: "os hstate \<Rightarrow> (heap \<times> os) option" where
  "redisFree = (\<lambda>(c, h, w).
     let (c, w) = redisNetClose (c, w)
     in case rc_reader c of
          None \<Rightarrow> Some (h, w)
        | Some r \<Rightarrow> map_option (\<lambda>h. (h, w)) (redisReaderFree (r, h)))"

definition redisFreeKeepFd :: "os hstate \<Rightarrow> (int \<times> heap \<times> os) option" where
  "redisFreeKeepFd = (\<lambda>(c, h, w).
     map_option (\<lambda>s. (rc_fd c, s)) (redisFree (c\<lparr>rc_fd := REDIS_INVALID_FD\<rparr>, h, w)))"

text \<open>The zeroed context with its buffers; when one is missing, what there is is released.\<close>

definition redisContextInit :: "mem \<Rightarrow> redisContext option" where
  "redisContextInit M =
     (if \<not> granted M sizeof_redisContext then None
      else
        let c = \<lparr>rc_err = 0, rc_errstr = [], rc_fd = REDIS_INVALID_FD, rc_flags = 0, rc_obuf = sdsempty M,
              rc_reader = redisReaderCreate M, rc_connection_type = REDIS_CONN_TCP, rc_connect_timeout = None,
              rc_command_timeout = None, rc_host = None, rc_source_addr = None, rc_port = 0, rc_path = None,
              rc_saddr = None, rc_push_cb = None\<rparr>
        in if rc_obuf c = None \<or> rc_reader c = None then None else Some c)"

definition redisSetPushCallback :: "redisContext \<Rightarrow> push_fn option \<Rightarrow> push_fn option \<times> redisContext" where
  "redisSetPushCallback c fn = (rc_push_cb c, c\<lparr>rc_push_cb := fn\<rparr>)"

definition REDIS_OPT_NONBLOCK :: "32 word" where "REDIS_OPT_NONBLOCK = 0x01"
definition REDIS_OPT_REUSEADDR :: "32 word" where "REDIS_OPT_REUSEADDR = 0x02"
definition REDIS_OPT_NOAUTOFREE :: "32 word" where "REDIS_OPT_NOAUTOFREE = 0x04"
definition REDIS_OPT_NO_PUSH_AUTOFREE :: "32 word" where "REDIS_OPT_NO_PUSH_AUTOFREE = 0x08"

text \<open>The type and the union member it selects.\<close>

datatype endpoint = EpTcp bytes int "bytes option" | EpUnix bytes | EpFd int | EpUnknown

record redisOptions =
  op_endpoint :: endpoint
  op_options :: "32 word"
  op_connect_timeout :: "timeval option"
  op_command_timeout :: "timeval option"
  op_push_cb :: "push_fn option"

text \<open>The flags and the push handler that the options ask for.\<close>

definition apply_options :: "redisOptions \<Rightarrow> redisContext \<Rightarrow> redisContext" where
  "apply_options opts c =
     (let on = (\<lambda>f. op_options opts AND f \<noteq> 0);
          c = (if \<not> on REDIS_OPT_NONBLOCK then c\<lparr>rc_flags := rc_flags c OR REDIS_BLOCK\<rparr> else c);
          c = (if on REDIS_OPT_REUSEADDR then c\<lparr>rc_flags := rc_flags c OR REDIS_REUSEADDR\<rparr> else c);
          c = (if on REDIS_OPT_NOAUTOFREE then c\<lparr>rc_flags := rc_flags c OR REDIS_NO_AUTO_FREE\<rparr> else c)
      in if op_push_cb opts \<noteq> None then snd (redisSetPushCallback c (op_push_cb opts))
         else if \<not> on REDIS_OPT_NO_PUSH_AUTOFREE then snd (redisSetPushCallback c (Some redisPushAutoFree))
         else c)"

definition set_timeouts :: "mem \<Rightarrow> redisOptions \<Rightarrow> redisContext \<Rightarrow> (bool \<times> redisContext) option" where
  "set_timeouts M opts c =
     (case redisContextUpdateConnectTimeout M (op_connect_timeout opts) c of
        None \<Rightarrow> None
      | Some (rc, c) \<Rightarrow>
          if rc \<noteq> REDIS_OK then Some (False, c)
          else (case redisContextUpdateCommandTimeout M (op_command_timeout opts) c of
                  None \<Rightarrow> None
                | Some (rc, c) \<Rightarrow> Some (rc = REDIS_OK, c)))"

text \<open>The command timeout is set on a blocking connection that has a socket.\<close>

definition apply_command_timeout :: "libc \<Rightarrow> timeval option \<Rightarrow> cstate \<Rightarrow> cstate" where
  "apply_command_timeout L timeout = (\<lambda>(c, w).
     case timeout of
       Some tv \<Rightarrow> if has_flag c REDIS_BLOCK \<and> rc_fd c \<noteq> REDIS_INVALID_FD
                  then snd (redisContextSetTimeout L tv (c, w)) else (c, w)
     | None \<Rightarrow> (c, w))"

text \<open>The inner \<open>None\<close> is the NULL pointer; an endpoint of unknown type leaks the context.\<close>

definition redisConnectWithOptions ::
  "libc \<Rightarrow> mem \<Rightarrow> redisOptions \<Rightarrow> os \<Rightarrow> (redisContext option \<times> os) option" where
  "redisConnectWithOptions L M opts w =
     (case redisContextInit M of
        None \<Rightarrow> Some (None, w)
      | Some c \<Rightarrow>
          (case set_timeouts M opts (apply_options opts c) of
             None \<Rightarrow> None
           | Some (ok, c) \<Rightarrow>
               if \<not> ok then Some (Some (out_of_memory c), w)
               else
                 let connected = (\<lambda>s. let (c, w) = apply_command_timeout L (op_command_timeout opts) s in Some (Some c, w))
                 in case op_endpoint opts of
                      EpTcp ip port source_addr \<Rightarrow>
                        (case redisContextConnectBindTcp L M False (Some ip) port (op_connect_timeout opts) source_addr (c, w) of
                           None \<Rightarrow> None
                         | Some (_, s) \<Rightarrow> connected s)
                    | EpUnix path \<Rightarrow>
                        (case redisContextConnectUnix L M False path (op_connect_timeout opts) (c, w) of
                           None \<Rightarrow> None
                         | Some (_, s) \<Rightarrow> connected s)
                    | EpFd fd \<Rightarrow>
                        connected (c\<lparr>rc_fd := fd, rc_flags := rc_flags c OR REDIS_CONNECTED\<rparr>, w)
                    | EpUnknown \<Rightarrow> Some (None, w)))"

definition tcp_options :: "bytes \<Rightarrow> int \<Rightarrow> redisOptions" where
  "tcp_options ip port = \<lparr>op_endpoint = EpTcp ip port None, op_options = 0, op_connect_timeout = None,
     op_command_timeout = None, op_push_cb = None\<rparr>"

definition unix_options :: "bytes \<Rightarrow> redisOptions" where
  "unix_options path = \<lparr>op_endpoint = EpUnix path, op_options = 0, op_connect_timeout = None,
     op_command_timeout = None, op_push_cb = None\<rparr>"

definition redisConnect :: "libc \<Rightarrow> mem \<Rightarrow> bytes \<Rightarrow> int \<Rightarrow> os \<Rightarrow> (redisContext option \<times> os) option" where
  "redisConnect L M ip port = redisConnectWithOptions L M (tcp_options ip port)"

definition redisConnectWithTimeout ::
  "libc \<Rightarrow> mem \<Rightarrow> bytes \<Rightarrow> int \<Rightarrow> timeval \<Rightarrow> os \<Rightarrow> (redisContext option \<times> os) option" where
  "redisConnectWithTimeout L M ip port tv =
     redisConnectWithOptions L M ((tcp_options ip port)\<lparr>op_connect_timeout := Some tv\<rparr>)"

definition redisConnectNonBlock :: "libc \<Rightarrow> mem \<Rightarrow> bytes \<Rightarrow> int \<Rightarrow> os \<Rightarrow> (redisContext option \<times> os) option" where
  "redisConnectNonBlock L M ip port =
     redisConnectWithOptions L M ((tcp_options ip port)\<lparr>op_options := REDIS_OPT_NONBLOCK\<rparr>)"

definition redisConnectBindNonBlock ::
  "libc \<Rightarrow> mem \<Rightarrow> bytes \<Rightarrow> int \<Rightarrow> bytes option \<Rightarrow> os \<Rightarrow> (redisContext option \<times> os) option" where
  "redisConnectBindNonBlock L M ip port source_addr =
     redisConnectWithOptions L M ((tcp_options ip port)\<lparr>op_endpoint := EpTcp ip port source_addr,
       op_options := REDIS_OPT_NONBLOCK\<rparr>)"

definition redisConnectBindNonBlockWithReuse ::
  "libc \<Rightarrow> mem \<Rightarrow> bytes \<Rightarrow> int \<Rightarrow> bytes option \<Rightarrow> os \<Rightarrow> (redisContext option \<times> os) option" where
  "redisConnectBindNonBlockWithReuse L M ip port source_addr =
     redisConnectWithOptions L M ((tcp_options ip port)\<lparr>op_endpoint := EpTcp ip port source_addr,
       op_options := REDIS_OPT_NONBLOCK OR REDIS_OPT_REUSEADDR\<rparr>)"

definition redisConnectUnix :: "libc \<Rightarrow> mem \<Rightarrow> bytes \<Rightarrow> os \<Rightarrow> (redisContext option \<times> os) option" where
  "redisConnectUnix L M path = redisConnectWithOptions L M (unix_options path)"

definition redisConnectUnixWithTimeout ::
  "libc \<Rightarrow> mem \<Rightarrow> bytes \<Rightarrow> timeval \<Rightarrow> os \<Rightarrow> (redisContext option \<times> os) option" where
  "redisConnectUnixWithTimeout L M path tv =
     redisConnectWithOptions L M ((unix_options path)\<lparr>op_connect_timeout := Some tv\<rparr>)"

definition redisConnectUnixNonBlock :: "libc \<Rightarrow> mem \<Rightarrow> bytes \<Rightarrow> os \<Rightarrow> (redisContext option \<times> os) option" where
  "redisConnectUnixNonBlock L M path =
     redisConnectWithOptions L M ((unix_options path)\<lparr>op_options := REDIS_OPT_NONBLOCK\<rparr>)"

definition redisConnectFd :: "libc \<Rightarrow> mem \<Rightarrow> int \<Rightarrow> os \<Rightarrow> (redisContext option \<times> os) option" where
  "redisConnectFd L M fd =
     redisConnectWithOptions L M \<lparr>op_endpoint = EpFd fd, op_options = 0, op_connect_timeout = None,
       op_command_timeout = None, op_push_cb = None\<rparr>"

definition redisReconnect :: "libc \<Rightarrow> mem \<Rightarrow> os hstate \<Rightarrow> (int \<times> os hstate) option" where
  "redisReconnect L M = (\<lambda>(c, h, w).
     let c = c\<lparr>rc_err := 0, rc_errstr := []\<rparr>; (c, w) = redisNetClose (c, w)
     in case (case rc_reader c of None \<Rightarrow> Some h | Some r \<Rightarrow> redisReaderFree (r, h)) of
          None \<Rightarrow> None
        | Some h \<Rightarrow>
            let c = c\<lparr>rc_obuf := sdsempty M, rc_reader := redisReaderCreate M\<rparr>
            in if rc_obuf c = None \<or> rc_reader c = None then Some (REDIS_ERR, out_of_memory c, h, w)
               else
                 (case (case rc_connection_type c of
                     REDIS_CONN_TCP \<Rightarrow>
                       redisContextConnectBindTcp L M True (rc_host c) (rc_port c)
                         (rc_connect_timeout c) (rc_source_addr c) (c, w)
                   | REDIS_CONN_UNIX \<Rightarrow>
                       redisContextConnectUnix L M True (case rc_path c of None \<Rightarrow> [] | Some a \<Rightarrow> a)
                         (rc_connect_timeout c) (c, w)
                   | REDIS_CONN_USERFD \<Rightarrow>
                       Some (REDIS_ERR, redisSetError c REDIS_ERR_OTHER ''Not enough information to reconnect'', w)) of
                    None \<Rightarrow> None
                  | Some (ret, c, w) \<Rightarrow>
                      let (c, w) = apply_command_timeout L (rc_command_timeout c) (c, w)
                      in Some (ret, c, h, w)))"

definition redisSetTimeout :: "libc \<Rightarrow> timeval \<Rightarrow> cstate \<Rightarrow> int \<times> cstate" where
  "redisSetTimeout L tv = (\<lambda>(c, w).
     if has_flag c REDIS_BLOCK then redisContextSetTimeout L tv (c, w) else (REDIS_ERR, c, w))"

definition redisEnableKeepAlive :: "libc \<Rightarrow> cstate \<Rightarrow> int \<times> cstate" where
  "redisEnableKeepAlive L s =
     (let (rc, s) = redisKeepAlive L REDIS_KEEPALIVE_INTERVAL s
      in if rc \<noteq> REDIS_OK then (REDIS_ERR, s) else (REDIS_OK, s))"

section \<open>Input and output\<close>

text \<open>
  The transport of a connection: the functions \<open>read\<close> and \<open>write\<close> of \<open>redisContextFuncs\<close>, over a state
  of their own. The default functions are those of \<open>net.c\<close>.
\<close>

record 'w redisContextFuncs =
  cf_read :: "nat \<Rightarrow> redisContext \<times> 'w \<Rightarrow> int \<times> bytes \<times> redisContext \<times> 'w"
  cf_write :: "redisContext \<times> 'w \<Rightarrow> (int \<times> redisContext \<times> 'w) option"

definition redisContextDefaultFuncs :: "libc \<Rightarrow> os redisContextFuncs" where
  "redisContextDefaultFuncs L = \<lparr>cf_read = redisNetRead L, cf_write = redisNetWrite L\<rparr>"

definition redisBufferRead :: "'w redisContextFuncs \<Rightarrow> mem \<Rightarrow> 'w hstate \<Rightarrow> (int \<times> 'w hstate) option" where
  "redisBufferRead F M = (\<lambda>(c, h, w).
     if rc_err c \<noteq> 0 then Some (REDIS_ERR, c, h, w)
     else
       let (nread, buf, c, w) = cf_read F (1024 * 16) (c, w)
       in if 0 < nread then
            (case rc_reader c of
               None \<Rightarrow> None
             | Some r \<Rightarrow>
                 (case redisReaderFeed M buf (r, h) of
                    None \<Rightarrow> None
                  | Some (st, r, h) \<Rightarrow>
                      let c = c\<lparr>rc_reader := Some r\<rparr>
                      in if st \<noteq> REDIS_OK then Some (REDIS_ERR, redisSetError c (rd_err r) (rd_errstr r), h, w)
                         else Some (REDIS_OK, c, h, w)))
          else if nread < 0 then Some (REDIS_ERR, c, h, w)
          else Some (REDIS_OK, c, h, w))"

text \<open>The result also holds the flag \<open>done\<close> (0 unless the call sets it).\<close>

definition redisBufferWrite :: "'w redisContextFuncs \<Rightarrow> mem \<Rightarrow> 'w hstate \<Rightarrow> (int \<times> bool \<times> 'w hstate) option" where
  "redisBufferWrite F M = (\<lambda>(c, h, w).
     if rc_err c \<noteq> 0 then Some (REDIS_ERR, False, c, h, w)
     else
       (case rc_obuf c of
          None \<Rightarrow> None
        | Some b \<Rightarrow>
            if 0 < sdslen b then
              (case cf_write F (c, w) of
                 None \<Rightarrow> None
               | Some (nwritten, c, w) \<Rightarrow>
                   if nwritten < 0 then Some (REDIS_ERR, False, c, h, w)
                   else if 0 < nwritten then
                     (if nwritten = int (sdslen b) then
                        (case sdsempty M of
                           None \<Rightarrow> Some (REDIS_ERR, False, out_of_memory (c\<lparr>rc_obuf := None\<rparr>), h, w)
                         | Some e \<Rightarrow> Some (REDIS_OK, True, c\<lparr>rc_obuf := Some e\<rparr>, h, w))
                      else
                        let (rc, b) = sdsrange b nwritten (-1); c = c\<lparr>rc_obuf := Some b\<rparr>
                        in if rc < 0 then Some (REDIS_ERR, False, out_of_memory c, h, w)
                           else Some (REDIS_OK, sdslen b = 0, c, h, w))
                   else Some (REDIS_OK, False, c, h, w))
            else Some (REDIS_OK, True, c, h, w)))"

definition redisGetReplyFromReader :: "libc \<Rightarrow> mem \<Rightarrow> 'w hstate \<Rightarrow> (int \<times> ptr \<times> 'w hstate) option" where
  "redisGetReplyFromReader L M = (\<lambda>(c, h, w).
     case rc_reader c of
       None \<Rightarrow> None
     | Some r \<Rightarrow>
         (case redisReaderGetReply (lc_strtod L) (\<lambda>_. M) True (r, h) of
            None \<Rightarrow> None
          | Some (st, reply, r, h) \<Rightarrow>
              let c = c\<lparr>rc_reader := Some r\<rparr>
              in if st = REDIS_ERR then Some (REDIS_ERR, reply, redisSetError c (rd_err r) (rd_errstr r), h, w)
                 else Some (REDIS_OK, reply, c, h, w)))"

definition redisHandledPushReply :: "ptr \<Rightarrow> 'w hstate \<Rightarrow> (bool \<times> 'w hstate) option" where
  "redisHandledPushReply reply = (\<lambda>(c, h, w).
     if reply = NULL then Some (False, c, h, w)
     else
       (case rc_push_cb c of
          None \<Rightarrow> Some (False, c, h, w)
        | Some cb \<Rightarrow>
            (case hget h reply of
               None \<Rightarrow> None
             | Some cell \<Rightarrow>
                 if rr_type cell = REDIS_REPLY_PUSH then map_option (\<lambda>h. (True, c, h, w)) (cb h reply)
                 else Some (False, c, h, w))))"

text \<open>The three loops of \<open>redisGetReply\<close>: write until the buffer is empty; take replies until one is not
  handled as a push message; read until there is a reply.\<close>

partial_function (option) write_all ::
  "'w redisContextFuncs \<Rightarrow> mem \<Rightarrow> 'w hstate \<Rightarrow> (int \<times> 'w hstate) option" where
  "write_all F M s =
     (case redisBufferWrite F M s of
        None \<Rightarrow> None
      | Some (rc, wdone, s) \<Rightarrow>
          if rc = REDIS_ERR then Some (REDIS_ERR, s)
          else if wdone then Some (REDIS_OK, s) else write_all F M s)"

partial_function (option) take_reply ::
  "libc \<Rightarrow> mem \<Rightarrow> 'w hstate \<Rightarrow> (int \<times> ptr \<times> 'w hstate) option" where
  "take_reply L M s =
     (case redisGetReplyFromReader L M s of
        None \<Rightarrow> None
      | Some (rc, aux, s) \<Rightarrow>
          if rc = REDIS_ERR then Some (REDIS_ERR, NULL, s)
          else
            (case redisHandledPushReply aux s of
               None \<Rightarrow> None
             | Some (handled, s) \<Rightarrow> if handled then take_reply L M s else Some (REDIS_OK, aux, s)))"

partial_function (option) read_reply ::
  "'w redisContextFuncs \<Rightarrow> libc \<Rightarrow> mem \<Rightarrow> 'w hstate \<Rightarrow> (int \<times> ptr \<times> 'w hstate) option" where
  "read_reply F L M s =
     (case redisBufferRead F M s of
        None \<Rightarrow> None
      | Some (rc, s) \<Rightarrow>
          if rc = REDIS_ERR then Some (REDIS_ERR, NULL, s)
          else
            (case take_reply L M s of
               None \<Rightarrow> None
             | Some (rc, aux, s) \<Rightarrow>
                 if rc = REDIS_ERR then Some (REDIS_ERR, NULL, s)
                 else if aux = NULL then read_reply F L M s else Some (REDIS_OK, aux, s)))"

text \<open>\<open>want\<close> tells whether the caller passes a place for the reply; otherwise the reply is freed.\<close>

definition redisGetReply ::
  "'w redisContextFuncs \<Rightarrow> libc \<Rightarrow> mem \<Rightarrow> bool \<Rightarrow> 'w hstate \<Rightarrow> (int \<times> ptr \<times> 'w hstate) option" where
  "redisGetReply F L M want s =
     (let give = (\<lambda>aux (c, h, w).
            if want then Some (REDIS_OK, aux, c, h, w)
            else map_option (\<lambda>h. (REDIS_OK, NULL, c, h, w)) (freeReplyObject h aux))
      in case redisGetReplyFromReader L M s of
           None \<Rightarrow> None
         | Some (rc, aux, s) \<Rightarrow>
             if rc = REDIS_ERR then Some (REDIS_ERR, NULL, s)
             else if aux = NULL \<and> has_flag (fst s) REDIS_BLOCK then
               (case write_all F M s of
                  None \<Rightarrow> None
                | Some (rc, s) \<Rightarrow>
                    if rc = REDIS_ERR then Some (REDIS_ERR, NULL, s)
                    else
                      (case read_reply F L M s of
                         None \<Rightarrow> None
                       | Some (rc, aux, s) \<Rightarrow>
                           if rc = REDIS_ERR then Some (REDIS_ERR, NULL, s) else give aux s))
             else give aux s)"

section \<open>Commands\<close>

definition redisAppendCommand_raw :: "mem \<Rightarrow> bytes \<Rightarrow> redisContext \<Rightarrow> (int \<times> redisContext) option" where
  "redisAppendCommand_raw M cmd c =
     (case rc_obuf c of
        None \<Rightarrow> None
      | Some b \<Rightarrow>
          (case sdscatlen M b cmd of
             None \<Rightarrow> Some (REDIS_ERR, out_of_memory c)
           | Some b \<Rightarrow> Some (REDIS_OK, c\<lparr>rc_obuf := Some b\<rparr>)))"

definition redisAppendFormattedCommand :: "mem \<Rightarrow> bytes \<Rightarrow> redisContext \<Rightarrow> (int \<times> redisContext) option" where
  "redisAppendFormattedCommand M cmd c =
     (case redisAppendCommand_raw M cmd c of
        None \<Rightarrow> None
      | Some (rc, c) \<Rightarrow> if rc \<noteq> REDIS_OK then Some (REDIS_ERR, c) else Some (REDIS_OK, c))"

definition redisvAppendCommand ::
  "render_fn \<Rightarrow> mem \<Rightarrow> bytes \<Rightarrow> vararg list \<Rightarrow> redisContext \<Rightarrow> (int \<times> redisContext) option" where
  "redisvAppendCommand render M format ap c =
     (case redisvFormatCommand render M format ap of
        None \<Rightarrow> None
      | Some (Inl e) \<Rightarrow>
          if e = -1 then Some (REDIS_ERR, out_of_memory c)
          else Some (REDIS_ERR, redisSetError c REDIS_ERR_OTHER ''Invalid format string'')
      | Some (Inr (len, cmd)) \<Rightarrow>
          (case redisAppendCommand_raw M (take (nat len) cmd) c of
             None \<Rightarrow> None
           | Some (rc, c) \<Rightarrow> if rc \<noteq> REDIS_OK then Some (REDIS_ERR, c) else Some (REDIS_OK, c)))"

definition redisAppendCommand ::
  "render_fn \<Rightarrow> mem \<Rightarrow> bytes \<Rightarrow> vararg list \<Rightarrow> redisContext \<Rightarrow> (int \<times> redisContext) option" where
  "redisAppendCommand render M format ap = redisvAppendCommand render M format ap"

definition redisAppendCommandArgv ::
  "mem \<Rightarrow> bytes list \<Rightarrow> nat list option \<Rightarrow> redisContext \<Rightarrow> (int \<times> redisContext) option" where
  "redisAppendCommandArgv M argv argvlen c =
     (case redisFormatSdsCommandArgv M argv argvlen of
        None \<Rightarrow> None
      | Some (Inl e) \<Rightarrow> Some (REDIS_ERR, out_of_memory c)
      | Some (Inr (len, cmd)) \<Rightarrow>
          (case redisAppendCommand_raw M (take (nat len) (sds_buf cmd)) c of
             None \<Rightarrow> None
           | Some (rc, c) \<Rightarrow> if rc \<noteq> REDIS_OK then Some (REDIS_ERR, c) else Some (REDIS_OK, c)))"

definition redisBlockForReply ::
  "'w redisContextFuncs \<Rightarrow> libc \<Rightarrow> mem \<Rightarrow> 'w hstate \<Rightarrow> (ptr \<times> 'w hstate) option" where
  "redisBlockForReply F L M s =
     (if has_flag (fst s) REDIS_BLOCK then
        (case redisGetReply F L M True s of
           None \<Rightarrow> None
         | Some (rc, reply, s) \<Rightarrow> if rc \<noteq> REDIS_OK then Some (NULL, s) else Some (reply, s))
      else Some (NULL, s))"

definition redisvCommand ::
  "'w redisContextFuncs \<Rightarrow> libc \<Rightarrow> render_fn \<Rightarrow> mem \<Rightarrow> bytes \<Rightarrow> vararg list \<Rightarrow> 'w hstate \<Rightarrow> (ptr \<times> 'w hstate) option" where
  "redisvCommand F L render M format ap = (\<lambda>(c, h, w).
     case redisvAppendCommand render M format ap c of
       None \<Rightarrow> None
     | Some (rc, c) \<Rightarrow> if rc \<noteq> REDIS_OK then Some (NULL, c, h, w) else redisBlockForReply F L M (c, h, w))"

definition redisCommand ::
  "'w redisContextFuncs \<Rightarrow> libc \<Rightarrow> render_fn \<Rightarrow> mem \<Rightarrow> bytes \<Rightarrow> vararg list \<Rightarrow> 'w hstate \<Rightarrow> (ptr \<times> 'w hstate) option" where
  "redisCommand F L render M format ap = redisvCommand F L render M format ap"

definition redisCommandArgv ::
  "'w redisContextFuncs \<Rightarrow> libc \<Rightarrow> mem \<Rightarrow> bytes list \<Rightarrow> nat list option \<Rightarrow> 'w hstate \<Rightarrow> (ptr \<times> 'w hstate) option" where
  "redisCommandArgv F L M argv argvlen = (\<lambda>(c, h, w).
     case redisAppendCommandArgv M argv argvlen c of
       None \<Rightarrow> None
     | Some (rc, c) \<Rightarrow> if rc \<noteq> REDIS_OK then Some (NULL, c, h, w) else redisBlockForReply F L M (c, h, w))"

end
