(* ===== verification/ContextSpec.thy ===== *)
theory ContextSpec
  imports Context ReaderWait
begin

text \<open>
  The contract between the connection and its transport as the locale \<open>transport\<close>, interpreted on
  the socket functions of \<open>net.c\<close>, and what the connection does on top of it: the byte stream that
  is sent, the replies that are returned, errors, and the descriptors that are left open.
\<close>

section \<open>The transport contract\<close>

text \<open>
  \<open>sent w\<close> are the bytes the transport has accepted. A write accepts a prefix of the output buffer
  and leaves the connection alone, or fails and reports at most an error; a read never touches
  what is to be sent.
\<close>

definition same_but_err :: "redisContext \<Rightarrow> redisContext \<Rightarrow> bool" where
  "same_but_err c c' \<longleftrightarrow> c' = c\<lparr>rc_err := rc_err c', rc_errstr := rc_errstr c'\<rparr>"

lemma same_but_err_obuf: "same_but_err c c' \<Longrightarrow> rc_obuf c' = rc_obuf c"
  by (cases c; cases c') (simp add: same_but_err_def)

locale transport =
  fixes F :: "'w redisContextFuncs" and sent :: "'w \<Rightarrow> bytes"
  assumes write_law: "rc_obuf c = Some b \<Longrightarrow> sds_wf b \<Longrightarrow> \<exists>n c' w'. cf_write F (c, w) = Some (n, c', w') \<and> n \<le> int (sdslen b)
      \<and> (0 \<le> n \<longrightarrow> c' = c \<and> sent w' = sent w @ take (nat n) (sdsval b))
      \<and> (n < 0 \<longrightarrow> same_but_err c c' \<and> sent w' = sent w)"
    and read_law: "cf_read F cap (c, w) = (n, d, c', w') \<Longrightarrow> sent w' = sent w \<and> same_but_err c c'
      \<and> (0 < n \<longrightarrow> c' = c \<and> d \<noteq> [] \<and> length d \<le> cap) \<and> (n = 0 \<longrightarrow> c' = c) \<and> (n < 0 \<longrightarrow> rc_err c' \<noteq> 0)"
begin

text \<open>Sent and still to be sent, in this order, is all that was ever put into the buffer.\<close>

lemma bufferWrite_stream:
  assumes "rc_obuf c = Some b" and "sds_wf b" and "sdslen b \<le> SSIZE_MAX" and "rc_err c = 0"
  obtains b' wdone c' w' where "redisBufferWrite F M (c, h, w) = Some (REDIS_OK, wdone, c', h, w')"
      and "c' = c\<lparr>rc_obuf := Some b'\<rparr>" and "sds_wf b'" and "sent w' @ sdsval b' = sent w @ sdsval b" and "wdone \<longleftrightarrow> sdsval b' = []"
  | c' w' where "redisBufferWrite F M (c, h, w) = Some (REDIS_ERR, False, c', h, w')" and "same_but_err c c'" and "sent w' = sent w"
  | c' w' where "redisBufferWrite F M (c, h, w) = Some (REDIS_ERR, False, c', h, w')" and "rc_err c' = REDIS_ERR_OOM"
      and "sent w' = sent w @ sdsval b" and "rc_obuf c' = None" and "\<not> (\<forall>n. granted M n)"
proof (cases "sdslen b = 0")
  case True
  have "sdsval b = []" using True length_sdsval [OF assms(2)] by simp
  with True assms show ?thesis by (intro that(1) [of True c w b]) (simp_all add: redisBufferWrite_def)
next
  case False
  obtain n c' w' where n: "cf_write F (c, w) = Some (n, c', w')" "n \<le> int (sdslen b)"
    "0 \<le> n \<Longrightarrow> c' = c \<and> sent w' = sent w @ take (nat n) (sdsval b)" "n < 0 \<Longrightarrow> same_but_err c c' \<and> sent w' = sent w"
    using write_law [OF assms(1,2), of w] by blast
  have len: "length (sdsval b) = sdslen b" using assms(2) by simp
  consider "n < 0" | "n = 0" | "n = int (sdslen b)" | "0 < n" "n < int (sdslen b)" using n(2) by linarith
  then show ?thesis
  proof cases
    case 1
    with n assms False show ?thesis by (intro that(2) [of c' w']) (simp_all add: redisBufferWrite_def)
  next
    case 2
    have "sdsval b \<noteq> []" using False len by (metis list.size(3))
    with 2 n assms False show ?thesis by (intro that(1) [of False c w' b]) (auto simp: redisBufferWrite_def)
  next
    case 3
    then have s: "c' = c" "sent w' = sent w @ sdsval b" using n(3) len by simp_all
    show ?thesis
    proof (cases "sdsempty M")
      case None
      then have "\<not> (\<forall>n. granted M n)" using sdsnewlen_granted [of M "Some []" 0] by (auto simp: sdsempty_def)
      with 3 n(1) s assms False None show ?thesis
        by (intro that(3) [of "out_of_memory (c\<lparr>rc_obuf := None\<rparr>)" w'])
          (simp_all add: redisBufferWrite_def out_of_memory_def redisSetError_def)
    next
      case (Some e)
      with 3 n(1) s assms False sdsempty_wf [OF Some] show ?thesis
        by (intro that(1) [of True "c\<lparr>rc_obuf := Some e\<rparr>" w' e]) (simp_all add: redisBufferWrite_def)
    qed
  next
    case 4
    then have s: "c' = c" "sent w' = sent w @ take (nat n) (sdsval b)" using n(3) by simp_all
    obtain b' where b': "sdsrange b n (-1) = (0, b')" "sds_wf b'" "sdsval b' = drop (nat n) (sdsval b)"
      using sdsrange_drop [OF assms(2,3), of "nat n"] 4 by (cases "sdsrange b n (-1)") auto
    have "sdslen b' \<noteq> 0" "sdsval b' \<noteq> []" using 4 b' len length_sdsval [OF b'(2)] by auto
    with 4 n(1) s b' assms False show ?thesis
      by (intro that(1) [of False "c\<lparr>rc_obuf := Some b'\<rparr>" w' b']) (simp_all add: redisBufferWrite_def)
  qed
qed

lemma bufferRead_keeps:
  assumes "redisBufferRead F M (c, h, w) = Some (rc, c', h', w')"
  shows "sent w' = sent w \<and> rc_obuf c' = rc_obuf c"
proof (cases "rc_err c = 0")
  case True
  obtain n d c1 w1 where n: "cf_read F (1024 * 16) (c, w) = (n, d, c1, w1)" by (meson prod_cases4)
  note r = read_law [OF n]
  then have "rc_obuf c1 = rc_obuf c" using same_but_err_obuf by blast
  with assms True n r show ?thesis
    by (auto simp: redisBufferRead_def Let_def redisSetError_def split: if_splits option.splits)
qed (use assms in \<open>simp add: redisBufferRead_def\<close>)

end

section \<open>The socket transport\<close>

fun sent_of :: "syscall \<times> sysret \<Rightarrow> bytes" where
  "sent_of (SysSend fd b, r) = (if sr_val r < 0 then [] else take (nat (sr_val r)) b)"
| "sent_of _ = []"

definition sent_bytes :: "os \<Rightarrow> bytes" where
  "sent_bytes w = concat (map sent_of (os_trace w))"

lemma sent_bytes_sys: "sent_bytes (snd (sys k w)) = sent_bytes w @ sent_of (k, fst (sys k w))"
  by (simp add: sent_bytes_def sys_def Let_def)

lemma same_but_err_intros [simp]:
  "same_but_err c c" "same_but_err c (redisSetError c ty str)" "same_but_err c (redisSetErrorIO L (c, w))"
  by (simp_all add: same_but_err_def redisSetError_def redisSetErrorIO_def)

lemma netWrite_law:
  assumes "rc_obuf c = Some b" and "sds_wf b"
  shows "\<exists>n c' w'. redisNetWrite L (c, w) = Some (n, c', w') \<and> n \<le> int (sdslen b)
    \<and> (0 \<le> n \<longrightarrow> c' = c \<and> sent_bytes w' = sent_bytes w @ take (nat n) (sdsval b))
    \<and> (n < 0 \<longrightarrow> same_but_err c c' \<and> sent_bytes w' = sent_bytes w)"
proof -
  let ?k = "SysSend (rc_fd c) (take (sdslen b) (sds_buf b))"
  obtain r w1 where r: "sys ?k w = (r, w1)" by force
  have s: "sent_bytes w1 = sent_bytes w @ sent_of (?k, r)" using sent_bytes_sys [of ?k w] r by simp
  have len: "length (sdsval b) = sdslen b" using assms(2) by simp
  show ?thesis
  proof (cases "sr_val r < 0")
    case True
    then have "sent_bytes w1 = sent_bytes w" using s by simp
    with True assms(1) r show ?thesis by (auto simp: redisNetWrite_def Let_def)
  next
    case False
    define n where "n = min (sr_val r) (int (sdslen b))"
    have n: "redisNetWrite L (c, w) = Some (n, c, w1)" "n \<le> int (sdslen b)" "0 \<le> n"
      using False assms(1) r by (simp_all add: redisNetWrite_def Let_def n_def min_less_iff_disj)
    have "take (nat (sr_val r)) (sdsval b) = take (nat n) (sdsval b)" using len by (simp add: n_def min_def)
    then have "sent_bytes w1 = sent_bytes w @ take (nat n) (sdsval b)" using s False by (simp add: sdsval_def)
    with n show ?thesis by simp
  qed
qed

lemma netRead_law:
  assumes "redisNetRead L cap (c, w) = (n, d, c', w')"
  shows "sent_bytes w' = sent_bytes w \<and> same_but_err c c' \<and> (0 < n \<longrightarrow> c' = c \<and> d \<noteq> [] \<and> length d \<le> cap)
    \<and> (n = 0 \<longrightarrow> c' = c) \<and> (n < 0 \<longrightarrow> rc_err c' \<noteq> 0)"
proof -
  obtain r w1 where r: "sys (SysRecv (rc_fd c) cap) w = (r, w1)" by force
  have "sent_bytes w1 = sent_bytes w" using sent_bytes_sys [of "SysRecv (rc_fd c) cap" w] r by simp
  with assms r show ?thesis
    by (auto simp: redisNetRead_def Let_def redisSetError_def redisSetErrorIO_def same_but_err_def
        REDIS_ERR_TIMEOUT_def REDIS_ERR_IO_def REDIS_ERR_EOF_def split: if_splits)
qed

interpretation net_transport: transport "redisContextDefaultFuncs L" sent_bytes for L
proof (unfold_locales, goal_cases)
  case (1 c b w)
  then show ?case by (simp only: redisContextDefaultFuncs_def redisContextFuncs.simps netWrite_law)
next
  case (2 cap c w n d c' w')
  then show ?case using netRead_law [of L cap c w n d c' w'] by (simp add: redisContextDefaultFuncs_def)
qed

section \<open>Scripted system calls\<close>

text \<open>The next results of the operating system.\<close>

definition oracle_gives :: "os \<Rightarrow> sysret list \<Rightarrow> bool" where
  "oracle_gives w rs \<longleftrightarrow> (\<forall>j < length rs. os_oracle w (length (os_trace w) + j) = rs ! j)"

lemma oracle_sys:
  assumes "oracle_gives w (r # rs)"
  obtains w' where "sys k w = (r, w')" and "oracle_gives w' rs"
    and "os_errno w' = (if sr_val r = -1 then Some (sr_errno r) else os_errno w)"
proof -
  have "os_oracle w (length (os_trace w)) = r" using assms by (auto simp: oracle_gives_def)
  moreover have "os_oracle w (Suc (length (os_trace w) + j)) = rs ! j" if "j < length rs" for j
    using assms that by (auto simp: oracle_gives_def dest: spec [of _ "Suc j"])
  ultimately show ?thesis
    by (intro that [of "snd (sys k w)"]) (simp_all add: sys_def Let_def oracle_gives_def)
qed

text \<open>\<open>send\<close> accepts \<open>n\<close> bytes; \<open>recv\<close> returns the bytes \<open>d\<close>.\<close>

definition ret_send :: "nat \<Rightarrow> sysret" where
  "ret_send n = \<lparr>sr_val = int n, sr_errno = EINTR, sr_data = [], sr_addrs = [], sr_soerr = None\<rparr>"

definition ret_recv :: "bytes \<Rightarrow> sysret" where
  "ret_recv d = \<lparr>sr_val = int (length d), sr_errno = EINTR, sr_data = d, sr_addrs = [], sr_soerr = None\<rparr>"

lemma write_all_step:
  "redisBufferWrite F M s = Some (REDIS_OK, True, s') \<Longrightarrow> write_all F M s = Some (REDIS_OK, s')"
  "redisBufferWrite F M s = Some (REDIS_OK, False, s') \<Longrightarrow> write_all F M s = write_all F M s'"
  by (subst write_all.simps, simp)+

lemma write_all_sends:
  assumes "\<forall>n. granted M n" and "sum_list ns = length (sdsval b)" and "0 \<notin> set ns"
    and "rc_obuf c = Some b" and "sds_wf b" and "sdslen b \<le> SSIZE_MAX" and "rc_err c = 0"
    and "oracle_gives w (map ret_send ns @ rs)"
  obtains e w' where "write_all (redisContextDefaultFuncs L) M (c, h, w) = Some (REDIS_OK, c\<lparr>rc_obuf := Some e\<rparr>, h, w')"
    and "sds_wf e" and "sdsval e = []" and "sent_bytes w' = sent_bytes w @ sdsval b" and "oracle_gives w' rs"
  using assms(2-)
proof (induction ns arbitrary: b c w thesis)
  case Nil
  have z: "sdsval b = []" "sdslen b = 0" using Nil.prems(2) length_sdsval [OF Nil.prems(5)] by simp_all
  then have "redisBufferWrite (redisContextDefaultFuncs L) M (c, h, w) = Some (REDIS_OK, True, c, h, w)"
    using Nil.prems(4,7) by (simp add: redisBufferWrite_def)
  from write_all_step(1) [OF this] have "write_all (redisContextDefaultFuncs L) M (c, h, w) = Some (REDIS_OK, c, h, w)" .
  moreover have "c\<lparr>rc_obuf := Some b\<rparr> = c" using Nil.prems(4) by simp
  ultimately show ?case using z Nil.prems(5,8) by (intro Nil.prems(1) [of b w]) simp_all
next
  case (Cons n ns)
  have len: "length (sdsval b) = sdslen b" using Cons.prems(5) by simp
  have n: "0 < n" "n \<le> sdslen b" using Cons.prems(2,3) len by auto
  obtain w1 where w1: "sys (SysSend (rc_fd c) (take (sdslen b) (sds_buf b))) w = (ret_send n, w1)"
    "oracle_gives w1 (map ret_send ns @ rs)"
    using oracle_sys [of w "ret_send n" "map ret_send ns @ rs"] Cons.prems(8) by (metis append_Cons list.simps(9))
  have wr: "cf_write (redisContextDefaultFuncs L) (c, w) = Some (int n, c, w1)"
    using w1(1) Cons.prems(4) n by (simp add: redisContextDefaultFuncs_def redisNetWrite_def ret_send_def)
  have sent: "sent_bytes w1 = sent_bytes w @ take n (sdsval b)"
    using sent_bytes_sys [of "SysSend (rc_fd c) (take (sdslen b) (sds_buf b))" w] w1(1) by (simp add: ret_send_def sdsval_def)
  have tot: "n + sum_list ns = sdslen b" using Cons.prems(2) len by simp
  obtain e0 where e0: "sdsempty M = Some e0" using sdsnewlen_granted [OF assms(1)] by (auto simp: sdsempty_def)
  obtain b1 where b1: "sdsrange b (int n) (-1) = (0, b1)" "sds_wf b1" "sdsval b1 = drop n (sdsval b)"
    using sdsrange_drop [OF Cons.prems(5,6) n(2)] by (cases "sdsrange b (int n) (-1)") auto
  have l1: "sdslen b1 = sdslen b - n" using b1 length_sdsval [OF b1(2)] len by simp
  show ?case
  proof (cases "n = sdslen b")
    case True
    then have "ns = []" using tot Cons.prems(3) by (cases ns) auto
    have "redisBufferWrite (redisContextDefaultFuncs L) M (c, h, w) = Some (REDIS_OK, True, c\<lparr>rc_obuf := Some e0\<rparr>, h, w1)"
      using wr n True Cons.prems(4,7) e0 by (simp add: redisBufferWrite_def)
    then have "write_all (redisContextDefaultFuncs L) M (c, h, w) = Some (REDIS_OK, c\<lparr>rc_obuf := Some e0\<rparr>, h, w1)" by (rule write_all_step)
    moreover have "sent_bytes w1 = sent_bytes w @ sdsval b" using sent True len by simp
    ultimately show ?thesis using sdsempty_wf [OF e0] w1(2) \<open>ns = []\<close> by (intro Cons.prems(1) [of e0 w1]) simp_all
  next
    case False
    let ?c = "c\<lparr>rc_obuf := Some b1\<rparr>"
    have "redisBufferWrite (redisContextDefaultFuncs L) M (c, h, w) = Some (REDIS_OK, False, ?c, h, w1)"
      using wr n False Cons.prems(4,7) b1(1) l1 by (simp add: redisBufferWrite_def)
    then have step: "write_all (redisContextDefaultFuncs L) M (c, h, w) = write_all (redisContextDefaultFuncs L) M (?c, h, w1)" by (rule write_all_step)
    have "sum_list ns = length (sdsval b1)" "0 \<notin> set ns" "sdslen b1 \<le> SSIZE_MAX"
      using tot b1(3) len Cons.prems(3,6) l1 by simp_all
    then obtain e w2 where "write_all (redisContextDefaultFuncs L) M (?c, h, w1) = Some (REDIS_OK, ?c\<lparr>rc_obuf := Some e\<rparr>, h, w2)"
      "sds_wf e" "sdsval e = []" "sent_bytes w2 = sent_bytes w1 @ sdsval b1" "oracle_gives w2 rs"
      using Cons.IH [where b = b1 and c = ?c and w = w1] b1(2) Cons.prems(7) w1(2) by auto
    with step sent b1(3) show ?thesis by (intro Cons.prems(1) [of e w2]) simp_all
  qed
qed

lemma bufferRead_data:
  assumes "\<forall>n. granted M n" and "oracle_gives w (ret_recv d # rs)" and "d \<noteq> []" and "length d \<le> 16384"
    and "rc_err c = 0" and "rc_reader c = Some r" and "awaits (lc_strtod L) M v h0 (d @ rest) (r, h)"
    and "rd_len r + length d < 2 ^ 31"
  obtains r' w' where "redisBufferRead (redisContextDefaultFuncs L) M (c, h, w) = Some (REDIS_OK, c\<lparr>rc_reader := Some r'\<rparr>, h, w')"
    and "awaits (lc_strtod L) M v h0 rest (r', h)" and "rd_len r' \<noteq> 0" and "rd_len r' \<le> rd_len r + length d"
    and "oracle_gives w' rs" and "sent_bytes w' = sent_bytes w"
proof -
  obtain w1 where w1: "sys (SysRecv (rc_fd c) 16384) w = (ret_recv d, w1)" "oracle_gives w1 rs"
    using oracle_sys [OF assms(2)] by metis
  have s: "sent_bytes w1 = sent_bytes w" using sent_bytes_sys [of "SysRecv (rc_fd c) 16384" w] w1(1) by simp
  have rd: "cf_read (redisContextDefaultFuncs L) 16384 (c, w) = (int (length d), d, c, w1)"
    using w1(1) assms(3,4) by (simp add: redisContextDefaultFuncs_def redisNetRead_def ret_recv_def Let_def)
  obtain r' where r': "redisReaderFeed M d (r, h) = Some (REDIS_OK, r', h)" "awaits (lc_strtod L) M v h0 rest (r', h)"
    "rd_len r' \<noteq> 0" "rd_len r' \<le> rd_len r + length d"
    by (rule awaits_feed [OF assms(1,7,3,8)])
  have "redisBufferRead (redisContextDefaultFuncs L) M (c, h, w) = Some (REDIS_OK, c\<lparr>rc_reader := Some r'\<rparr>, h, w1)"
    using assms(3,5,6) rd r'(1) by (simp add: redisBufferRead_def Let_def)
  with r' w1(2) s that show ?thesis by blast
qed

lemma take_reply_none:
  assumes "rc_reader c = Some r" and "awaits (lc_strtod L) M v h0 rest (r, h)" and "rest \<noteq> []"
  obtains r' h' where "take_reply L M (c, h, w) = Some (REDIS_OK, NULL, c\<lparr>rc_reader := Some r'\<rparr>, h', w)"
    and "awaits (lc_strtod L) M v h0 rest (r', h')" and "rd_len r' \<le> rd_len r"
proof -
  obtain r' h' where g: "redisReaderGetReply (lc_strtod L) (\<lambda>_. M) True (r, h) = Some (REDIS_OK, NULL, r', h')"
    "awaits (lc_strtod L) M v h0 rest (r', h')" "rd_len r' \<le> rd_len r"
    by (rule awaits_none [OF assms(2,3)])
  have f: "redisGetReplyFromReader L M (c, h, w) = Some (REDIS_OK, NULL, c\<lparr>rc_reader := Some r'\<rparr>, h', w)"
    using assms(1) g(1) by (simp add: redisGetReplyFromReader_def Let_def)
  then have "take_reply L M (c, h, w) = Some (REDIS_OK, NULL, c\<lparr>rc_reader := Some r'\<rparr>, h', w)"
    by (subst take_reply.simps) (simp add: redisHandledPushReply_def)
  with g that show ?thesis by blast
qed

lemma take_reply_all:
  assumes "rc_reader c = Some r" and "awaits (lc_strtod L) M v h0 [] (r, h)" and "rd_len r \<noteq> 0" and "not_push v"
  obtains r' where "take_reply L M (c, h, w)
      = Some (REDIS_OK, Ref (length h0), c\<lparr>rc_reader := Some r'\<rparr>, h0 @ layout (length h0) v, w)"
    and "reader_idle r'" and "unread r' = []" and "rd_len r' < 1024"
proof -
  let ?h = "h0 @ layout (length h0) v"
  obtain r' where g: "redisReaderGetReply (lc_strtod L) (\<lambda>_. M) True (r, h) = Some (REDIS_OK, Ref (length h0), r', ?h)"
    "reader_idle r'" "unread r' = []" "rd_len r' < 1024"
    by (rule awaits_all [OF assms(2,3)])
  obtain cell where cell: "hget ?h (Ref (length h0)) = Some cell" "rr_type cell \<noteq> REDIS_REPLY_PUSH"
    by (rule root_cell [OF assms(4)])
  have "redisGetReplyFromReader L M (c, h, w) = Some (REDIS_OK, Ref (length h0), c\<lparr>rc_reader := Some r'\<rparr>, ?h, w)"
    using assms(1) g(1) by (simp add: redisGetReplyFromReader_def Let_def)
  moreover have "redisHandledPushReply (Ref (length h0)) (c\<lparr>rc_reader := Some r'\<rparr>, ?h, w)
      = Some (False, c\<lparr>rc_reader := Some r'\<rparr>, ?h, w)"
    using cell by (simp add: redisHandledPushReply_def split: option.split)
  ultimately have "take_reply L M (c, h, w) = Some (REDIS_OK, Ref (length h0), c\<lparr>rc_reader := Some r'\<rparr>, ?h, w)"
    by (subst take_reply.simps) simp
  with g that show ?thesis by blast
qed

text \<open>The reply arrives in pieces of any size.\<close>

lemma read_reply_chunks:
  assumes "\<forall>n. granted M n" and "not_push v"
    and "ds \<noteq> []" and "\<forall>d \<in> set ds. d \<noteq> [] \<and> length d \<le> 16384" and "oracle_gives w (map ret_recv ds @ rs)"
    and "rc_err c = 0" and "rc_reader c = Some r" and "awaits (lc_strtod L) M v h0 (concat ds) (r, h)"
    and "rd_len r + length (concat ds) < 2 ^ 31"
  obtains r' w' where "read_reply (redisContextDefaultFuncs L) L M (c, h, w)
      = Some (REDIS_OK, Ref (length h0), c\<lparr>rc_reader := Some r'\<rparr>, h0 @ layout (length h0) v, w')"
    and "reader_idle r'" and "unread r' = []" and "rd_len r' < 1024" and "oracle_gives w' rs" and "sent_bytes w' = sent_bytes w"
  using assms(3-)
proof (induction ds arbitrary: c r h w thesis)
  case (Cons d ds)
  have g: "oracle_gives w (ret_recv d # map ret_recv ds @ rs)" using Cons.prems(4) by simp
  have aw: "awaits (lc_strtod L) M v h0 (d @ concat ds) (r, h)" using Cons.prems(7) by simp
  have d: "d \<noteq> []" "length d \<le> 16384" "rd_len r + length d < 2 ^ 31" using Cons.prems(3,8) by simp_all
  obtain r1 w1 where r1: "redisBufferRead (redisContextDefaultFuncs L) M (c, h, w) = Some (REDIS_OK, c\<lparr>rc_reader := Some r1\<rparr>, h, w1)"
    "awaits (lc_strtod L) M v h0 (concat ds) (r1, h)" "rd_len r1 \<noteq> 0" "rd_len r1 \<le> rd_len r + length d"
    "oracle_gives w1 (map ret_recv ds @ rs)" "sent_bytes w1 = sent_bytes w"
    by (rule bufferRead_data [OF assms(1) g d(1,2) Cons.prems(5,6) aw d(3)])
  let ?c1 = "c\<lparr>rc_reader := Some r1\<rparr>"
  have c1: "rc_reader ?c1 = Some r1" by simp
  show ?case
  proof (cases "ds = []")
    case True
    with r1(2) have "awaits (lc_strtod L) M v h0 [] (r1, h)" by simp
    from take_reply_all [OF c1 this r1(3) assms(2), of w1] obtain r2 where
      "take_reply L M (?c1, h, w1) = Some (REDIS_OK, Ref (length h0), c\<lparr>rc_reader := Some r2\<rparr>, h0 @ layout (length h0) v, w1)"
      "reader_idle r2" "unread r2 = []" "rd_len r2 < 1024" by auto
    moreover from this r1(1) have "read_reply (redisContextDefaultFuncs L) L M (c, h, w)
        = Some (REDIS_OK, Ref (length h0), c\<lparr>rc_reader := Some r2\<rparr>, h0 @ layout (length h0) v, w1)"
      by (subst read_reply.simps) simp
    ultimately show ?thesis using True r1(5,6) by (intro Cons.prems(1) [of r2 w1]) simp_all
  next
    case False
    then have ne: "concat ds \<noteq> []" using Cons.prems(3) by (cases ds) simp_all
    from take_reply_none [OF c1 r1(2) ne, of w1] obtain r2 h2 where r2:
      "take_reply L M (?c1, h, w1) = Some (REDIS_OK, NULL, c\<lparr>rc_reader := Some r2\<rparr>, h2, w1)"
      "awaits (lc_strtod L) M v h0 (concat ds) (r2, h2)" "rd_len r2 \<le> rd_len r1" by auto
    let ?c2 = "c\<lparr>rc_reader := Some r2\<rparr>"
    have step: "read_reply (redisContextDefaultFuncs L) L M (c, h, w) = read_reply (redisContextDefaultFuncs L) L M (?c2, h2, w1)"
      using r1(1) r2(1) by (subst read_reply.simps) simp
    have "rd_len r2 + length (concat ds) < 2 ^ 31" using r2(3) r1(4) Cons.prems(8) by simp
    with Cons.IH [where c = ?c2 and r = r2 and h = h2 and w = w1] False Cons.prems(3,5) r1(5) r2(2) obtain r3 w3 where
      "read_reply (redisContextDefaultFuncs L) L M (?c2, h2, w1)
        = Some (REDIS_OK, Ref (length h0), ?c2\<lparr>rc_reader := Some r3\<rparr>, h0 @ layout (length h0) v, w3)"
      "reader_idle r3" "unread r3 = []" "rd_len r3 < 1024" "oracle_gives w3 rs" "sent_bytes w3 = sent_bytes w1" by auto
    with step r1(6) show ?thesis by (intro Cons.prems(1) [of r3 w3]) simp_all
  qed
qed simp

section \<open>A command and its reply\<close>

text \<open>A blocking connection without errors whose reader is between two replies.\<close>

definition conn_idle :: "redisContext \<Rightarrow> bool" where
  "conn_idle c \<longleftrightarrow> has_flag c REDIS_BLOCK \<and> rc_err c = 0
     \<and> (\<exists>b. rc_obuf c = Some b \<and> sds_wf b \<and> sdsval b = [])
     \<and> (\<exists>r. rc_reader c = Some r \<and> reader_idle r \<and> unread r = [] \<and> rd_len r < 2 ^ 30)"

lemma blockForReply_exchange:
  assumes "\<forall>n. granted M n" and "resp_ok (lc_strtod L) v" and "not_push v"
    and "has_flag c REDIS_BLOCK" and "rc_err c = 0" and "rc_obuf c = Some b" and "sds_wf b" and "sdsval b = cmd"
    and "length cmd < 2 ^ 31" and "rc_reader c = Some r" and "reader_idle r" and "unread r = []"
    and "concat ds = encode v" and "\<forall>d \<in> set ds. d \<noteq> [] \<and> length d \<le> 16384"
    and "rd_len r + length (encode v) < 2 ^ 31"
    and "sum_list ns = length cmd" and "0 \<notin> set ns" and "oracle_gives w (map ret_send ns @ map ret_recv ds @ rs)"
  obtains e r' w' where "redisBlockForReply (redisContextDefaultFuncs L) L M (c, h, w)
      = Some (Ref (length h), c\<lparr>rc_obuf := Some e, rc_reader := Some r'\<rparr>, h @ layout (length h) v, w')"
    and "sds_wf e" and "sdsval e = []" and "reader_idle r'" and "unread r' = []" and "rd_len r' < 1024"
    and "sent_bytes w' = sent_bytes w @ cmd" and "oracle_gives w' rs"
proof -
  let ?F = "redisContextDefaultFuncs L"
  have ne: "concat ds \<noteq> []" using assms(13) encode_nonempty by simp
  have aw: "awaits (lc_strtod L) M v h (concat ds) (r, h)" unfolding assms(13) by (rule awaits_idle [OF assms(1,2,11,12)])
  obtain r1 h1 where g: "redisReaderGetReply (lc_strtod L) (\<lambda>_. M) True (r, h) = Some (REDIS_OK, NULL, r1, h1)"
    "awaits (lc_strtod L) M v h (concat ds) (r1, h1)" "rd_len r1 \<le> rd_len r"
    by (rule awaits_none [OF aw ne])
  let ?c1 = "c\<lparr>rc_reader := Some r1\<rparr>"
  have from_reader: "redisGetReplyFromReader L M (c, h, w) = Some (REDIS_OK, NULL, ?c1, h1, w)"
    using assms(10) g(1) by (simp add: redisGetReplyFromReader_def Let_def)
  have len: "sdslen b \<le> SSIZE_MAX" using assms(7-9) length_sdsval [OF assms(7)] by (simp add: SSIZE_MAX_def)
  have ns: "sum_list ns = length (sdsval b)" using assms(8,16) by simp
  have c1: "rc_obuf ?c1 = Some b" "rc_err ?c1 = 0" using assms(5,6) by simp_all
  obtain e w1 where wr: "write_all ?F M (?c1, h1, w) = Some (REDIS_OK, ?c1\<lparr>rc_obuf := Some e\<rparr>, h1, w1)"
    "sds_wf e" "sdsval e = []" "sent_bytes w1 = sent_bytes w @ sdsval b" "oracle_gives w1 (map ret_recv ds @ rs)"
    by (rule write_all_sends [OF assms(1) ns assms(17) c1(1) assms(7) len c1(2) assms(18)])
  let ?c2 = "?c1\<lparr>rc_obuf := Some e\<rparr>"
  have c2: "rc_err ?c2 = 0" "rc_reader ?c2 = Some r1" using assms(5) by simp_all
  have bound: "rd_len r1 + length (concat ds) < 2 ^ 31" using g(3) assms(13,15) by simp
  have ds: "ds \<noteq> []" using ne by auto
  obtain r2 w2 where rd: "read_reply ?F L M (?c2, h1, w1)
      = Some (REDIS_OK, Ref (length h), ?c2\<lparr>rc_reader := Some r2\<rparr>, h @ layout (length h) v, w2)"
    "reader_idle r2" "unread r2 = []" "rd_len r2 < 1024" "oracle_gives w2 rs" "sent_bytes w2 = sent_bytes w1"
    by (rule read_reply_chunks [OF assms(1,3) ds assms(14) wr(5) c2 g(2) bound])
  have "has_flag ?c1 REDIS_BLOCK" using assms(4) by (simp add: has_flag_def)
  then have "redisGetReply ?F L M True (c, h, w)
      = Some (REDIS_OK, Ref (length h), ?c2\<lparr>rc_reader := Some r2\<rparr>, h @ layout (length h) v, w2)"
    using from_reader wr(1) rd(1) by (simp add: redisGetReply_def Let_def)
  then have "redisBlockForReply ?F L M (c, h, w) = Some (Ref (length h), ?c2\<lparr>rc_reader := Some r2\<rparr>, h @ layout (length h) v, w2)"
    using assms(4) by (simp add: redisBlockForReply_def)
  then show ?thesis using wr rd assms(8) by (intro that [of r2 e w2]) simp_all
qed

lemma appendCommand_words:
  assumes "\<forall>n. granted M n" and "ws \<noteq> []" and "\<forall>w \<in> set ws. word_ok w" and "NUL \<notin> set (words_fmt ws)"
    and "cmd = command_text (map (word_val render) ws)" and "length cmd + 1 < 2 ^ 31"
    and "rc_obuf c = Some b" and "sds_wf b" and "sdslen b < 2 ^ 31"
  obtains b' where "redisvAppendCommand render M (words_fmt ws) (concat (map word_ap ws)) c = Some (REDIS_OK, c\<lparr>rc_obuf := Some b'\<rparr>)"
    and "sds_wf b'" and "sdsval b' = sdsval b @ cmd"
proof -
  have f: "redisvFormatCommand render M (words_fmt ws) (concat (map word_ap ws)) = Some (Inr (int (length cmd), cmd @ [NUL]))"
    using words_command [OF assms(1-4) refl] assms(5,6) by simp
  obtain b' where b': "sdscatlen M b cmd = Some b'" using sdscatlen_granted [OF assms(1)] by blast
  have "sds_wf b' \<and> sdsval b' = sdsval b @ cmd" using sdscatlen_wf [OF assms(8) b'] assms(6,9) by simp
  with f b' assms(7) that show ?thesis by (simp add: redisvAppendCommand_def redisAppendCommand_raw_def)
qed

section \<open>Descriptors\<close>

lemma init_held: "redisContextInit M = Some c \<Longrightarrow> open_fds w = {} \<Longrightarrow> held (c, w) \<and> rc_fd c = REDIS_INVALID_FD"
  by (auto simp: redisContextInit_def Let_def held_def split: if_splits)

lemma fd_options: "rc_fd (apply_options opts c) = rc_fd c"
  by (simp add: apply_options_def Let_def redisSetPushCallback_def)

lemma fd_timeouts: "set_timeouts M opts c = Some (ok, c') \<Longrightarrow> rc_fd c' = rc_fd c"
  by (auto simp: set_timeouts_def redisContextUpdateConnectTimeout_def redisContextUpdateCommandTimeout_def
      split: option.splits if_splits)

lemma held_command_timeout: "held s \<Longrightarrow> held (apply_command_timeout L t s)"
  using held_setTimeout [of s L] by (cases s) (simp add: apply_command_timeout_def split: option.split)

lemma connect_held:
  assumes "open_fds w = {}" and "\<forall>fd. op_endpoint opts \<noteq> EpFd fd"
    and "redisConnectWithOptions L M opts w = Some (Some c, w')"
  shows "held (c, w')"
proof -
  obtain c0 where c0: "redisContextInit M = Some c0" using assms(3) by (auto simp: redisConnectWithOptions_def split: option.splits)
  obtain ok c1 where c1: "set_timeouts M opts (apply_options opts c0) = Some (ok, c1)"
    using assms(3) c0 by (auto simp: redisConnectWithOptions_def split: option.splits)
  have fd: "rc_fd c1 = REDIS_INVALID_FD"
    using fd_timeouts [OF c1] fd_options [of opts c0] init_held [OF c0 assms(1)] by simp
  then have h1: "held (c1, w)" using assms(1) by (simp add: held_def)
  show ?thesis
  proof (cases ok)
    case False
    with assms(3) c0 c1 h1 show ?thesis by (auto simp: redisConnectWithOptions_def held_def)
  next
    case True
    have fin: "held (c, w')" if "held s" and "(case apply_command_timeout L (op_command_timeout opts) s of (c, w) \<Rightarrow> Some (Some c, w)) = Some (Some c, w')" for s
      using held_command_timeout [OF that(1), of L "op_command_timeout opts"] that(2) by (auto split: prod.splits)
    show ?thesis
    proof (cases "op_endpoint opts")
      case (EpTcp ip port src)
      with assms(3) c0 c1 True obtain rc s where "redisContextConnectBindTcp L M False (Some ip) port (op_connect_timeout opts) src (c1, w) = Some (rc, s)"
        "(case apply_command_timeout L (op_command_timeout opts) s of (c, w) \<Rightarrow> Some (Some c, w)) = Some (Some c, w')"
        by (auto simp: redisConnectWithOptions_def Let_def split: option.splits)
      moreover from this(1) have "held s" by (rule held_connectTcp [OF h1, rotated]) (simp add: fd)
      ultimately show ?thesis by (intro fin)
    next
      case (EpUnix path)
      with assms(3) c0 c1 True obtain rc s where "redisContextConnectUnix L M False path (op_connect_timeout opts) (c1, w) = Some (rc, s)"
        "(case apply_command_timeout L (op_command_timeout opts) s of (c, w) \<Rightarrow> Some (Some c, w)) = Some (Some c, w')"
        by (auto simp: redisConnectWithOptions_def Let_def split: option.splits)
      moreover from this(1) have "held s" by (rule held_connectUnix [OF h1, rotated]) (simp add: fd)
      ultimately show ?thesis by (intro fin)
    next
      case (EpFd fd)
      with assms(2) show ?thesis by simp
    next
      case EpUnknown
      with assms(3) c0 c1 True show ?thesis by (simp add: redisConnectWithOptions_def)
    qed
  qed
qed

lemma free_closes:
  assumes "held (c, w)" and "redisFree (c, h, w) = Some (h', w')" shows "open_fds w' = {}"
proof -
  obtain c1 w1 where c: "redisNetClose (c, w) = (c1, w1)" by (meson surj_pair)
  have "open_fds w1 = {}" using held_close [OF assms(1)] c by (simp add: held_def)
  with assms(2) c show ?thesis by (auto simp: redisFree_def split: option.splits)
qed

section \<open>Properties\<close>

lemma fresh_context:
  obtains c b r where "redisContextInit mem_ok = Some c" "rc_err c = 0" "rc_obuf c = Some b" "sds_wf b" "sdsval b = []"
    "rc_reader c = Some r" "reader_idle r" "unread r = []" "rd_len r = 0" "rc_fd c = REDIS_INVALID_FD" "rc_flags c = 0"
proof -
  obtain b where b: "sdsempty mem_ok = Some b" using sdsnewlen_granted [of mem_ok "Some []" 0] by (auto simp: sdsempty_def)
  obtain r where r: "redisReaderCreateWithFunctions mem_ok (Some defaultFunctions) = Some r"
    using create_granted [of mem_ok] by auto
  have "reader_idle r" "unread r = []" "rd_len r = 0" using create_ready [OF r] by (simp_all add: reader_idle_def)
  moreover obtain c where "redisContextInit mem_ok = Some c" "rc_err c = 0" "rc_obuf c = Some b" "rc_reader c = Some r"
    "rc_fd c = REDIS_INVALID_FD" "rc_flags c = 0"
    by (simp add: redisContextInit_def redisReaderCreate_def Let_def b r)
  ultimately show ?thesis using sdsempty_wf [OF b] by (intro that [of c b r]) simp_all
qed

definition no_libc :: libc where
  "no_libc = \<lparr>lc_strerror = (\<lambda>_. ''error''), lc_gai_strerror = (\<lambda>_. ''error''), lc_strtod = no_strtod\<rparr>"

definition os_of :: "sysret list \<Rightarrow> os" where
  "os_of rs = \<lparr>os_oracle = (\<lambda>n. if n < length rs then rs ! n else ret_send 0), os_trace = [], os_errno = None\<rparr>"

lemma os_of_gives: "oracle_gives (os_of rs) rs" "sent_bytes (os_of rs) = []" "open_fds (os_of rs) = {}"
  by (simp_all add: oracle_gives_def os_of_def sent_bytes_def open_fds_def)

definition ret_addrs :: "addrinfo list \<Rightarrow> sysret" where
  "ret_addrs as = \<lparr>sr_val = 0, sr_errno = EINTR, sr_data = [], sr_addrs = as, sr_soerr = None\<rparr>"

text \<open>C22: The output stream is never corrupted: whatever part of the buffer \<open>send\<close> accepts and whatever
  error it reports, the bytes already accepted followed by the bytes still in the buffer are
  exactly the bytes that were queued, in order, nothing lost and nothing sent twice; \<open>done\<close> is
  reported exactly when the buffer is empty. The one exception is a lost empty buffer after
  everything has been sent, when memory is exhausted, which is reported.\<close>

theorem redisBufferWrite_stream:
  assumes "rc_obuf c = Some b" and "sds_wf b" and "sdslen b \<le> SSIZE_MAX" and "rc_err c = 0"
  shows "\<exists>rc wdone c' w'. redisBufferWrite (redisContextDefaultFuncs L) M (c, h, w) = Some (rc, wdone, c', h, w')
    \<and> (case rc_obuf c' of
         Some b' \<Rightarrow> sent_bytes w' @ sdsval b' = sent_bytes w @ sdsval b \<and> (rc = REDIS_OK \<longrightarrow> (wdone \<longleftrightarrow> sdsval b' = []))
       | None \<Rightarrow> sent_bytes w' = sent_bytes w @ sdsval b \<and> rc = REDIS_ERR \<and> rc_err c' = REDIS_ERR_OOM)"
  by (rule net_transport.bufferWrite_stream [OF assms, of L M h w]) (use assms in \<open>auto simp: same_but_err_obuf\<close>)

theorem redisBufferWrite_stream_witness:
  "\<exists>c b rc wdone c' w'. redisContextInit mem_ok = Some c \<and> rc_obuf c = Some b \<and>
    redisBufferWrite (redisContextDefaultFuncs no_libc) mem_ok (c, [], os_of []) = Some (rc, wdone, c', [], w')"
proof -
  obtain c b where c: "redisContextInit mem_ok = Some c" "rc_err c = 0" "rc_obuf c = Some b" "sds_wf b" "sdsval b = []"
    by (rule fresh_context)
  have "sdslen b \<le> SSIZE_MAX" using length_sdsval [OF c(4)] c(5) by simp
  from redisBufferWrite_stream [OF c(3,4) this c(2), of no_libc mem_ok "[]" "os_of []"] c show ?thesis by blast
qed

text \<open>C23: No descriptor is leaked: after any attempt to connect over TCP or a Unix socket (any number of
  addresses, retries, failing calls in any place) at most the descriptor stored in the context
  is open, and releasing the context closes it.\<close>

theorem connect_no_leak:
  assumes "open_fds w = {}" and "\<forall>fd. op_endpoint opts \<noteq> EpFd fd"
    and "redisConnectWithOptions L M opts w = Some (Some c, w')" and "redisFree (c, h, w') = Some (h', w'')"
  shows "open_fds w' \<subseteq> {rc_fd c} \<and> open_fds w'' = {}"
  using connect_held [OF assms(1-3)] free_closes [OF connect_held [OF assms(1-3)] assms(4)]
  by (simp add: held_def split: if_splits)

text \<open>One successful connection to the only address of a host.\<close>

lemma tcp_run_example:
  assumes "oracle_gives w (ret_addrs [\<lparr>ai_family = AF_INET, ai_addr = a\<rparr>] # ret_send 5 # replicate 5 (ret_send 0))"
    and "has_flag c REDIS_BLOCK" and "rc_source_addr c = None" and "\<forall>n. granted M n"
  shows "\<exists>w' c'. tcp_run L M msec (c, w) = (REDIS_OK, c', w') \<and> rc_fd c' = 5 \<and> rc_reader c' = rc_reader c
    \<and> rc_command_timeout c' = rc_command_timeout c"
proof -
  obtain w1 where w1: "sys (SysGetaddrinfo (rc_host c) (take 5 (dec_int (rc_port c))) AF_INET) w
      = (ret_addrs [\<lparr>ai_family = AF_INET, ai_addr = a\<rparr>], w1)" "oracle_gives w1 (ret_send 5 # replicate 5 (ret_send 0))"
    using oracle_sys [OF assms(1)] by metis
  obtain w2 where w2: "sys (SysSocket AF_INET) w1 = (ret_send 5, w2)" "oracle_gives w2 (ret_send 0 # replicate 4 (ret_send 0))"
    using oracle_sys [OF w1(2)] by (metis eval_nat_numeral(3) replicate_Suc semiring_norm(26,27,28))
  obtain w3 where w3: "sys (SysGetfl 5) w2 = (ret_send 0, w3)" "oracle_gives w3 (ret_send 0 # replicate 3 (ret_send 0))"
    using oracle_sys [OF w2(2)] by (metis eval_nat_numeral(2) replicate_Suc semiring_norm(26,27,28))
  obtain w4 where w4: "sys (SysSetfl 5 O_NONBLOCK) w3 = (ret_send 0, w4)" "oracle_gives w4 (ret_send 0 # replicate 2 (ret_send 0))"
    using oracle_sys [OF w3(2)] by (metis eval_nat_numeral(3) replicate_Suc semiring_norm(26,27,28))
  obtain w5 where w5: "sys (SysConnect 5 a) w4 = (ret_send 0, w5)" "oracle_gives w5 [ret_send 0, ret_send 0]"
    using oracle_sys [OF w4(2)] by (metis numeral_2_eq_2 replicate_0 replicate_Suc)
  obtain w6 where w6: "sys (SysGetfl 5) w5 = (ret_send 0, w6)" "oracle_gives w6 [ret_send 0]"
    using oracle_sys [OF w5(2)] by metis
  obtain w7 where w7: "sys (SysSetfl 5 0) w6 = (ret_send 0, w7)"
    using oracle_sys [OF w6(2)] by metis
  have v: "sr_val (ret_send n) = int n" "sr_val (ret_addrs as) = 0" "sr_addrs (ret_addrs as) = as" for n as
    by (simp_all add: ret_send_def ret_addrs_def)
  have b1: "redisSetBlocking L False (x\<lparr>rc_fd := 5\<rparr>, w2) = (REDIS_OK, x\<lparr>rc_fd := 5\<rparr>, w4)" for x
    using w3(1) w4(1) by (simp add: redisSetBlocking_def v)
  have b2: "redisSetBlocking L True (x, w5) = (REDIS_OK, x, w7)" if "rc_fd x = 5" for x
    using w6(1) w7(1) that by (simp add: redisSetBlocking_def v)
  let ?c = "c\<lparr>rc_fd := 5, rc_saddr := Some a\<rparr>"
  have "conn_addr L M True ra AF_INET msec 0 \<lparr>ai_family = AF_INET, ai_addr = a\<rparr> (c, w1)
      = (Exit ConnEnd, ?c\<lparr>rc_flags := rc_flags c OR REDIS_CONNECTED\<rparr>, w7)" for ra
    using w2(1) w5(1) assms(3,4) b1 b2 [of ?c]
    by (simp add: conn_addr_def v REDIS_INVALID_FD_def conn_try_def conn_done_def)
  then show ?thesis
    using w1(1) assms(2) by (simp add: tcp_run_def tcp_resolve_def v conn_loop.simps(2))
qed

definition os_connects :: os where
  "os_connects = os_of (ret_addrs [\<lparr>ai_family = AF_INET, ai_addr = ''a''\<rparr>] # ret_send 5 # replicate 5 (ret_send 0))"

lemma connect_example:
  "\<exists>c w' r. redisConnect no_libc mem_ok ''h'' 6379 os_connects = Some (Some c, w')
    \<and> rc_fd c = 5 \<and> rc_reader c = Some r \<and> reader_idle r \<and> rd_reply r = NULL"
proof -
  obtain b where b: "sdsempty mem_ok = Some b" using sdsnewlen_granted [of mem_ok "Some []" 0] by (auto simp: sdsempty_def)
  obtain r where r: "redisReaderCreateWithFunctions mem_ok (Some defaultFunctions) = Some r"
    using create_granted [of mem_ok] by auto
  define c where "c = \<lparr>rc_err = 0, rc_errstr = [], rc_fd = REDIS_INVALID_FD, rc_flags = 0, rc_obuf = Some b,
    rc_reader = Some r, rc_connection_type = REDIS_CONN_TCP, rc_connect_timeout = None, rc_command_timeout = None,
    rc_host = None, rc_source_addr = None, rc_port = 0, rc_path = None, rc_saddr = None, rc_push_cb = None\<rparr>"
  have i: "redisContextInit mem_ok = Some c" by (simp add: redisContextInit_def redisReaderCreate_def Let_def b r c_def)
  define c1 where "c1 = c\<lparr>rc_flags := REDIS_BLOCK, rc_push_cb := Some redisPushAutoFree\<rparr>"
  have o: "set_timeouts mem_ok (tcp_options ''h'' 6379) (apply_options (tcp_options ''h'' 6379) c) = Some (True, c1)"
    by (simp add: set_timeouts_def apply_options_def tcp_options_def redisSetPushCallback_def Let_def c1_def c_def
        redisContextUpdateConnectTimeout_def redisContextUpdateCommandTimeout_def)
  define c2 where "c2 = c1\<lparr>rc_host := Some ''h'', rc_port := 6379\<rparr>"
  have p: "tcp_prepare mem_ok False (Some ''h'') 6379 None None c1 = Some (Inr (c2, -1))"
    by (simp add: tcp_prepare_def tcp_timeout_def redisContextTimeoutMsec_def tcp_source_def Let_def c1_def c2_def c_def cstr_def)
  have "oracle_gives os_connects (ret_addrs [\<lparr>ai_family = AF_INET, ai_addr = ''a''\<rparr>] # ret_send 5 # replicate 5 (ret_send 0))"
    unfolding os_connects_def by (rule os_of_gives)
  moreover have "has_flag c2 REDIS_BLOCK" "rc_source_addr c2 = None" "rc_reader c2 = Some r" "rc_command_timeout c2 = None"
    by (simp_all add: c2_def c1_def c_def has_flag_def REDIS_BLOCK_def)
  ultimately obtain w' c3 where x: "tcp_run no_libc mem_ok (-1) (c2, os_connects) = (REDIS_OK, c3, w')"
    "rc_fd c3 = 5" "rc_reader c3 = Some r" "rc_command_timeout c3 = None"
    using tcp_run_example [of os_connects "''a''" c2 mem_ok no_libc "-1"] by auto
  have "redisConnect no_libc mem_ok ''h'' 6379 os_connects = Some (Some c3, w')"
    using i o p x by (simp add: redisConnect_def redisConnectWithOptions_def Let_def apply_command_timeout_def
        redisContextConnectBindTcp_def tcp_options_def)
  with x create_ready [OF r] show ?thesis by (auto simp: reader_idle_def)
qed

theorem connect_no_leak_witness:
  "\<exists>c w' h' w''. redisConnect no_libc mem_ok ''h'' 6379 os_connects = Some (Some c, w')
    \<and> rc_fd c = 5 \<and> redisFree (c, [], w') = Some (h', w'') \<and> open_fds w'' = {}"
proof -
  have o: "open_fds os_connects = {}" unfolding os_connects_def by (rule os_of_gives)
  obtain c w' r where c: "redisConnect no_libc mem_ok ''h'' 6379 os_connects = Some (Some c, w')" "rc_fd c = 5"
    "rc_reader c = Some r" "rd_reply r = NULL" using connect_example by blast
  obtain c1 w1 where n: "redisNetClose (c, w') = (c1, w1)" by (meson surj_pair)
  then have "rc_reader c1 = Some r" using c(3) by (auto simp: redisNetClose_def split: if_splits)
  then have f: "redisFree (c, [], w') = Some ([], w1)" using n c(4) by (simp add: redisFree_def redisReaderFree_def)
  have "\<forall>fd. op_endpoint (tcp_options ''h'' 6379) \<noteq> EpFd fd" by (simp add: tcp_options_def)
  from connect_no_leak [OF o this c(1) [unfolded redisConnect_def] f] c(1,2) f show ?thesis by auto
qed

text \<open>C34: An interrupted \<open>send\<close> looks like a failure without a reason: \<open>redisNetWrite\<close> means to try again
  later but returns -1, so \<open>redisGetReply\<close> gives up with \<open>REDIS_ERR\<close> while the error field of the
  connection is still 0.\<close>

theorem redisGetReply_interrupted:
  assumes "has_flag c REDIS_BLOCK" and "rc_err c = 0" and "rc_obuf c = Some b" and "0 < sdslen b"
    and "rc_reader c = Some r" and "rd_err r = 0" and "rd_len r = 0"
    and "oracle_gives w [e]" and "sr_val e = -1" and "sr_errno e = EINTR"
  shows "\<exists>c' w'. redisGetReply (redisContextDefaultFuncs L) L M True (c, h, w) = Some (REDIS_ERR, NULL, c', h, w') \<and> rc_err c' = 0"
proof -
  obtain w1 where w1: "sys (SysSend (rc_fd c) (take (sdslen b) (sds_buf b))) w = (e, w1)" "os_errno w1 = Some EINTR"
    using oracle_sys [OF assms(8)] assms(9,10) by metis
  have "redisGetReplyFromReader L M (c, h, w) = Some (REDIS_OK, NULL, c, h, w)"
    using assms(5-7) by (simp add: redisGetReplyFromReader_def redisReaderGetReply_def Let_def)
  moreover have "redisBufferWrite (redisContextDefaultFuncs L) M (c, h, w) = Some (REDIS_ERR, False, c, h, w1)"
    using assms w1 by (simp add: redisBufferWrite_def redisContextDefaultFuncs_def redisNetWrite_def Let_def)
  then have "write_all (redisContextDefaultFuncs L) M (c, h, w) = Some (REDIS_ERR, c, h, w1)"
    by (subst write_all.simps) simp
  ultimately show ?thesis using assms(1,2) by (simp add: redisGetReply_def Let_def)
qed

theorem redisGetReply_interrupted_witness:
  "\<exists>c b c' w'. redisContextInit mem_ok = Some c \<and> sds_wf b \<and> sdsval b = ''x'' \<and>
    redisGetReply (redisContextDefaultFuncs no_libc) no_libc mem_ok True
      (c\<lparr>rc_flags := REDIS_BLOCK, rc_obuf := Some b\<rparr>, [], os_of [(ret_send 0)\<lparr>sr_val := -1\<rparr>])
      = Some (REDIS_ERR, NULL, c', [], w') \<and> rc_err c' = 0"
proof -
  obtain c b r where c: "redisContextInit mem_ok = Some c" "rc_err c = 0" "sds_wf b" "sdsval b = []" "rc_reader c = Some r"
    "reader_idle r" "rd_len r = 0"
    by (rule fresh_context)
  obtain b' where b': "sdscatlen mem_ok b ''x'' = Some b'" using sdscatlen_granted [of mem_ok] by (metis mem_ok_granted not_None_eq)
  have w: "sds_wf b'" "sdsval b' = ''x''" "sdslen b' = 1"
    using sdscatlen_wf [OF c(3) b'] length_sdsval [OF c(3)] c(4) by simp_all
  let ?c = "c\<lparr>rc_flags := REDIS_BLOCK, rc_obuf := Some b'\<rparr>" and ?e = "(ret_send 0)\<lparr>sr_val := -1\<rparr>"
  have h: "has_flag ?c REDIS_BLOCK" "rc_err ?c = 0" "rc_obuf ?c = Some b'" "0 < sdslen b'" "rc_reader ?c = Some r" "rd_err r = 0"
    using c(2,5,6) w(3) by (simp_all add: has_flag_def REDIS_BLOCK_def reader_idle_def reader_ready_def)
  have e: "sr_val ?e = -1" "sr_errno ?e = EINTR" by (simp_all add: ret_send_def)
  from redisGetReply_interrupted [OF h c(7) os_of_gives(1) e, of no_libc mem_ok "[]"] c(1) w show ?thesis by blast
qed

end
