(* ===== verification/Async.thy ===== *)
theory Async
  imports Context Dict
begin

text \<open>
  The asynchronous interface of \<open>src/src/hiredis/async.c\<close>: the queue of callbacks, subscriptions in
  two hash tables, the handlers an event loop calls, and the state machine of disconnecting and
  freeing. A context that has been freed is gone from the state, so a handler cannot use it
  again. \<open>None\<close> is a failed assertion, an invalid memory access, or a loop that never ends.
\<close>

section \<open>User code\<close>

text \<open>
  A reply callback is a program of calls to the interface that may look at the results of its
  calls; it ends with a new state of the user. \<open>'f\<close> identifies functions, \<open>'p\<close> private data.
\<close>

datatype ('f, 'p, 'u) prog =
    Return 'u
  | Command "'f option" "'p option" bytes nat "int \<Rightarrow> ('f, 'p, 'u) prog"
  | Disconnect "('f, 'p, 'u) prog"
  | Free "('f, 'p, 'u) prog"
  | SetTimeout timeval "int \<Rightarrow> ('f, 'p, 'u) prog"
  | SetPush "'f option" "'f option \<Rightarrow> ('f, 'p, 'u) prog"

section \<open>State\<close>

record ('f, 'p) redisCallback =
  cb_fn :: "'f option"
  cb_pending_subs :: int
  cb_privdata :: "'p option"

text \<open>The hooks of the event library that are set.\<close>

record ev_hooks =
  ev_addRead :: bool
  ev_addWrite :: bool
  ev_delWrite :: bool
  ev_cleanup :: bool
  ev_scheduleTimer :: bool

text \<open>A singly linked list with head and tail pointer is the list of its callbacks. A value in the
  tables of subscriptions is a pointer to a callback, which may be NULL (\<open>None\<close>).\<close>

type_synonym ('f, 'p) callbacks = "('f, 'p) redisCallback list"
type_synonym ('f, 'p) subs = "(bytes, ('f, 'p) redisCallback option) dict"

record ('f, 'p) redisAsyncContext =
  ac_c :: redisContext
  ac_err :: int
  ac_errstr :: "bytes option"
  ac_dataCleanup :: bool
  ac_ev :: ev_hooks
  ac_onDisconnect :: "'f option"
  ac_onConnect :: "'f option"
  ac_replies :: "('f, 'p) callbacks"
  ac_invalid :: "('f, 'p) callbacks"
  ac_channels :: "('f, 'p) subs"
  ac_patterns :: "('f, 'p) subs"
  ac_push_cb :: "'f option"

text \<open>Calls into user code and the event library, in order. A callback is shown with the heap and the
  reply it is given. \<open>Issued\<close> marks a command that was accepted with \<open>REDIS_OK\<close>.\<close>

datatype ('f, 'p) event =
    Called 'f heap ptr "'p option"
  | Pushed 'f heap ptr
  | OnConnect 'f int
  | OnDisconnect 'f int
  | Issued "'f option" "'p option"
  | AddRead | AddWrite | DelWrite | Cleanup | DataCleanup
  | ScheduleTimer timeval
  | Released

record ('f, 'p, 'u) world =
  wd_heap :: heap
  wd_os :: os
  wd_user :: 'u
  wd_log :: "('f, 'p) event list"

text \<open>What stays fixed during a run: transport, C library, allocator, and the user's functions for
  replies and for push messages.\<close>

record ('f, 'p, 'u) runtime =
  en_funcs :: "os redisContextFuncs"
  en_libc :: libc
  en_mem :: mem
  en_fn :: "'f \<Rightarrow> heap \<Rightarrow> ptr \<Rightarrow> 'p option \<Rightarrow> 'u \<Rightarrow> ('f, 'p, 'u) prog"
  en_push :: "'f \<Rightarrow> heap \<Rightarrow> ptr \<Rightarrow> 'u \<Rightarrow> ('f, 'p, 'u) prog"

type_synonym ('f, 'p, 'u) astate = "('f, 'p) redisAsyncContext \<times> ('f, 'p, 'u) world"

text \<open>A context that may have been freed.\<close>

type_synonym ('f, 'p, 'u) mstate = "('f, 'p) redisAsyncContext option \<times> ('f, 'p, 'u) world"

abbreviation on_c :: "(redisContext \<Rightarrow> redisContext) \<Rightarrow> ('f, 'p) redisAsyncContext \<Rightarrow> ('f, 'p) redisAsyncContext" where
  "on_c f ac \<equiv> ac\<lparr>ac_c := f (ac_c ac)\<rparr>"

definition emit :: "('f, 'p) event \<Rightarrow> ('f, 'p, 'u) world \<Rightarrow> ('f, 'p, 'u) world" where
  "emit e g = g\<lparr>wd_log := wd_log g @ [e]\<rparr>"

definition set_flag :: "32 word \<Rightarrow> ('f, 'p) redisAsyncContext \<Rightarrow> ('f, 'p) redisAsyncContext" where
  "set_flag f ac = on_c (\<lambda>c. c\<lparr>rc_flags := rc_flags c OR f\<rparr>) ac"

definition clear_flag :: "32 word \<Rightarrow> ('f, 'p) redisAsyncContext \<Rightarrow> ('f, 'p) redisAsyncContext" where
  "clear_flag f ac = on_c (\<lambda>c. c\<lparr>rc_flags := rc_flags c AND NOT f\<rparr>) ac"

definition flag :: "('f, 'p) redisAsyncContext \<Rightarrow> 32 word \<Rightarrow> bool" where
  "flag ac f \<longleftrightarrow> has_flag (ac_c ac) f"

section \<open>The event library\<close>

definition refreshTimeout :: "('f, 'p, 'u) astate \<Rightarrow> ('f, 'p, 'u) world" where
  "refreshTimeout = (\<lambda>(ac, g).
     case (if flag ac REDIS_CONNECTED then rc_command_timeout (ac_c ac) else rc_connect_timeout (ac_c ac)) of
       None \<Rightarrow> g
     | Some tv \<Rightarrow> if ev_scheduleTimer (ac_ev ac) \<and> (tv_sec tv \<noteq> 0 \<or> tv_usec tv \<noteq> 0) then emit (ScheduleTimer tv) g else g)"

definition el_add_read :: "('f, 'p, 'u) astate \<Rightarrow> ('f, 'p, 'u) astate" where
  "el_add_read = (\<lambda>(ac, g). let g = refreshTimeout (ac, g)
     in (ac, if ev_addRead (ac_ev ac) then emit AddRead g else g))"

definition el_add_write :: "('f, 'p, 'u) astate \<Rightarrow> ('f, 'p, 'u) astate" where
  "el_add_write = (\<lambda>(ac, g). let g = refreshTimeout (ac, g)
     in (ac, if ev_addWrite (ac_ev ac) then emit AddWrite g else g))"

definition el_del_write :: "('f, 'p, 'u) astate \<Rightarrow> ('f, 'p, 'u) astate" where
  "el_del_write = (\<lambda>(ac, g). (ac, if ev_delWrite (ac_ev ac) then emit DelWrite g else g))"

definition el_cleanup :: "('f, 'p, 'u) astate \<Rightarrow> ('f, 'p, 'u) astate" where
  "el_cleanup = (\<lambda>(ac, g). (ac\<lparr>ac_ev := (ac_ev ac)\<lparr>ev_cleanup := False\<rparr>\<rparr>,
     if ev_cleanup (ac_ev ac) then emit Cleanup g else g))"

section \<open>Subscriptions\<close>

definition sizeof_redisCallback :: nat where "sizeof_redisCallback = 32"

definition callbackHash :: "bytes \<Rightarrow> nat" where
  "callbackHash key = unat (dictGenHashFunction key)"

definition callbackValDup :: "mem \<Rightarrow> ('f, 'p) redisCallback option \<Rightarrow> ('f, 'p) redisCallback option" where
  "callbackValDup M src = (if granted M sizeof_redisCallback then src else None)"

text \<open>The lengths are cut to \<open>int\<close>.\<close>

definition callbackKeyCompare :: "bytes \<Rightarrow> bytes \<Rightarrow> bool" where
  "callbackKeyCompare key1 key2 =
     (let l1 = sbits 32 (int (length key1)); l2 = sbits 32 (int (length key2))
      in if l1 \<noteq> l2 then False else memcmp (take (nat l1) key1) (take (nat l1) key2) = 0)"

definition callbackDict :: "mem \<Rightarrow> (bytes, ('f, 'p) redisCallback option) dictType" where
  "callbackDict M = \<lparr>dt_hashFunction = callbackHash, dt_keyDup = None, dt_valDup = Some (callbackValDup M),
     dt_keyCompare = Some callbackKeyCompare, dt_keyDestructor = True, dt_valDestructor = True\<rparr>"

section \<open>Creation\<close>

definition sizeof_redisAsyncContext :: nat where "sizeof_redisAsyncContext = 528"

definition redisAsyncInitialize :: "mem \<Rightarrow> redisContext \<Rightarrow> ('f, 'p) redisAsyncContext option" where
  "redisAsyncInitialize M c =
     (case dictCreate M (callbackDict M) of
        None \<Rightarrow> None
      | Some channels \<Rightarrow>
          (case dictCreate M (callbackDict M) of
             None \<Rightarrow> None
           | Some patterns \<Rightarrow>
               if \<not> granted M sizeof_redisAsyncContext then None
               else Some \<lparr>ac_c = c\<lparr>rc_flags := rc_flags c AND NOT REDIS_CONNECTED\<rparr>, ac_err = 0, ac_errstr = None,
                 ac_dataCleanup = False,
                 ac_ev = \<lparr>ev_addRead = False, ev_addWrite = False, ev_delWrite = False, ev_cleanup = False,
                          ev_scheduleTimer = False\<rparr>,
                 ac_onDisconnect = None, ac_onConnect = None, ac_replies = [], ac_invalid = [],
                 ac_channels = channels, ac_patterns = patterns, ac_push_cb = None\<rparr>))"

text \<open>\<open>errstr\<close> points to the buffer in the connection.\<close>

definition redisAsyncCopyError :: "('f, 'p) redisAsyncContext \<Rightarrow> ('f, 'p) redisAsyncContext" where
  "redisAsyncCopyError ac = ac\<lparr>ac_err := rc_err (ac_c ac), ac_errstr := Some (rc_errstr (ac_c ac))\<rparr>"

definition redisAsyncSetPushCallback ::
  "('f, 'p) redisAsyncContext \<Rightarrow> 'f option \<Rightarrow> 'f option \<times> ('f, 'p) redisAsyncContext" where
  "redisAsyncSetPushCallback ac fn = (ac_push_cb ac, ac\<lparr>ac_push_cb := fn\<rparr>)"

text \<open>The asynchronous push handler is an option of its own; the synchronous one is dropped. When the
  context cannot be made the connection is released on the heap \<open>h\<close>.\<close>

definition redisAsyncConnectWithOptions ::
  "libc \<Rightarrow> mem \<Rightarrow> redisOptions \<Rightarrow> 'f option \<Rightarrow> heap \<times> os \<Rightarrow> (('f, 'p) redisAsyncContext option \<times> heap \<times> os) option" where
  "redisAsyncConnectWithOptions L M opts async_push_cb = (\<lambda>(h, w).
     case redisConnectWithOptions L M
            (opts\<lparr>op_push_cb := None, op_options := op_options opts OR REDIS_OPT_NO_PUSH_AUTOFREE OR REDIS_OPT_NONBLOCK\<rparr>) w of
       None \<Rightarrow> None
     | Some (None, w) \<Rightarrow> Some (None, h, w)
     | Some (Some c, w) \<Rightarrow>
         (case redisAsyncInitialize M c of
            None \<Rightarrow> map_option (\<lambda>s. (None, s)) (redisFree (c, h, w))
          | Some ac \<Rightarrow> Some (Some (redisAsyncCopyError (snd (redisAsyncSetPushCallback ac async_push_cb))), h, w)))"

definition redisAsyncConnect ::
  "libc \<Rightarrow> mem \<Rightarrow> bytes \<Rightarrow> int \<Rightarrow> heap \<times> os \<Rightarrow> (('f, 'p) redisAsyncContext option \<times> heap \<times> os) option" where
  "redisAsyncConnect L M ip port = redisAsyncConnectWithOptions L M (tcp_options ip port) None"

definition redisAsyncConnectBind ::
  "libc \<Rightarrow> mem \<Rightarrow> bytes \<Rightarrow> int \<Rightarrow> bytes option \<Rightarrow> heap \<times> os \<Rightarrow> (('f, 'p) redisAsyncContext option \<times> heap \<times> os) option" where
  "redisAsyncConnectBind L M ip port source_addr =
     redisAsyncConnectWithOptions L M ((tcp_options ip port)\<lparr>op_endpoint := EpTcp ip port source_addr\<rparr>) None"

definition redisAsyncConnectBindWithReuse ::
  "libc \<Rightarrow> mem \<Rightarrow> bytes \<Rightarrow> int \<Rightarrow> bytes option \<Rightarrow> heap \<times> os \<Rightarrow> (('f, 'p) redisAsyncContext option \<times> heap \<times> os) option" where
  "redisAsyncConnectBindWithReuse L M ip port source_addr =
     redisAsyncConnectWithOptions L M ((tcp_options ip port)\<lparr>op_endpoint := EpTcp ip port source_addr,
       op_options := REDIS_OPT_REUSEADDR\<rparr>) None"

definition redisAsyncConnectUnix ::
  "libc \<Rightarrow> mem \<Rightarrow> bytes \<Rightarrow> heap \<times> os \<Rightarrow> (('f, 'p) redisAsyncContext option \<times> heap \<times> os) option" where
  "redisAsyncConnectUnix L M path = redisAsyncConnectWithOptions L M (unix_options path) None"

definition redisAsyncSetConnectCallback :: "'f \<Rightarrow> ('f, 'p, 'u) astate \<Rightarrow> int \<times> ('f, 'p, 'u) astate" where
  "redisAsyncSetConnectCallback fn = (\<lambda>(ac, g).
     if ac_onConnect ac = None then (REDIS_OK, el_add_write (ac\<lparr>ac_onConnect := Some fn\<rparr>, g))
     else (REDIS_ERR, ac, g))"

definition redisAsyncSetDisconnectCallback :: "'f \<Rightarrow> ('f, 'p, 'u) astate \<Rightarrow> int \<times> ('f, 'p, 'u) astate" where
  "redisAsyncSetDisconnectCallback fn = (\<lambda>(ac, g).
     if ac_onDisconnect ac = None then (REDIS_OK, ac\<lparr>ac_onDisconnect := Some fn\<rparr>, g)
     else (REDIS_ERR, ac, g))"

text \<open>An equal timeout is left alone, which is the same as storing it.\<close>

definition redisAsyncSetTimeout :: "mem \<Rightarrow> timeval \<Rightarrow> ('f, 'p) redisAsyncContext \<Rightarrow> int \<times> ('f, 'p) redisAsyncContext" where
  "redisAsyncSetTimeout M tv ac =
     (if rc_command_timeout (ac_c ac) = None \<and> \<not> granted M 16
      then (REDIS_ERR, redisAsyncCopyError (on_c out_of_memory ac))
      else (REDIS_OK, on_c (\<lambda>c. c\<lparr>rc_command_timeout := Some tv\<rparr>) ac))"

section \<open>The callback queues\<close>

definition redisPushCallback :: "mem \<Rightarrow> ('f, 'p) callbacks \<Rightarrow> ('f, 'p) redisCallback \<Rightarrow> int \<times> ('f, 'p) callbacks" where
  "redisPushCallback M list source =
     (if \<not> granted M sizeof_redisCallback then (REDIS_ERR_OOM, list) else (REDIS_OK, list @ [source]))"

text \<open>\<open>None\<close> is the result \<open>REDIS_ERR\<close> for an empty list.\<close>

fun redisShiftCallback :: "('f, 'p) callbacks \<Rightarrow> (('f, 'p) redisCallback \<times> ('f, 'p) callbacks) option" where
  "redisShiftCallback [] = None"
| "redisShiftCallback (cb # list) = Some (cb, list)"

section \<open>Commands\<close>

text \<open>Strings here lie in memory that ends with a NUL, which is not part of the list: the end of the list
  is read as NUL, and what lies behind it may not be read.\<close>

definition char0 :: "bytes \<Rightarrow> char" where
  "char0 s = (case s of [] \<Rightarrow> NUL | c # _ \<Rightarrow> c)"

text \<open>\<open>strchr\<close>: the rest of the string from the first \<open>c\<close> on.\<close>

fun find_char :: "char \<Rightarrow> bytes \<Rightarrow> bytes option" where
  "find_char c [] = None"
| "find_char c (x # s) = (if x = c then Some (x # s) else if x = NUL then None else find_char c s)"

text \<open>\<open>strtol\<close> in base 10.\<close>

definition strtol10 :: "bytes \<Rightarrow> int" where
  "strtol10 s =
     (let s = dropWhile isspace s; neg = char0 s = CHR ''-'';
          s = (if neg \<or> char0 s = CHR ''+'' then tl s else s);
          v = int (digits_val 0 (takeWhile isdigit s))
      in max LLONG_MIN (min LLONG_MAX (if neg then - v else v)))"

text \<open>The length (a \<open>size_t\<close>), the start of the argument, and where the next one starts; the inner \<open>None\<close>
  is NULL.\<close>

definition nextArgument :: "bytes \<Rightarrow> (nat \<times> bytes \<times> bytes) option option" where
  "nextArgument start =
     (case (if char0 start \<noteq> CHR ''$'' then find_char CHR ''$'' start else Some start) of
        None \<Rightarrow> Some None
      | Some p \<Rightarrow>
          let len = nat (sbits 32 (strtol10 (tl p)) mod 2 ^ 64)
          in case find_char CR p of
               None \<Rightarrow> None
             | Some p \<Rightarrow>
                 if length p < 2 then None
                 else let str = drop 2 p; skip = ubits 64 (len + 2)
                      in if skip \<le> length str then Some (Some (len, str, drop skip str)) else None)"

lemma find_char_length: "find_char c s = Some t \<Longrightarrow> length t \<le> length s"
  by (induction s) (auto split: if_splits)

lemma nextArgument_less:
  assumes "nextArgument p = Some (Some (len, str, q))" shows "length q < length p"
proof -
  obtain p1 p2 where p: "(if char0 p \<noteq> CHR ''$'' then find_char CHR ''$'' p else Some p) = Some p1"
    "find_char CR p1 = Some p2" "2 \<le> length p2" "length q \<le> length p2 - 2"
    using assms by (auto simp: nextArgument_def Let_def split: option.splits if_splits)
  then have "length p1 \<le> length p" "length p2 \<le> length p1" by (auto dest: find_char_length split: if_splits)
  with p(3,4) show ?thesis by linarith
qed

text \<open>\<open>Inl\<close> is the jump to \<open>oom\<close>. The variable \<open>cb\<close> keeps its value from one channel to the next.\<close>

function subscribe_loop :: "mem \<Rightarrow> bool \<Rightarrow> ('f, 'p) redisCallback \<Rightarrow> bytes \<Rightarrow> ('f, 'p) redisAsyncContext
    \<Rightarrow> (('f, 'p) redisAsyncContext + ('f, 'p) redisAsyncContext) option" where
  "subscribe_loop M pvariant cb p ac =
     (case nextArgument p of
        None \<Rightarrow> None
      | Some None \<Rightarrow> Some (Inr ac)
      | Some (Some (alen, astr, p)) \<Rightarrow>
          if length astr < alen then None
          else
            (case sdsnewlen M (Some (take alen astr)) alen of
               None \<Rightarrow> Some (Inl ac)
             | Some sname \<Rightarrow>
                 let cbdict = (if pvariant then ac_patterns ac else ac_channels ac); key = sdsval sname
                 in case dictFind cbdict key of
                      None \<Rightarrow> None
                    | Some de \<Rightarrow>
                        (case (case de of
                                 None \<Rightarrow> Some cb
                               | Some e \<Rightarrow> (case de_val e of
                                     None \<Rightarrow> None
                                   | Some existcb \<Rightarrow>
                                       Some (cb\<lparr>cb_pending_subs := sbits 32 (cb_pending_subs existcb + 1)\<rparr>))) of
                           None \<Rightarrow> None
                         | Some cb \<Rightarrow>
                             (case dictReplace M cbdict key (Some cb) of
                                None \<Rightarrow> None
                              | Some (_, cbdict) \<Rightarrow>
                                  subscribe_loop M pvariant cb p
                                    (if pvariant then ac\<lparr>ac_patterns := cbdict\<rparr> else ac\<lparr>ac_channels := cbdict\<rparr>)))))"
  by pat_completeness auto
termination
proof (relation "measure (\<lambda>(M, pvariant, cb, p, ac). length p)", goal_cases)
  case (2 M pvariant cb p ac a b c d e f g)
  then have "nextArgument p = Some (Some (c, e, f))" by (simp only: )
  then show ?case by (simp add: nextArgument_less)
qed simp

declare subscribe_loop.simps [simp del]

text \<open>The end of \<open>__redisAsyncCommand\<close>: the result of \<open>__redisAppendCommand\<close> is not looked at.\<close>

definition append_and_schedule ::
  "mem \<Rightarrow> 'f option \<Rightarrow> 'p option \<Rightarrow> bytes \<Rightarrow> nat \<Rightarrow> ('f, 'p, 'u) astate \<Rightarrow> (int \<times> ('f, 'p, 'u) astate) option" where
  "append_and_schedule M fn privdata cmd len = (\<lambda>(ac, g).
     case redisAppendCommand_raw M (take len cmd) (ac_c ac) of
       None \<Rightarrow> None
     | Some (_, c) \<Rightarrow> Some (REDIS_OK, el_add_write (ac\<lparr>ac_c := c\<rparr>, emit (Issued fn privdata) g)))"

definition redisAsyncCommand_raw ::
  "mem \<Rightarrow> 'f option \<Rightarrow> 'p option \<Rightarrow> bytes \<Rightarrow> nat \<Rightarrow> ('f, 'p, 'u) astate \<Rightarrow> (int \<times> ('f, 'p, 'u) astate) option" where
  "redisAsyncCommand_raw M fn privdata cmd len = (\<lambda>(ac, g).
     if flag ac (REDIS_DISCONNECTING OR REDIS_FREEING) then Some (REDIS_ERR, ac, g)
     else
       let cb = \<lparr>cb_fn = fn, cb_pending_subs = 1, cb_privdata = privdata\<rparr>
       in case nextArgument cmd of
            None \<Rightarrow> None
          | Some None \<Rightarrow> None
          | Some (Some (clen, str, p)) \<Rightarrow>
              let hasnext = char0 p = CHR ''$''; pvariant = tolower (char0 str) = CHR ''p'';
                  str = (if pvariant then tl str else str);
                  finish = append_and_schedule M fn privdata cmd len
              in if hasnext \<and> strncaseeq str (''subscribe'' @ [CR, LF]) 11 then
                   (case subscribe_loop M pvariant cb p (set_flag REDIS_SUBSCRIBED ac) of
                      None \<Rightarrow> None
                    | Some (Inl ac) \<Rightarrow> Some (REDIS_ERR, on_c out_of_memory ac, g)
                    | Some (Inr ac) \<Rightarrow> finish (ac, g))
                 else if strncaseeq str (''unsubscribe'' @ [CR, LF]) 13 then
                   (if \<not> flag ac REDIS_SUBSCRIBED then Some (REDIS_ERR, ac, g) else finish (ac, g))
                 else if strncaseeq str (''monitor'' @ [CR, LF]) 9 then
                   (let ac = set_flag REDIS_MONITORING ac
                    in finish (ac\<lparr>ac_replies := snd (redisPushCallback M (ac_replies ac) cb)\<rparr>, g))
                 else if flag ac REDIS_SUBSCRIBED then
                   finish (ac\<lparr>ac_invalid := snd (redisPushCallback M (ac_invalid ac) cb)\<rparr>, g)
                 else finish (ac\<lparr>ac_replies := snd (redisPushCallback M (ac_replies ac) cb)\<rparr>, g))"

definition redisvAsyncCommand ::
  "render_fn \<Rightarrow> mem \<Rightarrow> 'f option \<Rightarrow> 'p option \<Rightarrow> bytes \<Rightarrow> vararg list \<Rightarrow> ('f, 'p, 'u) astate
    \<Rightarrow> (int \<times> ('f, 'p, 'u) astate) option" where
  "redisvAsyncCommand render M fn privdata format ap s =
     (case redisvFormatCommand render M format ap of
        None \<Rightarrow> None
      | Some (Inl e) \<Rightarrow> Some (REDIS_ERR, s)
      | Some (Inr (len, cmd)) \<Rightarrow>
          if len < 0 then Some (REDIS_ERR, s)
          else redisAsyncCommand_raw M fn privdata (butlast cmd) (nat len) s)"

definition redisAsyncCommand ::
  "render_fn \<Rightarrow> mem \<Rightarrow> 'f option \<Rightarrow> 'p option \<Rightarrow> bytes \<Rightarrow> vararg list \<Rightarrow> ('f, 'p, 'u) astate
    \<Rightarrow> (int \<times> ('f, 'p, 'u) astate) option" where
  "redisAsyncCommand render M fn privdata format ap = redisvAsyncCommand render M fn privdata format ap"

definition redisAsyncCommandArgv ::
  "mem \<Rightarrow> 'f option \<Rightarrow> 'p option \<Rightarrow> bytes list \<Rightarrow> nat list option \<Rightarrow> ('f, 'p, 'u) astate
    \<Rightarrow> (int \<times> ('f, 'p, 'u) astate) option" where
  "redisAsyncCommandArgv M fn privdata argv argvlen s =
     (case redisFormatSdsCommandArgv M argv argvlen of
        None \<Rightarrow> None
      | Some (Inl e) \<Rightarrow> Some (REDIS_ERR, s)
      | Some (Inr (len, cmd)) \<Rightarrow>
          if len < 0 then Some (REDIS_ERR, s)
          else redisAsyncCommand_raw M fn privdata (sdsval cmd) (nat len) s)"

definition redisAsyncFormattedCommand ::
  "mem \<Rightarrow> 'f option \<Rightarrow> 'p option \<Rightarrow> bytes \<Rightarrow> nat \<Rightarrow> ('f, 'p, 'u) astate \<Rightarrow> (int \<times> ('f, 'p, 'u) astate) option" where
  "redisAsyncFormattedCommand M fn privdata cmd len = redisAsyncCommand_raw M fn privdata cmd len"

end
