(* ===== verification/AsyncRun.thy ===== *)
theory AsyncRun
  imports Async
begin

text \<open>
  The part of \<open>src/src/hiredis/async.c\<close> that runs callbacks: freeing and disconnecting a context,
  distributing replies, and the handlers that the event loop calls.
\<close>

section \<open>Freeing and disconnecting\<close>

text \<open>
  \<open>redisAsyncFree\<close> and \<open>redisAsyncDisconnect\<close> with the function that releases the context as an argument.
  In a callback the flag \<open>REDIS_IN_CALLBACK\<close> is set, so that argument is not used there; user
  programs pass one without a result, and \<open>run_callback_alive\<close> shows that it is never reached.
\<close>

definition free_by :: "(('f, 'p, 'u) astate \<Rightarrow> ('f, 'p, 'u) mstate option) \<Rightarrow> ('f, 'p, 'u) astate \<Rightarrow> ('f, 'p, 'u) mstate option" where
  "free_by destroy = (\<lambda>(ac, g).
     let ac = set_flag REDIS_FREEING ac
     in if \<not> flag ac REDIS_IN_CALLBACK then destroy (ac, g) else Some (Some ac, g))"

definition disconnect_by :: "(('f, 'p, 'u) astate \<Rightarrow> ('f, 'p, 'u) mstate option) \<Rightarrow> ('f, 'p, 'u) astate \<Rightarrow> ('f, 'p, 'u) mstate option" where
  "disconnect_by disconnect = (\<lambda>(ac, g).
     let ac = clear_flag REDIS_NO_AUTO_FREE (set_flag REDIS_DISCONNECTING ac)
     in if \<not> flag ac REDIS_IN_CALLBACK \<and> ac_replies ac = [] then disconnect (ac, g) else Some (Some ac, g))"

text \<open>A program of the user inside a callback.\<close>

primrec run_prog :: "mem \<Rightarrow> ('f, 'p, 'u) prog \<Rightarrow> ('f, 'p, 'u) astate \<Rightarrow> ('f, 'p, 'u) astate option" where
  "run_prog M (Return u) s = Some (fst s, (snd s)\<lparr>wd_user := u\<rparr>)"
| "run_prog M (Command fn privdata cmd len k) s =
     (case redisAsyncCommand_raw M fn privdata cmd len s of
        None \<Rightarrow> None
      | Some (rc, s) \<Rightarrow> run_prog M (k rc) s)"
| "run_prog M (Disconnect k) s =
     (case disconnect_by (\<lambda>_. None) s of Some (Some ac, g) \<Rightarrow> run_prog M k (ac, g) | _ \<Rightarrow> None)"
| "run_prog M (Free k) s =
     (case free_by (\<lambda>_. None) s of Some (Some ac, g) \<Rightarrow> run_prog M k (ac, g) | _ \<Rightarrow> None)"
| "run_prog M (SetTimeout tv k) s =
     (let (rc, ac) = redisAsyncSetTimeout M tv (fst s) in run_prog M (k rc) (ac, snd s))"
| "run_prog M (SetPush fn k) s =
     (let (old, ac) = redisAsyncSetPushCallback (fst s) fn in run_prog M (k old) (ac, snd s))"

definition redisRunCallback ::
  "('f, 'p, 'u) runtime \<Rightarrow> ('f, 'p) redisCallback \<Rightarrow> ptr \<Rightarrow> ('f, 'p, 'u) astate \<Rightarrow> ('f, 'p, 'u) astate option" where
  "redisRunCallback E cb reply = (\<lambda>(ac, g).
     case cb_fn cb of
       None \<Rightarrow> Some (ac, g)
     | Some fn \<Rightarrow>
         map_option (\<lambda>(ac, g). (clear_flag REDIS_IN_CALLBACK ac, g))
           (run_prog (en_mem E) (en_fn E fn (wd_heap g) reply (cb_privdata cb) (wd_user g))
              (set_flag REDIS_IN_CALLBACK ac, emit (Called fn (wd_heap g) reply (cb_privdata cb)) g)))"

definition redisRunPushCallback ::
  "('f, 'p, 'u) runtime \<Rightarrow> ptr \<Rightarrow> ('f, 'p, 'u) astate \<Rightarrow> ('f, 'p, 'u) astate option" where
  "redisRunPushCallback E reply = (\<lambda>(ac, g).
     case ac_push_cb ac of
       None \<Rightarrow> Some (ac, g)
     | Some fn \<Rightarrow>
         map_option (\<lambda>(ac, g). (clear_flag REDIS_IN_CALLBACK ac, g))
           (run_prog (en_mem E) (en_push E fn (wd_heap g) reply (wd_user g))
              (set_flag REDIS_IN_CALLBACK ac, emit (Pushed fn (wd_heap g) reply) g)))"

text \<open>The four loops of \<open>__redisAsyncFree\<close> over pending callbacks.\<close>

partial_function (option) drain_replies ::
  "('f, 'p, 'u) runtime \<Rightarrow> ('f, 'p, 'u) astate \<Rightarrow> ('f, 'p, 'u) astate option" where
  "drain_replies E s =
     (case redisShiftCallback (ac_replies (fst s)) of
        None \<Rightarrow> Some s
      | Some (cb, list) \<Rightarrow>
          (case redisRunCallback E cb NULL ((fst s)\<lparr>ac_replies := list\<rparr>, snd s) of
             None \<Rightarrow> None
           | Some s \<Rightarrow> drain_replies E s))"

partial_function (option) drain_invalid ::
  "('f, 'p, 'u) runtime \<Rightarrow> ('f, 'p, 'u) astate \<Rightarrow> ('f, 'p, 'u) astate option" where
  "drain_invalid E s =
     (case redisShiftCallback (ac_invalid (fst s)) of
        None \<Rightarrow> Some s
      | Some (cb, list) \<Rightarrow>
          (case redisRunCallback E cb NULL ((fst s)\<lparr>ac_invalid := list\<rparr>, snd s) of
             None \<Rightarrow> None
           | Some s \<Rightarrow> drain_invalid E s))"

text \<open>An iterator reads a table that must not change under it: a callback that manages to subscribe
  during the iteration has no result here.\<close>

definition subs_of :: "bool \<Rightarrow> ('f, 'p) redisAsyncContext \<Rightarrow> ('f, 'p) subs" where
  "subs_of pvariant ac = (if pvariant then ac_patterns ac else ac_channels ac)"

partial_function (option) iterate_subs ::
  "('f, 'p, 'u) runtime \<Rightarrow> bool \<Rightarrow> (bytes, ('f, 'p) redisCallback option) dictIterator \<Rightarrow> ('f, 'p, 'u) astate
    \<Rightarrow> ('f, 'p, 'u) astate option" where
  "iterate_subs E pvariant it s =
     (case dictNext (subs_of pvariant (fst s)) it of
        None \<Rightarrow> None
      | Some (None, it) \<Rightarrow> Some s
      | Some (Some de, it) \<Rightarrow>
          (case de_val de of
             None \<Rightarrow> None
           | Some cb \<Rightarrow>
               (case redisRunCallback E cb NULL s of
                  None \<Rightarrow> None
                | Some s' \<Rightarrow>
                    if ht_table (subs_of pvariant (fst s')) = ht_table (subs_of pvariant (fst s))
                    then iterate_subs E pvariant it s' else None)))"

definition run_subs :: "('f, 'p, 'u) runtime \<Rightarrow> bool \<Rightarrow> ('f, 'p, 'u) astate \<Rightarrow> ('f, 'p, 'u) astate option" where
  "run_subs E pvariant s =
     (case dictGetIterator (en_mem E) of
        None \<Rightarrow> Some s
      | Some it \<Rightarrow> iterate_subs E pvariant it s)"

text \<open>The end of \<open>__redisAsyncFree\<close>. The disconnect callback is called with a context that it cannot change.\<close>

definition release :: "('f, 'p, 'u) astate \<Rightarrow> ('f, 'p, 'u) world option" where
  "release s =
     (let (ac, g) = el_cleanup s;
          g = (case ac_onDisconnect ac of
                 Some fn \<Rightarrow>
                   if flag ac REDIS_CONNECTED
                   then emit (OnDisconnect fn (if flag ac REDIS_FREEING then REDIS_OK
                                               else if ac_err ac = 0 then REDIS_OK else REDIS_ERR)) g
                   else g
               | None \<Rightarrow> g);
          g = (if ac_dataCleanup ac then emit DataCleanup g else g)
      in map_option (\<lambda>(h, w). emit Released (g\<lparr>wd_heap := h, wd_os := w\<rparr>)) (redisFree (ac_c ac, wd_heap g, wd_os g)))"

definition redisAsyncFree_now :: "('f, 'p, 'u) runtime \<Rightarrow> ('f, 'p, 'u) astate \<Rightarrow> ('f, 'p, 'u) world option" where
  "redisAsyncFree_now E s =
     do { s \<leftarrow> drain_replies E s;
          s \<leftarrow> drain_invalid E s;
          s \<leftarrow> run_subs E False s;
          s \<leftarrow> run_subs E True s;
          release s }"

definition redisAsyncFree :: "('f, 'p, 'u) runtime \<Rightarrow> ('f, 'p, 'u) astate \<Rightarrow> ('f, 'p, 'u) mstate option" where
  "redisAsyncFree E = free_by (\<lambda>s. map_option (Pair None) (redisAsyncFree_now E s))"

definition redisAsyncDisconnect_now ::
  "('f, 'p, 'u) runtime \<Rightarrow> ('f, 'p, 'u) astate \<Rightarrow> ('f, 'p, 'u) mstate option" where
  "redisAsyncDisconnect_now E = (\<lambda>(ac, g).
     let ac = redisAsyncCopyError ac
     in if ac_err ac = 0 \<and> redisShiftCallback (ac_replies ac) \<noteq> None then None
        else
          let ac = (if ac_err ac = 0 then ac else set_flag REDIS_DISCONNECTING ac);
              (ac, g) = el_cleanup (ac, g)
          in if \<not> flag ac REDIS_NO_AUTO_FREE then map_option (Pair None) (redisAsyncFree_now E (ac, g))
             else Some (Some ac, g))"

definition redisAsyncDisconnect :: "('f, 'p, 'u) runtime \<Rightarrow> ('f, 'p, 'u) astate \<Rightarrow> ('f, 'p, 'u) mstate option" where
  "redisAsyncDisconnect E = disconnect_by (redisAsyncDisconnect_now E)"

section \<open>Replies\<close>

text \<open>The \<open>i\<close>-th element of a reply, which must be there.\<close>

definition element :: "heap \<Rightarrow> redisReply \<Rightarrow> nat \<Rightarrow> redisReply option" where
  "element h r i =
     (case rr_element r of
        None \<Rightarrow> None
      | Some els \<Rightarrow> if i < length els then hget h (els ! i) else None)"

definition str_of :: "redisReply \<Rightarrow> bytes option" where
  "str_of r = map_option cstr (rr_str r)"

text \<open>The two tables: the one a message belongs to, and its update.\<close>

definition with_subs :: "bool \<Rightarrow> ('f, 'p) subs \<Rightarrow> ('f, 'p) redisAsyncContext \<Rightarrow> ('f, 'p) redisAsyncContext" where
  "with_subs pvariant d ac = (if pvariant then ac\<lparr>ac_patterns := d\<rparr> else ac\<lparr>ac_channels := d\<rparr>)"

text \<open>The assignment through the pointer that the lookup returned.\<close>

definition set_val :: "('k, 'v) dict \<Rightarrow> 'k \<Rightarrow> 'v \<Rightarrow> ('k, 'v) dict" where
  "set_val ht key v =
     (let h = key_slot (ht_type ht) (ht_sizemask ht) key
      in ht\<lparr>ht_table := (ht_table ht)[h := chain_set (ht_type ht) key v (ht_table ht ! h)]\<rparr>)"

text \<open>The result also holds \<open>dstcb\<close>, which is left alone when there is no callback.\<close>

definition redisGetSubscribeCallback ::
  "mem \<Rightarrow> redisReply \<Rightarrow> ('f, 'p) redisCallback \<Rightarrow> heap \<Rightarrow> ('f, 'p) redisAsyncContext
    \<Rightarrow> (int \<times> ('f, 'p) redisCallback \<times> ('f, 'p) redisAsyncContext) option" where
  "redisGetSubscribeCallback M reply dstcb h ac =
     (if rr_type reply = REDIS_REPLY_ARRAY \<or> rr_type reply = REDIS_REPLY_PUSH then
        (if rr_elements reply < 2 then None
         else
           do { e0 \<leftarrow> element h reply 0;
                e1 \<leftarrow> element h reply 1;
                stype \<leftarrow> (if rr_type e0 = REDIS_REPLY_STRING then str_of e0 else None);
                let pvariant = tolower (char0 stype) = CHR ''p'';
                let kind = (if pvariant then tl stype else stype);
                name \<leftarrow> (if rr_type e1 = REDIS_REPLY_STRING then rr_str e1 else None);
                case sdsnewlen M (Some name) (rr_len e1) of
                  None \<Rightarrow> Some (REDIS_ERR, dstcb, on_c out_of_memory ac)
                | Some sname \<Rightarrow>
                    do { let callbacks = subs_of pvariant ac;
                         let key = sdsval sname;
                         de \<leftarrow> dictFind callbacks key;
                         case de of
                           None \<Rightarrow> Some (REDIS_OK, dstcb, ac)
                         | Some de \<Rightarrow>
                             do { cb \<leftarrow> de_val de;
                                  let cb = (if strcaseeq kind ''subscribe''
                                            then cb\<lparr>cb_pending_subs := sbits 32 (cb_pending_subs cb - 1)\<rparr> else cb);
                                  let callbacks = set_val callbacks key (Some cb);
                                  if strcaseeq kind ''unsubscribe'' then
                                    do { (_, callbacks) \<leftarrow> (if cb_pending_subs cb = 0 then dictDelete callbacks key
                                                            else Some (DICT_OK, callbacks));
                                         let ac = with_subs pvariant callbacks ac;
                                         e2 \<leftarrow> (if 2 < rr_elements reply then element h reply 2 else None);
                                         if rr_type e2 \<noteq> REDIS_REPLY_INTEGER then None
                                         else Some (REDIS_OK, cb,
                                           if rr_integer e2 = 0 \<and> ht_used (ac_channels ac) = 0 \<and> ht_used (ac_patterns ac) = 0
                                           then clear_flag REDIS_SUBSCRIBED ac else ac) }
                                  else Some (REDIS_OK, cb, with_subs pvariant callbacks ac) } } })
      else
        (case redisShiftCallback (ac_invalid ac) of
           None \<Rightarrow> Some (REDIS_OK, dstcb, ac)
         | Some (cb, list) \<Rightarrow> Some (REDIS_OK, cb, ac\<lparr>ac_invalid := list\<rparr>)))"

definition redisIsSubscribeReply :: "redisReply \<Rightarrow> heap \<Rightarrow> bool option" where
  "redisIsSubscribeReply reply h =
     (if rr_elements reply < 1 then Some False
      else
        do { e0 \<leftarrow> element h reply 0;
             if rr_type e0 \<noteq> REDIS_REPLY_STRING \<or> rr_len e0 < 7 then Some False
             else
               do { s \<leftarrow> rr_str e0;
                    let off = (if tolower (char0 s) = CHR ''p'' then 1 else 0);
                    let str = drop off s;
                    let len = rr_len e0 - off;
                    Some (strncaseeq str ''subscribe'' len \<or> strncaseeq str ''message'' len) } })"

definition redisIsSpontaneousPushReply :: "redisReply \<Rightarrow> heap \<Rightarrow> bool option" where
  "redisIsSpontaneousPushReply reply h =
     (if rr_type reply = REDIS_REPLY_PUSH then map_option Not (redisIsSubscribeReply reply h) else Some False)"

definition free_reply_obj :: "ptr \<Rightarrow> ('f, 'p, 'u) astate \<Rightarrow> ('f, 'p, 'u) astate option" where
  "free_reply_obj reply = (\<lambda>(ac, g). map_option (\<lambda>h. (ac, g\<lparr>wd_heap := h\<rparr>)) (freeReplyObject (wd_heap g) reply))"

definition get_reply :: "('f, 'p, 'u) runtime \<Rightarrow> ('f, 'p, 'u) astate \<Rightarrow> (int \<times> ptr \<times> ('f, 'p, 'u) astate) option" where
  "get_reply E = (\<lambda>(ac, g).
     map_option (\<lambda>(rc, reply, c, h, w). (rc, reply, ac\<lparr>ac_c := c\<rparr>, g\<lparr>wd_heap := h, wd_os := w\<rparr>))
       (redisGetReply (en_funcs E) (en_libc E) (en_mem E) True (ac_c ac, wd_heap g, wd_os g)))"

text \<open>One round of the loop of \<open>redisProcessCallbacks\<close>, after \<open>redisGetReply\<close> has returned a reply, or NULL.
  \<open>cb\<close> is the local variable of the function, which lives as long as the loop.\<close>

datatype ('f, 'p, 'u) round =
    Again "('f, 'p) redisCallback" "('f, 'p, 'u) astate"
  | Stop "('f, 'p, 'u) mstate"

definition no_reply ::
  "('f, 'p, 'u) runtime \<Rightarrow> ('f, 'p) redisCallback \<Rightarrow> ('f, 'p, 'u) astate \<Rightarrow> ('f, 'p, 'u) mstate option" where
  "no_reply E cb = (\<lambda>(ac, g).
     let stay = Some (Some (if flag ac REDIS_MONITORING
                            then ac\<lparr>ac_replies := snd (redisPushCallback (en_mem E) (ac_replies ac) cb)\<rparr> else ac), g)
     in if flag ac REDIS_DISCONNECTING then
          (case rc_obuf (ac_c ac) of
             None \<Rightarrow> None
           | Some b \<Rightarrow> if sdslen b = 0 \<and> ac_replies ac = [] then redisAsyncDisconnect_now E (ac, g) else stay)
        else stay)"

definition deliver ::
  "('f, 'p, 'u) runtime \<Rightarrow> ptr \<Rightarrow> ('f, 'p) redisCallback \<Rightarrow> ('f, 'p, 'u) astate \<Rightarrow> ('f, 'p, 'u) round option" where
  "deliver E reply cb s =
     (if cb_fn cb \<noteq> None then
        do { s \<leftarrow> redisRunCallback E cb reply s;
             s \<leftarrow> free_reply_obj reply s;
             if flag (fst s) REDIS_FREEING then map_option (\<lambda>g. Stop (None, g)) (redisAsyncFree_now E s)
             else Some (Again cb s) }
      else map_option (Again cb) (free_reply_obj reply s))"

definition with_error :: "bytes \<Rightarrow> ('f, 'p) redisAsyncContext \<Rightarrow> ('f, 'p) redisAsyncContext" where
  "with_error str = on_c (\<lambda>c. c\<lparr>rc_err := REDIS_ERR_OTHER, rc_errstr := take 127 (cstr str)\<rparr>)"

definition process_reply ::
  "('f, 'p, 'u) runtime \<Rightarrow> ptr \<Rightarrow> ('f, 'p) redisCallback \<Rightarrow> ('f, 'p, 'u) astate \<Rightarrow> ('f, 'p, 'u) round option" where
  "process_reply E reply cb = (\<lambda>(ac, g).
     do { r \<leftarrow> hget (wd_heap g) reply;
          spontaneous \<leftarrow> redisIsSpontaneousPushReply r (wd_heap g);
          if spontaneous then
            do { s \<leftarrow> redisRunPushCallback E reply (ac, g);
                 map_option (Again cb) (free_reply_obj reply s) }
          else
            (case redisShiftCallback (ac_replies ac) of
               Some (cb, list) \<Rightarrow> deliver E reply cb (ac\<lparr>ac_replies := list\<rparr>, g)
             | None \<Rightarrow>
                 if rr_type r = REDIS_REPLY_ERROR then
                   do { str \<leftarrow> rr_str r;
                        s \<leftarrow> free_reply_obj reply (with_error str ac, g);
                        map_option Stop (redisAsyncDisconnect_now E s) }
                 else if \<not> (flag ac REDIS_SUBSCRIBED \<or> flag ac REDIS_MONITORING) then None
                 else if flag ac REDIS_SUBSCRIBED then
                   do { (rc, cb, ac) \<leftarrow> redisGetSubscribeCallback (en_mem E) r cb (wd_heap g) ac;
                        deliver E reply cb (ac, g) }
                 else deliver E reply cb (ac, g)) })"

partial_function (option) callbacks_loop ::
  "('f, 'p, 'u) runtime \<Rightarrow> ('f, 'p) redisCallback \<Rightarrow> ('f, 'p, 'u) astate \<Rightarrow> ('f, 'p, 'u) mstate option" where
  "callbacks_loop E cb s =
     (case get_reply E s of
        None \<Rightarrow> None
      | Some (status, reply, s) \<Rightarrow>
          if status \<noteq> REDIS_OK then redisAsyncDisconnect_now E s
          else if reply = NULL then no_reply E cb s
          else
            (case process_reply E reply cb s of
               None \<Rightarrow> None
             | Some (Stop m) \<Rightarrow> Some m
             | Some (Again cb s) \<Rightarrow> callbacks_loop E cb s))"

definition null_cb :: "('f, 'p) redisCallback" where
  "null_cb = \<lparr>cb_fn = None, cb_pending_subs = 0, cb_privdata = None\<rparr>"

definition redisProcessCallbacks :: "('f, 'p, 'u) runtime \<Rightarrow> ('f, 'p, 'u) astate \<Rightarrow> ('f, 'p, 'u) mstate option" where
  "redisProcessCallbacks E = callbacks_loop E null_cb"

section \<open>Event handlers\<close>

text \<open>The connect callback gets a context that it cannot change.\<close>

definition on_connect :: "int \<Rightarrow> ('f, 'p, 'u) astate \<Rightarrow> ('f, 'p, 'u) astate" where
  "on_connect status = (\<lambda>(ac, g). (ac, case ac_onConnect ac of None \<Rightarrow> g | Some fn \<Rightarrow> emit (OnConnect fn status) g))"

definition with_os :: "cstate \<Rightarrow> ('f, 'p, 'u) astate \<Rightarrow> ('f, 'p, 'u) astate" where
  "with_os = (\<lambda>(c, w) (ac, g). (ac\<lparr>ac_c := c\<rparr>, g\<lparr>wd_os := w\<rparr>))"

definition redisAsyncHandleConnectFailure ::
  "('f, 'p, 'u) runtime \<Rightarrow> ('f, 'p, 'u) astate \<Rightarrow> ('f, 'p, 'u) mstate option" where
  "redisAsyncHandleConnectFailure E s = redisAsyncDisconnect_now E (on_connect REDIS_ERR s)"

definition redisAsyncHandleConnect ::
  "('f, 'p, 'u) runtime \<Rightarrow> ('f, 'p, 'u) astate \<Rightarrow> (int \<times> ('f, 'p, 'u) mstate) option" where
  "redisAsyncHandleConnect E = (\<lambda>(ac, g).
     let (rc, completed, c, w) = redisCheckConnectDone (ac_c ac, wd_os g)
     in if rc = REDIS_ERR then
          map_option (Pair REDIS_ERR) (redisAsyncHandleConnectFailure E
            (with_os (snd (redisCheckSocketError (en_libc E) (c, w))) (ac, g)))
        else if completed then
          (let (rc, c, w) = (if rc_connection_type c = REDIS_CONN_TCP then redisSetTcpNoDelay (en_libc E) (c, w)
                             else (REDIS_OK, c, w));
               s = with_os (c, w) (ac, g)
           in if rc = REDIS_ERR then map_option (Pair REDIS_ERR) (redisAsyncHandleConnectFailure E s)
              else let (ac, g) = on_connect REDIS_OK s
                   in Some (REDIS_OK, Some (set_flag REDIS_CONNECTED ac), g))
        else Some (REDIS_OK, case with_os (c, w) (ac, g) of (ac, g) \<Rightarrow> (Some ac, g)))"

definition redisAsyncRead :: "('f, 'p, 'u) runtime \<Rightarrow> ('f, 'p, 'u) astate \<Rightarrow> ('f, 'p, 'u) mstate option" where
  "redisAsyncRead E = (\<lambda>(ac, g).
     case redisBufferRead (en_funcs E) (en_mem E) (ac_c ac, wd_heap g, wd_os g) of
       None \<Rightarrow> None
     | Some (rc, c, h, w) \<Rightarrow>
         let s = (ac\<lparr>ac_c := c\<rparr>, g\<lparr>wd_heap := h, wd_os := w\<rparr>)
         in if rc = REDIS_ERR then redisAsyncDisconnect_now E s
            else redisProcessCallbacks E (el_add_read s))"

definition redisAsyncWrite :: "('f, 'p, 'u) runtime \<Rightarrow> ('f, 'p, 'u) astate \<Rightarrow> ('f, 'p, 'u) mstate option" where
  "redisAsyncWrite E = (\<lambda>(ac, g).
     case redisBufferWrite (en_funcs E) (en_mem E) (ac_c ac, wd_heap g, wd_os g) of
       None \<Rightarrow> None
     | Some (rc, wdone, c, h, w) \<Rightarrow>
         let s = (ac\<lparr>ac_c := c\<rparr>, g\<lparr>wd_heap := h, wd_os := w\<rparr>)
         in if rc = REDIS_ERR then redisAsyncDisconnect_now E s
            else let (ac, g) = el_add_read (if \<not> wdone then el_add_write s else el_del_write s)
                 in Some (Some ac, g))"

text \<open>Both handlers first finish connecting.\<close>

definition when_connected ::
  "('f, 'p, 'u) runtime \<Rightarrow> (('f, 'p, 'u) astate \<Rightarrow> ('f, 'p, 'u) mstate option) \<Rightarrow> ('f, 'p, 'u) astate
    \<Rightarrow> ('f, 'p, 'u) mstate option" where
  "when_connected E handler = (\<lambda>(ac, g).
     if \<not> flag ac REDIS_CONNECTED then
       (case redisAsyncHandleConnect E (ac, g) of
          None \<Rightarrow> None
        | Some (rc, m) \<Rightarrow>
            if rc \<noteq> REDIS_OK then Some m
            else (case m of
                    (None, g) \<Rightarrow> None
                  | (Some ac, g) \<Rightarrow> if \<not> flag ac REDIS_CONNECTED then Some (Some ac, g) else handler (ac, g)))
     else handler (ac, g))"

definition redisAsyncHandleRead :: "('f, 'p, 'u) runtime \<Rightarrow> ('f, 'p, 'u) astate \<Rightarrow> ('f, 'p, 'u) mstate option" where
  "redisAsyncHandleRead E = when_connected E (redisAsyncRead E)"

definition redisAsyncHandleWrite :: "('f, 'p, 'u) runtime \<Rightarrow> ('f, 'p, 'u) astate \<Rightarrow> ('f, 'p, 'u) mstate option" where
  "redisAsyncHandleWrite E = when_connected E (redisAsyncWrite E)"

definition redisAsyncHandleTimeout :: "('f, 'p, 'u) runtime \<Rightarrow> ('f, 'p, 'u) astate \<Rightarrow> ('f, 'p, 'u) mstate option" where
  "redisAsyncHandleTimeout E = (\<lambda>(ac, g).
     if flag ac REDIS_CONNECTED \<and> ac_replies ac = [] then Some (Some ac, g)
     else
       let ac = (if rc_err (ac_c ac) = 0 then on_c (\<lambda>c. redisSetError c REDIS_ERR_TIMEOUT ''Timeout'') ac else ac);
           s = (if \<not> flag ac REDIS_CONNECTED then on_connect REDIS_ERR (ac, g) else (ac, g))
       in case drain_replies E s of
            None \<Rightarrow> None
          | Some s \<Rightarrow> redisAsyncDisconnect_now E s)"

end
