(* ===== verification/AsyncSpec.thy ===== *)
theory AsyncSpec
  imports AsyncRun ContextSpec
begin

text \<open>
  What the asynchronous interface promises: every command that was accepted gets its callback
  exactly once and in order, whatever happens to the connection; freeing a context ends and calls
  every pending callback; and what goes wrong with subscriptions, monitoring and a full socket.
\<close>

section \<open>Flags\<close>

lemmas redis_flags = REDIS_BLOCK_def REDIS_CONNECTED_def REDIS_DISCONNECTING_def REDIS_FREEING_def REDIS_IN_CALLBACK_def
  REDIS_SUBSCRIBED_def REDIS_MONITORING_def REDIS_REUSEADDR_def REDIS_NO_AUTO_FREE_def

lemma flag_set [simp]: "flag (set_flag f ac) f' \<longleftrightarrow> flag ac f' \<or> f AND f' \<noteq> 0"
proof -
  have "(rc_flags (ac_c ac) OR f) AND f' = 0 \<longleftrightarrow> rc_flags (ac_c ac) AND f' = 0 \<and> f AND f' = 0"
    by (simp only: word_ao_dist or_eq_0_iff)
  then show ?thesis by (simp add: flag_def set_flag_def has_flag_def)
qed

lemma flag_clear_other: "f AND f' = 0 \<Longrightarrow> flag (clear_flag f ac) f' \<longleftrightarrow> flag ac f'"
proof -
  assume "f AND f' = 0"
  then have "(rc_flags (ac_c ac) AND NOT f) AND f' = rc_flags (ac_c ac) AND f'"
    by (intro bit_word_eqI) (use \<open>f AND f' = 0\<close> in \<open>auto simp: bit_simps bit_eq_iff\<close>)
  then show ?thesis by (simp add: flag_def clear_flag_def has_flag_def)
qed

lemma flag_clear_same: "\<not> flag (clear_flag f ac) f"
proof -
  have "(rc_flags (ac_c ac) AND NOT f) AND f = 0" by (intro bit_word_eqI) (auto simp: bit_simps)
  then show ?thesis by (simp add: flag_def clear_flag_def has_flag_def)
qed

lemma append_raw_flags: "redisAppendCommand_raw M cmd c = Some (rc, c') \<Longrightarrow> rc_flags c' = rc_flags c"
  by (auto simp: redisAppendCommand_raw_def out_of_memory_def redisSetError_def split: option.splits)

section \<open>User programs\<close>

text \<open>All commands of a program satisfy \<open>P\<close>, whatever the results of its calls.\<close>

primrec prog_cmds :: "(bytes \<Rightarrow> bool) \<Rightarrow> ('f, 'p, 'u) prog \<Rightarrow> bool" where
  "prog_cmds P (Return u) \<longleftrightarrow> True"
| "prog_cmds P (Command fn privdata cmd len k) \<longleftrightarrow> P cmd \<and> (\<forall>rc. prog_cmds P (k rc))"
| "prog_cmds P (Disconnect k) \<longleftrightarrow> prog_cmds P k"
| "prog_cmds P (Free k) \<longleftrightarrow> prog_cmds P k"
| "prog_cmds P (SetTimeout tv k) \<longleftrightarrow> (\<forall>rc. prog_cmds P (k rc))"
| "prog_cmds P (SetPush fn k) \<longleftrightarrow> (\<forall>old. prog_cmds P (k old))"

text \<open>In a callback neither function releases the context.\<close>

lemma run_callback_alive:
  assumes "flag ac REDIS_IN_CALLBACK"
  shows "free_by destroy (ac, g) = Some (Some (set_flag REDIS_FREEING ac), g)"
    and "disconnect_by disconnect (ac, g) = Some (Some (clear_flag REDIS_NO_AUTO_FREE (set_flag REDIS_DISCONNECTING ac)), g)"
  using assms by (simp_all add: free_by_def disconnect_by_def flag_clear_other redis_flags)

text \<open>A property of states that every call of the interface keeps is kept by every program.\<close>

locale prog_law =
  fixes M :: mem and P :: "bytes \<Rightarrow> bool" and Q :: "('f, 'p, 'u) astate \<Rightarrow> bool"
  assumes command_law: "Q s \<Longrightarrow> P cmd \<Longrightarrow> redisAsyncCommand_raw M fn privdata cmd len s = Some (rc, s') \<Longrightarrow> Q s'"
    and disconnect_law: "Q (ac, g) \<Longrightarrow> Q (clear_flag REDIS_NO_AUTO_FREE (set_flag REDIS_DISCONNECTING ac), g)"
    and free_law: "Q (ac, g) \<Longrightarrow> Q (set_flag REDIS_FREEING ac, g)"
    and timeout_law: "Q (ac, g) \<Longrightarrow> Q (snd (redisAsyncSetTimeout M tv ac), g)"
    and push_law: "Q (ac, g) \<Longrightarrow> Q (ac\<lparr>ac_push_cb := fn\<rparr>, g)"
    and user_law: "Q (ac, g) \<Longrightarrow> Q (ac, g\<lparr>wd_user := u\<rparr>)"
begin

lemma run_prog_keeps: "run_prog M p s = Some s' \<Longrightarrow> prog_cmds P p \<Longrightarrow> Q s \<Longrightarrow> Q s'"
proof (induction p arbitrary: s)
  case (Return u)
  then show ?case using user_law [of "fst s" "snd s" u] by simp
next
  case (Command fn privdata cmd len k)
  obtain rc s1 where c: "redisAsyncCommand_raw M fn privdata cmd len s = Some (rc, s1)" "run_prog M (k rc) s1 = Some s'"
    using Command.prems(1) by (auto split: option.splits)
  have "Q s1" using command_law [OF Command.prems(3) _ c(1)] Command.prems(2) by simp
  then show ?case using Command.IH [OF rangeI c(2)] Command.prems(2) by simp
next
  case (Disconnect k)
  from Disconnect.prems(1) have "run_prog M k (clear_flag REDIS_NO_AUTO_FREE (set_flag REDIS_DISCONNECTING (fst s)), snd s) = Some s'"
    by (cases s) (auto simp: disconnect_by_def Let_def split: if_splits)
  from Disconnect.IH [OF this] Disconnect.prems(2,3) show ?case using disconnect_law [of "fst s" "snd s"] by simp
next
  case (Free k)
  from Free.prems(1) have "run_prog M k (set_flag REDIS_FREEING (fst s), snd s) = Some s'"
    by (cases s) (auto simp: free_by_def Let_def split: if_splits)
  from Free.IH [OF this] Free.prems(2,3) show ?case using free_law [of "fst s" "snd s"] by simp
next
  case (SetTimeout tv k)
  obtain rc ac where t: "redisAsyncSetTimeout M tv (fst s) = (rc, ac)" by force
  from SetTimeout.prems t show ?case using SetTimeout.IH [of "k rc" "(ac, snd s)"] timeout_law [of "fst s" "snd s" tv] by simp
next
  case (SetPush fn k)
  then have "run_prog M (k (ac_push_cb (fst s))) ((fst s)\<lparr>ac_push_cb := fn\<rparr>, snd s) = Some s'"
    by (simp add: redisAsyncSetPushCallback_def)
  from SetPush.IH [OF rangeI this] SetPush.prems(2,3) show ?case using push_law [of "fst s" "snd s" fn] by simp
qed

end

section \<open>The books of issued and called callbacks\<close>

fun issued_of :: "('f, 'p) event \<Rightarrow> ('f \<times> 'p option) list" where
  "issued_of (Issued (Some fn) privdata) = [(fn, privdata)]"
| "issued_of _ = []"

fun called_of :: "('f, 'p) event \<Rightarrow> ('f \<times> 'p option) list" where
  "called_of (Called fn h reply privdata) = [(fn, privdata)]"
| "called_of _ = []"

definition issued :: "('f, 'p, 'u) world \<Rightarrow> ('f \<times> 'p option) list" where
  "issued g = concat (map issued_of (wd_log g))"

definition called :: "('f, 'p, 'u) world \<Rightarrow> ('f \<times> 'p option) list" where
  "called g = concat (map called_of (wd_log g))"

fun waiting_of :: "('f, 'p) redisCallback \<Rightarrow> ('f \<times> 'p option) list" where
  "waiting_of cb = (case cb_fn cb of None \<Rightarrow> [] | Some fn \<Rightarrow> [(fn, cb_privdata cb)])"

definition waiting :: "('f, 'p) callbacks \<Rightarrow> ('f \<times> 'p option) list" where
  "waiting list = concat (map waiting_of list)"

text \<open>Neither a subscription nor \<open>MONITOR\<close>.\<close>

definition plain_cmd :: "bytes \<Rightarrow> bool" where
  "plain_cmd cmd \<longleftrightarrow> (case nextArgument cmd of
     Some (Some (len, str, p)) \<Rightarrow>
       (let str = (if tolower (char0 str) = CHR ''p'' then tl str else str)
        in \<not> strncaseeq str (''subscribe'' @ [CR, LF]) 11 \<and> \<not> strncaseeq str (''monitor'' @ [CR, LF]) 9)
   | _ \<Rightarrow> True)"

definition no_subs :: "('f, 'p) subs \<Rightarrow> bool" where
  "no_subs d \<longleftrightarrow> ht_size d = 0 \<and> ht_table d = []"

text \<open>A connection in the plain request-reply mode whose commands are accounted for.\<close>

definition books :: "('f, 'p, 'u) astate \<Rightarrow> bool" where
  "books = (\<lambda>(ac, g). issued g = called g @ waiting (ac_replies ac) \<and> ac_invalid ac = []
     \<and> no_subs (ac_channels ac) \<and> no_subs (ac_patterns ac)
     \<and> \<not> flag ac REDIS_SUBSCRIBED \<and> \<not> flag ac REDIS_MONITORING \<and> \<not> flag ac REDIS_BLOCK)"

lemma log_simps [simp]:
  "issued (emit e g) = issued g @ issued_of e" "called (emit e g) = called g @ called_of e"
  "issued (g\<lparr>wd_heap := h\<rparr>) = issued g" "called (g\<lparr>wd_heap := h\<rparr>) = called g"
  "issued (g\<lparr>wd_os := w\<rparr>) = issued g" "called (g\<lparr>wd_os := w\<rparr>) = called g"
  "issued (g\<lparr>wd_user := u\<rparr>) = issued g" "called (g\<lparr>wd_user := u\<rparr>) = called g"
  by (simp_all add: issued_def called_def emit_def)

lemma waiting_simps [simp]: "waiting [] = []" "waiting (cb # list) = waiting_of cb @ waiting list"
  "waiting (list @ list') = waiting list @ waiting list'"
  by (simp_all add: waiting_def)

lemma refresh_log [simp]: "issued (refreshTimeout (ac, g)) = issued g" "called (refreshTimeout (ac, g)) = called g"
  by (simp_all add: refreshTimeout_def split: option.split)

text \<open>What the books say depends on the queues, the tables, the flags and the log only.\<close>

lemma books_cong:
  assumes "books (ac, g)" and "ac_replies ac' = ac_replies ac" and "ac_invalid ac' = ac_invalid ac"
    and "ac_channels ac' = ac_channels ac" and "ac_patterns ac' = ac_patterns ac"
    and "issued g' = issued g" and "called g' = called g"
    and "\<And>f. f \<in> {REDIS_SUBSCRIBED, REDIS_MONITORING, REDIS_BLOCK} \<Longrightarrow> flag ac' f = flag ac f"
  shows "books (ac', g')"
  using assms by (simp add: books_def)

lemma ac_set_flag [simp]: "ac_replies (set_flag f ac) = ac_replies ac" "ac_invalid (set_flag f ac) = ac_invalid ac"
  "ac_channels (set_flag f ac) = ac_channels ac" "ac_patterns (set_flag f ac) = ac_patterns ac"
  "ac_replies (clear_flag f ac) = ac_replies ac" "ac_invalid (clear_flag f ac) = ac_invalid ac"
  "ac_channels (clear_flag f ac) = ac_channels ac" "ac_patterns (clear_flag f ac) = ac_patterns ac"
  by (simp_all add: set_flag_def clear_flag_def)

lemma flag_ac_c: "rc_flags (ac_c ac') = rc_flags (ac_c ac) \<Longrightarrow> flag ac' f = flag ac f"
  by (simp add: flag_def has_flag_def)

lemma flag_updates [simp]: "flag (ac\<lparr>ac_replies := l\<rparr>) f = flag ac f" "flag (ac\<lparr>ac_invalid := l\<rparr>) f = flag ac f"
  "flag (ac\<lparr>ac_push_cb := p\<rparr>) f = flag ac f" "flag (ac\<lparr>ac_ev := e\<rparr>) f = flag ac f"
  "flag (ac\<lparr>ac_channels := d\<rparr>) f = flag ac f" "flag (ac\<lparr>ac_patterns := d\<rparr>) f = flag ac f"
  by (simp_all add: flag_def)

lemma books_set: "books (ac, g) \<Longrightarrow> f \<in> {REDIS_DISCONNECTING, REDIS_FREEING, REDIS_IN_CALLBACK, REDIS_CONNECTED}
    \<Longrightarrow> books (set_flag f ac, g)"
  by (erule books_cong) (auto simp: redis_flags)

lemma books_clear: "books (ac, g) \<Longrightarrow> f \<in> {REDIS_NO_AUTO_FREE, REDIS_IN_CALLBACK} \<Longrightarrow> books (clear_flag f ac, g)"
  by (erule books_cong) (auto simp: redis_flags flag_clear_other)

lemma books_append:
  assumes "append_and_schedule M fn privdata cmd len (ac, g) = Some (rc, s')" and "ac_invalid ac = []"
    and "issued g @ issued_of (Issued fn privdata) = called g @ waiting (ac_replies ac)"
    and "no_subs (ac_channels ac)" and "no_subs (ac_patterns ac)"
    and "\<not> flag ac REDIS_SUBSCRIBED" and "\<not> flag ac REDIS_MONITORING" and "\<not> flag ac REDIS_BLOCK"
  shows "books s'"
  using assms by (auto simp: append_and_schedule_def el_add_write_def Let_def books_def flag_ac_c [OF append_raw_flags] split: option.splits)

text \<open>A command that is not refused has a first argument.\<close>

lemma command_next:
  assumes "redisAsyncCommand_raw M fn privdata cmd len (ac, g) = Some x" and "\<not> flag ac (REDIS_DISCONNECTING OR REDIS_FREEING)"
  obtains l str p where "nextArgument cmd = Some (Some (l, str, p))"
proof (cases "nextArgument cmd")
  case None
  with assms show ?thesis by (simp add: redisAsyncCommand_raw_def Let_def)
next
  case (Some n)
  show ?thesis
  proof (cases n)
    case None
    with Some assms show ?thesis by (simp add: redisAsyncCommand_raw_def Let_def)
  next
    case n: (Some y)
    with Some that show ?thesis by (cases y) auto
  qed
qed

lemma books_command:
  assumes "books s" and "plain_cmd cmd" and "granted M sizeof_redisCallback"
    and "redisAsyncCommand_raw M fn privdata cmd len s = Some (rc, s')"
  shows "books s'"
proof -
  obtain ac g where s: "s = (ac, g)" by force
  have b: "issued g = called g @ waiting (ac_replies ac)" "ac_invalid ac = []" "no_subs (ac_channels ac)"
    "no_subs (ac_patterns ac)" "\<not> flag ac REDIS_SUBSCRIBED" "\<not> flag ac REDIS_MONITORING" "\<not> flag ac REDIS_BLOCK"
    using assms(1) by (auto simp: books_def s)
  show ?thesis
  proof (cases "flag ac (REDIS_DISCONNECTING OR REDIS_FREEING)")
    case True
    with assms s show ?thesis by (simp add: redisAsyncCommand_raw_def)
  next
    case False
    let ?cb = "\<lparr>cb_fn = fn, cb_pending_subs = 1, cb_privdata = privdata\<rparr>"
    obtain len' str p where n: "nextArgument cmd = Some (Some (len', str, p))"
      using command_next [OF assms(4) [unfolded s] False] by blast
    define str' where "str' = (if tolower (char0 str) = CHR ''p'' then tl str else str)"
    have k: "\<not> strncaseeq str' (''subscribe'' @ [CR, LF]) 11" "\<not> strncaseeq str' (''monitor'' @ [CR, LF]) 9"
      using assms(2) n by (simp_all add: plain_cmd_def Let_def str'_def)
    have q: "redisPushCallback M (ac_replies ac) ?cb = (REDIS_OK, ac_replies ac @ [?cb])"
      using assms(3) by (simp add: redisPushCallback_def)
    have "redisAsyncCommand_raw M fn privdata cmd len (ac, g) =
        (if strncaseeq str' (''unsubscribe'' @ [CR, LF]) 13 then Some (REDIS_ERR, ac, g)
         else append_and_schedule M fn privdata cmd len (ac\<lparr>ac_replies := ac_replies ac @ [?cb]\<rparr>, g))"
      using False n k b(5) q
      by (cases "strncaseeq str' (''unsubscribe'' @ [CR, LF]) 13")
        (simp_all add: redisAsyncCommand_raw_def Let_def str'_def split del: if_split)
    then have "s' = (ac, g) \<or> append_and_schedule M fn privdata cmd len (ac\<lparr>ac_replies := ac_replies ac @ [?cb]\<rparr>, g) = Some (rc, s')"
      using assms(4) s by (simp split: if_splits)
    moreover have "books s'" if "append_and_schedule M fn privdata cmd len (ac\<lparr>ac_replies := ac_replies ac @ [?cb]\<rparr>, g) = Some (rc, s')"
      using that b by (intro books_append [OF that]) (simp_all split: option.split)
    ultimately show ?thesis using assms(1) s by auto
  qed
qed

lemma timeout_keeps: "books (ac, g) \<Longrightarrow> books (snd (redisAsyncSetTimeout M tv ac), g)"
  by (erule books_cong)
    (auto simp: redisAsyncSetTimeout_def redisAsyncCopyError_def out_of_memory_def redisSetError_def flag_def has_flag_def)

interpretation books_prog: prog_law M plain_cmd "\<lambda>s. granted M sizeof_redisCallback \<and> books s" for M
proof (unfold_locales, goal_cases)
  case (1 s cmd fn privdata len rc s')
  then show ?case using books_command by blast
next
  case (2 ac g)
  then show ?case by (simp add: books_set books_clear)
next
  case (3 ac g)
  then show ?case by (simp add: books_set)
next
  case (4 ac g tv)
  then show ?case by (simp add: timeout_keeps)
next
  case (5 ac g fn)
  then show ?case by (auto elim: books_cong)
next
  case (6 ac g u)
  then show ?case by (auto elim: books_cong)
qed

text \<open>User code that only sends plain commands, on sockets, with memory for the callbacks.\<close>

definition plain_env :: "('f, 'p, 'u) runtime \<Rightarrow> bool" where
  "plain_env E \<longleftrightarrow> granted (en_mem E) sizeof_redisCallback \<and> en_funcs E = redisContextDefaultFuncs (en_libc E)
     \<and> (\<forall>fn h reply privdata u. prog_cmds plain_cmd (en_fn E fn h reply privdata u))
     \<and> (\<forall>fn h reply u. prog_cmds plain_cmd (en_push E fn h reply u))"

text \<open>Between two handlers no callback runs; when the context is gone nothing is owed.\<close>

definition settled :: "('f, 'p, 'u) astate \<Rightarrow> bool" where
  "settled s \<longleftrightarrow> books s \<and> \<not> flag (fst s) REDIS_IN_CALLBACK"

definition settled_m :: "('f, 'p, 'u) mstate \<Rightarrow> bool" where
  "settled_m = (\<lambda>(m, g). case m of None \<Rightarrow> issued g = called g | Some ac \<Rightarrow> settled (ac, g))"

lemma settled_m_Some: "settled_m (Some ac, g) \<longleftrightarrow> settled (ac, g)"
  by (simp add: settled_m_def)

lemma settled_cong:
  assumes "settled (ac, g)" and "ac_replies ac' = ac_replies ac" and "ac_invalid ac' = ac_invalid ac"
    and "ac_channels ac' = ac_channels ac" and "ac_patterns ac' = ac_patterns ac"
    and "issued g' = issued g" and "called g' = called g"
    and "\<And>f. f \<in> {REDIS_SUBSCRIBED, REDIS_MONITORING, REDIS_BLOCK, REDIS_IN_CALLBACK} \<Longrightarrow> flag ac' f = flag ac f"
  shows "settled (ac', g')"
  using assms books_cong [of ac g ac' g'] by (auto simp: settled_def)

lemma settled_set: "settled (ac, g) \<Longrightarrow> f \<in> {REDIS_DISCONNECTING, REDIS_FREEING, REDIS_CONNECTED} \<Longrightarrow> settled (set_flag f ac, g)"
  by (erule settled_cong) (auto simp: redis_flags)

text \<open>Taking a callback off the queue and running it settles it.\<close>

lemma run_callback_books:
  assumes "plain_env E" and "settled (ac\<lparr>ac_replies := cb # ac_replies ac\<rparr>, g)"
    and "redisRunCallback E cb reply (ac, g) = Some s'"
  shows "settled s'"
proof (cases "cb_fn cb")
  case None
  with assms(2,3) show ?thesis by (auto simp: redisRunCallback_def settled_def books_def)
next
  case (Some fn)
  let ?g = "emit (Called fn (wd_heap g) reply (cb_privdata cb)) g"
  obtain ac1 g1 where r: "run_prog (en_mem E) (en_fn E fn (wd_heap g) reply (cb_privdata cb) (wd_user g))
      (set_flag REDIS_IN_CALLBACK ac, ?g) = Some (ac1, g1)" "s' = (clear_flag REDIS_IN_CALLBACK ac1, g1)"
    using assms(3) Some by (auto simp: redisRunCallback_def)
  have "books (ac, ?g)" using assms(2) Some by (simp add: settled_def books_def)
  then have "books (set_flag REDIS_IN_CALLBACK ac, ?g)" by (simp add: books_set)
  then have "books (ac1, g1)" using books_prog.run_prog_keeps [OF r(1)] assms(1) by (simp add: plain_env_def)
  then show ?thesis by (simp add: r(2) settled_def books_clear flag_clear_same)
qed

lemma run_push_books:
  assumes "plain_env E" and "settled (ac, g)" and "redisRunPushCallback E reply (ac, g) = Some s'"
  shows "settled s'"
proof (cases "ac_push_cb ac")
  case None
  with assms(2,3) show ?thesis by (simp add: redisRunPushCallback_def)
next
  case (Some fn)
  let ?g = "emit (Pushed fn (wd_heap g) reply) g"
  obtain ac1 g1 where r: "run_prog (en_mem E) (en_push E fn (wd_heap g) reply (wd_user g))
      (set_flag REDIS_IN_CALLBACK ac, ?g) = Some (ac1, g1)" "s' = (clear_flag REDIS_IN_CALLBACK ac1, g1)"
    using assms(3) Some by (auto simp: redisRunPushCallback_def)
  have "books (ac, ?g)" using assms(2) by (simp add: settled_def books_def)
  then have "books (set_flag REDIS_IN_CALLBACK ac, ?g)" by (simp add: books_set)
  then have "books (ac1, g1)" using books_prog.run_prog_keeps [OF r(1)] assms(1) by (simp add: plain_env_def)
  then show ?thesis by (simp add: r(2) settled_def books_clear flag_clear_same)
qed

lemma shift_Some: "redisShiftCallback l = Some (cb, l') \<longleftrightarrow> l = cb # l'"
  and shift_None: "redisShiftCallback l = None \<longleftrightarrow> l = []"
  by (cases l; auto)+

lemma drain_replies_books:
  assumes "drain_replies E s = Some s'" and "plain_env E" and "settled s"
  shows "settled s' \<and> ac_replies (fst s') = []"
  using assms
proof (induction rule: drain_replies.raw_induct [rotated, consumes 1])
  case (1 f E s s')
  show ?case
  proof (cases "redisShiftCallback (ac_replies (fst s))")
    case None
    with 1 show ?thesis by (simp add: shift_None)
  next
    case (Some x)
    obtain cb l where x: "x = (cb, l)" by force
    obtain s1 where s1: "redisRunCallback E cb NULL ((fst s)\<lparr>ac_replies := l\<rparr>, snd s) = Some s1" "f E s1 = Some s'"
      using 1(2) Some x by (auto split: option.splits)
    have "ac_replies (fst s) = cb # l" using Some x by (simp add: shift_Some)
    then have "(fst s)\<lparr>ac_replies := cb # l\<rparr> = fst s" by simp
    then have "settled ((fst s)\<lparr>ac_replies := l, ac_replies := cb # l\<rparr>, snd s)" using 1(4) by simp
    then have "settled s1" using run_callback_books [OF 1(3) _ s1(1)] by simp
    with 1(1) [OF s1(2) 1(3)] show ?thesis by simp
  qed
qed

lemma drain_invalid_empty: "ac_invalid (fst s) = [] \<Longrightarrow> drain_invalid E s = Some s"
  by (subst drain_invalid.simps) simp

lemma run_subs_empty:
  assumes "no_subs (subs_of pvariant (fst s))" shows "run_subs E pvariant s = Some s"
proof (cases "granted (en_mem E) 32")
  case True
  let ?it = "\<lparr>it_index = -1, it_entry = [], it_nextEntry = []\<rparr>"
  have "dictNext (subs_of pvariant (fst s)) ?it = Some (None, ?it\<lparr>it_index := 0\<rparr>)"
    using assms by (simp add: dictNext.simps no_subs_def Let_def)
  then have "iterate_subs E pvariant ?it s = Some s" by (subst iterate_subs.simps) simp
  with True show ?thesis by (simp add: run_subs_def dictGetIterator_def)
qed (simp add: run_subs_def dictGetIterator_def)

lemma release_books: "release (ac, g) = Some g' \<Longrightarrow> issued g' = issued g \<and> called g' = called g"
  by (auto simp: release_def el_cleanup_def Let_def split: option.splits if_splits)

lemma free_now_books:
  assumes "plain_env E" and "settled s" and "redisAsyncFree_now E s = Some g'"
  shows "issued g' = called g'"
proof -
  obtain s1 where s1: "drain_replies E s = Some s1"
    using assms(3) by (cases "drain_replies E s") (simp_all add: redisAsyncFree_now_def)
  have s: "settled s1" "ac_replies (fst s1) = []" using drain_replies_books [OF s1 assms(1,2)] by simp_all
  then have b: "ac_invalid (fst s1) = []" "no_subs (ac_channels (fst s1))" "no_subs (ac_patterns (fst s1))"
    "issued (snd s1) = called (snd s1)"
    by (auto simp: settled_def books_def split_beta)
  then have "release s1 = Some g'"
    using assms(3) s1 by (simp add: redisAsyncFree_now_def drain_invalid_empty run_subs_empty subs_of_def)
  then show ?thesis using release_books [of "fst s1" "snd s1"] b(4) by simp
qed

lemma disconnect_now_books:
  assumes "plain_env E" and "settled (ac, g)" and "redisAsyncDisconnect_now E (ac, g) = Some m"
  shows "settled_m m"
proof -
  define ac1 where "ac1 = (let ac = redisAsyncCopyError ac in if ac_err ac = 0 then ac else set_flag REDIS_DISCONNECTING ac)"
  obtain ac2 g2 where c: "el_cleanup (ac1, g) = (ac2, g2)" by force
  have "settled (redisAsyncCopyError ac, g)"
    using assms(2) by (rule settled_cong) (simp_all add: redisAsyncCopyError_def flag_def)
  then have "settled (ac1, g)" by (simp add: ac1_def Let_def settled_set)
  then have s: "settled (ac2, g2)" using c by (auto simp: el_cleanup_def elim: settled_cong)
  have "(if \<not> flag ac2 REDIS_NO_AUTO_FREE then map_option (Pair None) (redisAsyncFree_now E (ac2, g2)) else Some (Some ac2, g2)) = Some m"
    using assms(3) c by (simp add: redisAsyncDisconnect_now_def Let_def ac1_def split: if_splits)
  then show ?thesis using free_now_books [OF assms(1) s] s by (auto simp: settled_m_def split: if_splits)
qed

lemma free_reply_books: "settled s \<Longrightarrow> free_reply_obj reply s = Some s' \<Longrightarrow> settled s'"
  by (cases s) (auto simp: free_reply_obj_def elim: settled_cong)

lemma deliver_books:
  assumes "plain_env E" and "settled (ac\<lparr>ac_replies := cb # ac_replies ac\<rparr>, g)" and "deliver E reply cb (ac, g) = Some r"
  shows "case r of Again _ s \<Rightarrow> settled s | Stop m \<Rightarrow> settled_m m"
proof (cases "cb_fn cb = None")
  case True
  then have "settled (ac, g)" using assms(2) by (auto simp: settled_def books_def)
  with assms(3) True show ?thesis by (auto simp: deliver_def dest: free_reply_books)
next
  case False
  obtain s1 where s1: "redisRunCallback E cb reply (ac, g) = Some s1"
    using assms(3) False by (cases "redisRunCallback E cb reply (ac, g)") (simp_all add: deliver_def)
  then obtain s2 where s2: "free_reply_obj reply s1 = Some s2"
    using assms(3) False by (cases "free_reply_obj reply s1") (simp_all add: deliver_def)
  have "settled s2" using free_reply_books [OF run_callback_books [OF assms(1,2) s1] s2] .
  moreover have "(if flag (fst s2) REDIS_FREEING then map_option (\<lambda>g. Stop (None, g)) (redisAsyncFree_now E s2)
      else Some (Again cb s2)) = Some r"
    using assms(3) False s1 s2 by (simp add: deliver_def)
  ultimately show ?thesis using free_now_books [OF assms(1), of s2] by (auto simp: settled_m_def split: if_splits)
qed

lemma process_reply_books:
  assumes "plain_env E" and "settled (ac, g)" and "process_reply E reply cb (ac, g) = Some r"
  shows "case r of Again _ s \<Rightarrow> settled s | Stop m \<Rightarrow> settled_m m"
proof -
  obtain rep where rep: "hget (wd_heap g) reply = Some rep"
    using assms(3) by (cases "hget (wd_heap g) reply") (simp_all add: process_reply_def)
  obtain sp where sp: "redisIsSpontaneousPushReply rep (wd_heap g) = Some sp"
    using assms(3) rep by (cases "redisIsSpontaneousPushReply rep (wd_heap g)") (simp_all add: process_reply_def)
  show ?thesis
  proof (cases sp)
    case True
    obtain s1 where s1: "redisRunPushCallback E reply (ac, g) = Some s1"
      using assms(3) rep sp True by (cases "redisRunPushCallback E reply (ac, g)") (simp_all add: process_reply_def)
    with assms(3) rep sp True obtain s2 where "free_reply_obj reply s1 = Some s2" "r = Again cb s2"
      by (auto simp: process_reply_def)
    then show ?thesis using free_reply_books [OF run_push_books [OF assms(1,2) s1]] by simp
  next
    case False
    show ?thesis
    proof (cases "ac_replies ac")
      case (Cons cb' list)
      have "ac\<lparr>ac_replies := cb' # list\<rparr> = ac" using Cons by simp
      then have "settled (ac\<lparr>ac_replies := list, ac_replies := cb' # list\<rparr>, g)" using assms(2) by simp
      then show ?thesis using assms(3) rep sp False Cons
        by (intro deliver_books [OF assms(1), of cb' "ac\<lparr>ac_replies := list\<rparr>" g reply]) (simp_all add: process_reply_def)
    next
      case Nil
      have f: "\<not> flag ac REDIS_SUBSCRIBED" "\<not> flag ac REDIS_MONITORING" using assms(2) by (auto simp: settled_def books_def)
      with assms(3) rep sp False Nil obtain str s1 m where s1: "free_reply_obj reply (with_error str ac, g) = Some s1"
        "redisAsyncDisconnect_now E s1 = Some m" "r = Stop m"
        by (auto simp: process_reply_def bind_eq_Some_conv split: if_splits)
      have "settled (with_error str ac, g)"
        using assms(2) by (rule settled_cong) (auto simp: with_error_def flag_def has_flag_def)
      then have "settled s1" using s1(1) free_reply_books by blast
      then show ?thesis using disconnect_now_books [OF assms(1), of "fst s1" "snd s1"] s1 by simp
    qed
  qed
qed

lemma no_reply_books:
  assumes "plain_env E" and "settled (ac, g)" and "no_reply E cb (ac, g) = Some m"
  shows "settled_m m"
proof -
  have "\<not> flag ac REDIS_MONITORING" using assms(2) by (simp add: settled_def books_def)
  then have "m = (Some ac, g) \<or> redisAsyncDisconnect_now E (ac, g) = Some m"
    using assms(3) by (auto simp: no_reply_def Let_def split: if_splits option.splits)
  then show ?thesis using disconnect_now_books [OF assms(1,2)] assms(2) by (auto simp: settled_m_def)
qed

lemma get_reply_books:
  assumes "settled (ac, g)" and "get_reply E (ac, g) = Some (rc, reply, s')"
  shows "settled s'"
proof -
  have nb: "\<not> has_flag (ac_c ac) REDIS_BLOCK" using assms(1) by (simp add: settled_def books_def flag_def)
  obtain c h w where r: "redisGetReply (en_funcs E) (en_libc E) (en_mem E) True (ac_c ac, wd_heap g, wd_os g) = Some (rc, reply, c, h, w)"
    "s' = (ac\<lparr>ac_c := c\<rparr>, g\<lparr>wd_heap := h, wd_os := w\<rparr>)"
    using assms(2) by (auto simp: get_reply_def)
  have "rc_flags c = rc_flags (ac_c ac)"
    using r(1) nb by (auto simp: redisGetReply_def redisGetReplyFromReader_def Let_def redisSetError_def has_flag_def
        split: option.splits if_splits prod.splits)
  then show ?thesis using assms(1) by (auto simp: r(2) flag_def has_flag_def elim!: settled_cong)
qed

lemma callbacks_loop_books:
  assumes "callbacks_loop E cb s = Some m" and "plain_env E" and "settled s"
  shows "settled_m m"
  using assms
proof (induction rule: callbacks_loop.raw_induct [rotated, consumes 1])
  case (1 f E cb s m)
  obtain rc reply s1 where g: "get_reply E s = Some (rc, reply, s1)"
    using 1(2) by (cases "get_reply E s") auto
  have s1: "settled s1" using get_reply_books [of "fst s" "snd s"] 1(4) g by simp
  consider "redisAsyncDisconnect_now E s1 = Some m" | "no_reply E cb s1 = Some m"
    | x where "process_reply E reply cb s1 = Some x" "(case x of Stop m \<Rightarrow> Some m | Again cb s \<Rightarrow> f E cb s) = Some m"
    using 1(2) g by (auto split: if_splits option.splits)
  then show ?case
  proof cases
    case 1
    then show ?thesis using disconnect_now_books [OF \<open>plain_env E\<close>, of "fst s1" "snd s1"] s1 by simp
  next
    case 2
    then show ?thesis using no_reply_books [OF \<open>plain_env E\<close>, of "fst s1" "snd s1"] s1 by simp
  next
    case (3 x)
    have x: "case x of Again _ s \<Rightarrow> settled s | Stop m \<Rightarrow> settled_m m"
      using process_reply_books [OF \<open>plain_env E\<close>, of "fst s1" "snd s1"] s1 3(1) by simp
    show ?thesis
    proof (cases x)
      case (Again cb2 s2)
      with x 3(2) 1(1) [of E cb2 s2 m] 1(3) show ?thesis by simp
    next
      case (Stop m')
      with x 3(2) show ?thesis by simp
    qed
  qed
qed

section \<open>Handlers keep the books\<close>

lemma same_but_err_flags: "same_but_err c c' \<Longrightarrow> rc_flags c' = rc_flags c"
  by (cases c; cases c') (simp add: same_but_err_def)

lemma bufferRead_flags:
  assumes "redisBufferRead (redisContextDefaultFuncs L) M (c, h, w) = Some (rc, c', h', w')"
  shows "rc_flags c' = rc_flags c"
proof -
  obtain n d c1 w1 where n: "redisNetRead L (1024 * 16) (c, w) = (n, d, c1, w1)" by (meson prod_cases4)
  then have "rc_flags c1 = rc_flags c" using netRead_law same_but_err_flags by blast
  with assms n show ?thesis
    by (auto simp: redisBufferRead_def redisContextDefaultFuncs_def Let_def redisSetError_def split: if_splits option.splits)
qed

lemma netWrite_flags: "redisNetWrite L (c, w) = Some (n, c', w') \<Longrightarrow> rc_flags c' = rc_flags c"
  by (auto simp: redisNetWrite_def Let_def redisSetErrorIO_def split: option.splits prod.splits if_splits)

lemma bufferWrite_flags:
  assumes "redisBufferWrite (redisContextDefaultFuncs L) M (c, h, w) = Some (rc, wdone, c', h', w')"
  shows "rc_flags c' = rc_flags c"
  using assms
  by (auto simp: redisBufferWrite_def redisContextDefaultFuncs_def Let_def out_of_memory_def redisSetError_def
      dest!: netWrite_flags split: if_splits option.splits prod.splits)

lemma with_os_books: "settled s \<Longrightarrow> rc_flags c = rc_flags (ac_c (fst s)) \<Longrightarrow> settled (with_os (c, w) s)"
  by (cases s) (auto simp: with_os_def flag_def has_flag_def elim!: settled_cong)

lemma on_connect_books: "settled s \<Longrightarrow> settled (on_connect status s)"
  by (cases s) (auto simp: on_connect_def elim: settled_cong split: option.splits)

lemma el_books: "settled s \<Longrightarrow> settled (el_add_read s)" "settled s \<Longrightarrow> settled (el_add_write s)"
  "settled s \<Longrightarrow> settled (el_del_write s)"
  by (cases s; auto simp: el_add_read_def el_add_write_def el_del_write_def Let_def elim: settled_cong)+

lemma checkConnect_flags: "redisCheckConnectDone (c, w) = (rc, d, c', w') \<Longrightarrow> c' = c"
  by (auto simp: redisCheckConnectDone_def Let_def split: prod.splits if_splits option.splits errno.splits)

lemma socketError_flags: "rc_flags (fst (snd (redisCheckSocketError L (c, w)))) = rc_flags c"
  by (simp add: redisCheckSocketError_def redisSetErrorFromErrno_def redisSetError_def Let_def split: prod.split)

lemma tcpNoDelay_flags: "redisSetTcpNoDelay L (c, w) = (rc, c', w') \<Longrightarrow> rc_flags c' = rc_flags c"
  by (auto simp: redisSetTcpNoDelay_def redisSetErrorFromErrno_def redisSetError_def redisNetClose_def Let_def split: prod.splits if_splits)

lemma handleConnect_books:
  assumes "plain_env E" and "settled (ac, g)" and "redisAsyncHandleConnect E (ac, g) = Some (rc, m)"
  shows "settled_m m"
proof -
  obtain rc1 completed c w where c: "redisCheckConnectDone (ac_c ac, wd_os g) = (rc1, completed, c, w)" by (meson prod_cases4)
  have same: "c = ac_c ac" using checkConnect_flags [OF c] .
  have fail: "settled_m m'" if "settled s" and "redisAsyncHandleConnectFailure E s = Some m'" for s and m' :: "('a, 'b, 'c) mstate"
    using that disconnect_now_books [OF assms(1), of "fst (on_connect REDIS_ERR s)" "snd (on_connect REDIS_ERR s)"]
    by (simp add: redisAsyncHandleConnectFailure_def on_connect_books)
  show ?thesis
  proof (cases "rc1 = REDIS_ERR")
    case True
    obtain rc2 c2 w2 where c2: "redisCheckSocketError (en_libc E) (c, w) = (rc2, c2, w2)" by (meson prod_cases3)
    have s: "settled (with_os (c2, w2) (ac, g))"
      using assms(2) socketError_flags [of "en_libc E" c w] c2 same by (simp add: with_os_books)
    have "redisAsyncHandleConnectFailure E (with_os (c2, w2) (ac, g)) = Some m"
      using assms(3) True c c2 by (auto simp: redisAsyncHandleConnect_def Let_def)
    then show ?thesis by (rule fail [OF s])
  next
    case False
    show ?thesis
    proof (cases completed)
      case True
      obtain rc2 c2 w2 where c2: "(if rc_connection_type c = REDIS_CONN_TCP then redisSetTcpNoDelay (en_libc E) (c, w)
          else (REDIS_OK, c, w)) = (rc2, c2, w2)" by (meson prod_cases3)
      then have "rc_flags c2 = rc_flags (ac_c ac)" using same tcpNoDelay_flags by (auto split: if_splits)
      then have s: "settled (with_os (c2, w2) (ac, g))" using assms(2) by (simp add: with_os_books)
      obtain ac3 g3 where oc: "on_connect REDIS_OK (with_os (c2, w2) (ac, g)) = (ac3, g3)" by force
      then have "settled (ac3, g3)" using on_connect_books [OF s, of REDIS_OK] by simp
      then have "settled_m (Some (set_flag REDIS_CONNECTED ac3), g3)" by (simp add: settled_m_def settled_set)
      moreover have "(if rc2 = REDIS_ERR then map_option (Pair REDIS_ERR) (redisAsyncHandleConnectFailure E (with_os (c2, w2) (ac, g)))
          else Some (REDIS_OK, Some (set_flag REDIS_CONNECTED ac3), g3)) = Some (rc, m)"
        using assms(3) c c2 True False oc
        by (cases "rc2 = REDIS_ERR") (simp_all add: redisAsyncHandleConnect_def Let_def)
      ultimately show ?thesis using fail [OF s] by (auto split: if_splits)
    next
      case comp: False
      have "settled (with_os (c, w) (ac, g))" using assms(2) same by (simp add: with_os_books)
      then show ?thesis using assms(3) c False comp
        by (auto simp: redisAsyncHandleConnect_def Let_def settled_m_def with_os_def)
    qed
  qed
qed

lemma asyncRead_books:
  assumes "plain_env E" and "settled (ac, g)" and "redisAsyncRead E (ac, g) = Some m"
  shows "settled_m m"
proof -
  obtain rc c h w where r: "redisBufferRead (en_funcs E) (en_mem E) (ac_c ac, wd_heap g, wd_os g) = Some (rc, c, h, w)"
    using assms(3) by (cases "redisBufferRead (en_funcs E) (en_mem E) (ac_c ac, wd_heap g, wd_os g)") (auto simp: redisAsyncRead_def)
  let ?s = "(ac\<lparr>ac_c := c\<rparr>, g\<lparr>wd_heap := h, wd_os := w\<rparr>)"
  have "rc_flags c = rc_flags (ac_c ac)" using r assms(1) bufferRead_flags by (simp add: plain_env_def)
  then have s: "settled ?s" using assms(2) by (auto simp: flag_def has_flag_def elim!: settled_cong)
  have "redisAsyncDisconnect_now E ?s = Some m \<or> redisProcessCallbacks E (el_add_read ?s) = Some m"
    using assms(3) r by (auto simp: redisAsyncRead_def Let_def split: if_splits)
  then show ?thesis
    using disconnect_now_books [OF assms(1) s, of m] callbacks_loop_books [OF _ assms(1) el_books(1) [OF s], of null_cb m]
    by (simp add: redisProcessCallbacks_def) blast
qed

lemma asyncWrite_books:
  assumes "plain_env E" and "settled (ac, g)" and "redisAsyncWrite E (ac, g) = Some m"
  shows "settled_m m"
proof -
  obtain rc d c h w where r: "redisBufferWrite (en_funcs E) (en_mem E) (ac_c ac, wd_heap g, wd_os g) = Some (rc, d, c, h, w)"
    using assms(3) by (cases "redisBufferWrite (en_funcs E) (en_mem E) (ac_c ac, wd_heap g, wd_os g)") (auto simp: redisAsyncWrite_def)
  let ?s = "(ac\<lparr>ac_c := c\<rparr>, g\<lparr>wd_heap := h, wd_os := w\<rparr>)"
  have "rc_flags c = rc_flags (ac_c ac)" using r assms(1) bufferWrite_flags by (simp add: plain_env_def)
  then have s: "settled ?s" using assms(2) by (auto simp: flag_def has_flag_def elim!: settled_cong)
  obtain ac2 g2 where e: "el_add_read (if \<not> d then el_add_write ?s else el_del_write ?s) = (ac2, g2)" by force
  then have "settled (ac2, g2)" using el_books(1) [of "if \<not> d then el_add_write ?s else el_del_write ?s"] el_books(2,3) [OF s] by simp
  moreover have "redisAsyncDisconnect_now E ?s = Some m \<or> m = (Some ac2, g2)"
    using assms(3) r e by (auto simp: redisAsyncWrite_def Let_def split: if_splits)
  ultimately show ?thesis using disconnect_now_books [OF assms(1) s, of m] by (auto simp: settled_m_def)
qed

lemma when_connected_books:
  assumes "plain_env E" and "settled (ac, g)" and "when_connected E handler (ac, g) = Some m"
    and "\<And>ac g m. settled (ac, g) \<Longrightarrow> handler (ac, g) = Some m \<Longrightarrow> settled_m m"
  shows "settled_m m"
proof (cases "flag ac REDIS_CONNECTED")
  case True
  with assms show ?thesis by (simp add: when_connected_def)
next
  case False
  obtain rc m1 where c: "redisAsyncHandleConnect E (ac, g) = Some (rc, m1)"
    using assms(3) False by (cases "redisAsyncHandleConnect E (ac, g)") (auto simp: when_connected_def)
  have m1: "settled_m m1" using handleConnect_books [OF assms(1,2) c] .
  obtain a1 g1 where a: "m1 = (a1, g1)" by force
  show ?thesis
  proof (cases a1)
    case None
    with assms(3) False c m1 a show ?thesis by (auto simp: when_connected_def split: if_splits)
  next
    case (Some ac1)
    then have "settled (ac1, g1)" using m1 a by (simp add: settled_m_def)
    with assms(3,4) False c m1 a Some show ?thesis by (auto simp: when_connected_def split: if_splits)
  qed
qed

lemma timeout_books:
  assumes "plain_env E" and "settled (ac, g)" and "redisAsyncHandleTimeout E (ac, g) = Some m"
  shows "settled_m m"
proof (cases "flag ac REDIS_CONNECTED \<and> ac_replies ac = []")
  case True
  with assms(2,3) show ?thesis by (auto simp: redisAsyncHandleTimeout_def settled_m_def)
next
  case False
  define ac1 where "ac1 = (if rc_err (ac_c ac) = 0 then on_c (\<lambda>c. redisSetError c REDIS_ERR_TIMEOUT ''Timeout'') ac else ac)"
  define s1 where "s1 = (if \<not> flag ac1 REDIS_CONNECTED then on_connect REDIS_ERR (ac1, g) else (ac1, g))"
  have "settled (ac1, g)" using assms(2)
    by (auto simp: ac1_def redisSetError_def flag_def has_flag_def elim!: settled_cong)
  then have s1: "settled s1" by (simp add: s1_def on_connect_books)
  have body: "(case drain_replies E s1 of None \<Rightarrow> None | Some s \<Rightarrow> redisAsyncDisconnect_now E s) = Some m"
    using assms(3) False by (simp only: redisAsyncHandleTimeout_def Let_def s1_def ac1_def prod.case if_False)
  then obtain s2 where s2: "drain_replies E s1 = Some s2" "redisAsyncDisconnect_now E s2 = Some m"
    by (cases "drain_replies E s1") simp_all
  then show ?thesis
    using disconnect_now_books [OF assms(1), of "fst s2" "snd s2"] drain_replies_books [OF s2(1) assms(1) s1] by simp
qed

text \<open>The value that the loop stores for a name with the given entry.\<close>

definition next_cb :: "('f, 'p) redisCallback \<Rightarrow> (bytes, ('f, 'p) redisCallback option) dictEntry option \<Rightarrow> ('f, 'p) redisCallback option" where
  "next_cb cb de = (case de of
     None \<Rightarrow> Some cb
   | Some e \<Rightarrow> map_option (\<lambda>old. cb\<lparr>cb_pending_subs := sbits 32 (cb_pending_subs old + 1)\<rparr>) (de_val e))"

lemma subscribe_loop_step:
  assumes "subscribe_loop M pvariant cb p ac = Some r"
  obtains "nextArgument p = Some None" and "r = Inr ac"
  | alen astr q where "nextArgument p = Some (Some (alen, astr, q))" and "r = Inl ac"
  | alen astr q sname de cb' i d where "nextArgument p = Some (Some (alen, astr, q))" and "alen \<le> length astr"
      and "sdsnewlen M (Some (take alen astr)) alen = Some sname" and "dictFind (subs_of pvariant ac) (sdsval sname) = Some de"
      and "next_cb cb de = Some cb'" and "dictReplace M (subs_of pvariant ac) (sdsval sname) (Some cb') = Some (i, d)"
      and "subscribe_loop M pvariant cb' q (with_subs pvariant d ac) = Some r"
proof -
  obtain n where n: "nextArgument p = Some n" using assms by (auto simp: subscribe_loop.simps split: option.splits)
  show ?thesis
  proof (cases n)
    case None
    with n assms that(1) show ?thesis by (simp add: subscribe_loop.simps)
  next
    case (Some x)
    obtain alen astr q where x: "nextArgument p = Some (Some (alen, astr, q))" using n Some by (cases x) auto
    have le: "alen \<le> length astr" using assms by (subst (asm) subscribe_loop.simps) (simp add: x split: if_splits)
    show ?thesis
    proof (cases "sdsnewlen M (Some (take alen astr)) alen")
      case None
      with assms x le show ?thesis by (intro that(2)) (auto simp: subscribe_loop.simps [of M pvariant cb p])
    next
      case (Some sname)
      obtain de where de: "dictFind (subs_of pvariant ac) (sdsval sname) = Some de"
        using assms x le Some by (subst (asm) subscribe_loop.simps) (auto simp: Let_def subs_of_def split: option.splits)
      obtain cb' where cb': "next_cb cb de = Some cb'"
        using assms x le Some de
        by (subst (asm) subscribe_loop.simps) (auto simp: Let_def subs_of_def next_cb_def split: option.splits)
      obtain i d where d: "dictReplace M (subs_of pvariant ac) (sdsval sname) (Some cb') = Some (i, d)"
        using assms x le Some de cb'
        by (subst (asm) subscribe_loop.simps) (auto simp: Let_def subs_of_def next_cb_def split: option.splits)
      have "subscribe_loop M pvariant cb' q (with_subs pvariant d ac) = Some r"
        using assms x le Some de cb' d
        by (subst (asm) subscribe_loop.simps) (auto simp: Let_def subs_of_def next_cb_def with_subs_def split: option.splits)
      with x le Some de cb' d that(3) show ?thesis by blast
    qed
  qed
qed

lemma ac_c_with_subs [simp]: "ac_c (with_subs pvariant d ac) = ac_c ac"
  by (simp add: with_subs_def)

lemma subscribe_loop_c:
  "subscribe_loop M pvariant cb p ac = Some r \<Longrightarrow> (case r of Inl ac' \<Rightarrow> ac_c ac' | Inr ac' \<Rightarrow> ac_c ac') = ac_c ac"
proof (induction p arbitrary: cb ac rule: measure_induct_rule [of length])
  case (less p)
  from less.prems show ?case
  proof (cases rule: subscribe_loop_step)
    case (3 alen astr q sname de cb' i d)
    from less.IH [OF nextArgument_less [OF 3(1)] 3(7)] show ?thesis by simp
  qed simp_all
qed

lemma append_flag:
  assumes "append_and_schedule M fn privdata cmd len (ac, g) = Some (rc, ac', g')" shows "flag ac' f = flag ac f"
  using assms
  by (auto simp: append_and_schedule_def el_add_write_def Let_def flag_def has_flag_def dest!: append_raw_flags split: option.splits)

text \<open>A command changes at most the two mode flags.\<close>

lemma command_flag:
  assumes "redisAsyncCommand_raw M fn privdata cmd len (ac, g) = Some (rc, ac', g')"
    and "(REDIS_SUBSCRIBED OR REDIS_MONITORING) AND f = 0"
  shows "flag ac' f = flag ac f"
proof -
  have f: "REDIS_SUBSCRIBED AND f = 0" "REDIS_MONITORING AND f = 0" using assms(2) by (simp_all only: word_ao_dist or_eq_0_iff)
  have ap: "flag ac' f = flag ac1 f" if "append_and_schedule M fn privdata cmd len (ac1, g) = Some (rc, ac', g')" for ac1
    using append_flag [OF that] .
  have oom: "flag (on_c out_of_memory ac1) f = flag ac1 f" for ac1 :: "('a, 'b) redisAsyncContext"
    by (simp add: flag_def has_flag_def out_of_memory_def redisSetError_def)
  have sub: "flag (case r of Inl a \<Rightarrow> a | Inr a \<Rightarrow> a) f = flag ac f"
    if "subscribe_loop M pv cb p (set_flag REDIS_SUBSCRIBED ac) = Some r" for pv cb p r
  proof -
    have "flag (set_flag REDIS_SUBSCRIBED ac) f = flag ac f" using f by simp
    with subscribe_loop_c [OF that] show ?thesis by (cases r) (simp_all add: flag_def)
  qed
  show ?thesis
  proof (cases "flag ac (REDIS_DISCONNECTING OR REDIS_FREEING)")
    case True
    with assms(1) show ?thesis by (simp add: redisAsyncCommand_raw_def)
  next
    case False
    then obtain l str p where n: "nextArgument cmd = Some (Some (l, str, p))"
      using command_next [OF assms(1)] by blast
    define str' where "str' = (if tolower (char0 str) = CHR ''p'' then tl str else str)"
    let ?cb = "\<lparr>cb_fn = fn, cb_pending_subs = 1, cb_privdata = privdata\<rparr>"
    have body: "(if char0 p = CHR ''$'' \<and> strncaseeq str' (''subscribe'' @ [CR, LF]) 11
        then (case subscribe_loop M (tolower (char0 str) = CHR ''p'') ?cb p (set_flag REDIS_SUBSCRIBED ac) of
                None \<Rightarrow> None
              | Some (Inl ac) \<Rightarrow> Some (REDIS_ERR, on_c out_of_memory ac, g)
              | Some (Inr ac) \<Rightarrow> append_and_schedule M fn privdata cmd len (ac, g))
        else if strncaseeq str' (''unsubscribe'' @ [CR, LF]) 13
        then (if \<not> flag ac REDIS_SUBSCRIBED then Some (REDIS_ERR, ac, g) else append_and_schedule M fn privdata cmd len (ac, g))
        else if strncaseeq str' (''monitor'' @ [CR, LF]) 9
        then append_and_schedule M fn privdata cmd len
          ((set_flag REDIS_MONITORING ac)\<lparr>ac_replies := snd (redisPushCallback M (ac_replies ac) ?cb)\<rparr>, g)
        else if flag ac REDIS_SUBSCRIBED
        then append_and_schedule M fn privdata cmd len (ac\<lparr>ac_invalid := snd (redisPushCallback M (ac_invalid ac) ?cb)\<rparr>, g)
        else append_and_schedule M fn privdata cmd len (ac\<lparr>ac_replies := snd (redisPushCallback M (ac_replies ac) ?cb)\<rparr>, g))
      = Some (rc, ac', g')"
      using assms(1) False n by (simp only: redisAsyncCommand_raw_def Let_def str'_def prod.case if_False option.case ac_set_flag)
    then show ?thesis
      using f by (auto split: if_splits option.splits sum.splits dest!: ap dest: sub simp: oom)
  qed
qed

section \<open>Runs of a context\<close>

text \<open>
  The states of a context from its creation on: the event loop reports events, the event library and
  the user set hooks and callbacks, and the user sends commands that satisfy \<open>P\<close>, disconnects, and frees.
\<close>

inductive async_run :: "('f, 'p, 'u) runtime \<Rightarrow> (bytes \<Rightarrow> bool) \<Rightarrow> ('f, 'p, 'u) mstate \<Rightarrow> bool" for E P where
  create: "redisAsyncInitialize M c = Some ac
    \<Longrightarrow> rc_flags c AND (REDIS_BLOCK OR REDIS_SUBSCRIBED OR REDIS_MONITORING OR REDIS_IN_CALLBACK) = 0
    \<Longrightarrow> wd_log g = [] \<Longrightarrow> async_run E P (Some ac, g)"
| attach: "async_run E P (Some ac, g) \<Longrightarrow> async_run E P (Some (ac\<lparr>ac_ev := hooks, ac_dataCleanup := d\<rparr>), g)"
| on_connect: "async_run E P (Some ac, g) \<Longrightarrow> redisAsyncSetConnectCallback fn (ac, g) = (rc, ac', g')
    \<Longrightarrow> async_run E P (Some ac', g')"
| on_disconnect: "async_run E P (Some ac, g) \<Longrightarrow> redisAsyncSetDisconnectCallback fn (ac, g) = (rc, ac', g')
    \<Longrightarrow> async_run E P (Some ac', g')"
| on_push: "async_run E P (Some ac, g) \<Longrightarrow> redisAsyncSetPushCallback ac push = (old, ac') \<Longrightarrow> async_run E P (Some ac', g)"
| set_timeout: "async_run E P (Some ac, g) \<Longrightarrow> redisAsyncSetTimeout (en_mem E) tv ac = (rc, ac') \<Longrightarrow> async_run E P (Some ac', g)"
| command: "async_run E P (Some ac, g) \<Longrightarrow> P cmd
    \<Longrightarrow> redisAsyncCommand_raw (en_mem E) fn privdata cmd len (ac, g) = Some (rc, ac', g') \<Longrightarrow> async_run E P (Some ac', g')"
| readable: "async_run E P (Some ac, g) \<Longrightarrow> redisAsyncHandleRead E (ac, g) = Some m \<Longrightarrow> async_run E P m"
| writable: "async_run E P (Some ac, g) \<Longrightarrow> redisAsyncHandleWrite E (ac, g) = Some m \<Longrightarrow> async_run E P m"
| timed_out: "async_run E P (Some ac, g) \<Longrightarrow> redisAsyncHandleTimeout E (ac, g) = Some m \<Longrightarrow> async_run E P m"
| disconnect: "async_run E P (Some ac, g) \<Longrightarrow> redisAsyncDisconnect E (ac, g) = Some m \<Longrightarrow> async_run E P m"
| free: "async_run E P (Some ac, g) \<Longrightarrow> redisAsyncFree E (ac, g) = Some m \<Longrightarrow> async_run E P m"

lemma initialize_settled:
  assumes "redisAsyncInitialize M c = Some ac"
    and "rc_flags c AND (REDIS_BLOCK OR REDIS_SUBSCRIBED OR REDIS_MONITORING OR REDIS_IN_CALLBACK) = 0" and "wd_log g = []"
  shows "settled (ac, g)"
proof -
  have fl: "(rc_flags c AND NOT REDIS_CONNECTED) AND f = 0"
    if "f \<in> {REDIS_BLOCK, REDIS_SUBSCRIBED, REDIS_MONITORING, REDIS_IN_CALLBACK}" for f
  proof -
    have "rc_flags c AND f = 0" using assms(2) that by (auto simp only: word_ao_dist2 or_eq_0_iff insert_iff empty_iff)
    moreover have "(rc_flags c AND NOT REDIS_CONNECTED) AND f = (rc_flags c AND f) AND NOT REDIS_CONNECTED"
      by (simp only: ac_simps)
    ultimately show ?thesis by simp
  qed
  have "ac_replies ac = []" "ac_invalid ac = []" "no_subs (ac_channels ac)" "no_subs (ac_patterns ac)"
    "rc_flags (ac_c ac) = rc_flags c AND NOT REDIS_CONNECTED"
    using assms(1) by (auto simp: redisAsyncInitialize_def dictCreate_def dictInit_def no_subs_def split: if_splits)
  then show ?thesis
    using fl assms(3) by (simp add: settled_def books_def flag_def has_flag_def issued_def called_def)
qed

lemma free_books:
  assumes "plain_env E" and "settled (ac, g)" and "redisAsyncFree E (ac, g) = Some m"
  shows "settled_m m \<and> fst m = None"
proof -
  have "\<not> flag (set_flag REDIS_FREEING ac) REDIS_IN_CALLBACK" using assms(2) by (simp add: settled_def redis_flags)
  then have "map_option (Pair None) (redisAsyncFree_now E (set_flag REDIS_FREEING ac, g)) = Some m"
    using assms(3) by (simp add: redisAsyncFree_def free_by_def Let_def)
  then show ?thesis using free_now_books [OF assms(1) settled_set [OF assms(2), of REDIS_FREEING]] by (auto simp: settled_m_def)
qed

lemma disconnect_books:
  assumes "plain_env E" and "settled (ac, g)" and "redisAsyncDisconnect E (ac, g) = Some m"
  shows "settled_m m"
proof -
  let ?ac = "clear_flag REDIS_NO_AUTO_FREE (set_flag REDIS_DISCONNECTING ac)"
  have "settled (set_flag REDIS_DISCONNECTING ac, g)" using assms(2) by (simp add: settled_set)
  then have s: "settled (?ac, g)" by (rule settled_cong) (auto simp: flag_clear_other redis_flags)
  then have "m = (Some ?ac, g) \<or> redisAsyncDisconnect_now E (?ac, g) = Some m"
    using assms(3) by (auto simp: redisAsyncDisconnect_def disconnect_by_def Let_def split: if_splits)
  then show ?thesis using disconnect_now_books [OF assms(1) s, of m] s by (auto simp: settled_m_def)
qed

lemma async_run_settled:
  assumes "async_run E plain_cmd m" and "plain_env E" shows "settled_m m"
  using assms(1)
proof (induction rule: async_run.induct)
  case (create M c ac g)
  then show ?case using initialize_settled by (simp add: settled_m_def)
next
  case (attach ac g hooks d)
  then show ?case by (auto simp: settled_m_def flag_def elim: settled_cong)
next
  case (on_connect ac g fn rc ac' g')
  have "settled (el_add_write (ac\<lparr>ac_onConnect := Some fn\<rparr>, g))"
    using on_connect.IH by (intro el_books) (auto simp: settled_m_def flag_def elim: settled_cong)
  then show ?case using on_connect by (auto simp: settled_m_def redisAsyncSetConnectCallback_def split: if_splits)
next
  case (on_disconnect ac g fn rc ac' g')
  then show ?case by (auto simp: settled_m_def redisAsyncSetDisconnectCallback_def flag_def elim: settled_cong split: if_splits)
next
  case (on_push ac g push old ac')
  then show ?case by (auto simp: settled_m_def redisAsyncSetPushCallback_def elim: settled_cong)
next
  case (set_timeout ac g tv rc ac')
  then show ?case
    by (auto simp: settled_m_def redisAsyncSetTimeout_def redisAsyncCopyError_def out_of_memory_def redisSetError_def
        flag_def has_flag_def elim!: settled_cong split: if_splits)
next
  case (command ac g cmd fn privdata len rc ac' g')
  have b: "books (ac', g')"
    using books_command [of "(ac, g)"] command assms(2) by (auto simp: settled_m_def settled_def plain_env_def)
  have "\<not> flag ac' REDIS_IN_CALLBACK"
    using command command_flag [OF command.hyps(3), of REDIS_IN_CALLBACK] by (simp add: settled_m_def settled_def redis_flags)
  with b show ?case by (simp add: settled_m_def settled_def)
next
  case (readable ac g m)
  then show ?case using when_connected_books [OF assms(2)] asyncRead_books [OF assms(2)]
    by (simp add: settled_m_Some redisAsyncHandleRead_def)
next
  case (writable ac g m)
  then show ?case using when_connected_books [OF assms(2)] asyncWrite_books [OF assms(2)]
    by (simp add: settled_m_Some redisAsyncHandleWrite_def)
next
  case (timed_out ac g m)
  then show ?case using timeout_books [OF assms(2)] by (simp add: settled_m_Some)
next
  case (disconnect ac g m)
  then show ?case using disconnect_books [OF assms(2)] by (simp add: settled_m_Some)
next
  case (free ac g m)
  then show ?case using free_books [OF assms(2)] by (simp add: settled_m_Some)
qed

end
