(* ===== verification/AsyncSubs.thy ===== *)
theory AsyncSubs
  imports AsyncSpec
begin

text \<open>
  Commands as the asynchronous interface reads them: finding the arguments in the encoded text, and
  the tables of subscriptions that SUBSCRIBE fills.
\<close>

section \<open>Arguments of an encoded command\<close>

lemma find_char_here: "c \<notin> set s \<Longrightarrow> NUL \<notin> set s \<Longrightarrow> find_char c (s @ c # t) = Some (c # t)"
  by (induction s) auto

lemma dec_not_space: "c \<in> set (dec n) \<Longrightarrow> \<not> isspace c"
  using dec_isdigit [of c n] by (auto simp: isdigit_def isspace_def)

lemma digit_not_sign: "isdigit c \<Longrightarrow> c \<noteq> CHR ''-'' \<and> c \<noteq> CHR ''+'' \<and> c \<noteq> NUL"
  by (auto simp: isdigit_def byte_code_def)

lemma strtol10_dec:
  assumes "int n \<le> LLONG_MAX" shows "strtol10 (dec n @ CR # y) = int n"
proof -
  obtain d ds where d: "dec n = d # ds" by (metis dec_nonempty neq_Nil_conv)
  have dig: "\<forall>c \<in> set (dec n). isdigit c" using dec_isdigit by blast
  then have "isdigit d" "\<not> isspace d" using d dec_not_space [of d n] by simp_all
  then have nsp: "dropWhile isspace (dec n @ CR # y) = dec n @ CR # y" and c0: "char0 (dec n @ CR # y) = d"
    by (simp_all add: d char0_def)
  have "\<not> isdigit CR" by (simp add: isdigit_def byte_code_def)
  then have "takeWhile isdigit (dec n @ CR # y) = dec n" using dig by (simp add: takeWhile_append)
  then have "strtol10 (dec n @ CR # y) = max LLONG_MIN (min LLONG_MAX (int n))"
    using nsp c0 digit_not_sign [OF \<open>isdigit d\<close>] by (simp add: strtol10_def Let_def)
  then show ?thesis using assms by (simp add: LLONG_MIN_def)
qed

lemma nextArgument_bulk:
  assumes "length a < 2 ^ 31"
  shows "nextArgument (bulk a @ y) = Some (Some (length a, a @ CRLF @ y, y))"
proof -
  have "CR \<notin> set (dec (length a))" "NUL \<notin> set (dec (length a))"
    using dec_isdigit digit_not_CR digit_not_sign by blast+
  then have f: "find_char CR (CHR ''$'' # dec (length a) @ CRLF @ a @ CRLF @ y) = Some (CRLF @ a @ CRLF @ y)"
    using find_char_here [of CR "CHR ''$'' # dec (length a)" "LF # a @ CRLF @ y"] by (simp add: CRLF_def)
  have "strtol10 (dec (length a) @ CRLF @ a @ CRLF @ y) = int (length a)"
    using strtol10_dec [of "length a"] assms by (simp add: CRLF_def LLONG_MAX_def)
  then have "nat (sbits 32 (strtol10 (dec (length a) @ CRLF @ a @ CRLF @ y)) mod 2 ^ 64) = length a"
    using assms by simp
  moreover have "ubits 64 (length a + 2) = length a + 2" using assms by simp
  ultimately show ?thesis using f by (simp add: nextArgument_def bulk_def char0_def Let_def CRLF_def)
qed

lemma nextArgument_header: "nextArgument (CHR ''*'' # dec n @ CRLF @ bulk a @ y) = nextArgument (bulk a @ y)"
proof -
  have "CHR ''$'' \<notin> set (dec n)" "NUL \<notin> set (dec n)"
    using dec_isdigit digit_not_sign by (auto simp: isdigit_def byte_code_def dest!: dec_isdigit)
  then have "find_char CHR ''$'' (CHR ''*'' # dec n @ CRLF @ bulk a @ y) = Some (bulk a @ y)"
    using find_char_here [of "CHR ''$''" "CHR ''*'' # dec n @ CRLF" "tl (bulk a) @ y"] by (simp add: bulk_def CRLF_def)
  then show ?thesis by (simp add: nextArgument_def char0_def bulk_def)
qed

lemma nextArgument_end: "nextArgument [] = Some None"
  by (simp add: nextArgument_def char0_def)

text \<open>The first argument of a command as the formatters write it.\<close>

lemma nextArgument_command:
  assumes "length a < 2 ^ 31"
  shows "nextArgument (command_text (a # args)) = Some (Some (length a, a @ CRLF @ concat (map bulk args), concat (map bulk args)))"
  using nextArgument_header [of "length (a # args)" a "concat (map bulk args)"] nextArgument_bulk [OF assms, of "concat (map bulk args)"]
  by (simp add: command_text_def)

section \<open>Key comparison\<close>

text \<open>\<open>callbackKeyCompare\<close> is equality on names below 2 GB. The table with exact comparison behaves like the
  table of the code as long as its names are that short.\<close>

definition exact_type :: "('k, 'v) dictType \<Rightarrow> ('k, 'v) dictType" where
  "exact_type ty = ty\<lparr>dt_keyCompare := Some (=)\<rparr>"

definition exact :: "('k, 'v) dict \<Rightarrow> ('k, 'v) dict" where
  "exact d = d\<lparr>ht_type := exact_type (ht_type d)\<rparr>"

definition agrees_on :: "('k, 'v) dictType \<Rightarrow> 'k \<Rightarrow> ('k, 'v) dictEntry list \<Rightarrow> bool" where
  "agrees_on ty key es \<longleftrightarrow> (\<forall>e \<in> set es. dictCompareHashKeys ty key (de_key e) \<longleftrightarrow> key = de_key e)"

lemma callbackKeyCompare_eq:
  assumes "length a < 2 ^ 31" and "length b < 2 ^ 31" shows "callbackKeyCompare a b \<longleftrightarrow> a = b"
  using assms memcmp_zero [of a b] by (auto simp: callbackKeyCompare_def Let_def)

lemma exact_simps [simp]: "ht_table (exact d) = ht_table d" "ht_size (exact d) = ht_size d" "ht_sizemask (exact d) = ht_sizemask d"
  "ht_used (exact d) = ht_used d" "ht_freed (exact d) = ht_freed d" "ht_type (exact d) = exact_type (ht_type d)"
  "entries (exact d) = entries d" "dict_map (exact d) = dict_map d" "key_slot (exact_type ty) msk key = key_slot ty msk key"
  "dup_key (exact_type ty) key = dup_key ty key" "dup_val (exact_type ty) v = dup_val ty v"
  by (simp_all add: exact_def exact_type_def entries_def dict_map_def key_slot_def dup_key_def dup_val_def)

lemma exact_update [simp]: "(exact d)\<lparr>ht_table := t\<rparr> = exact (d\<lparr>ht_table := t\<rparr>)" "(exact d)\<lparr>ht_used := u\<rparr> = exact (d\<lparr>ht_used := u\<rparr>)"
  "(exact d)\<lparr>ht_size := n\<rparr> = exact (d\<lparr>ht_size := n\<rparr>)" "(exact d)\<lparr>ht_sizemask := k\<rparr> = exact (d\<lparr>ht_sizemask := k\<rparr>)"
  "(exact d)\<lparr>ht_freed := f\<rparr> = exact (d\<lparr>ht_freed := f\<rparr>)" "dictFreeEntryVal (exact d) e = exact (dictFreeEntryVal d e)"
  by (simp_all add: exact_def exact_type_def dictFreeEntryVal_def)

lemma chain_exact:
  assumes "agrees_on ty key c"
  shows "chain_find (exact_type ty) key c = chain_find ty key c" and "chain_set (exact_type ty) key v c = chain_set ty key v c"
  using assms by (induction c) (auto simp: agrees_on_def dictCompareHashKeys_def exact_type_def)

lemma rehash_chain_exact: "rehash_chain (exact_type ty) msk c x = rehash_chain ty msk c x"
  by (induction ty msk c x rule: rehash_chain.induct) (simp_all split: bind_split)

lemma rehash_exact: "rehash_loop (exact_type ty) msk cs x = rehash_loop ty msk cs x"
  by (induction ty msk cs x rule: rehash_loop.induct) (simp_all add: rehash_chain_exact split: bind_split)

lemma expand_exact: "dictExpand M (exact d) n = map_option (map_prod id exact) (dictExpand M d n)"
  "dictExpandIfNeeded M (exact d) = map_option (map_prod id exact) (dictExpandIfNeeded M d)"
proof -
  show e: "dictExpand M (exact d) n = map_option (map_prod id exact) (dictExpand M d n)" for n
    by (simp add: dictExpand_def rehash_exact Let_def split: bind_split)
  show "dictExpandIfNeeded M (exact d) = map_option (map_prod id exact) (dictExpandIfNeeded M d)"
    by (simp add: dictExpandIfNeeded_def e)
qed

lemma agrees_slot: "agrees_on ty key (entries d) \<Longrightarrow> h < length (ht_table d) \<Longrightarrow> agrees_on ty key (ht_table d ! h)"
  by (auto simp: agrees_on_def in_entries)

lemma find_exact:
  assumes "agrees_on (ht_type d) key (entries d)" shows "dictFind (exact d) key = dictFind d key"
  using assms chain_exact(1) [OF agrees_slot [OF assms]]
  by (auto simp: dictFind_def chain_at_def)

text \<open>Growing a table keeps its entries.\<close>

lemma expand_keeps:
  assumes "dict_ok (exact d)" and "ht_used d < 2 ^ 30" and "dictExpandIfNeeded M d = Some (rc, d')"
  shows "mset (entries d') = mset (entries d) \<and> ht_type d' = ht_type d"
proof -
  obtain rc' d2 where e: "dictExpandIfNeeded M (exact d) = Some (rc', d2)" "same_dict (exact d) d2"
    using dictExpandIfNeeded_spec [OF assms(1), of M] assms(2) by (metis exact_simps(4))
  then have "d2 = exact d'" using assms(3) by (simp add: expand_exact)
  moreover have "ht_type d' = ht_type d"
    using assms(3) by (auto simp: dictExpandIfNeeded_def dictExpand_def Let_def split: if_splits bind_splits)
  ultimately show ?thesis using e(2) by (simp add: same_dict_def)
qed

lemma expand_agrees:
  assumes "dict_ok (exact d)" and "ht_used d < 2 ^ 30" and "agrees_on (ht_type d) key (entries d)"
    and "dictExpandIfNeeded M d = Some (rc, d')"
  shows "agrees_on (ht_type d') key (entries d')"
proof -
  have "mset (entries d') = mset (entries d)" "ht_type d' = ht_type d" using expand_keeps [OF assms(1,2,4)] by simp_all
  moreover from this(1) have "set (entries d') = set (entries d)" by (rule mset_eq_setD)
  ultimately show ?thesis using assms(3) by (simp add: agrees_on_def)
qed

lemma keyIndex_exact:
  assumes "dict_ok (exact d)" and "ht_used d < 2 ^ 30" and "agrees_on (ht_type d) key (entries d)"
  shows "dictKeyIndex M (exact d) key = map_option (map_prod id exact) (dictKeyIndex M d key)"
proof (cases "dictExpandIfNeeded M d")
  case None
  then show ?thesis by (simp add: dictKeyIndex_def expand_exact)
next
  case (Some x)
  obtain rc d' where x: "x = (rc, d')" by force
  have ag: "agrees_on (ht_type d') key (entries d')" using expand_agrees [OF assms] Some x by blast
  let ?h = "key_slot (ht_type d') (ht_sizemask d') key"
  show ?thesis
  proof (cases "?h < length (ht_table d')")
    case True
    have "chain_find (exact_type (ht_type d')) key (ht_table d' ! ?h) = chain_find (ht_type d') key (ht_table d' ! ?h)"
      using chain_exact(1) [OF agrees_slot [OF ag True]] .
    with Some x True show ?thesis
      by (simp add: dictKeyIndex_def expand_exact chain_at_def Let_def split: option.split)
  qed (use Some x in \<open>simp add: dictKeyIndex_def expand_exact chain_at_def Let_def\<close>)
qed

lemma keyIndex_from: "dictKeyIndex M d key = Some (i, d') \<Longrightarrow> \<exists>rc. dictExpandIfNeeded M d = Some (rc, d')"
  by (cases "dictExpandIfNeeded M d") (auto simp: dictKeyIndex_def Let_def chain_at_def split: if_splits option.splits)

lemma add_exact:
  assumes "dict_ok (exact d)" and "ht_used d < 2 ^ 30" and "agrees_on (ht_type d) key (entries d)"
  shows "dictAdd M (exact d) key v = map_option (map_prod id exact) (dictAdd M d key v)"
proof (cases "dictKeyIndex M d key")
  case None
  then show ?thesis by (simp add: dictAdd_def keyIndex_exact [OF assms])
next
  case (Some x)
  obtain i d' where x: "x = (i, d')" by force
  show ?thesis
    by (cases "push_entry (ht_table d') (nat i) \<lparr>de_key = dup_key (ht_type d') key, de_val = dup_val (ht_type d') v\<rparr>")
      (simp_all add: dictAdd_def keyIndex_exact [OF assms] Some x)
qed

lemma add_from:
  assumes "dictAdd M d key v = Some (rc, d')" and "rc \<noteq> DICT_OK"
  shows "\<exists>rc. dictExpandIfNeeded M d = Some (rc, d')"
proof (cases "dictKeyIndex M d key")
  case None
  with assms(1) show ?thesis by (simp add: dictAdd_def)
next
  case (Some x)
  obtain i d2 where x: "x = (i, d2)" by force
  with Some assms have "d2 = d'"
    by (cases "push_entry (ht_table d2) (nat i) \<lparr>de_key = dup_key (ht_type d2) key, de_val = dup_val (ht_type d2) v\<rparr>")
      (auto simp: dictAdd_def split: if_splits)
  with Some x keyIndex_from [of M d key i d2] show ?thesis by simp
qed

lemma replace_exact:
  assumes "dict_ok (exact d)" and "ht_used d < 2 ^ 30" and "agrees_on (ht_type d) key (entries d)"
  shows "dictReplace M (exact d) key v = map_option (map_prod id exact) (dictReplace M d key v)"
proof (cases "dictAdd M d key v")
  case None
  with add_exact [OF assms] show ?thesis by (simp add: dictReplace_def)
next
  case (Some x)
  obtain rc d' where x: "x = (rc, d')" by force
  show ?thesis
  proof (cases "rc = DICT_OK")
    case True
    with Some x add_exact [OF assms] show ?thesis by (simp add: dictReplace_def)
  next
    case False
    then have ag: "agrees_on (ht_type d') key (entries d')"
      using add_from [of M d key v rc d'] expand_agrees [OF assms] Some x by blast
    let ?h = "key_slot (ht_type d') (ht_sizemask d') key"
    show ?thesis
    proof (cases "dictFind d' key")
      case None
      with Some x False add_exact [OF assms] find_exact [OF ag] show ?thesis by (simp add: dictReplace_def)
    next
      case found: (Some de)
      have "chain_set (exact_type (ht_type d')) key u (ht_table d' ! ?h) = chain_set (ht_type d') key u (ht_table d' ! ?h)" if "de \<noteq> None" for u
      proof -
        have "?h < length (ht_table d')" using found that by (auto simp: dictFind_def chain_at_def split: if_splits)
        then show ?thesis using chain_exact(2) [OF agrees_slot [OF ag]] by blast
      qed
      then show ?thesis
        using Some x False add_exact [OF assms, of M v] find_exact [OF ag] found
        by (cases de) (simp_all add: dictReplace_def Let_def)
    qed
  qed
qed

lemma replace_type:
  assumes "dictReplace M d k v = Some (i, d')" shows "ht_type d' = ht_type d"
proof -
  have ex: "ht_type d2 = ht_type d1" if "dictExpandIfNeeded M d1 = Some (rc, d2)" for d1 d2 :: "('a, 'b) dict" and rc
    using that by (auto simp: dictExpandIfNeeded_def dictExpand_def Let_def split: if_splits bind_splits)
  have ad: "ht_type d2 = ht_type d" if "dictAdd M d k v = Some (rc, d2)" for d2 rc
  proof (cases "dictKeyIndex M d k")
    case None
    with that show ?thesis by (simp add: dictAdd_def)
  next
    case (Some x)
    obtain j d1 where x: "x = (j, d1)" by force
    have "ht_type d1 = ht_type d" using keyIndex_from [of M d k j d1] Some x ex by blast
    with that Some x show ?thesis
      by (cases "push_entry (ht_table d1) (nat j) \<lparr>de_key = dup_key (ht_type d1) k, de_val = dup_val (ht_type d1) v\<rparr>")
        (auto simp: dictAdd_def split: if_splits)
  qed
  obtain rc d1 where a: "dictAdd M d k v = Some (rc, d1)" using assms by (cases "dictAdd M d k v") (auto simp: dictReplace_def)
  show ?thesis
  proof (cases "dictFind d1 k")
    case None
    with a assms ad [OF a] show ?thesis by (auto simp: dictReplace_def split: if_splits)
  next
    case (Some de)
    with a assms ad [OF a] show ?thesis
      by (cases de) (auto simp: dictReplace_def dictFreeEntryVal_def Let_def split: if_splits)
  qed
qed

text \<open>One step of the loop over the channels, forwards.\<close>

lemma subscribe_loop_next:
  assumes "nextArgument p = Some (Some (alen, astr, q))" and "alen \<le> length astr"
    and "sdsnewlen M (Some (take alen astr)) alen = Some sname" and "dictFind (subs_of pvariant ac) (sdsval sname) = Some de"
    and "next_cb cb de = Some cb'" and "dictReplace M (subs_of pvariant ac) (sdsval sname) (Some cb') = Some (i, d)"
  shows "subscribe_loop M pvariant cb p ac = subscribe_loop M pvariant cb' q (with_subs pvariant d ac)"
  using assms
  by (subst subscribe_loop.simps)
    (auto simp: Let_def subs_of_def next_cb_def with_subs_def split: option.splits)

section \<open>Tables of subscriptions as maps\<close>

definition holds :: "mem \<Rightarrow> ('f, 'p) subs \<Rightarrow> (bytes \<rightharpoonup> ('f, 'p) redisCallback) \<Rightarrow> bool" where
  "holds M d m \<longleftrightarrow> ht_type d = callbackDict M \<and> dict_ok (exact d) \<and> dict_map d = (\<lambda>k. map_option Some (m k))
     \<and> (\<forall>k \<in> dom m. length k < 2 ^ 31)"

lemma exact_ok: "type_ok (exact_type (callbackDict M))"
  by (simp add: type_ok_def exact_type_def callbackDict_def dictCompareHashKeys_def dup_key_def)

lemma exact_init: "exact (dictInit ty) = dictInit (exact_type ty)"
  by (simp add: exact_def dictInit_def)

lemma holds_new: "holds M (dictInit (callbackDict M)) Map.empty"
  using dictInit_ok [OF exact_ok] by (simp add: holds_def exact_init) (simp add: dictInit_def dict_map_def entries_def)

lemma holds_dom:
  assumes "holds M d m" shows "de_key ` set (entries d) = dom m" and "ht_used d = card (dom m)"
proof -
  have dm: "dict_map d k = map_option Some (m k)" for k using assms by (simp add: holds_def)
  show s: "de_key ` set (entries d) = dom m"
    using dict_map_None [of d] dm by (auto simp: domIff) (metis not_None_eq option.map_disc_iff)
  have "distinct (map de_key (entries d))" "ht_used d = length (entries d)"
    using assms dict_okD(4,5) [of "exact d"] by (simp_all add: holds_def)
  then show "ht_used d = card (dom m)" using distinct_card [of "map de_key (entries d)"] s by simp
qed

lemma holds_agrees:
  assumes "holds M d m" and "length k < 2 ^ 31" shows "agrees_on (ht_type d) k (entries d)"
proof -
  have "length (de_key e) < 2 ^ 31" if "e \<in> set (entries d)" for e
    using holds_dom(1) [OF assms(1)] assms(1) that by (auto simp: holds_def)
  then show ?thesis
    using assms callbackKeyCompare_eq by (simp add: agrees_on_def holds_def callbackDict_def dictCompareHashKeys_def)
qed

lemma holds_find:
  assumes "holds M d m" and "length k < 2 ^ 31"
  obtains de where "dictFind d k = Some de" and "map_option de_val de = map_option Some (m k)"
proof -
  have "dict_ok (exact d)" using assms(1) by (simp add: holds_def)
  from dictFind_spec [OF this, of k] find_exact [OF holds_agrees [OF assms]] assms(1) that
  show ?thesis by (auto simp: holds_def)
qed

lemma holds_replace:
  assumes "\<forall>n. granted M n" and "holds M d m" and "length k < 2 ^ 31" and "card (dom m) < 2 ^ 30"
  obtains i d' where "dictReplace M d k (Some cb) = Some (i, d')" and "holds M d' (m(k \<mapsto> cb))"
proof -
  have ok: "dict_ok (exact d)" and ty: "ht_type d = callbackDict M" using assms(2) by (simp_all add: holds_def)
  have room: "ht_used d < 2 ^ 30" using assms(2,4) holds_dom(2) by metis
  have dup: "dup_val (ht_type d) (Some cb) = Some cb" using assms(1) ty by (simp add: callbackDict_def dup_val_def callbackValDup_def)
  have "ht_used (exact d) < 2 ^ 30" using room by simp
  then have "\<exists>i e. dictReplace M (exact d) k (Some cb) = Some (i, e) \<and> dict_ok e \<and> ht_type e = exact_type (ht_type d)
    \<and> dict_map e = (dict_map d)(k \<mapsto> Some cb)"
    by (rule dictReplace_spec [OF ok, of M k "Some cb"]) (use dup assms(1) in simp_all)
  then obtain i e where e: "dictReplace M (exact d) k (Some cb) = Some (i, e)" "dict_ok e" "ht_type e = exact_type (ht_type d)"
    "dict_map e = (dict_map d)(k \<mapsto> Some cb)" by blast
  obtain d' where d': "dictReplace M d k (Some cb) = Some (i, d')" "e = exact d'"
    using replace_exact [OF ok room holds_agrees [OF assms(2,3)], of M "Some cb"] e(1)
    by (cases "dictReplace M d k (Some cb)") auto
  have "ht_type d' = ht_type d" using d'(1) by (rule replace_type)
  then have "holds M d' (m(k \<mapsto> cb))"
    using e d' ty assms(2,3) by (auto simp: holds_def)
  with d' that show ?thesis by blast
qed

text \<open>What SUBSCRIBE stores: the callback is kept with one pending confirmation more than the channel already
  had, and this number is carried on to the channels behind it.\<close>

fun subscribed :: "('f, 'p) redisCallback \<Rightarrow> bytes list \<Rightarrow> (bytes \<rightharpoonup> ('f, 'p) redisCallback) \<Rightarrow> (bytes \<rightharpoonup> ('f, 'p) redisCallback)" where
  "subscribed cb [] m = m"
| "subscribed cb (ch # chs) m =
     (let cb = (case m ch of
                  None \<Rightarrow> cb
                | Some old \<Rightarrow> cb\<lparr>cb_pending_subs := sbits 32 (cb_pending_subs old + 1)\<rparr>)
      in subscribed cb chs (m(ch \<mapsto> cb)))"

lemma subs_of_with [simp]: "subs_of pvariant (with_subs pvariant d ac) = d"
  "with_subs pvariant d (with_subs pvariant d' ac) = with_subs pvariant d ac"
  "with_subs pvariant (subs_of pvariant ac) ac = ac"
  by (simp_all add: subs_of_def with_subs_def)

lemma subscribe_loop_holds:
  assumes "\<forall>n. granted M n" and "\<forall>ch \<in> set chs. length ch < 2 ^ 31" and "card (dom m) + length chs \<le> 2 ^ 30"
    and "holds M (subs_of pvariant ac) m"
  obtains d where "subscribe_loop M pvariant cb (concat (map bulk chs)) ac = Some (Inr (with_subs pvariant d ac))"
    and "holds M d (subscribed cb chs m)"
  using assms(2-)
proof (induction chs arbitrary: cb m ac thesis)
  case Nil
  have "subscribe_loop M pvariant cb [] ac = Some (Inr ac)" by (simp add: subscribe_loop.simps nextArgument_end)
  with Nil(4) show ?case by (intro Nil(1) [of "subs_of pvariant ac"]) simp_all
next
  case (Cons ch chs)
  let ?p = "concat (map bulk chs)"
  have ch: "length ch < 2 ^ 31" using Cons.prems(2) by simp
  have n: "nextArgument (concat (map bulk (ch # chs))) = Some (Some (length ch, ch @ CRLF @ ?p, ?p))"
    using nextArgument_bulk [OF ch, of ?p] by simp
  obtain s where s: "sdsnewlen M (Some ch) (length ch) = Some s" using sdsnewlen_granted [OF assms(1)] by blast
  have sv: "sdsval s = ch" using sdsnewlen_wf [OF s] ch by simp
  obtain de where de: "dictFind (subs_of pvariant ac) ch = Some de" "map_option de_val de = map_option Some (m ch)"
    by (rule holds_find [OF Cons.prems(4) ch])
  define cb' where "cb' = (case m ch of None \<Rightarrow> cb | Some old \<Rightarrow> cb\<lparr>cb_pending_subs := sbits 32 (cb_pending_subs old + 1)\<rparr>)"
  have nx: "next_cb cb de = Some cb'" using de(2) by (auto simp: next_cb_def cb'_def split: option.splits)
  have "card (dom m) < 2 ^ 30" using Cons.prems(3) by simp
  then obtain i d where d: "dictReplace M (subs_of pvariant ac) ch (Some cb') = Some (i, d)" "holds M d (m(ch \<mapsto> cb'))"
    using holds_replace [OF assms(1) Cons.prems(4) ch] by metis
  have "finite (dom m)" using holds_dom(1) [OF Cons.prems(4)] by (metis List.finite_set finite_imageI)
  then have card: "card (dom (m(ch \<mapsto> cb'))) + length chs \<le> 2 ^ 30" using Cons.prems(3) by (simp add: card_insert_if)
  have sub: "holds M (subs_of pvariant (with_subs pvariant d ac)) (m(ch \<mapsto> cb'))" using d(2) by simp
  have short: "\<forall>ch \<in> set chs. length ch < 2 ^ 31" using Cons.prems(2) by simp
  obtain d2 where "subscribe_loop M pvariant cb' ?p (with_subs pvariant d ac)
      = Some (Inr (with_subs pvariant d2 (with_subs pvariant d ac)))" "holds M d2 (subscribed cb' chs (m(ch \<mapsto> cb')))"
    by (rule Cons.IH [OF _ short card sub])
  then have d2: "subscribe_loop M pvariant cb' ?p (with_subs pvariant d ac) = Some (Inr (with_subs pvariant d2 ac))"
    "holds M d2 (subscribed cb' chs (m(ch \<mapsto> cb')))" by simp_all
  have "subscribe_loop M pvariant cb (concat (map bulk (ch # chs))) ac = subscribe_loop M pvariant cb' ?p (with_subs pvariant d ac)"
    using subscribe_loop_next [OF n, of M s pvariant ac de cb cb' i d] s sv de(1) nx d(1) by simp
  with d2 show ?case by (intro Cons.prems(1) [of d2]) (simp_all flip: cb'_def)
qed

section \<open>The SUBSCRIBE command\<close>

definition subscribe_name :: "bool \<Rightarrow> bytes" where
  "subscribe_name pvariant = (if pvariant then ''PSUBSCRIBE'' else ''SUBSCRIBE'')"

lemma tolower_simps: "tolower CHR ''P'' = CHR ''p''" "tolower CHR ''S'' = CHR ''s''" "tolower CHR ''U'' = CHR ''u''"
  "tolower CHR ''B'' = CHR ''b''" "tolower CHR ''C'' = CHR ''c''" "tolower CHR ''R'' = CHR ''r''" "tolower CHR ''I'' = CHR ''i''"
  "tolower CHR ''E'' = CHR ''e''" "tolower CR = CR" "tolower LF = LF"
  by (simp_all add: tolower_def byte_code_def char_of_eq_iff)

lemma tolower_lower: "tolower CHR ''s'' = CHR ''s''" "tolower CHR ''u'' = CHR ''u''" "tolower CHR ''b'' = CHR ''b''"
  "tolower CHR ''c'' = CHR ''c''" "tolower CHR ''r'' = CHR ''r''" "tolower CHR ''i'' = CHR ''i''" "tolower CHR ''e'' = CHR ''e''"
  by (simp_all add: tolower_def byte_code_def)

lemma subscribe_word:
  assumes "str = subscribe_name pvariant @ CRLF @ y"
  shows "tolower (char0 str) = CHR ''p'' \<longleftrightarrow> pvariant"
    and "strncaseeq (if pvariant then tl str else str) (''subscribe'' @ [CR, LF]) 11"
  by (simp_all add: assms subscribe_name_def char0_def strncaseeq_def cstr_def CRLF_def tolower_simps tolower_lower)

text \<open>SUBSCRIBE and PSUBSCRIBE in a context that is not closing: every name is entered into its table, the
  mode is switched, the text is queued, and nothing else changes.\<close>

lemma subscribe_command:
  assumes "\<forall>n. granted M n" and "chs \<noteq> []" and "\<forall>ch \<in> set chs. length ch < 2 ^ 31"
    and "card (dom m) + length chs \<le> 2 ^ 30" and "holds M (subs_of pvariant ac) m"
    and "\<not> flag ac (REDIS_DISCONNECTING OR REDIS_FREEING)"
    and "cmd = command_text (subscribe_name pvariant # chs)" and "rc_obuf (ac_c ac) = Some b" and "sds_wf b"
    and "sdslen b + length cmd < 2 ^ 63"
  obtains d b' g' where "redisAsyncCommand_raw M fn privdata cmd (length cmd) (ac, g)
      = Some (REDIS_OK, (with_subs pvariant d (set_flag REDIS_SUBSCRIBED ac))\<lparr>ac_c := (ac_c (set_flag REDIS_SUBSCRIBED ac))\<lparr>rc_obuf := Some b'\<rparr>\<rparr>, g')"
    and "holds M d (subscribed \<lparr>cb_fn = fn, cb_pending_subs = 1, cb_privdata = privdata\<rparr> chs m)"
    and "sds_wf b'" and "sdsval b' = sdsval b @ cmd"
proof -
  let ?cb = "\<lparr>cb_fn = fn, cb_pending_subs = 1, cb_privdata = privdata\<rparr>" and ?p = "concat (map bulk chs)"
  let ?str = "subscribe_name pvariant @ CRLF @ ?p" and ?ac = "set_flag REDIS_SUBSCRIBED ac"
  have n: "nextArgument cmd = Some (Some (length (subscribe_name pvariant), ?str, ?p))"
    unfolding assms(7) by (rule nextArgument_command) (simp add: subscribe_name_def)
  have nx: "char0 ?p = CHR ''$''" using assms(2) by (cases chs) (simp_all add: bulk_def char0_def)
  have "holds M (subs_of pvariant ?ac) m" using assms(5) by (cases pvariant) (simp_all add: subs_of_def)
  then obtain d where d: "subscribe_loop M pvariant ?cb ?p ?ac = Some (Inr (with_subs pvariant d ?ac))" "holds M d (subscribed ?cb chs m)"
    using subscribe_loop_holds [OF assms(1,3,4)] by metis
  obtain b' where b': "sdscatlen M b cmd = Some b'" using sdscatlen_granted [OF assms(1)] by blast
  have wf: "sds_wf b'" "sdsval b' = sdsval b @ cmd" using sdscatlen_wf [OF assms(9) b'] assms(10) by simp_all
  have ob: "rc_obuf (ac_c (with_subs pvariant d ?ac)) = Some b" using assms(8) by (simp add: set_flag_def)
  obtain g' where g': "append_and_schedule M fn privdata cmd (length cmd) (with_subs pvariant d ?ac, g)
      = Some (REDIS_OK, (with_subs pvariant d ?ac)\<lparr>ac_c := (ac_c ?ac)\<lparr>rc_obuf := Some b'\<rparr>\<rparr>, g')"
    using ob b' by (simp add: append_and_schedule_def redisAppendCommand_raw_def el_add_write_def Let_def)
  have "redisAsyncCommand_raw M fn privdata cmd (length cmd) (ac, g)
      = append_and_schedule M fn privdata cmd (length cmd) (with_subs pvariant d ?ac, g)"
    using assms(6) n nx d(1) subscribe_word [OF refl, of pvariant ?p]
    by (simp add: redisAsyncCommand_raw_def Let_def split del: if_split)
  with g' d(2) wf that show ?thesis by simp
qed

end
