(* ===== verification/AsyncSafe.thy ===== *)
theory AsyncSafe
  imports AsyncSubs
begin

text \<open>
  The end of a context: once it is being freed or disconnected, callbacks cannot change its queues,
  so releasing it terminates and calls every pending callback once. With the books of \<open>AsyncSpec\<close>
  this gives the two main promises of the asynchronous interface.
\<close>

section \<open>Callbacks of a closing context\<close>

definition closing :: "('f, 'p) redisAsyncContext \<Rightarrow> bool" where
  "closing ac \<longleftrightarrow> flag ac (REDIS_DISCONNECTING OR REDIS_FREEING)"

text \<open>The second state has the queues, tables and heap of the first one, and is closing.\<close>

definition same_queues :: "('f, 'p, 'u) astate \<Rightarrow> ('f, 'p, 'u) astate \<Rightarrow> bool" where
  "same_queues = (\<lambda>(ac, g) (ac', g'). ac_replies ac' = ac_replies ac \<and> ac_invalid ac' = ac_invalid ac
     \<and> ac_channels ac' = ac_channels ac \<and> ac_patterns ac' = ac_patterns ac
     \<and> rc_reader (ac_c ac') = rc_reader (ac_c ac) \<and> wd_heap g' = wd_heap g \<and> closing ac')"

lemma closing_set: "closing (set_flag f ac) \<longleftrightarrow> closing ac \<or> f AND (REDIS_DISCONNECTING OR REDIS_FREEING) \<noteq> 0"
  by (simp add: closing_def)

lemma closing_clear: "f \<in> {REDIS_IN_CALLBACK, REDIS_NO_AUTO_FREE} \<Longrightarrow> closing (clear_flag f ac) \<longleftrightarrow> closing ac"
  unfolding closing_def by (rule flag_clear_other) (auto simp: redis_flags)

lemma reader_flag [simp]: "rc_reader (ac_c (set_flag f ac)) = rc_reader (ac_c ac)"
  "rc_reader (ac_c (clear_flag f ac)) = rc_reader (ac_c ac)"
  by (simp_all add: set_flag_def clear_flag_def)

lemma closing_command:
  "closing ac \<Longrightarrow> redisAsyncCommand_raw M fn privdata cmd len (ac, g) = Some (REDIS_ERR, ac, g)"
  by (simp add: closing_def redisAsyncCommand_raw_def)

lemma timeout_same: "ac_replies (snd (redisAsyncSetTimeout M tv ac)) = ac_replies ac"
  "ac_invalid (snd (redisAsyncSetTimeout M tv ac)) = ac_invalid ac"
  "ac_channels (snd (redisAsyncSetTimeout M tv ac)) = ac_channels ac"
  "ac_patterns (snd (redisAsyncSetTimeout M tv ac)) = ac_patterns ac"
  "rc_reader (ac_c (snd (redisAsyncSetTimeout M tv ac))) = rc_reader (ac_c ac)"
  "flag (snd (redisAsyncSetTimeout M tv ac)) f = flag ac f"
  by (simp_all add: redisAsyncSetTimeout_def redisAsyncCopyError_def out_of_memory_def redisSetError_def flag_def has_flag_def)

text \<open>The invariant of a program that runs in a callback of a closing context: the flags stay, the queues
  and the calls so far do not change.\<close>

interpretation closing_prog: prog_law M "\<lambda>_. True" "\<lambda>s. same_queues s0 s \<and> flag (fst s) REDIS_IN_CALLBACK
    \<and> called (snd s) = called (snd s0)" for M s0
proof (unfold_locales, goal_cases)
  case (1 s cmd fn privdata len rc s')
  then show ?case using closing_command [of "fst s" M fn privdata cmd len "snd s"] by (auto simp: same_queues_def)
next
  case (2 ac g)
  then show ?case by (auto simp: same_queues_def closing_set closing_clear flag_clear_other redis_flags)
next
  case (3 ac g)
  then show ?case by (auto simp: same_queues_def closing_set)
next
  case (4 ac g tv)
  then show ?case by (auto simp: same_queues_def closing_def timeout_same)
next
  case (5 ac g fn)
  then show ?case by (auto simp: same_queues_def closing_def)
next
  case (6 ac g u)
  then show ?case by (auto simp: same_queues_def)
qed

lemma closing_total:
  "closing (fst s) \<Longrightarrow> flag (fst s) REDIS_IN_CALLBACK \<Longrightarrow> \<exists>s'. run_prog M p s = Some s'"
proof (induction p arbitrary: s)
  case (Return u)
  then show ?case by simp
next
  case (Command fn privdata cmd len k)
  then show ?case using closing_command [of "fst s" M fn privdata cmd len "snd s"] by simp
next
  case (Disconnect k)
  let ?ac = "clear_flag REDIS_NO_AUTO_FREE (set_flag REDIS_DISCONNECTING (fst s))"
  have "flag ?ac REDIS_IN_CALLBACK" using Disconnect.prems by (simp add: flag_clear_other redis_flags)
  with Disconnect.IH [of "(?ac, snd s)"] Disconnect.prems show ?case
    using run_callback_alive(2) [of "fst s" "\<lambda>_. None" "snd s"] by (simp add: closing_set closing_clear)
next
  case (Free k)
  with Free.IH [of "(set_flag REDIS_FREEING (fst s), snd s)"] show ?case
    using run_callback_alive(1) [of "fst s" "\<lambda>_. None" "snd s"] by (simp add: closing_set)
next
  case (SetTimeout tv k)
  obtain rc ac where t: "redisAsyncSetTimeout M tv (fst s) = (rc, ac)" by force
  then have "closing ac" "flag ac REDIS_IN_CALLBACK"
    using SetTimeout.prems timeout_same(6) [of M tv "fst s"] by (simp_all add: closing_def)
  with SetTimeout.IH [OF rangeI, of "(ac, snd s)"] t show ?case by simp
next
  case (SetPush fn k)
  have "closing ((fst s)\<lparr>ac_push_cb := fn\<rparr>)" using SetPush.prems by (simp add: closing_def)
  with SetPush.IH [OF rangeI, of "((fst s)\<lparr>ac_push_cb := fn\<rparr>, snd s)"] SetPush.prems show ?case
    by (simp add: redisAsyncSetPushCallback_def)
qed

lemma prog_cmds_True [simp]: "prog_cmds (\<lambda>_. True) p"
  by (induction p) auto

lemma run_callback_closing:
  assumes "closing ac"
  obtains ac' g' where "redisRunCallback E cb reply (ac, g) = Some (ac', g')" and "same_queues (ac, g) (ac', g')"
    and "called g' = called g @ waiting_of cb"
proof (cases "cb_fn cb")
  case None
  with assms that show ?thesis by (simp add: redisRunCallback_def same_queues_def)
next
  case (Some fn)
  let ?g = "emit (Called fn (wd_heap g) reply (cb_privdata cb)) g" and ?ac = "set_flag REDIS_IN_CALLBACK ac"
  let ?p = "en_fn E fn (wd_heap g) reply (cb_privdata cb) (wd_user g)"
  have ac: "closing ?ac" "flag ?ac REDIS_IN_CALLBACK" using assms by (simp_all add: closing_set redis_flags)
  then obtain ac1 g1 where r: "run_prog (en_mem E) ?p (?ac, ?g) = Some (ac1, g1)"
    using closing_total [of "(?ac, ?g)" "en_mem E" ?p] by auto
  have "same_queues (?ac, ?g) (?ac, ?g) \<and> flag ?ac REDIS_IN_CALLBACK \<and> called ?g = called ?g"
    using ac by (simp add: same_queues_def)
  then have k: "same_queues (?ac, ?g) (ac1, g1)" "called g1 = called ?g"
    using closing_prog.run_prog_keeps [OF r, of "(?ac, ?g)"] by simp_all
  have "same_queues (ac, g) (clear_flag REDIS_IN_CALLBACK ac1, g1)"
    using k(1) by (simp add: same_queues_def closing_clear emit_def)
  with r k(2) Some that show ?thesis by (simp add: redisRunCallback_def)
qed

section \<open>Releasing a context\<close>

lemma drain_replies_closing:
  assumes "closing ac"
  obtains ac' g' where "drain_replies E (ac, g) = Some (ac', g')" and "same_queues (ac\<lparr>ac_replies := []\<rparr>, g) (ac', g')"
    and "called g' = called g @ waiting (ac_replies ac)"
  using assms
proof (induction "ac_replies ac" arbitrary: ac g thesis)
  case Nil
  have "drain_replies E (ac, g) = Some (ac, g)" using Nil(1) by (subst drain_replies.simps) (simp add: sym [OF Nil(1)])
  with Nil show ?case by (intro Nil(2) [of ac g]) (simp_all add: same_queues_def flip: Nil(1))
next
  case (Cons cb l)
  have "closing (ac\<lparr>ac_replies := l\<rparr>)" using Cons(4) by (simp add: closing_def)
  then obtain ac1 g1 where r: "redisRunCallback E cb NULL (ac\<lparr>ac_replies := l\<rparr>, g) = Some (ac1, g1)"
    "same_queues (ac\<lparr>ac_replies := l\<rparr>, g) (ac1, g1)" "called g1 = called g @ waiting_of cb"
    using run_callback_closing by metis
  then have l: "l = ac_replies ac1" "closing ac1" by (simp_all add: same_queues_def)
  then obtain ac2 g2 where d: "drain_replies E (ac1, g1) = Some (ac2, g2)" "same_queues (ac1\<lparr>ac_replies := []\<rparr>, g1) (ac2, g2)"
    "called g2 = called g1 @ waiting l" using Cons(1) [of ac1 g1] by metis
  have "drain_replies E (ac, g) = Some (ac2, g2)"
    using r(1) d(1) by (subst drain_replies.simps) (simp add: sym [OF Cons(2)])
  moreover have "same_queues (ac\<lparr>ac_replies := []\<rparr>, g) (ac2, g2)" using r(2) d(2) by (simp add: same_queues_def)
  ultimately show ?case using r(3) d(3) by (intro Cons(3) [of ac2 g2]) (simp_all flip: Cons(2))
qed

lemma drain_invalid_closing:
  assumes "closing ac"
  obtains ac' g' where "drain_invalid E (ac, g) = Some (ac', g')" and "same_queues (ac\<lparr>ac_invalid := []\<rparr>, g) (ac', g')"
    and "called g' = called g @ waiting (ac_invalid ac)"
  using assms
proof (induction "ac_invalid ac" arbitrary: ac g thesis)
  case Nil
  have "drain_invalid E (ac, g) = Some (ac, g)" using Nil(1) by (subst drain_invalid.simps) (simp add: sym [OF Nil(1)])
  with Nil show ?case by (intro Nil(2) [of ac g]) (simp_all add: same_queues_def flip: Nil(1))
next
  case (Cons cb l)
  have "closing (ac\<lparr>ac_invalid := l\<rparr>)" using Cons(4) by (simp add: closing_def)
  then obtain ac1 g1 where r: "redisRunCallback E cb NULL (ac\<lparr>ac_invalid := l\<rparr>, g) = Some (ac1, g1)"
    "same_queues (ac\<lparr>ac_invalid := l\<rparr>, g) (ac1, g1)" "called g1 = called g @ waiting_of cb"
    using run_callback_closing by metis
  then have l: "l = ac_invalid ac1" "closing ac1" by (simp_all add: same_queues_def)
  then obtain ac2 g2 where d: "drain_invalid E (ac1, g1) = Some (ac2, g2)" "same_queues (ac1\<lparr>ac_invalid := []\<rparr>, g1) (ac2, g2)"
    "called g2 = called g1 @ waiting l" using Cons(1) [of ac1 g1] by metis
  have "drain_invalid E (ac, g) = Some (ac2, g2)"
    using r(1) d(1) by (subst drain_invalid.simps) (simp add: sym [OF Cons(2)])
  moreover have "same_queues (ac\<lparr>ac_invalid := []\<rparr>, g) (ac2, g2)" using r(2) d(2) by (simp add: same_queues_def)
  ultimately show ?case using r(3) d(3) by (intro Cons(3) [of ac2 g2]) (simp_all flip: Cons(2))
qed

text \<open>A table an iterator can walk through, without NULL callbacks.\<close>

definition walkable :: "('f, 'p) subs \<Rightarrow> bool" where
  "walkable d \<longleftrightarrow> length (ht_table d) = ht_size d \<and> ht_size d < 2 ^ 31 \<and> (\<forall>e \<in> set (entries d). de_val e \<noteq> None)"

definition vals :: "('f, 'p) subs \<Rightarrow> ('f, 'p) callbacks" where
  "vals d = map (\<lambda>e. the (de_val e)) (entries d)"

lemma subs_same: "same_queues (ac, g) (ac', g') \<Longrightarrow> subs_of pvariant ac' = subs_of pvariant ac"
  by (simp add: same_queues_def subs_of_def)

lemma same_queues_trans: "same_queues s s' \<Longrightarrow> same_queues s' s'' \<Longrightarrow> same_queues s s''"
  by (auto simp: same_queues_def)

lemma iterate_subs_closing:
  assumes "closing ac" and "walkable (subs_of pvariant ac)" and "iter_ok (subs_of pvariant ac) it"
    and "\<forall>e \<in> set es. de_val e \<noteq> None" and "remaining (subs_of pvariant ac) it = es"
  obtains ac' g' where "iterate_subs E pvariant it (ac, g) = Some (ac', g')" and "same_queues (ac, g) (ac', g')"
    and "called g' = called g @ waiting (map (\<lambda>e. the (de_val e)) es)"
  using assms
proof (induction es arbitrary: ac g it thesis)
  case Nil
  obtain it' where "dictNext (subs_of pvariant ac) it = Some (None, it')"
    using dictNext_spec [of "subs_of pvariant ac" it] Nil(3,4,6) by (auto simp: walkable_def)
  then have "iterate_subs E pvariant it (ac, g) = Some (ac, g)" by (subst iterate_subs.simps) simp
  with Nil(2) show ?case by (intro Nil(1) [of ac g]) (simp_all add: same_queues_def)
next
  case (Cons e es)
  obtain it' where n: "dictNext (subs_of pvariant ac) it = Some (Some e, it')" "iter_ok (subs_of pvariant ac) it'"
    "remaining (subs_of pvariant ac) it' = es"
    using dictNext_spec [of "subs_of pvariant ac" it] Cons(4,5,7) by (auto simp: walkable_def)
  obtain cb where cb: "de_val e = Some cb" using Cons(6) by auto
  obtain ac1 g1 where r: "redisRunCallback E cb NULL (ac, g) = Some (ac1, g1)" "same_queues (ac, g) (ac1, g1)"
    "called g1 = called g @ waiting_of cb" using run_callback_closing [OF Cons(3)] by metis
  have s: "subs_of pvariant ac1 = subs_of pvariant ac" "closing ac1"
    using r(2) subs_same [OF r(2)] by (simp_all add: same_queues_def)
  obtain ac2 g2 where d: "iterate_subs E pvariant it' (ac1, g1) = Some (ac2, g2)" "same_queues (ac1, g1) (ac2, g2)"
    "called g2 = called g1 @ waiting (map (\<lambda>e. the (de_val e)) es)"
    using Cons(1) [of it' ac1 g1] s Cons(4,6) n(2,3) by auto
  have "iterate_subs E pvariant it (ac, g) = Some (ac2, g2)"
    using n(1) cb r(1) s(1) d(1) by (subst iterate_subs.simps) simp
  then show ?case using r(3) d(3) cb same_queues_trans [OF r(2) d(2)] by (intro Cons(2) [of ac2 g2]) simp_all
qed

lemma run_subs_closing:
  assumes "closing ac" and "walkable (subs_of pvariant ac)" and "granted (en_mem E) 32"
  obtains ac' g' where "run_subs E pvariant (ac, g) = Some (ac', g')" and "same_queues (ac, g) (ac', g')"
    and "called g' = called g @ waiting (vals (subs_of pvariant ac))"
proof -
  let ?it = "\<lparr>it_index = -1, it_entry = [], it_nextEntry = []\<rparr>"
  have "iter_ok (subs_of pvariant ac) ?it" "remaining (subs_of pvariant ac) ?it = entries (subs_of pvariant ac)"
    by (simp_all add: iter_ok_def remaining_def entries_def)
  then obtain ac' g' where "iterate_subs E pvariant ?it (ac, g) = Some (ac', g')" "same_queues (ac, g) (ac', g')"
    "called g' = called g @ waiting (vals (subs_of pvariant ac))"
    using iterate_subs_closing [OF assms(1,2), of ?it "entries (subs_of pvariant ac)" E g] assms(2)
    by (auto simp: walkable_def vals_def)
  with assms(3) that show ?thesis by (simp add: run_subs_def dictGetIterator_def)
qed

lemma release_some:
  assumes "rc_reader (ac_c ac) = None \<or> (\<exists>r. rc_reader (ac_c ac) = Some r \<and> rd_reply r = NULL)"
  obtains g' where "release (ac, g) = Some g'" and "called g' = called g" and "last (wd_log g') = Released"
proof -
  obtain ac1 g1 where e: "el_cleanup (ac, g) = (ac1, g1)" by force
  then have c: "ac_c ac1 = ac_c ac" by (auto simp: el_cleanup_def)
  define g2 where "g2 = (case ac_onDisconnect ac1 of
      Some fn \<Rightarrow> if flag ac1 REDIS_CONNECTED
        then emit (OnDisconnect fn (if flag ac1 REDIS_FREEING then REDIS_OK else if ac_err ac1 = 0 then REDIS_OK else REDIS_ERR)) g1
        else g1
    | None \<Rightarrow> g1)"
  define g3 where "g3 = (if ac_dataCleanup ac1 then emit DataCleanup g2 else g2)"
  obtain c' w' where n: "redisNetClose (ac_c ac, wd_os g3) = (c', w')" by (meson surj_pair)
  then have "rc_reader c' = rc_reader (ac_c ac)" by (auto simp: redisNetClose_def split: if_splits)
  then have "redisFree (ac_c ac, wd_heap g3, wd_os g3) = Some (wd_heap g3, w')"
    using assms n by (auto simp: redisFree_def redisReaderFree_def)
  moreover have "release (ac, g) = map_option (\<lambda>(h, w). emit Released (g3\<lparr>wd_heap := h, wd_os := w\<rparr>))
      (redisFree (ac_c ac1, wd_heap g3, wd_os g3))"
    by (simp only: release_def e prod.case Let_def g3_def g2_def)
  ultimately have rel: "release (ac, g) = Some (emit Released (g3\<lparr>wd_heap := wd_heap g3, wd_os := w'\<rparr>))"
    using c by simp
  then have "called g3 = called g" using release_books [OF rel] by simp
  with rel that show ?thesis by (simp add: emit_def called_def)
qed

text \<open>The whole release.\<close>

definition pending :: "('f, 'p) redisAsyncContext \<Rightarrow> ('f, 'p) callbacks" where
  "pending ac = ac_replies ac @ ac_invalid ac @ vals (ac_channels ac) @ vals (ac_patterns ac)"

lemma free_now_closing:
  assumes "closing ac" and "walkable (ac_channels ac)" and "walkable (ac_patterns ac)" and "granted (en_mem E) 32"
    and "rc_reader (ac_c ac) = None \<or> (\<exists>r. rc_reader (ac_c ac) = Some r \<and> rd_reply r = NULL)"
  obtains g' where "redisAsyncFree_now E (ac, g) = Some g'" and "called g' = called g @ waiting (pending ac)"
    and "last (wd_log g') = Released"
proof -
  obtain ac1 g1 where d1: "drain_replies E (ac, g) = Some (ac1, g1)" "same_queues (ac\<lparr>ac_replies := []\<rparr>, g) (ac1, g1)"
    "called g1 = called g @ waiting (ac_replies ac)" by (rule drain_replies_closing [OF assms(1)])
  then have "closing ac1" by (simp add: same_queues_def)
  then obtain ac2 g2 where d2: "drain_invalid E (ac1, g1) = Some (ac2, g2)" "same_queues (ac1\<lparr>ac_invalid := []\<rparr>, g1) (ac2, g2)"
    "called g2 = called g1 @ waiting (ac_invalid ac1)" by (rule drain_invalid_closing)
  then have c2: "closing ac2" "subs_of False ac2 = ac_channels ac" using d1(2) by (simp_all add: same_queues_def subs_of_def)
  obtain ac3 g3 where d3: "run_subs E False (ac2, g2) = Some (ac3, g3)" "same_queues (ac2, g2) (ac3, g3)"
    "called g3 = called g2 @ waiting (vals (ac_channels ac))"
    using run_subs_closing [OF c2(1), of False E g2] c2(2) assms(2,4) by metis
  then have c3: "closing ac3" "subs_of True ac3 = ac_patterns ac"
    using d1(2) d2(2) by (simp_all add: same_queues_def subs_of_def)
  obtain ac4 g4 where d4: "run_subs E True (ac3, g3) = Some (ac4, g4)" "same_queues (ac3, g3) (ac4, g4)"
    "called g4 = called g3 @ waiting (vals (ac_patterns ac))"
    using run_subs_closing [OF c3(1), of True E g3] c3(2) assms(3,4) by metis
  have "rc_reader (ac_c ac4) = rc_reader (ac_c ac)" using d1(2) d2(2) d3(2) d4(2) by (simp add: same_queues_def)
  then obtain g5 where d5: "release (ac4, g4) = Some g5" "called g5 = called g4" "last (wd_log g5) = Released"
    using release_some [of ac4 g4] assms(5) by metis
  have "ac_invalid ac1 = ac_invalid ac" using d1(2) by (simp add: same_queues_def)
  with d1(3) d2(3) d3(3) d4(3) d5(2) have "called g5 = called g @ waiting (pending ac)" by (simp add: pending_def)
  moreover have "redisAsyncFree_now E (ac, g) = Some g5"
    by (simp add: redisAsyncFree_now_def d1(1) d2(1) d3(1) d4(1) d5(1))
  ultimately show ?thesis using that d5(3) by blast
qed

section \<open>Examples\<close>

definition ping_cmd :: bytes where
  "ping_cmd = command_text [''PING'']"

text \<open>Callbacks that try to send their command again and note the result.\<close>

definition retry_env :: "(nat, nat, int list) runtime" where
  "retry_env = \<lparr>en_funcs = redisContextDefaultFuncs no_libc, en_libc = no_libc, en_mem = mem_ok,
     en_fn = (\<lambda>fn h reply privdata u. Command (Some fn) privdata ping_cmd (length ping_cmd) (\<lambda>rc. Return (rc # u))),
     en_push = (\<lambda>fn h reply u. Return u)\<rparr>"

definition world_of :: "os \<Rightarrow> 'u \<Rightarrow> ('f, 'p, 'u) world" where
  "world_of w u = \<lparr>wd_heap = [], wd_os = w, wd_user = u, wd_log = []\<rparr>"

lemma ping_next: "nextArgument ping_cmd = Some (Some (4, ''PING'' @ CRLF, []))"
  using nextArgument_command [of "''PING''" "[]"] by (simp add: ping_cmd_def)

lemma ping_words: "tolower (char0 (''PING'' @ CRLF)) = CHR ''p''"
  "\<not> strncaseeq (''ING'' @ CRLF) (''subscribe'' @ [CR, LF]) 11" "\<not> strncaseeq (''ING'' @ CRLF) (''unsubscribe'' @ [CR, LF]) 13"
  "\<not> strncaseeq (''ING'' @ CRLF) (''monitor'' @ [CR, LF]) 9"
  by (simp_all add: char0_def strncaseeq_def cstr_def CRLF_def tolower_simps tolower_lower tolower_def byte_code_def char_of_eq_iff)

lemma ping_plain: "plain_cmd ping_cmd"
  using ping_words by (simp add: plain_cmd_def ping_next Let_def)

lemma retry_plain: "plain_env retry_env"
  by (simp add: plain_env_def retry_env_def ping_plain)

lemma fresh_async:
  obtains c b r ac where "redisContextInit mem_ok = Some c" and "redisAsyncInitialize mem_ok c = Some ac" and "rc_flags c = 0"
    and "ac_replies ac = []" and "pending ac = []" and "rc_flags (ac_c ac) = 0" and "rc_err (ac_c ac) = 0"
    and "rc_obuf (ac_c ac) = Some b" and "sds_wf b" and "sdsval b = []" and "rc_reader (ac_c ac) = Some r" and "reader_idle r"
    and "unread r = []" and "rd_len r = 0" and "rd_reply r = NULL" and "ac_channels ac = dictInit (callbackDict mem_ok)"
    and "ac_patterns ac = dictInit (callbackDict mem_ok)" and "ac_invalid ac = []" and "ac_ev ac = \<lparr>ev_addRead = False,
      ev_addWrite = False, ev_delWrite = False, ev_cleanup = False, ev_scheduleTimer = False\<rparr>" and "ac_push_cb ac = None"
proof -
  obtain c b r where c: "redisContextInit mem_ok = Some c" "rc_err c = 0" "rc_obuf c = Some b" "sds_wf b" "sdsval b = []"
    "rc_reader c = Some r" "reader_idle r" "unread r = []" "rd_len r = 0" "rc_fd c = REDIS_INVALID_FD" "rc_flags c = 0"
    by (rule fresh_context)
  obtain ac where ac: "redisAsyncInitialize mem_ok c = Some (ac :: ('a, 'b) redisAsyncContext)"
    by (simp add: redisAsyncInitialize_def dictCreate_def)
  then have "ac_c ac = c\<lparr>rc_flags := 0\<rparr>" "ac_replies ac = []" "ac_invalid ac = []"
    "ac_channels ac = dictInit (callbackDict mem_ok)" "ac_patterns ac = dictInit (callbackDict mem_ok)"
    "ac_ev ac = \<lparr>ev_addRead = False, ev_addWrite = False, ev_delWrite = False, ev_cleanup = False, ev_scheduleTimer = False\<rparr>"
    "ac_push_cb ac = None"
    using c(11) by (auto simp: redisAsyncInitialize_def dictCreate_def)
  moreover have "rc_reader c = redisReaderCreateWithFunctions mem_ok (Some defaultFunctions)"
    using c(1) by (auto simp: redisContextInit_def redisReaderCreate_def Let_def split: if_splits)
  then have "rd_reply r = NULL"
    using c(6) by (auto simp: redisReaderCreateWithFunctions_def Let_def split: option.splits if_splits)
  ultimately show ?thesis using c ac that by (simp add: pending_def vals_def entries_def dictInit_def)
qed

lemma fresh_walkable: "walkable (dictInit ty)"
  by (simp add: walkable_def dictInit_def entries_def)

text \<open>A command in the request-reply mode: its callback goes to the end of the queue, its text to the end
  of the output buffer.\<close>

lemma plain_command:
  assumes "\<forall>n. granted M n" and "plain_cmd cmd" and "nextArgument cmd = Some (Some (l, str, p))"
    and "\<not> strncaseeq (if tolower (char0 str) = CHR ''p'' then tl str else str) (''unsubscribe'' @ [CR, LF]) 13"
    and "\<not> closing ac" and "\<not> flag ac REDIS_SUBSCRIBED" and "rc_obuf (ac_c ac) = Some b" and "sds_wf b"
    and "sdslen b + length cmd < 2 ^ 63"
  obtains b' g' where "redisAsyncCommand_raw M fn privdata cmd (length cmd) (ac, g) = Some (REDIS_OK,
      ac\<lparr>ac_replies := ac_replies ac @ [\<lparr>cb_fn = fn, cb_pending_subs = 1, cb_privdata = privdata\<rparr>],
         ac_c := (ac_c ac)\<lparr>rc_obuf := Some b'\<rparr>\<rparr>, g')"
    and "sds_wf b'" and "sdsval b' = sdsval b @ cmd" and "issued g' = issued g @ issued_of (Issued fn privdata)"
    and "called g' = called g" and "wd_heap g' = wd_heap g" and "wd_os g' = wd_os g" and "wd_user g' = wd_user g"
proof -
  obtain b' where b': "sdscatlen M b cmd = Some b'" using sdscatlen_granted [OF assms(1)] by blast
  have wf: "sds_wf b'" "sdsval b' = sdsval b @ cmd" using sdscatlen_wf [OF assms(8) b'] assms(9) by simp_all
  have mon: "\<not> strncaseeq (if tolower (char0 str) = CHR ''p'' then tl str else str) (''subscribe'' @ [CR, LF]) 11"
    "\<not> strncaseeq (if tolower (char0 str) = CHR ''p'' then tl str else str) (''monitor'' @ [CR, LF]) 9"
    using assms(2,3) by (simp_all add: plain_cmd_def Let_def)
  let ?ac = "ac\<lparr>ac_replies := ac_replies ac @ [\<lparr>cb_fn = fn, cb_pending_subs = 1, cb_privdata = privdata\<rparr>],
         ac_c := (ac_c ac)\<lparr>rc_obuf := Some b'\<rparr>\<rparr>"
  have "redisAsyncCommand_raw M fn privdata cmd (length cmd) (ac, g)
      = Some (REDIS_OK, el_add_write (?ac, emit (Issued fn privdata) g))"
    using assms(1,3-7) mon b'
    by (simp add: redisAsyncCommand_raw_def closing_def Let_def append_and_schedule_def redisAppendCommand_raw_def
        redisPushCallback_def split del: if_split)
  moreover obtain g' where "el_add_write (?ac, emit (Issued fn privdata) g) = (?ac, g')" "issued g' = issued g @ issued_of (Issued fn privdata)"
    "called g' = called g" "wd_heap g' = wd_heap g" "wd_os g' = wd_os g" "wd_user g' = wd_user g"
    by (simp add: el_add_write_def Let_def refreshTimeout_def emit_def issued_def called_def split: option.split)
  ultimately show ?thesis using wf that by metis
qed

text \<open>A context with one command waiting.\<close>

lemma ping_queued:
  obtains c ac ac1 and g g1 :: "(nat, nat, int list) world" where "redisAsyncInitialize mem_ok c = Some ac" and "rc_flags c = 0"
    and "wd_log g = []" and "redisAsyncCommand_raw mem_ok (Some 7) None ping_cmd (length ping_cmd) (ac, g) = Some (REDIS_OK, ac1, g1)"
    and "pending ac1 = [\<lparr>cb_fn = Some 7, cb_pending_subs = 1, cb_privdata = None\<rparr>]" and "called g1 = []" and "issued g1 = [(7, None)]"
    and "\<not> flag ac1 REDIS_IN_CALLBACK" and "walkable (ac_channels ac1)" and "walkable (ac_patterns ac1)"
    and "\<exists>r. rc_reader (ac_c ac1) = Some r \<and> rd_reply r = NULL"
proof -
  obtain c b r and ac :: "(nat, nat) redisAsyncContext" where c: "redisContextInit mem_ok = Some c"
    "redisAsyncInitialize mem_ok c = Some ac" "rc_flags c = 0" "ac_replies ac = []" "pending ac = []" "rc_flags (ac_c ac) = 0"
    "rc_obuf (ac_c ac) = Some b" "sds_wf b" "sdsval b = []" "rc_reader (ac_c ac) = Some r" "rd_reply r = NULL"
    "ac_channels ac = dictInit (callbackDict mem_ok)" "ac_patterns ac = dictInit (callbackDict mem_ok)" "ac_invalid ac = []"
    by (rule fresh_async)
  define g :: "(nat, nat, int list) world" where "g = world_of (os_of []) []"
  have fl: "\<not> flag ac f" for f using c(6) by (simp add: flag_def has_flag_def)
  have nocl: "\<not> closing ac" "\<not> flag ac REDIS_SUBSCRIBED" by (simp_all add: closing_def fl)
  have un: "\<not> strncaseeq (if tolower (char0 (''PING'' @ CRLF)) = CHR ''p'' then tl (''PING'' @ CRLF) else ''PING'' @ CRLF)
      (''unsubscribe'' @ [CR, LF]) 13" using ping_words by simp
  have len: "sdslen b + length ping_cmd < 2 ^ 63"
    using length_sdsval [OF c(8)] c(9) by (simp add: ping_cmd_def command_text_def bulk_def dec_small)
  obtain b' g' where "redisAsyncCommand_raw mem_ok (Some 7) None ping_cmd (length ping_cmd) (ac, g) = Some (REDIS_OK,
      ac\<lparr>ac_replies := ac_replies ac @ [\<lparr>cb_fn = Some 7, cb_pending_subs = 1, cb_privdata = None\<rparr>],
         ac_c := (ac_c ac)\<lparr>rc_obuf := Some b'\<rparr>\<rparr>, g')"
    "issued g' = issued g @ issued_of (Issued (Some 7) None)" "called g' = called g"
    by (rule plain_command [OF _ ping_plain ping_next un nocl c(7,8) len, of mem_ok "Some 7" None g]) simp
  then show ?thesis using c(2-5,10-14) fl fresh_walkable
    by (intro that [of c ac g "ac\<lparr>ac_replies := ac_replies ac @ [\<lparr>cb_fn = Some 7, cb_pending_subs = 1, cb_privdata = None\<rparr>],
         ac_c := (ac_c ac)\<lparr>rc_obuf := Some b'\<rparr>\<rparr>" g'])
      (simp_all add: g_def world_of_def issued_def called_def pending_def flag_def has_flag_def)
qed

section \<open>Properties\<close>

text \<open>C2: Every accepted command gets its callback exactly once and in order. In any run of an asynchronous
  context in request-reply mode (any interleaving of commands, also from inside callbacks, of
  readable, writable and timeout events, errors of the socket, disconnecting and freeing, whatever
  the server sends) the commands accepted so far are exactly those whose callback has been called,
  in this order, followed by those whose callback is queued; when the context is gone all of them
  have been called.\<close>

theorem async_run_exactly_once:
  assumes "async_run E plain_cmd (m, g)" and "plain_env E"
  shows "case m of
      None \<Rightarrow> issued g = called g
    | Some ac \<Rightarrow> issued g = called g @ waiting (ac_replies ac)"
  using async_run_settled [OF assms] by (auto simp: settled_m_def settled_def books_def split: option.split)

theorem async_run_exactly_once_witness:
  "\<exists>(g :: (nat, nat, int list) world). async_run retry_env plain_cmd (None, g) \<and> called g = [(7, None)] \<and> issued g = called g"
proof -
  obtain c ac ac1 and g g1 :: "(nat, nat, int list) world" where p: "redisAsyncInitialize mem_ok c = Some ac" "rc_flags c = 0"
    "wd_log g = []" "redisAsyncCommand_raw mem_ok (Some 7) None ping_cmd (length ping_cmd) (ac, g) = Some (REDIS_OK, ac1, g1)"
    "pending ac1 = [\<lparr>cb_fn = Some 7, cb_pending_subs = 1, cb_privdata = None\<rparr>]" "called g1 = []"
    "\<not> flag ac1 REDIS_IN_CALLBACK" "walkable (ac_channels ac1)" "walkable (ac_patterns ac1)"
    "\<exists>r. rc_reader (ac_c ac1) = Some r \<and> rd_reply r = NULL"
    by (rule ping_queued)
  let ?ac = "set_flag REDIS_FREEING ac1"
  have "closing ?ac" "walkable (ac_channels ?ac)" "walkable (ac_patterns ?ac)" "granted (en_mem retry_env) 32"
    "rc_reader (ac_c ?ac) = None \<or> (\<exists>r. rc_reader (ac_c ?ac) = Some r \<and> rd_reply r = NULL)"
    using p(8-10) by (simp_all add: closing_set redis_flags retry_env_def)
  then obtain g2 where g2: "redisAsyncFree_now retry_env (?ac, g1) = Some g2" "called g2 = called g1 @ waiting (pending ?ac)"
    by (rule free_now_closing)
  have "redisAsyncFree retry_env (ac1, g1) = Some (None, g2)"
    using g2(1) p(7) by (simp add: redisAsyncFree_def free_by_def Let_def redis_flags)
  moreover have "async_run retry_env plain_cmd (Some ac, g)" 
    by (rule async_run.create [OF p(1) _ p(3)]) (simp add: p(2))
  then have "async_run retry_env plain_cmd (Some ac1, g1)"
    by (rule async_run.command) (use p(4) ping_plain in \<open>simp_all add: retry_env_def\<close>)
  ultimately have run: "async_run retry_env plain_cmd (None, g2)" by (rule async_run.free [rotated])
  have "pending ?ac = pending ac1" by (simp add: pending_def)
  then have "called g2 = [(7, None)]" using g2(2) p(5,6) by simp
  with run async_run_exactly_once [OF run retry_plain] show ?thesis by auto
qed



end
