(* ===== verification/ReaderStream.thy ===== *)
theory ReaderStream
  imports ReaderWait
begin

text \<open>
  A reader that gets a sequence of replies in one stream, cut anywhere: it gives them back one by one,
  each on the heap as it was when the reply began, and is then ready for more.
\<close>

declare ploop.simps [simp del]

section \<open>Between two replies\<close>

text \<open>No part of a reply has been read, but the task of the next one may have been set up.\<close>

definition between :: "heap redisReader \<Rightarrow> bool" where
  "between r \<longleftrightarrow> reader_ready r \<and> (\<exists>r0. reader_idle r0 \<and> (erase r = erase r0 \<or> erase r = start_task (erase r0)))"

lemma idle_between: "reader_idle r \<Longrightarrow> between r"
  by (auto simp: between_def reader_idle_def)

lemma start_task_twice: "start_task (start_task r) = start_task r"
  by (simp add: start_task_def upd_task_def)

lemma pget_started: "pget strtod Ms (u, start_task r, h) = pget strtod Ms (u, r, h)"
  by (simp add: pget_def start_task_twice)

definition finished :: "heap redisReader \<Rightarrow> bool" where
  "finished x \<longleftrightarrow> rd_ridx x = -1 \<and> rd_fn x = Some defaultFunctions \<and> rd_maxelements x = REDIS_READER_MAX_ARRAY_ELEMENTS"

lemma between_pget:
  assumes "\<forall>n. granted M n" and "resp_ok strtod v" and "between r"
  obtains x where "pget strtod (\<lambda>_. M) (encode v @ y, erase r, h) = Some (REDIS_OK, Ref (length h), y, x, h @ layout (length h) v)"
    and "finished x"
proof -
  obtain r0 where r0: "reader_idle r0" "erase r = erase r0 \<or> erase r = start_task (erase r0)"
    using assms(3) by (auto simp: between_def)
  obtain x where "pget strtod (\<lambda>_. M) (encode v @ y, erase r0, h) = Some (REDIS_OK, Ref (length h), y, x, h @ layout (length h) v)"
    "finished x" using pget_encode [OF assms(1,2) r0(1), of y h] by (auto simp: finished_def)
  with r0(2) that pget_started show ?thesis by metis
qed

text \<open>Nothing to read: no reply, and the reader is still between two replies.\<close>

lemma between_none:
  assumes "between r" and "unread r = []"
  obtains r' where "redisReaderGetReply strtod Ms True (r, h) = Some (REDIS_OK, NULL, r', h)"
    and "between r'" and "unread r' = []" and "rd_len r' \<le> rd_len r"
proof (cases "rd_len r = 0")
  case True
  with assms that show ?thesis by (auto simp: between_def reader_ready_def redisReaderGetReply_def)
next
  case False
  have rdy: "reader_ready r" using assms(1) by (simp add: between_def)
  then have r: "buf_wf r" "rd_err r = 0" by (simp_all add: reader_ready_def)
  obtain r0 where r0: "reader_idle r0" "erase r = erase r0 \<or> erase r = start_task (erase r0)"
    using assms(1) by (auto simp: between_def)
  let ?s = "start_task (erase r0)"
  have it: "rd_err ?s = 0" "rd_ridx ?s = 0" "rt_type (cur_task ?s) < 0"
    using root_item(1) [OF r0(1)] by (simp_all add: at_item_def cur_task_def)
  then have "pitem strtod (Ms 0) ([], ?s, h) = Some (REDIS_ERR, [], ?s, h)" by (simp add: pitem_def)
  then have "pget strtod Ms ([], ?s, h) = Some (REDIS_OK, NULL, [], ?s, h)"
    using it(1,2) by (simp add: pget_def start_task_twice ploop.simps)
  then have "pget strtod Ms ([], erase r, h) = Some (REDIS_OK, NULL, [], ?s, h)"
    using r0(2) pget_started by metis
  then have "obs (redisReaderGetReply strtod Ms True (r, h)) = Some (REDIS_OK, NULL, [], ?s, h)"
    using redisReaderGetReply_spec [OF r False, of strtod Ms h] assms(2) by (simp add: pabs_def)
  then obtain r' where g: "redisReaderGetReply strtod Ms True (r, h) = Some (REDIS_OK, NULL, r', h)" "unread r' = []"
    "erase r' = ?s"
    by (auto simp: obs_def pabs_def)
  have "reader_ready r'" "rd_len r' \<le> rd_len r" using redisReaderGetReply_state [OF rdy g(1)] by auto
  with g r0(1) that show ?thesis by (auto simp: between_def)
qed

section \<open>A stream of replies\<close>

text \<open>What the reader has and what is still to come are the replies \<open>vs\<close>; the first of them began on the heap \<open>h0\<close>.\<close>

definition expects :: "strtod_fn \<Rightarrow> mem \<Rightarrow> resp list \<Rightarrow> heap \<Rightarrow> bytes \<Rightarrow> heap rstate \<Rightarrow> bool" where
  "expects strtod M vs h0 rest = (\<lambda>(r, h). reader_ready r \<and> list_all (resp_ok strtod) vs \<and>
     (case vs of
        [] \<Rightarrow> between r \<and> unread r = [] \<and> rest = [] \<and> h = h0
      | v # vs \<Rightarrow> (rest = [] \<longrightarrow> rd_len r \<noteq> 0) \<and> (\<exists>x. pget strtod (\<lambda>_. M) (unread r @ rest, erase r, h)
            = Some (REDIS_OK, Ref (length h0), concat (map encode vs), x, h0 @ layout (length h0) v) \<and> finished x)))"

lemma expects_start:
  assumes "\<forall>n. granted M n" and "list_all (resp_ok strtod) vs" and "between r" and "unread r @ rest = concat (map encode vs)"
  shows "expects strtod M vs h rest (r, h)"
proof (cases vs)
  case Nil
  with assms show ?thesis by (simp add: expects_def between_def)
next
  case (Cons v vs')
  then obtain x where "pget strtod (\<lambda>_. M) (encode v @ concat (map encode vs'), erase r, h)
      = Some (REDIS_OK, Ref (length h), concat (map encode vs'), x, h @ layout (length h) v)" "finished x"
    using between_pget [OF assms(1) _ assms(3), of strtod v] assms(2) by auto
  moreover have "rd_len r \<noteq> 0" if "rest = []"
  proof -
    have "unread r \<noteq> []" using assms(4) Cons that encode_nonempty by simp
    moreover have "buf_wf r" using assms(3) by (simp add: between_def reader_ready_def)
    ultimately show ?thesis by (elim buf_wfE) auto
  qed
  ultimately show ?thesis using assms Cons by (simp add: expects_def between_def)
qed

lemma expects_feed:
  assumes "\<forall>n. granted M n" and "expects strtod M vs h0 (d @ rest) (r, h)" and "d \<noteq> []" and "rd_len r + length d < 2 ^ 31"
  obtains r' where "redisReaderFeed M d (r, h) = Some (REDIS_OK, r', h)" and "expects strtod M vs h0 rest (r', h)"
    and "rd_len r' \<le> rd_len r + length d"
proof -
  obtain v vs' where vs: "vs = v # vs'" using assms(2,3) by (cases vs) (auto simp: expects_def)
  have rdy: "reader_ready r" using assms(2) by (simp add: expects_def)
  then have r: "buf_wf r" "rd_err r = 0" by (simp_all add: reader_ready_def)
  obtain r' where f: "redisReaderFeed M d (r, h) = Some (REDIS_OK, r', h)" using feed_granted [OF r assms(1)] by blast
  have u: "length (unread r) \<le> rd_len r" using r(1) by (rule buf_wfE) simp
  have s: "pabs (r', h) = (unread r @ d, erase r, h)" "rd_len r' \<noteq> 0" "rd_len r' \<le> rd_len r + length d"
    using redisReaderFeed_spec [OF r f] u assms(3,4) by simp_all
  moreover have "reader_ready r'" using feed_state [OF rdy f assms(4)] by auto
  ultimately show ?thesis using f assms(2) vs by (intro that) (simp_all add: expects_def pabs_def)
qed

text \<open>Every call gives the next reply if it is complete, and no reply otherwise.\<close>

lemma pget_stable:
  assumes "stack_ok e" and "rd_err e = 0" and "pget strtod (\<lambda>_. M) (u, e, h) = Some (st, p, u', x, hx)" and "rd_err x = 0"
    and "rd_ridx x < 0"
  shows "pget strtod (\<lambda>_. M) (u @ y, e, h) = Some (st, p, u' @ y, x, hx)"
proof -
  let ?s = "start_task e"
  have s: "stack_ok ?s" "rd_err ?s = 0" using assms(1,2) by (simp_all add: start_task_keeps start_task_stack)
  obtain x0 where w: "ploop strtod (\<lambda>_. M) (length u + 1) (u, ?s, h) = Some (u', x0, hx)" "rd_err x0 = 0" "rd_ridx x0 = rd_ridx x"
    using assms(3,4) by (auto simp: pget_def split: option.splits if_splits)
  have "ploop strtod (\<lambda>_. M) (length (u @ y) + 1) (u @ y, ?s, h) = Some (u' @ y, x0, hx)"
    using ploop_append [OF s(2,1), of u "length u + 1" y "length (u @ y) + 1" strtod M h] w assms(5) by simp
  with w(1) assms(3,4) show ?thesis unfolding pget_def prod.case by (simp split: if_splits)
qed

lemma expects_get:
  assumes "expects strtod M (v # vs) h0 rest (r, h)"
  obtains (none) r' h' where "redisReaderGetReply strtod (\<lambda>_. M) True (r, h) = Some (REDIS_OK, NULL, r', h')"
      and "expects strtod M (v # vs) h0 rest (r', h')" and "rd_len r' \<le> rd_len r" and "rest \<noteq> []"
    | (reply) r' where "redisReaderGetReply strtod (\<lambda>_. M) True (r, h) = Some (REDIS_OK, Ref (length h0), r', h0 @ layout (length h0) v)"
      and "reader_idle r'" and "unread r' @ rest = concat (map encode vs)" and "rd_len r' \<le> rd_len r"
proof (cases "rd_len r = 0")
  case True
  moreover from this have "rest \<noteq> []" using assms by (auto simp: expects_def)
  moreover have "rd_err r = 0" using assms by (simp add: expects_def reader_ready_def)
  ultimately show ?thesis using assms by (intro none [of r h]) (simp_all add: redisReaderGetReply_def)
next
  case False
  have rdy: "reader_ready r" and ok: "list_all (resp_ok strtod) (v # vs)" using assms by (simp_all add: expects_def)
  then have r: "buf_wf r" "rd_err r = 0" "stack_ok r" by (simp_all add: reader_ready_def)
  then have e: "stack_ok (erase r)" "rd_err (erase r) = 0" by simp_all
  from assms obtain x where x: "pget strtod (\<lambda>_. M) (unread r @ rest, erase r, h)
      = Some (REDIS_OK, Ref (length h0), concat (map encode vs), x, h0 @ layout (length h0) v)" "finished x"
    by (auto simp: expects_def)
  obtain w where w: "ploop strtod (\<lambda>_. M) (length (unread r @ rest) + 1) (unread r @ rest, start_task (erase r), h) = Some w"
    "rd_err (fst (snd w)) = 0"
    using x(1) by (auto simp: pget_def split: option.splits if_splits)
  have ob: "obs (redisReaderGetReply strtod (\<lambda>_. M) True (r, h)) = pget strtod (\<lambda>_. M) (unread r, erase r, h)"
    using redisReaderGetReply_spec [OF r(1,2) False, of strtod "\<lambda>_. M" h] by (simp add: pabs_def)
  have s: "stack_ok (start_task (erase r))" "rd_err (start_task (erase r)) = 0" using e by (simp_all add: start_task_keeps start_task_stack)
  obtain u' x' h' where a: "ploop strtod (\<lambda>_. M) (length (unread r) + 1) (unread r, start_task (erase r), h) = Some (u', x', h')"
    "rd_err x' = 0" "stack_ok x'"
    using ploop_append [OF s(2,1), of "unread r" "length (unread r) + 1" rest "length (unread r @ rest) + 1" strtod M h] w
    by (cases "ploop strtod (\<lambda>_. M) (length (unread r) + 1) (unread r, start_task (erase r), h)") (auto split: if_splits)
  show ?thesis
  proof (cases "rd_ridx x' < 0")
    case True
    have "rd_ridx x' = -1" using True a(3) by (simp add: stack_ok_def)
    with a have p: "pget strtod (\<lambda>_. M) (unread r, erase r, h) = Some (REDIS_OK, rd_reply x', u', x'\<lparr>rd_reply := NULL\<rparr>, h')"
      by (simp add: pget_def)
    from pget_stable [OF e p, of rest] True a(2) x(1) have
      q: "rd_reply x' = Ref (length h0)" "u' @ rest = concat (map encode vs)" "x = x'\<lparr>rd_reply := NULL\<rparr>" "h' = h0 @ layout (length h0) v"
      by simp_all
    obtain r' where g: "redisReaderGetReply strtod (\<lambda>_. M) True (r, h) = Some (REDIS_OK, Ref (length h0), r', h')" "unread r' = u'"
      "erase r' = x"
      using ob p q by (auto simp: obs_def pabs_def)
    have "reader_ready r'" "rd_len r' \<le> rd_len r" using redisReaderGetReply_state [OF rdy g(1)] by auto
    moreover from this x(2) g(3) have "reader_idle r'" by (auto simp: reader_idle_def finished_def)
    ultimately show ?thesis using g q by (intro reply) simp_all
  next
    case False
    with a have p: "pget strtod (\<lambda>_. M) (unread r, erase r, h) = Some (REDIS_OK, NULL, u', x', h')" by (simp add: pget_def)
    obtain r' where g: "redisReaderGetReply strtod (\<lambda>_. M) True (r, h) = Some (REDIS_OK, NULL, r', h')" "unread r' = u'" "erase r' = x'"
      using ob p by (auto simp: obs_def pabs_def)
    have st: "reader_ready r'" "rd_len r' \<le> rd_len r" using redisReaderGetReply_state [OF rdy g(1)] by auto
    have "0 \<le> rd_ridx x'" using False by simp
    then have "pget strtod (\<lambda>_. M) (u' @ rest, x', h') = pget strtod (\<lambda>_. M) (unread r @ rest, erase r, h)"
      by (rule pget_cut [OF e p])
    moreover have "rest \<noteq> []" using x(1) p by auto
    ultimately show ?thesis using x g st ok by (intro none [of r' h']) (simp_all add: expects_def)
  qed
qed

end
