(* ===== verification/AsyncFlow.thy ===== *)
theory AsyncFlow
  imports AsyncSafe ReaderStream
begin

text \<open>
  What passes through an asynchronous connection: what a SUBSCRIBE command stores, how replies that
  arrive are given to the callbacks that wait for them, what a socket that would block does to a
  connection, and what becomes of the callback of MONITOR.
\<close>

section \<open>Subscribing\<close>

lemma subscribed_other: "k \<notin> set chs \<Longrightarrow> subscribed cb chs m k = m k"
  by (induction chs arbitrary: cb m) (simp_all add: Let_def)

lemma subscribed_fn:
  "k \<in> set chs \<Longrightarrow> \<exists>n. subscribed cb chs m k = Some (cb\<lparr>cb_pending_subs := n\<rparr>)"
proof (induction chs arbitrary: cb m)
  case (Cons ch chs)
  define cb' where "cb' = (case m ch of None \<Rightarrow> cb | Some old \<Rightarrow> cb\<lparr>cb_pending_subs := sbits 32 (cb_pending_subs old + 1)\<rparr>)"
  have cb': "\<exists>i. cb' = cb\<lparr>cb_pending_subs := i\<rparr>"
    by (cases "m ch") (auto simp: cb'_def intro: exI [of _ "cb_pending_subs cb"])
  have eq: "subscribed cb (ch # chs) m = subscribed cb' chs (m(ch \<mapsto> cb'))" by (simp add: cb'_def Let_def)
  show ?case
  proof (cases "k \<in> set chs")
    case True
    then obtain n where "subscribed cb' chs (m(ch \<mapsto> cb')) k = Some (cb'\<lparr>cb_pending_subs := n\<rparr>)" using Cons.IH by blast
    with eq cb' show ?thesis by auto
  next
    case False
    with Cons.prems have k: "k = ch" by simp
    have "subscribed cb (ch # chs) m k = Some cb'" unfolding eq using subscribed_other [OF False, of cb'] k by simp
    with cb' show ?thesis by metis
  qed
qed simp



section \<open>Serving replies\<close>

text \<open>The calls that got a reply: the function, the heap and the reply it saw, its data.\<close>

definition served_of :: "('f, 'p) event \<Rightarrow> ('f \<times> heap \<times> ptr \<times> 'p option) list" where
  "served_of e = (case e of Called fn h reply privdata \<Rightarrow> if reply = NULL then [] else [(fn, h, reply, privdata)] | _ \<Rightarrow> [])"

definition served :: "('f, 'p, 'u) world \<Rightarrow> ('f \<times> heap \<times> ptr \<times> 'p option) list" where
  "served g = concat (map served_of (wd_log g))"

definition released :: "heap \<Rightarrow> resp list \<Rightarrow> heap" where
  "released h vs = h @ replicate (sum_list (map nodes vs)) None"

text \<open>The first callback gets the first reply, as a tree behind the cells of the replies before it, which
  have been released; and so on.\<close>

fun serve :: "heap \<Rightarrow> ('f, 'p) callbacks \<Rightarrow> resp list \<Rightarrow> ('f \<times> heap \<times> ptr \<times> 'p option) list" where
  "serve h (cb # cbs) (v # vs) =
     (case cb_fn cb of
        None \<Rightarrow> []
      | Some fn \<Rightarrow> [(fn, h @ layout (length h) v, Ref (length h), cb_privdata cb)])
     @ serve (released h [v]) cbs vs"
| "serve h _ _ = []"

text \<open>Callbacks that compute and return.\<close>

definition quiet :: "libc \<Rightarrow> ('f, 'p, 'u) runtime \<Rightarrow> bool" where
  "quiet L E \<longleftrightarrow> en_funcs E = redisContextDefaultFuncs L \<and> en_libc E = L \<and> (\<forall>n. granted (en_mem E) n)
     \<and> (\<forall>fn h reply privdata u. \<exists>u'. en_fn E fn h reply privdata u = Return u')"

text \<open>A connected context without errors that is not closing; \<open>m\<close> tells whether it is monitoring, \<open>sb\<close> whether it
  is subscribed.\<close>

definition in_service :: "bool \<Rightarrow> bool \<Rightarrow> ('f, 'p) redisAsyncContext \<Rightarrow> bool" where
  "in_service m sb ac \<longleftrightarrow> rc_err (ac_c ac) = 0 \<and> flag ac REDIS_CONNECTED \<and> flag ac REDIS_MONITORING = m
     \<and> flag ac REDIS_SUBSCRIBED = sb \<and> (\<forall>f \<in> {REDIS_BLOCK, REDIS_DISCONNECTING, REDIS_FREEING}. \<not> flag ac f)"

definition same_subs :: "('f, 'p) redisAsyncContext \<Rightarrow> ('f, 'p) redisAsyncContext \<Rightarrow> bool" where
  "same_subs ac' ac \<longleftrightarrow> ac_channels ac' = ac_channels ac \<and> ac_patterns ac' = ac_patterns ac"

lemma quiet_callback:
  assumes "quiet L E" and "in_service m sb ac"
  obtains ac' g' where "redisRunCallback E cb reply (ac, g) = Some (ac', g')" and "in_service m sb ac'"
    and "ac_replies ac' = ac_replies ac" and "rc_reader (ac_c ac') = rc_reader (ac_c ac)" and "same_subs ac' ac" and "wd_heap g' = wd_heap g"
    and "wd_os g' = wd_os g" and "served g' = served g @ (case cb_fn cb of None \<Rightarrow> []
      | Some fn \<Rightarrow> served_of (Called fn (wd_heap g) reply (cb_privdata cb)))"
proof (cases "cb_fn cb")
  case None
  with assms(2) that [of ac g] show ?thesis by (simp add: redisRunCallback_def same_subs_def)
next
  case (Some fn)
  obtain u' where u: "en_fn E fn (wd_heap g) reply (cb_privdata cb) (wd_user g) = Return u'"
    using assms(1) unfolding quiet_def by blast
  let ?ac = "clear_flag REDIS_IN_CALLBACK (set_flag REDIS_IN_CALLBACK ac)"
  let ?g = "(emit (Called fn (wd_heap g) reply (cb_privdata cb)) g)\<lparr>wd_user := u'\<rparr>"
  have "redisRunCallback E cb reply (ac, g) = Some (?ac, ?g)" using Some u by (simp add: redisRunCallback_def)
  moreover have "in_service m sb ?ac" using assms(2)
    by (simp add: in_service_def flag_clear_other redis_flags REDIS_SUBSCRIBED_def REDIS_MONITORING_def)
      (simp add: set_flag_def clear_flag_def)
  moreover have "ac_replies ?ac = ac_replies ac" "same_subs ?ac ac" by (simp_all add: set_flag_def clear_flag_def same_subs_def)
  ultimately show ?thesis using Some by (intro that [of ?ac ?g]) (simp_all add: emit_def served_def)
qed

lemma get_reply_reader:
  assumes "quiet L E" and "\<not> flag ac REDIS_BLOCK" and "rc_reader (ac_c ac) = Some r"
    and "redisReaderGetReply (lc_strtod L) (\<lambda>_. en_mem E) True (r, wd_heap g) = Some (REDIS_OK, reply, r', h')"
  shows "get_reply E (ac, g) = Some (REDIS_OK, reply, ac\<lparr>ac_c := (ac_c ac)\<lparr>rc_reader := Some r'\<rparr>\<rparr>, g\<lparr>wd_heap := h'\<rparr>)"
proof -
  have "redisGetReplyFromReader L (en_mem E) (ac_c ac, wd_heap g, wd_os g)
      = Some (REDIS_OK, reply, (ac_c ac)\<lparr>rc_reader := Some r'\<rparr>, h', wd_os g)"
    using assms(3,4) by (simp add: redisGetReplyFromReader_def)
  moreover have "\<not> has_flag ((ac_c ac)\<lparr>rc_reader := Some r'\<rparr>) REDIS_BLOCK" using assms(2) by (simp add: flag_def has_flag_def)
  ultimately show ?thesis using assms(1) by (simp add: get_reply_def redisGetReply_def quiet_def)
qed

text \<open>A callback gets its reply, which is released when it has returned.\<close>

lemma deliver_quiet:
  assumes "quiet L E" and "in_service m sb ac" and "wd_heap g = h0 @ layout (length h0) v"
  obtains ac' g' where "deliver E (Ref (length h0)) cb (ac, g) = Some (Again cb (ac', g'))" and "in_service m sb ac'"
    and "ac_replies ac' = ac_replies ac" and "rc_reader (ac_c ac') = rc_reader (ac_c ac)" and "same_subs ac' ac"
    and "wd_heap g' = released h0 [v]" and "wd_os g' = wd_os g" and "served g' = served g @ serve h0 [cb] [v]"
proof -
  let ?p = "Ref (length h0)"
  have fr: "freeReplyObject (wd_heap g) ?p = Some (released h0 [v])"
    using free_layout [of v "length (wd_heap g)" h0 "[]"] assms(3) by (simp add: freeReplyObject_def released_def)
  obtain ac2 g2 where run: "redisRunCallback E cb ?p (ac, g) = Some (ac2, g2)" "in_service m sb ac2"
    "ac_replies ac2 = ac_replies ac" "rc_reader (ac_c ac2) = rc_reader (ac_c ac)" "same_subs ac2 ac" "wd_heap g2 = wd_heap g"
    "wd_os g2 = wd_os g" "served g2 = served g @ (case cb_fn cb of None \<Rightarrow> [] | Some fn \<Rightarrow> served_of (Called fn (wd_heap g) ?p (cb_privdata cb)))"
    by (rule quiet_callback [OF assms(1,2)])
  let ?g3 = "g2\<lparr>wd_heap := released h0 [v]\<rparr>"
  have nf: "\<not> flag ac2 REDIS_FREEING" using run(2) by (simp add: in_service_def)
  have "deliver E ?p cb (ac, g) = Some (Again cb (ac2, ?g3))"
  proof (cases "cb_fn cb")
    case None
    then have "(ac2, g2) = (ac, g)" using run(1) by (simp add: redisRunCallback_def)
    then show ?thesis using None fr by (simp add: deliver_def free_reply_obj_def)
  next
    case (Some fn)
    then show ?thesis using run(1,6) fr nf by (simp add: deliver_def free_reply_obj_def)
  qed
  moreover have "served ?g3 = served g @ serve h0 [cb] [v]"
    using run(8) assms(3) by (simp add: served_def served_of_def split: option.splits)
  ultimately show ?thesis using run by (intro that [of ac2 ?g3]) simp_all
qed

text \<open>One reply: it leaves the parser, goes to the callback at the head of the queue and is released.\<close>

lemma loop_reply:
  assumes "quiet L E" and "in_service m sb ac" and "rc_reader (ac_c ac) = Some r" and "ac_replies ac = cb0 # cbs" and "not_push v"
    and "redisReaderGetReply (lc_strtod L) (\<lambda>_. en_mem E) True (r, wd_heap g)
      = Some (REDIS_OK, Ref (length h0), r', h0 @ layout (length h0) v)"
  obtains ac' g' where "callbacks_loop E cb (ac, g) = callbacks_loop E cb0 (ac', g')" and "in_service m sb ac'"
    and "rc_reader (ac_c ac') = Some r'" and "ac_replies ac' = cbs" and "wd_heap g' = released h0 [v]" and "wd_os g' = wd_os g"
    and "served g' = served g @ serve h0 [cb0] [v]"
proof -
  let ?h = "h0 @ layout (length h0) v"
  let ?ac = "ac\<lparr>ac_c := (ac_c ac)\<lparr>rc_reader := Some r'\<rparr>\<rparr>" and ?g = "g\<lparr>wd_heap := ?h\<rparr>"
  have nb: "\<not> flag ac REDIS_BLOCK" using assms(2) by (simp add: in_service_def)
  have get: "get_reply E (ac, g) = Some (REDIS_OK, Ref (length h0), ?ac, ?g)"
    by (rule get_reply_reader [OF assms(1) nb assms(3,6)])
  obtain cell where cell: "hget ?h (Ref (length h0)) = Some cell" "rr_type cell \<noteq> REDIS_REPLY_PUSH"
    by (rule root_cell [OF assms(5)])
  let ?ac1 = "?ac\<lparr>ac_replies := cbs\<rparr>"
  have srv: "in_service m sb ?ac1" using assms(2) by (simp add: in_service_def flag_def has_flag_def)
  have hp: "wd_heap ?g = ?h" by simp
  obtain ac2 g2 where dl: "deliver E (Ref (length h0)) cb0 (?ac1, ?g) = Some (Again cb0 (ac2, g2))" "in_service m sb ac2"
    "ac_replies ac2 = ac_replies ?ac1" "rc_reader (ac_c ac2) = rc_reader (ac_c ?ac1)" "wd_heap g2 = released h0 [v]"
    "wd_os g2 = wd_os ?g" "served g2 = served ?g @ serve h0 [cb0] [v]"
    by (rule deliver_quiet [OF assms(1) srv hp])
  have "process_reply E (Ref (length h0)) cb (?ac, ?g) = Some (Again cb0 (ac2, g2))"
    using cell assms(4) dl(1) by (simp add: process_reply_def redisIsSpontaneousPushReply_def)
  then have "callbacks_loop E cb (ac, g) = callbacks_loop E cb0 (ac2, g2)"
    by (subst callbacks_loop.simps) (simp add: get)
  with dl show ?thesis by (intro that [of ac2 g2]) (simp_all add: served_def)
qed

text \<open>The loop stops when no complete reply is left; while monitoring it puts back the callback it has used last.\<close>

lemma loop_none:
  assumes "quiet L E" and "in_service m sb ac" and "rc_reader (ac_c ac) = Some r"
    and "redisReaderGetReply (lc_strtod L) (\<lambda>_. en_mem E) True (r, wd_heap g) = Some (REDIS_OK, NULL, r', h')"
  obtains ac' g' where "callbacks_loop E cb (ac, g) = Some (Some ac', g')" and "in_service m sb ac'"
    and "rc_reader (ac_c ac') = Some r'" and "ac_replies ac' = ac_replies ac @ (if m then [cb] else [])" and "wd_heap g' = h'"
    and "wd_os g' = wd_os g" and "served g' = served g" and "same_subs ac' ac"
proof -
  let ?ac = "ac\<lparr>ac_c := (ac_c ac)\<lparr>rc_reader := Some r'\<rparr>\<rparr>" and ?g = "g\<lparr>wd_heap := h'\<rparr>"
  let ?ac1 = "?ac\<lparr>ac_replies := ac_replies ac @ (if m then [cb] else [])\<rparr>"
  have nb: "\<not> flag ac REDIS_BLOCK" using assms(2) by (simp add: in_service_def)
  have get: "get_reply E (ac, g) = Some (REDIS_OK, NULL, ?ac, ?g)"
    by (rule get_reply_reader [OF assms(1) nb assms(3,4)])
  have srv: "in_service m sb ?ac" "in_service m sb ?ac1" using assms(2) by (simp_all add: in_service_def flag_def has_flag_def)
  have "?ac1 = ?ac" if "\<not> m" using that by simp
  then have "no_reply E cb (?ac, ?g) = Some (Some ?ac1, ?g)"
    using srv(1) assms(1) by (cases m) (simp_all add: no_reply_def in_service_def redisPushCallback_def quiet_def)
  then have "callbacks_loop E cb (ac, g) = Some (Some ?ac1, ?g)" by (subst callbacks_loop.simps) (simp add: get)
  with srv(2) show ?thesis by (intro that [of ?ac1 ?g]) (simp_all add: served_def same_subs_def)
qed

lemma serve_append: "length cbs1 = length vs1 \<Longrightarrow> serve h (cbs1 @ cbs2) (vs1 @ vs2) = serve h cbs1 vs1 @ serve (released h vs1) cbs2 vs2"
proof (induction cbs1 vs1 arbitrary: h rule: list_induct2)
  case (Cons cb cbs v vs)
  have "released (released h [v]) vs = released h (v # vs)" by (simp add: released_def replicate_add)
  with Cons show ?case by simp
qed (simp add: released_def)

lemma loop_serves:
  assumes "quiet L E" and "in_service False False ac" and "rc_reader (ac_c ac) = Some r" and "length vs \<le> length (ac_replies ac)"
    and "list_all not_push vs" and "expects (lc_strtod L) (en_mem E) vs h0 rest (r, wd_heap g)"
  obtains vs1 vs2 ac' g' r' where "vs = vs1 @ vs2" and "rest = [] \<longrightarrow> vs2 = []"
    and "callbacks_loop E cb (ac, g) = Some (Some ac', g')" and "in_service False False ac'"
    and "rc_reader (ac_c ac') = Some r'" and "ac_replies ac' = drop (length vs1) (ac_replies ac)" and "wd_os g' = wd_os g"
    and "served g' = served g @ serve h0 (take (length vs1) (ac_replies ac)) vs1" and "rd_len r' \<le> rd_len r"
    and "expects (lc_strtod L) (en_mem E) vs2 (released h0 vs1) rest (r', wd_heap g')"
  using assms(2-)
proof (induction vs arbitrary: ac g r h0 cb thesis)
  case Nil
  from Nil.prems(6) have b: "between r" "unread r = []" "rest = []" "wd_heap g = h0" by (simp_all add: expects_def)
  obtain r' where g: "redisReaderGetReply (lc_strtod L) (\<lambda>_. en_mem E) True (r, wd_heap g) = Some (REDIS_OK, NULL, r', wd_heap g)"
    "between r'" "unread r' = []" "rd_len r' \<le> rd_len r"
    by (rule between_none [OF b(1,2)])
  obtain ac' g' where l: "callbacks_loop E cb (ac, g) = Some (Some ac', g')" "in_service False False ac'"
    "rc_reader (ac_c ac') = Some r'" "ac_replies ac' = ac_replies ac @ (if False then [cb] else [])" "wd_heap g' = wd_heap g" "wd_os g' = wd_os g" "served g' = served g"
    by (rule loop_none [OF assms(1) Nil.prems(2,3) g(1)])
  have "expects (lc_strtod L) (en_mem E) [] (released h0 []) rest (r', wd_heap g')"
    using g(2,3) b l(5) by (simp add: expects_def released_def between_def)
  with l g(4) show ?case by (intro Nil.prems(1) [of "[]" "[]" ac' g' r']) simp_all
next
  case (Cons v vs)
  show ?case
  proof (cases rule: expects_get [OF Cons.prems(6)])
    case (1 r' h')
    obtain ac' g' where l: "callbacks_loop E cb (ac, g) = Some (Some ac', g')" "in_service False False ac'"
      "rc_reader (ac_c ac') = Some r'" "ac_replies ac' = ac_replies ac @ (if False then [cb] else [])" "wd_heap g' = h'" "wd_os g' = wd_os g" "served g' = served g"
      by (rule loop_none [OF assms(1) Cons.prems(2,3) 1(1)])
    with 1 show ?thesis by (intro Cons.prems(1) [of "[]" "v # vs" ac' g' r']) (simp_all add: released_def)
  next
    case (2 r')
    obtain cb0 cbs where q: "ac_replies ac = cb0 # cbs" using Cons.prems(4) by (cases "ac_replies ac") auto
    have nv: "not_push v" "list_all not_push vs" using Cons.prems(5) by simp_all
    obtain ac1 g1 where l: "callbacks_loop E cb (ac, g) = callbacks_loop E cb0 (ac1, g1)" "in_service False False ac1"
      "rc_reader (ac_c ac1) = Some r'" "ac_replies ac1 = cbs" "wd_heap g1 = released h0 [v]" "wd_os g1 = wd_os g"
      "served g1 = served g @ serve h0 [cb0] [v]"
      by (rule loop_reply [OF assms(1) Cons.prems(2,3) q nv(1) 2(1)])
    have len: "length vs \<le> length (ac_replies ac1)" using Cons.prems(4) q l(4) by simp
    have M: "\<forall>n. granted (en_mem E) n" using assms(1) by (simp add: quiet_def)
    have "list_all (resp_ok (lc_strtod L)) vs" using Cons.prems(6) by (simp add: expects_def)
    from expects_start [OF M this idle_between [OF 2(2)] 2(3), of "wd_heap g1"]
    have ex: "expects (lc_strtod L) (en_mem E) vs (released h0 [v]) rest (r', wd_heap g1)" using l(5) by simp
    obtain vs1 vs2 ac' g' r2 where r: "vs = vs1 @ vs2" "rest = [] \<longrightarrow> vs2 = []"
      "callbacks_loop E cb0 (ac1, g1) = Some (Some ac', g')" "in_service False False ac'"
      "rc_reader (ac_c ac') = Some r2" "ac_replies ac' = drop (length vs1) (ac_replies ac1)" "wd_os g' = wd_os g1"
      "served g' = served g1 @ serve (released h0 [v]) (take (length vs1) (ac_replies ac1)) vs1" "rd_len r2 \<le> rd_len r'"
      "expects (lc_strtod L) (en_mem E) vs2 (released (released h0 [v]) vs1) rest (r2, wd_heap g')"
      using Cons.IH [OF _ l(2,3) len nv(2) ex, of cb0] by blast
    have "released (released h0 [v]) vs1 = released h0 (v # vs1)" by (simp add: released_def replicate_add)
    with r l q 2(4) show ?thesis by (intro Cons.prems(1) [of "v # vs1" vs2 ac' g' r2]) simp_all
  qed
qed

text \<open>One readable event, which brings the bytes \<open>d\<close>.\<close>

lemma el_add_read_eq:
  obtains es where "el_add_read (ac, g) = (ac, g\<lparr>wd_log := wd_log g @ es\<rparr>)" and "concat (map served_of es) = []"
proof -
  let ?g1 = "refreshTimeout (ac, g)"
  obtain es where es: "?g1 = g\<lparr>wd_log := wd_log g @ es\<rparr>" "concat (map served_of es) = []"
  proof (cases "?g1 = g")
    case True
    then show ?thesis by (intro that [of "[]"]) simp_all
  next
    case False
    then obtain tv where "?g1 = emit (ScheduleTimer tv) g" by (auto simp: refreshTimeout_def split: option.splits if_splits)
    then show ?thesis by (intro that [of "[ScheduleTimer tv]"]) (simp_all add: emit_def served_of_def)
  qed
  show ?thesis
  proof (cases "ev_addRead (ac_ev ac)")
    case True
    with es show ?thesis by (intro that [of "es @ [AddRead]"]) (simp_all add: el_add_read_def Let_def emit_def served_of_def)
  next
    case False
    with es show ?thesis by (intro that [of es]) (simp_all add: el_add_read_def Let_def)
  qed
qed

lemma read_event:
  assumes "quiet L E" and "in_service m sb ac" and "rc_reader (ac_c ac) = Some r"
    and "expects (lc_strtod L) (en_mem E) vs h0 (d @ rest) (r, wd_heap g)"
    and "oracle_gives (wd_os g) (ret_recv d # rs)" and "d \<noteq> []" and "length d \<le> 16384" and "rd_len r + length d < 2 ^ 31"
  obtains ac' g' r' where "redisAsyncHandleRead E (ac, g) = callbacks_loop E null_cb (ac', g')" and "in_service m sb ac'"
    and "rc_reader (ac_c ac') = Some r'" and "ac_replies ac' = ac_replies ac" and "oracle_gives (wd_os g') rs"
    and "served g' = served g" and "rd_len r' \<le> rd_len r + length d"
    and "expects (lc_strtod L) (en_mem E) vs h0 rest (r', wd_heap g')" and "same_subs ac' ac"
proof -
  have M: "\<forall>n. granted (en_mem E) n" and F: "en_funcs E = redisContextDefaultFuncs L" using assms(1) by (simp_all add: quiet_def)
  have err: "rc_err (ac_c ac) = 0" "flag ac REDIS_CONNECTED" using assms(2) by (simp_all add: in_service_def)
  obtain w1 where w1: "sys (SysRecv (rc_fd (ac_c ac)) 16384) (wd_os g) = (ret_recv d, w1)" "oracle_gives w1 rs"
    using oracle_sys [OF assms(5)] by metis
  have rd: "cf_read (redisContextDefaultFuncs L) 16384 (ac_c ac, wd_os g) = (int (length d), d, ac_c ac, w1)"
    using w1(1) assms(6,7) by (simp add: redisContextDefaultFuncs_def redisNetRead_def ret_recv_def Let_def)
  obtain r1 where r1: "redisReaderFeed (en_mem E) d (r, wd_heap g) = Some (REDIS_OK, r1, wd_heap g)"
    "expects (lc_strtod L) (en_mem E) vs h0 rest (r1, wd_heap g)" "rd_len r1 \<le> rd_len r + length d"
    by (rule expects_feed [OF M assms(4,6,8)])
  let ?ac = "ac\<lparr>ac_c := (ac_c ac)\<lparr>rc_reader := Some r1\<rparr>\<rparr>" and ?g = "g\<lparr>wd_os := w1\<rparr>"
  have "redisBufferRead (en_funcs E) (en_mem E) (ac_c ac, wd_heap g, wd_os g)
      = Some (REDIS_OK, (ac_c ac)\<lparr>rc_reader := Some r1\<rparr>, wd_heap g, w1)"
    using assms(3,6) F err rd r1(1) by (simp add: redisBufferRead_def Let_def)
  moreover obtain es where es: "el_add_read (?ac, ?g) = (?ac, ?g\<lparr>wd_log := wd_log ?g @ es\<rparr>)" "concat (map served_of es) = []"
    by (rule el_add_read_eq)
  ultimately have "redisAsyncHandleRead E (ac, g) = callbacks_loop E null_cb (?ac, ?g\<lparr>wd_log := wd_log g @ es\<rparr>)"
    using err(2) by (simp add: redisAsyncHandleRead_def when_connected_def redisAsyncRead_def redisProcessCallbacks_def Let_def)
  moreover have "in_service m sb ?ac" using assms(2) by (simp add: in_service_def flag_def has_flag_def)
  moreover have "served (?g\<lparr>wd_log := wd_log g @ es\<rparr>) = served g" using es(2) by (simp add: served_def)
  ultimately show ?thesis using r1 w1(2) by (intro that [of ?ac "?g\<lparr>wd_log := wd_log g @ es\<rparr>" r1]) (simp_all add: same_subs_def)
qed

lemma read_serves:
  assumes "quiet L E" and "in_service False False ac" and "rc_reader (ac_c ac) = Some r" and "length vs \<le> length (ac_replies ac)"
    and "list_all not_push vs" and "expects (lc_strtod L) (en_mem E) vs h0 (d @ rest) (r, wd_heap g)"
    and "oracle_gives (wd_os g) (ret_recv d # rs)" and "d \<noteq> []" and "length d \<le> 16384" and "rd_len r + length d < 2 ^ 31"
  obtains vs1 vs2 ac' g' r' where "vs = vs1 @ vs2" and "rest = [] \<longrightarrow> vs2 = []"
    and "redisAsyncHandleRead E (ac, g) = Some (Some ac', g')" and "in_service False False ac'"
    and "rc_reader (ac_c ac') = Some r'" and "ac_replies ac' = drop (length vs1) (ac_replies ac)" and "oracle_gives (wd_os g') rs"
    and "served g' = served g @ serve h0 (take (length vs1) (ac_replies ac)) vs1" and "rd_len r' \<le> rd_len r + length d"
    and "expects (lc_strtod L) (en_mem E) vs2 (released h0 vs1) rest (r', wd_heap g')"
proof -
  obtain ac1 g1 r1 where e: "redisAsyncHandleRead E (ac, g) = callbacks_loop E null_cb (ac1, g1)" "in_service False False ac1"
    "rc_reader (ac_c ac1) = Some r1" "ac_replies ac1 = ac_replies ac" "oracle_gives (wd_os g1) rs" "served g1 = served g"
    "rd_len r1 \<le> rd_len r + length d" "expects (lc_strtod L) (en_mem E) vs h0 rest (r1, wd_heap g1)"
    by (rule read_event [OF assms(1-3,6-10)])
  have len: "length vs \<le> length (ac_replies ac1)" using assms(4) e(4) by simp
  obtain vs1 vs2 ac' g' r' where "vs = vs1 @ vs2" "rest = [] \<longrightarrow> vs2 = []"
    "callbacks_loop E null_cb (ac1, g1) = Some (Some ac', g')" "in_service False False ac'" "rc_reader (ac_c ac') = Some r'"
    "ac_replies ac' = drop (length vs1) (ac_replies ac1)" "wd_os g' = wd_os g1"
    "served g' = served g1 @ serve h0 (take (length vs1) (ac_replies ac1)) vs1" "rd_len r' \<le> rd_len r1"
    "expects (lc_strtod L) (en_mem E) vs2 (released h0 vs1) rest (r', wd_heap g')"
    by (rule loop_serves [OF assms(1) e(2,3) len assms(5) e(8), of null_cb])
  with e show ?thesis by (intro that [of vs1 vs2 ac' g' r']) simp_all
qed

text \<open>A number of readable events.\<close>

primrec read_events :: "('f, 'p, 'u) runtime \<Rightarrow> nat \<Rightarrow> ('f, 'p, 'u) astate \<Rightarrow> ('f, 'p, 'u) mstate option" where
  "read_events E 0 s = Some (Some (fst s), snd s)"
| "read_events E (Suc n) s =
     (case redisAsyncHandleRead E s of
        Some (Some ac, g) \<Rightarrow> read_events E n (ac, g)
      | m \<Rightarrow> m)"

lemma reads_serve:
  assumes "quiet L E" and "in_service False False ac" and "rc_reader (ac_c ac) = Some r" and "length vs \<le> length (ac_replies ac)"
    and "list_all not_push vs" and "expects (lc_strtod L) (en_mem E) vs h0 (concat ds) (r, wd_heap g)" and "ds = [] \<longrightarrow> vs = []"
    and "oracle_gives (wd_os g) (map ret_recv ds)" and "\<forall>d \<in> set ds. d \<noteq> [] \<and> length d \<le> 16384"
    and "rd_len r + length (concat ds) < 2 ^ 31"
  obtains ac' g' r' where "read_events E (length ds) (ac, g) = Some (Some ac', g')" and "in_service False False ac'"
    and "rc_reader (ac_c ac') = Some r'" and "ac_replies ac' = drop (length vs) (ac_replies ac)"
    and "served g' = served g @ serve h0 (take (length vs) (ac_replies ac)) vs" and "wd_heap g' = released h0 vs"
    and "between r'" and "unread r' = []"
  using assms(2-)
proof (induction ds arbitrary: ac g r h0 vs thesis)
  case Nil
  then have "between r" "unread r = []" "wd_heap g = h0" by (simp_all add: expects_def)
  with Nil show ?case by (intro Nil.prems(1) [of ac g r]) (simp_all add: released_def)
next
  case (Cons d ds)
  have ex: "expects (lc_strtod L) (en_mem E) vs h0 (d @ concat ds) (r, wd_heap g)" using Cons.prems(6) by simp
  have os: "oracle_gives (wd_os g) (ret_recv d # map ret_recv ds)" using Cons.prems(8) by simp
  have d: "d \<noteq> []" "length d \<le> 16384" "rd_len r + length d < 2 ^ 31" using Cons.prems(9,10) by simp_all
  obtain vs1 vs2 ac1 g1 r1 where s: "vs = vs1 @ vs2" "concat ds = [] \<longrightarrow> vs2 = []"
    "redisAsyncHandleRead E (ac, g) = Some (Some ac1, g1)" "in_service False False ac1" "rc_reader (ac_c ac1) = Some r1"
    "ac_replies ac1 = drop (length vs1) (ac_replies ac)" "oracle_gives (wd_os g1) (map ret_recv ds)"
    "served g1 = served g @ serve h0 (take (length vs1) (ac_replies ac)) vs1" "rd_len r1 \<le> rd_len r + length d"
    "expects (lc_strtod L) (en_mem E) vs2 (released h0 vs1) (concat ds) (r1, wd_heap g1)"
    by (rule read_serves [OF assms(1) Cons.prems(2-5) ex os d])
  have len: "length vs2 \<le> length (ac_replies ac1)" using Cons.prems(4) s(1,6) by simp
  have np: "list_all not_push vs2" using Cons.prems(5) s(1) by simp
  have fin: "ds = [] \<longrightarrow> vs2 = []" using s(2) by simp
  have pc: "\<forall>d \<in> set ds. d \<noteq> [] \<and> length d \<le> 16384" "rd_len r1 + length (concat ds) < 2 ^ 31"
    using Cons.prems(9,10) s(9) by simp_all
  obtain ac' g' r' where r: "read_events E (length ds) (ac1, g1) = Some (Some ac', g')" "in_service False False ac'"
    "rc_reader (ac_c ac') = Some r'" "ac_replies ac' = drop (length vs2) (ac_replies ac1)"
    "served g' = served g1 @ serve (released h0 vs1) (take (length vs2) (ac_replies ac1)) vs2"
    "wd_heap g' = released (released h0 vs1) vs2" "between r'" "unread r' = []"
    by (rule Cons.IH [OF _ s(4,5) len np s(10) fin s(7) pc])
  have len1: "length (take (length vs1) (ac_replies ac)) = length vs1" using Cons.prems(4) s(1) by simp
  have "take (length vs) (ac_replies ac) = take (length vs1) (ac_replies ac) @ take (length vs2) (ac_replies ac1)"
    by (simp add: s(1,6) take_add)
  then have "serve h0 (take (length vs) (ac_replies ac)) vs
      = serve h0 (take (length vs1) (ac_replies ac)) vs1 @ serve (released h0 vs1) (take (length vs2) (ac_replies ac1)) vs2"
    using serve_append [OF len1] s(1) by simp
  moreover have "released (released h0 vs1) vs2 = released h0 vs" by (simp add: released_def s(1) replicate_add)
  moreover have "drop (length vs2) (ac_replies ac1) = drop (length vs) (ac_replies ac)" by (simp add: s(1,6) add.commute)
  ultimately show ?case using r s(3,8) by (intro Cons.prems(1) [of ac' g' r']) simp_all
qed

text \<open>C3: Replies reach the callbacks that wait for them. In a connected context in request-reply mode whose
  callbacks compute and return, let the server's bytes be the encodings of replies that are not push
  messages, as many as there are waiting callbacks or fewer, cut into one readable event after the
  other in any way. Then the first callback is called with the tree of the first reply, the second
  one with that of the second, and so on, each exactly once and each tree released after its call;
  the other callbacks stay queued, no byte is left over, and the context is ready for more.\<close>

theorem redisAsyncHandleRead_serves:
  assumes "quiet L E" and "in_service False False ac" and "rc_reader (ac_c ac) = Some r" and "between r" and "unread r = []"
    and "list_all (resp_ok (lc_strtod L)) vs" and "list_all not_push vs" and "length vs \<le> length (ac_replies ac)"
    and "concat ds = concat (map encode vs)" and "\<forall>d \<in> set ds. d \<noteq> [] \<and> length d \<le> 16384"
    and "rd_len r + length (concat ds) < 2 ^ 31" and "oracle_gives (wd_os g) (map ret_recv ds)"
  shows "\<exists>ac' g' r'. read_events E (length ds) (ac, g) = Some (Some ac', g')
    \<and> served g' = served g @ serve (wd_heap g) (ac_replies ac) vs \<and> ac_replies ac' = drop (length vs) (ac_replies ac)
    \<and> wd_heap g' = released (wd_heap g) vs \<and> in_service False False ac'
    \<and> rc_reader (ac_c ac') = Some r' \<and> between r' \<and> unread r' = []"
proof -
  have M: "\<forall>n. granted (en_mem E) n" using assms(1) by (simp add: quiet_def)
  have "unread r @ concat ds = concat (map encode vs)" using assms(5,9) by simp
  from expects_start [OF M assms(6,4) this]
  have ex: "expects (lc_strtod L) (en_mem E) vs (wd_heap g) (concat ds) (r, wd_heap g)" .
  have fin: "ds = [] \<longrightarrow> vs = []" using assms(9) encode_nonempty by (cases vs) auto
  obtain ac' g' r' where r: "read_events E (length ds) (ac, g) = Some (Some ac', g')" "in_service False False ac'"
    "rc_reader (ac_c ac') = Some r'" "ac_replies ac' = drop (length vs) (ac_replies ac)"
    "served g' = served g @ serve (wd_heap g) (take (length vs) (ac_replies ac)) vs" "wd_heap g' = released (wd_heap g) vs"
    "between r'" "unread r' = []"
    by (rule reads_serve [OF assms(1-3,8,7) ex fin assms(12,10,11)])
  have "length (take (length vs) (ac_replies ac)) = length vs" using assms(8) by simp
  from serve_append [OF this, of "wd_heap g" "drop (length vs) (ac_replies ac)" "[]"]
  have "serve (wd_heap g) (take (length vs) (ac_replies ac)) vs = serve (wd_heap g) (ac_replies ac) vs" by simp
  with r show ?thesis by auto
qed

text \<open>An environment of callbacks that note the reply they got.\<close>

definition note_env :: "(nat, nat, ptr list) runtime" where
  "note_env = \<lparr>en_funcs = redisContextDefaultFuncs no_libc, en_libc = no_libc, en_mem = mem_ok,
     en_fn = (\<lambda>fn h reply privdata u. Return (reply # u)), en_push = (\<lambda>fn h reply u. Return u)\<rparr>"

lemma note_quiet: "quiet no_libc note_env"
  by (simp add: quiet_def note_env_def)

lemma service_start:
  fixes cbs :: "('f, 'p) callbacks"
  obtains c ac r where "redisContextInit mem_ok = Some c" and "redisAsyncInitialize mem_ok c = Some ac"
    and "in_service m False (ac\<lparr>ac_c := (ac_c ac)\<lparr>rc_flags := (if m then REDIS_CONNECTED OR REDIS_MONITORING else REDIS_CONNECTED)\<rparr>,
      ac_replies := cbs\<rparr>)"
    and "rc_reader (ac_c ac) = Some r" and "between r" and "unread r = []" and "rd_len r = 0"
proof -
  obtain c b r and ac :: "('f, 'p) redisAsyncContext" where c: "redisContextInit mem_ok = Some c" "redisAsyncInitialize mem_ok c = Some ac" "rc_err (ac_c ac) = 0"
    "rc_reader (ac_c ac) = Some r" "reader_idle r" "unread r = []" "rd_len r = 0"
    by (rule fresh_async)
  then show ?thesis
    by (intro that [of c ac r])
      (simp_all add: in_service_def flag_def has_flag_def idle_between redis_flags REDIS_SUBSCRIBED_def REDIS_MONITORING_def)
qed

theorem redisAsyncHandleRead_serves_witness:
  "\<exists>(ac :: (nat, nat) redisAsyncContext) ac' g'.
     ac_replies ac = [\<lparr>cb_fn = Some 7, cb_pending_subs = 1, cb_privdata = None\<rparr>, \<lparr>cb_fn = Some 8, cb_pending_subs = 1, cb_privdata = None\<rparr>]
   \<and> read_events note_env 2 (ac, world_of (os_of [ret_recv ''+PO'', ret_recv (''NG'' @ CRLF @ ''+OK'' @ CRLF)]) []) = Some (Some ac', g')
   \<and> ac_replies ac' = [] \<and> served g' = [(7, layout 0 (RStatus ''PONG''), Ref 0, None), (8, [None] @ layout 1 (RStatus ''OK''), Ref 1, None)]"
proof -
  let ?cbs = "[\<lparr>cb_fn = Some 7, cb_pending_subs = 1, cb_privdata = None\<rparr>, \<lparr>cb_fn = Some 8, cb_pending_subs = 1, cb_privdata = None\<rparr>]
    :: (nat, nat) redisCallback list"
  let ?vs = "[RStatus ''PONG'', RStatus ''OK'']" and ?ds = "[''+PO'', ''NG'' @ CRLF @ ''+OK'' @ CRLF]"
  let ?g = "world_of (os_of (map ret_recv ?ds)) [] :: (nat, nat, ptr list) world"
  obtain c ac r where c: "redisContextInit mem_ok = Some c" "redisAsyncInitialize mem_ok c = Some ac"
    "in_service False False (ac\<lparr>ac_c := (ac_c ac)\<lparr>rc_flags := (if False then REDIS_CONNECTED OR REDIS_MONITORING else REDIS_CONNECTED)\<rparr>,
      ac_replies := ?cbs\<rparr>)"
    "rc_reader (ac_c ac) = Some r" "between r" "unread r = []" "rd_len r = 0"
    by (rule service_start)
  let ?ac = "ac\<lparr>ac_c := (ac_c ac)\<lparr>rc_flags := REDIS_CONNECTED\<rparr>, ac_replies := ?cbs\<rparr>"
  have "in_service False False ?ac" "rc_reader (ac_c ?ac) = Some r" using c(3,4) by simp_all
  moreover have "list_all (resp_ok (lc_strtod no_libc)) ?vs" "list_all not_push ?vs" "length ?vs \<le> length (ac_replies ?ac)"
    "concat ?ds = concat (map encode ?vs)" "\<forall>d \<in> set ?ds. d \<noteq> [] \<and> length d \<le> 16384" "rd_len r + length (concat ?ds) < 2 ^ 31"
    using c(7) by (simp_all add: not_push_def)
  moreover have "oracle_gives (wd_os ?g) (map ret_recv ?ds)" using os_of_gives(1) by (simp add: world_of_def)
  ultimately obtain ac' g' where "read_events note_env (length ?ds) (?ac, ?g) = Some (Some ac', g')"
    "served g' = served ?g @ serve (wd_heap ?g) (ac_replies ?ac) ?vs" "ac_replies ac' = drop (length ?vs) (ac_replies ?ac)"
    using redisAsyncHandleRead_serves [OF note_quiet _ _ c(5,6), of ?ac ?vs ?ds ?g] by blast
  then show ?thesis
    by (intro exI [of _ ?ac] exI [of _ ac'] exI [of _ g'])
      (simp_all add: world_of_def served_def released_def numeral_2_eq_2)
qed

section \<open>Error paths\<close>

lemma write_would_block:
  assumes "in_service m sb ac" and "rc_obuf (ac_c ac) = Some b" and "0 < sdslen b" and "en_funcs E = redisContextDefaultFuncs L"
    and "oracle_gives (wd_os g) [e]" and "sr_val e = -1" and "sr_errno e = EWOULDBLOCK"
  obtains w where "redisAsyncHandleWrite E (ac, g) = redisAsyncDisconnect_now E (ac, g\<lparr>wd_os := w\<rparr>)"
proof -
  obtain w1 where w1: "sys (SysSend (rc_fd (ac_c ac)) (take (sdslen b) (sds_buf b))) (wd_os g) = (e, w1)" "os_errno w1 = Some EWOULDBLOCK"
    using oracle_sys [OF assms(5)] assms(6,7) by metis
  have s: "rc_err (ac_c ac) = 0" "flag ac REDIS_CONNECTED" "\<not> has_flag (ac_c ac) REDIS_BLOCK"
    using assms(1) by (simp_all add: in_service_def flag_def)
  have "redisNetWrite L (ac_c ac, wd_os g) = Some (-1, ac_c ac, w1)"
    using assms(2,6) w1 s(3) by (simp add: redisNetWrite_def)
  then have "redisBufferWrite (en_funcs E) (en_mem E) (ac_c ac, wd_heap g, wd_os g) = Some (REDIS_ERR, False, ac_c ac, wd_heap g, w1)"
    using assms(2-4) s(1) by (simp add: redisBufferWrite_def redisContextDefaultFuncs_def)
  then have "redisAsyncHandleWrite E (ac, g) = redisAsyncDisconnect_now E (ac, g\<lparr>wd_os := w1\<rparr>)"
    using s(2) by (simp add: redisAsyncHandleWrite_def when_connected_def redisAsyncWrite_def)
  then show ?thesis by (rule that)
qed

text \<open>C35: A full socket buffer aborts the program. When \<open>send\<close> would block on a non-blocking connection,
  \<open>redisNetWrite\<close> intends to try again later but reports -1, so the writable event ends in
  \<open>__redisAsyncDisconnect\<close> with no error set, whose assertion that nobody waits for a reply fails.\<close>

theorem redisAsyncWrite_would_block:
  assumes "in_service m sb ac" and "rc_obuf (ac_c ac) = Some b" and "0 < sdslen b" and "en_funcs E = redisContextDefaultFuncs L"
    and "oracle_gives (wd_os g) [e]" and "sr_val e = -1" and "sr_errno e = EWOULDBLOCK" and "ac_replies ac \<noteq> []"
  shows "redisAsyncHandleWrite E (ac, g) = None"
proof -
  obtain w where w: "redisAsyncHandleWrite E (ac, g) = redisAsyncDisconnect_now E (ac, g\<lparr>wd_os := w\<rparr>)"
    by (rule write_would_block [OF assms(1-7)])
  obtain cb cbs where "ac_replies ac = cb # cbs" using assms(8) by (cases "ac_replies ac") auto
  with w assms(1) show ?thesis by (simp add: redisAsyncDisconnect_now_def redisAsyncCopyError_def in_service_def)
qed

theorem redisAsyncWrite_would_block_witness:
  "\<exists>(ac :: (nat, nat) redisAsyncContext) b. rc_obuf (ac_c ac) = Some b \<and> sdsval b = ''x'' \<and> rc_err (ac_c ac) = 0
    \<and> redisAsyncHandleWrite note_env (ac, world_of (os_of [(ret_send 0)\<lparr>sr_val := -1, sr_errno := EWOULDBLOCK\<rparr>]) []) = None"
proof -
  let ?cbs = "[\<lparr>cb_fn = Some 7, cb_pending_subs = 1, cb_privdata = None\<rparr>] :: (nat, nat) redisCallback list"
  let ?e = "(ret_send 0)\<lparr>sr_val := -1, sr_errno := EWOULDBLOCK\<rparr>"
  obtain c ac where c: "redisContextInit mem_ok = Some c" "redisAsyncInitialize mem_ok c = Some ac"
    "in_service False False (ac\<lparr>ac_c := (ac_c ac)\<lparr>rc_flags := (if False then REDIS_CONNECTED OR REDIS_MONITORING else REDIS_CONNECTED)\<rparr>,
      ac_replies := ?cbs\<rparr>)"
    by (rule service_start)
  obtain e0 where e0: "sdsempty mem_ok = Some e0" using sdsnewlen_granted [of mem_ok] by (auto simp: sdsempty_def)
  obtain b where b: "sdscatlen mem_ok e0 ''x'' = Some b" using sdscatlen_granted [of mem_ok] by (metis mem_ok_granted not_None_eq)
  have w: "sds_wf b" "sdsval b = ''x''" "sdslen b = 1"
    using sdsempty_wf [OF e0] sdscatlen_wf [of e0 mem_ok "''x''" b] b length_sdsval [of e0] by simp_all
  let ?ac = "ac\<lparr>ac_c := (ac_c ac)\<lparr>rc_flags := REDIS_CONNECTED, rc_obuf := Some b\<rparr>, ac_replies := ?cbs\<rparr>"
  have "in_service False False ?ac" using c(3) by (simp add: in_service_def flag_def has_flag_def)
  moreover have "en_funcs note_env = redisContextDefaultFuncs no_libc" by (simp add: note_env_def)
  moreover have "oracle_gives (wd_os (world_of (os_of [?e]) ([] :: ptr list))) [?e]" using os_of_gives(1) by (simp add: world_of_def)
  ultimately have "redisAsyncHandleWrite note_env (?ac, world_of (os_of [?e]) []) = None"
    using w(3) by (intro redisAsyncWrite_would_block [where b = b and e = ?e]) simp_all
  moreover have "rc_err (ac_c ?ac) = 0" using c(3) by (simp add: in_service_def)
  ultimately show ?thesis using w(2) by (intro exI [of _ ?ac] exI [of _ b]) simp
qed

text \<open>A message and the next one are in the reader, the callback of MONITOR and an empty one are queued.\<close>

lemma loop_two:
  assumes "quiet L E" and "in_service True False ac" and "rc_reader (ac_c ac) = Some r" and "ac_replies ac = [cb, null_cb]"
    and "resp_ok (lc_strtod L) v2" and "not_push v1" and "not_push v2"
    and "expects (lc_strtod L) (en_mem E) [v1, v2] h0 [] (r, wd_heap g)"
  obtains ac' g' where "callbacks_loop E null_cb (ac, g) = Some (Some ac', g')"
    and "served g' = served g @ serve h0 [cb] [v1]" and "ac_replies ac' = [null_cb]"
proof -
  have M: "\<forall>n. granted (en_mem E) n" using assms(1) by (simp add: quiet_def)
  obtain r4 where g4: "redisReaderGetReply (lc_strtod L) (\<lambda>_. en_mem E) True (r, wd_heap g)
      = Some (REDIS_OK, Ref (length h0), r4, h0 @ layout (length h0) v1)" "reader_idle r4" "unread r4 @ [] = concat (map encode [v2])"
    by (rule expects_get [OF assms(8)]) auto
  obtain ac4 g5 where l4: "callbacks_loop E null_cb (ac, g) = callbacks_loop E cb (ac4, g5)" "in_service True False ac4"
    "rc_reader (ac_c ac4) = Some r4" "ac_replies ac4 = [null_cb]" "wd_heap g5 = released h0 [v1]"
    "served g5 = served g @ serve h0 [cb] [v1]"
    by (rule loop_reply [OF assms(1-4,6) g4(1)])
  have "list_all (resp_ok (lc_strtod L)) [v2]" using assms(5) by simp
  from expects_start [OF M this idle_between [OF g4(2)] g4(3)]
  have ex5: "expects (lc_strtod L) (en_mem E) [v2] (wd_heap g5) [] (r4, wd_heap g5)" .
  obtain r6 where g6: "redisReaderGetReply (lc_strtod L) (\<lambda>_. en_mem E) True (r4, wd_heap g5)
      = Some (REDIS_OK, Ref (length (wd_heap g5)), r6, wd_heap g5 @ layout (length (wd_heap g5)) v2)" "reader_idle r6" "unread r6 @ [] = concat (map encode [])"
    by (rule expects_get [OF ex5]) auto
  obtain ac6 g7 where l6: "callbacks_loop E cb (ac4, g5) = callbacks_loop E null_cb (ac6, g7)" "in_service True False ac6"
    "rc_reader (ac_c ac6) = Some r6" "ac_replies ac6 = []" "served g7 = served g5 @ serve (wd_heap g5) [null_cb] [v2]"
    by (rule loop_reply [OF assms(1) l4(2,3,4) assms(7) g6(1)])
  have u6: "between r6" "unread r6 = []" using g6(2,3) idle_between by simp_all
  obtain r7 where g8: "redisReaderGetReply (lc_strtod L) (\<lambda>_. en_mem E) True (r6, wd_heap g7) = Some (REDIS_OK, NULL, r7, wd_heap g7)"
    by (rule between_none [OF u6])
  obtain ac8 g9 where l8: "callbacks_loop E null_cb (ac6, g7) = Some (Some ac8, g9)"
    "ac_replies ac8 = ac_replies ac6 @ (if True then [null_cb] else [])" "served g9 = served g7"
    by (rule loop_none [OF assms(1) l6(2,3) g8])
  have "served g7 = served g5" using l6(5) by (simp add: null_cb_def)
  with l4(1,6) l6(1,4) l8 show ?thesis by (intro that [of ac8 g9]) simp_all
qed

text \<open>C36: A monitoring client loses its callback when a message arrives in pieces. If the first readable
  event brings only a part of a message, a callback without a function is queued behind the one of
  MONITOR; when the rest of that message arrives together with the next one, the first message
  reaches the user, the second reaches nobody, and only the empty callback stays in the queue.\<close>

theorem monitor_pieces:
  assumes "quiet L E" and "in_service True False ac" and "rc_reader (ac_c ac) = Some r" and "between r" and "unread r = []"
    and "resp_ok (lc_strtod L) v1" and "resp_ok (lc_strtod L) v2" and "not_push v1" and "not_push v2"
    and "ac_replies ac = [cb]" and "encode v1 = d1 @ d2" and "d1 \<noteq> []" and "d2 \<noteq> []"
    and "length d1 \<le> 16384" and "length (d2 @ encode v2) \<le> 16384" and "rd_len r + length (d1 @ d2 @ encode v2) < 2 ^ 31"
    and "oracle_gives (wd_os g) [ret_recv d1, ret_recv (d2 @ encode v2)]"
  shows "\<exists>ac' g'. read_events E 2 (ac, g) = Some (Some ac', g')
    \<and> served g' = served g @ serve (wd_heap g) [cb] [v1] \<and> ac_replies ac' = [null_cb]"
proof -
  have M: "\<forall>n. granted (en_mem E) n" using assms(1) by (simp add: quiet_def)
  let ?ex = "\<lambda>vs h0 rest r g. expects (lc_strtod L) (en_mem E) vs h0 rest (r, wd_heap g)"
  have "list_all (resp_ok (lc_strtod L)) [v1, v2]" "unread r @ d1 @ d2 @ encode v2 = concat (map encode [v1, v2])"
    using assms(5-7,11) by simp_all
  from expects_start [OF M this(1) assms(4) this(2)]
  have ex: "?ex [v1, v2] (wd_heap g) (d1 @ d2 @ encode v2) r g" .
  have len: "rd_len r + length d1 < 2 ^ 31" using assms(16) by simp
  have os: "oracle_gives (wd_os g) (ret_recv d1 # [ret_recv (d2 @ encode v2)])" using assms(17) by simp
  obtain ac1 g1 r1 where e1: "redisAsyncHandleRead E (ac, g) = callbacks_loop E null_cb (ac1, g1)" "in_service True False ac1"
    "rc_reader (ac_c ac1) = Some r1" "ac_replies ac1 = ac_replies ac" "oracle_gives (wd_os g1) [ret_recv (d2 @ encode v2)]"
    "served g1 = served g" "rd_len r1 \<le> rd_len r + length d1" "?ex [v1, v2] (wd_heap g) (d2 @ encode v2) r1 g1"
    by (rule read_event [OF assms(1-3) ex os assms(12,14) len])
  show ?thesis
  proof (cases rule: expects_get [OF e1(8)])
    case (2 r')
    from arg_cong [OF 2(3), of length] assms(13) show ?thesis by simp
  next
    case (1 r2 h2)
    obtain ac2 g2 where l: "callbacks_loop E null_cb (ac1, g1) = Some (Some ac2, g2)" "in_service True False ac2" "rc_reader (ac_c ac2) = Some r2"
      "ac_replies ac2 = ac_replies ac1 @ (if True then [null_cb] else [])" "wd_heap g2 = h2" "wd_os g2 = wd_os g1" "served g2 = served g1"
      by (rule loop_none [OF assms(1) e1(2,3) 1(1)])
    have ex2: "?ex [v1, v2] (wd_heap g) ((d2 @ encode v2) @ []) r2 g2" using 1(2) l(5) by simp
    have os2: "oracle_gives (wd_os g2) (ret_recv (d2 @ encode v2) # [])" using e1(5) l(6) by simp
    have len2: "d2 @ encode v2 \<noteq> []" "rd_len r2 + length (d2 @ encode v2) < 2 ^ 31" using assms(13,16) e1(7) 1(3) by simp_all
    obtain ac3 g3 r3 where e3: "redisAsyncHandleRead E (ac2, g2) = callbacks_loop E null_cb (ac3, g3)" "in_service True False ac3"
      "rc_reader (ac_c ac3) = Some r3" "ac_replies ac3 = ac_replies ac2" "served g3 = served g2" "?ex [v1, v2] (wd_heap g) [] r3 g3"
      by (rule read_event [OF assms(1) l(2,3) ex2 os2 len2(1) assms(15) len2(2)])
    have q: "ac_replies ac3 = [cb, null_cb]" using e3(4) l(4) e1(4) assms(10) by simp
    obtain ac8 g9 where l8: "callbacks_loop E null_cb (ac3, g3) = Some (Some ac8, g9)"
      "served g9 = served g3 @ serve (wd_heap g) [cb] [v1]" "ac_replies ac8 = [null_cb]"
      by (rule loop_two [OF assms(1) e3(2,3) q assms(7-9) e3(6)])
    have "read_events E 2 (ac, g) = Some (Some ac8, g9)"
      using e1(1) l(1) e3(1) l8(1) by (simp add: numeral_2_eq_2)
    then show ?thesis using e1(6) l(7) e3(5) l8(2,3) by simp
  qed
qed

theorem monitor_pieces_witness:
  "\<exists>(ac :: (nat, nat) redisAsyncContext) ac' g'. ac_replies ac = [\<lparr>cb_fn = Some 7, cb_pending_subs = 1, cb_privdata = None\<rparr>]
   \<and> flag ac REDIS_MONITORING
   \<and> read_events note_env 2 (ac, world_of (os_of [ret_recv ''+one'', ret_recv (CRLF @ ''+two'' @ CRLF)]) []) = Some (Some ac', g')
   \<and> served g' = [(7, layout 0 (RStatus ''one''), Ref 0, None)] \<and> ac_replies ac' = [null_cb]"
proof -
  let ?cb = "\<lparr>cb_fn = Some 7, cb_pending_subs = 1, cb_privdata = None\<rparr> :: (nat, nat) redisCallback"
  let ?v1 = "RStatus ''one''" and ?v2 = "RStatus ''two''"
  let ?g = "world_of (os_of [ret_recv ''+one'', ret_recv (CRLF @ ''+two'' @ CRLF)]) [] :: (nat, nat, ptr list) world"
  obtain c ac r where c: "redisContextInit mem_ok = Some c" "redisAsyncInitialize mem_ok c = Some ac"
    "in_service True False (ac\<lparr>ac_c := (ac_c ac)\<lparr>rc_flags := (if True then REDIS_CONNECTED OR REDIS_MONITORING else REDIS_CONNECTED)\<rparr>,
      ac_replies := [?cb]\<rparr>)"
    "rc_reader (ac_c ac) = Some r" "between r" "unread r = []" "rd_len r = 0"
    by (rule service_start)
  let ?ac = "ac\<lparr>ac_c := (ac_c ac)\<lparr>rc_flags := REDIS_CONNECTED OR REDIS_MONITORING\<rparr>, ac_replies := [?cb]\<rparr>"
  have srv: "in_service True False ?ac" "rc_reader (ac_c ?ac) = Some r" using c(3,4) by simp_all
  have v: "resp_ok (lc_strtod no_libc) ?v1" "resp_ok (lc_strtod no_libc) ?v2" "not_push ?v1" "not_push ?v2" "ac_replies ?ac = [?cb]"
    "encode ?v1 = ''+one'' @ CRLF" "''+one'' \<noteq> []" "CRLF \<noteq> []" "length ''+one'' \<le> 16384" "length (CRLF @ encode ?v2) \<le> 16384"
    "rd_len r + length (''+one'' @ CRLF @ encode ?v2) < 2 ^ 31"
    using c(7) by (simp_all add: not_push_def CRLF_def)
  have "oracle_gives (wd_os ?g) [ret_recv ''+one'', ret_recv (CRLF @ encode ?v2)]" using os_of_gives(1) by (simp add: world_of_def)
  then obtain ac' g' where "read_events note_env 2 (?ac, ?g) = Some (Some ac', g')"
    "served g' = served ?g @ serve (wd_heap ?g) [?cb] [?v1]" "ac_replies ac' = [null_cb]"
    using monitor_pieces [OF note_quiet srv c(5,6) v] by blast
  moreover have "flag ?ac REDIS_MONITORING" using srv(1) by (simp add: in_service_def)
  ultimately show ?thesis
    by (intro exI [of _ ?ac] exI [of _ ac'] exI [of _ g']) (simp_all add: world_of_def served_def)
qed

end
