(* ===== verification/AsyncPubSub.thy ===== *)
theory AsyncPubSub
  imports AsyncFlow
begin

text \<open>
  Messages and confirmations of subscriptions: how \<open>__redisGetSubscribeCallback\<close> changes the tables of
  channels and patterns, as maps, and which callback a subscribed client calls for what arrives.
\<close>

section \<open>Updates of the tables\<close>

lemma holds_slot:
  assumes "holds M d m" and "m k \<noteq> None"
  shows "agrees_on (ht_type d) k (ht_table d ! key_slot (ht_type d) (ht_sizemask d) k)"
    and "ht_size d \<noteq> 0" and "dict_map d k \<noteq> None"
proof -
  have ok: "dict_ok (exact d)" and dm: "dict_map d = (\<lambda>k. map_option Some (m k))" and k: "length k < 2 ^ 31"
    using assms by (auto simp: holds_def)
  show mk: "dict_map d k \<noteq> None" using assms(2) by (simp add: dm)
  then show nz: "ht_size d \<noteq> 0" using empty_map [OF ok] by (cases "ht_size d = 0") simp_all
  have "key_slot (ht_type d) (ht_sizemask d) k < length (ht_table d)"
    using slot_bound(1) [OF dict_okD(2) [OF ok], of k] nz by simp
  then show "agrees_on (ht_type d) k (ht_table d ! key_slot (ht_type d) (ht_sizemask d) k)"
    by (rule agrees_slot [OF holds_agrees [OF assms(1) k]])
qed

lemma holds_set:
  assumes "holds M d m" and "m k \<noteq> None"
  shows "holds M (set_val d k (Some cb)) (m(k \<mapsto> cb))"
proof -
  note slot = holds_slot [OF assms]
  have ok: "dict_ok (exact d)" and dm: "dict_map d = (\<lambda>k. map_option Some (m k))" and short: "\<forall>k \<in> dom m. length k < 2 ^ 31"
    and ty: "ht_type d = callbackDict M"
    using assms by (simp_all add: holds_def)
  let ?d = "set_val d k (Some cb)"
  let ?h = "key_slot (ht_type (exact d)) (ht_sizemask (exact d)) k"
  have tab: "ht_table (exact ?d) = (ht_table (exact d))[?h := chain_set (ht_type (exact d)) k (Some cb) (ht_table (exact d) ! ?h)]"
    using chain_exact(2) [OF slot(1), of "Some cb"] by (simp add: set_val_def Let_def)
  have "ht_size (exact d) \<noteq> 0" "dict_map (exact d) k \<noteq> None" using slot by simp_all
  note e = set_entry [OF ok this(1) refl this(2) tab]
  have "dict_ok (exact ?d)" "dict_map (exact ?d) = (dict_map (exact d))(k \<mapsto> Some cb)"
    by (rule e; simp add: set_val_def Let_def)+
  moreover have "length k < 2 ^ 31" using short assms(2) by auto
  ultimately show ?thesis using ty short dm by (auto simp: holds_def set_val_def Let_def)
qed

lemma chain_delete_exact: "agrees_on ty key c \<Longrightarrow> chain_delete (exact_type ty) key c = chain_delete ty key c"
  by (induction c) (auto simp: agrees_on_def dictCompareHashKeys_def exact_type_def)

lemma holds_delete:
  assumes "holds M d m" and "m k \<noteq> None"
  obtains d' where "dictDelete d k = Some (DICT_OK, d')" and "holds M d' (m(k := None))"
proof -
  note slot = holds_slot [OF assms]
  have ok: "dict_ok (exact d)" and dm: "dict_map d = (\<lambda>k. map_option Some (m k))" and short: "\<forall>k \<in> dom m. length k < 2 ^ 31"
    and ty: "ht_type d = callbackDict M"
    using assms by (simp_all add: holds_def)
  have "dictDelete (exact d) k = map_option (map_prod id exact) (dictDelete d k)"
    using chain_exact(1) [OF slot(1)] chain_delete_exact [OF slot(1)]
    by (auto simp: dictDelete_def chain_at_def Let_def exact_def dictFreeEntryVal_def dictFreeEntryKey_def exact_type_def
        key_slot_def split: option.split)
  moreover have "dict_map (exact d) k \<noteq> None" using slot(3) by simp
  then have "\<exists>e. dictDelete (exact d) k = Some (DICT_OK, e) \<and> dict_ok e \<and> dict_map e = (dict_map (exact d))(k := None)
    \<and> ht_type e = ht_type (exact d)"
    using dictDelete_spec [OF ok, of k] by metis
  then obtain e where e: "dictDelete (exact d) k = Some (DICT_OK, e)" "dict_ok e" "dict_map e = (dict_map (exact d))(k := None)"
    "ht_type e = ht_type (exact d)" by blast
  ultimately obtain d' where d': "dictDelete d k = Some (DICT_OK, d')" "e = exact d'" by (cases "dictDelete d k") auto
  have "ht_type d' = ht_type d"
    using d'(1) by (auto simp: dictDelete_def Let_def dictFreeEntryVal_def dictFreeEntryKey_def chain_at_def split: if_splits option.splits)
  then have "holds M d' (m(k := None))" using e d' ty short dm by (auto simp: holds_def)
  with d' that show ?thesis by blast
qed

lemma holds_empty:
  assumes "holds M d m" shows "ht_used d = 0 \<longleftrightarrow> m = Map.empty"
proof -
  have "finite (dom m)" using holds_dom(1) [OF assms] by (metis List.finite_set finite_imageI)
  then show ?thesis using holds_dom(2) [OF assms] by simp
qed

section \<open>Messages and confirmations\<close>

datatype notice = Message | Subscribed | Unsubscribed

definition notice_word :: "notice \<Rightarrow> bytes" where
  "notice_word n = (case n of Message \<Rightarrow> ''message'' | Subscribed \<Rightarrow> ''subscribe'' | Unsubscribed \<Rightarrow> ''unsubscribe'')"

definition notice_name :: "bool \<Rightarrow> notice \<Rightarrow> bytes" where
  "notice_name pvariant n = (if pvariant then CHR ''p'' # notice_word n else notice_word n)"

text \<open>What the server sends: the kind, the channel or pattern, and the message or the number of subscriptions left.\<close>

definition notice_reply :: "aggr \<Rightarrow> bool \<Rightarrow> notice \<Rightarrow> bytes \<Rightarrow> resp list \<Rightarrow> resp" where
  "notice_reply k pvariant n ch rest = RAggr k (RString (notice_name pvariant n) # RString ch # rest)"

definition notice_ok :: "aggr \<Rightarrow> notice \<Rightarrow> bytes \<Rightarrow> resp list \<Rightarrow> bool" where
  "notice_ok k n ch rest \<longleftrightarrow> (k = Array \<or> k = Push) \<and> length ch < 2 ^ 31 \<and> (n = Unsubscribed \<longrightarrow> (\<exists>i vs. rest = RInteger i # vs))"

text \<open>The subscriptions of a client: whether it is in subscribed mode, its channels, its patterns.\<close>

type_synonym ('f, 'p) subscriptions =
  "bool \<times> (bytes \<rightharpoonup> ('f, 'p) redisCallback) \<times> (bytes \<rightharpoonup> ('f, 'p) redisCallback)"

definition subscriptions :: "mem \<Rightarrow> ('f, 'p) redisAsyncContext \<Rightarrow> ('f, 'p) subscriptions \<Rightarrow> bool" where
  "subscriptions M ac = (\<lambda>(on, mc, mp). flag ac REDIS_SUBSCRIBED = on \<and> holds M (ac_channels ac) mc \<and> holds M (ac_patterns ac) mp)"

text \<open>What a notice does to them. Also returned is the callback to call; without an entry it is \<open>dst\<close>, the one
  of the notice before.\<close>

definition notified :: "notice \<Rightarrow> ('f, 'p) redisCallback \<Rightarrow> ('f, 'p) redisCallback" where
  "notified n cb = (if n = Subscribed then cb\<lparr>cb_pending_subs := sbits 32 (cb_pending_subs cb - 1)\<rparr> else cb)"

definition entry_after :: "notice \<Rightarrow> bytes \<Rightarrow> ('f, 'p) redisCallback \<Rightarrow> (bytes \<rightharpoonup> ('f, 'p) redisCallback)
    \<Rightarrow> (bytes \<rightharpoonup> ('f, 'p) redisCallback)" where
  "entry_after n ch cb m = (if n = Unsubscribed \<and> cb_pending_subs cb = 0 then m(ch := None) else m(ch \<mapsto> notified n cb))"

fun heard :: "bool \<Rightarrow> notice \<Rightarrow> bytes \<Rightarrow> resp list \<Rightarrow> ('f, 'p) redisCallback \<Rightarrow> ('f, 'p) subscriptions
    \<Rightarrow> ('f, 'p) redisCallback \<times> ('f, 'p) subscriptions" where
  "heard pvariant n ch rest dst (on, mc, mp) =
     (case (if pvariant then mp ch else mc ch) of
        None \<Rightarrow> (dst, on, mc, mp)
      | Some cb \<Rightarrow>
          let mc' = (if pvariant then mc else entry_after n ch cb mc);
              mp' = (if pvariant then entry_after n ch cb mp else mp)
          in (notified n cb, on \<and> \<not> (n = Unsubscribed \<and> hd rest = RInteger 0 \<and> mc' = Map.empty \<and> mp' = Map.empty), mc', mp'))"

lemma notice_word_facts:
  "tolower (char0 (notice_name pvariant n)) = CHR ''p'' \<longleftrightarrow> pvariant" "NUL \<notin> set (notice_name pvariant n)"
  "strcaseeq (notice_word n) ''subscribe'' \<longleftrightarrow> n = Subscribed" "strcaseeq (notice_word n) ''unsubscribe'' \<longleftrightarrow> n = Unsubscribed"
  by (cases n; cases pvariant; simp add: notice_word_def notice_name_def char0_def tolower_def byte_code_def strcaseeq_def)+

section \<open>The callback of a notice\<close>

text \<open>The cell at the root of a notice, and what the function reads from it.\<close>

definition notice_cell :: "heap \<Rightarrow> aggr \<Rightarrow> bool \<Rightarrow> notice \<Rightarrow> bytes \<Rightarrow> resp list \<Rightarrow> redisReply" where
  "notice_cell h k pvariant n ch rest =
     aggr_cell k (map Ref (addrs (length h + 1) (RString (notice_name pvariant n) # RString ch # rest)))"

lemma hget_notice:
  "hget (h @ layout (length h) (notice_reply k pvariant n ch rest)) (Ref (length h)) = Some (notice_cell h k pvariant n ch rest)"
  by (simp add: notice_reply_def notice_cell_def)

lemma notice_parts:
  fixes h :: heap and k :: aggr and pvariant :: bool and n :: notice and ch :: bytes
  defines "hp \<equiv> \<lambda>rest. h @ layout (length h) (notice_reply k pvariant n ch rest)"
  shows "element (hp rest) (notice_cell h k pvariant n ch rest) 0 = Some (leaf_cell (RString (notice_name pvariant n)))"
    and "element (hp rest) (notice_cell h k pvariant n ch rest) 1 = Some (leaf_cell (RString ch))"
    and "element (hp (RInteger i # rest)) (notice_cell h k pvariant n ch (RInteger i # rest)) 2 = Some (leaf_cell (RInteger i))"
    and "rr_elements (notice_cell h k pvariant n ch rest) = length rest + 2"
    and "notice_ok k n ch rest \<Longrightarrow> rr_type (notice_cell h k pvariant n ch rest) = REDIS_REPLY_ARRAY
      \<or> rr_type (notice_cell h k pvariant n ch rest) = REDIS_REPLY_PUSH"
  by (auto simp: element_def aggr_cell_def notice_cell_def notice_reply_def hp_def nth_append notice_ok_def)

lemma notice_kind:
  "cstr (notice_name True n) = notice_name True n" "cstr (notice_word n) = notice_word n"
  "tolower (char0 (notice_name True n)) = CHR ''p''" "tolower (char0 (notice_word n)) \<noteq> CHR ''p''"
  "tl (notice_name True n) = notice_word n" "notice_name False n = notice_word n"
  using cstr_id [OF notice_word_facts(2), of True n] cstr_id [OF notice_word_facts(2), of False n]
    notice_word_facts(1) [of True n] notice_word_facts(1) [of False n]
  by (simp_all add: notice_name_def)

text \<open>What follows the lookup, with the entry found.\<close>

definition notice_entry ::
  "redisReply \<Rightarrow> heap \<Rightarrow> bool \<Rightarrow> notice \<Rightarrow> bytes \<Rightarrow> ('f, 'p) redisCallback \<Rightarrow> ('f, 'p) redisAsyncContext
    \<Rightarrow> (int \<times> ('f, 'p) redisCallback \<times> ('f, 'p) redisAsyncContext) option" where
  "notice_entry cell h pvariant n ch cb ac =
     (let d = set_val (subs_of pvariant ac) ch (Some (notified n cb))
      in if n = Unsubscribed then
           do { (_, d) \<leftarrow> (if cb_pending_subs cb = 0 then dictDelete d ch else Some (DICT_OK, d));
                let ac = with_subs pvariant d ac;
                e2 \<leftarrow> (if 2 < rr_elements cell then element h cell 2 else None);
                if rr_type e2 \<noteq> REDIS_REPLY_INTEGER then None
                else Some (REDIS_OK, cb,
                  if rr_integer e2 = 0 \<and> ht_used (ac_channels ac) = 0 \<and> ht_used (ac_patterns ac) = 0
                  then clear_flag REDIS_SUBSCRIBED ac else ac) }
         else Some (REDIS_OK, notified n cb, with_subs pvariant d ac))"

lemma callback_lookup:
  fixes h :: heap and k :: aggr and pvariant :: bool and n :: notice and ch :: bytes and rest :: "resp list"
  assumes "\<forall>n. granted M n" and "notice_ok k n ch rest" and "holds M (subs_of pvariant ac) m"
  defines "cell \<equiv> notice_cell h k pvariant n ch rest" and "hp \<equiv> h @ layout (length h) (notice_reply k pvariant n ch rest)"
  shows "redisGetSubscribeCallback M cell dst hp ac =
    (case m ch of None \<Rightarrow> Some (REDIS_OK, dst, ac) | Some cb \<Rightarrow> notice_entry cell hp pvariant n ch cb ac)"
proof -
  have ch: "length ch < 2 ^ 31" using assms(2) by (simp add: notice_ok_def)
  obtain s where s: "sdsnewlen M (Some (ch @ [NUL])) (length ch) = Some s" using sdsnewlen_granted [OF assms(1)] by blast
  have sv: "sdsval s = ch" using sdsnewlen_wf [OF s] ch by simp
  obtain de where de: "dictFind (subs_of pvariant ac) ch = Some de" "map_option de_val de = map_option Some (m ch)"
    by (rule holds_find [OF assms(3) ch])
  note parts = notice_parts(1,2,4) [of h k pvariant n ch rest, folded cell_def hp_def]
    notice_parts(5) [OF assms(2), of h pvariant, folded cell_def]
  show ?thesis
  proof (cases "m ch")
    case None
    then have "de = None" using de(2) by simp
    then show ?thesis using None parts s sv de(1)
      by (cases pvariant; simp add: redisGetSubscribeCallback_def str_of_def notice_kind Let_def)
  next
    case (Some cb)
    then obtain e where e: "de = Some e" "de_val e = Some cb" using de(2) by auto
    show ?thesis using Some parts s sv de(1) e
      by (cases pvariant; cases n; simp add: redisGetSubscribeCallback_def notice_entry_def str_of_def notice_kind notice_word_facts(3,4) notified_def Let_def)
  qed
qed

lemma update_callback:
  assumes "holds M (subs_of pvariant ac) m" and "m ch = Some cb"
  obtains d where "(if n = Unsubscribed \<and> cb_pending_subs cb = 0 then dictDelete (set_val (subs_of pvariant ac) ch (Some cb)) ch
      else Some (DICT_OK, set_val (subs_of pvariant ac) ch (Some (notified n cb)))) = Some (DICT_OK, d)"
    and "holds M d (entry_after n ch cb m)"
proof -
  have set: "holds M (set_val (subs_of pvariant ac) ch (Some x)) (m(ch \<mapsto> x))" for x
    using assms by (intro holds_set) simp_all
  show ?thesis
  proof (cases "n = Unsubscribed \<and> cb_pending_subs cb = 0")
    case True
    obtain d where "dictDelete (set_val (subs_of pvariant ac) ch (Some cb)) ch = Some (DICT_OK, d)" "holds M d ((m(ch \<mapsto> cb))(ch := None))"
      by (rule holds_delete [OF set]) auto
    with True that show ?thesis by (simp add: entry_after_def)
  next
    case False
    with set that show ?thesis by (simp add: entry_after_def)
  qed
qed

text \<open>The function changes the tables as \<open>heard\<close> says and chooses its callback.\<close>

lemma entry_heard:
  fixes h :: heap
  assumes "notice_ok k n ch rest" and "subscriptions M ac (True, mc, mp)" and "(if pvariant then mp ch else mc ch) = Some cb"
    and "heard pvariant n ch rest dst (True, mc, mp) = (cb', P')"
  obtains ac' where "notice_entry (notice_cell h k pvariant n ch rest) (h @ layout (length h) (notice_reply k pvariant n ch rest)) pvariant n ch cb ac
      = Some (REDIS_OK, cb', ac')"
    and "subscriptions M ac' P'" and "ac_replies ac' = ac_replies ac" and "ac_invalid ac' = ac_invalid ac"
    and "ac_c ac' = ac_c (if fst P' then ac else clear_flag REDIS_SUBSCRIBED ac)"
proof -
  let ?mc = "if pvariant then mc else entry_after n ch cb mc" and ?mp = "if pvariant then entry_after n ch cb mp else mp"
  let ?m = "if pvariant then mp else mc"
  have hold: "holds M (subs_of pvariant ac) ?m" and Some: "?m ch = Some cb"
    using assms(2,3) by (cases pvariant; simp add: subscriptions_def subs_of_def)+
  obtain d where d: "(if n = Unsubscribed \<and> cb_pending_subs cb = 0 then dictDelete (set_val (subs_of pvariant ac) ch (Some cb)) ch
      else Some (DICT_OK, set_val (subs_of pvariant ac) ch (Some (notified n cb)))) = Some (DICT_OK, d)" "holds M d (entry_after n ch cb ?m)"
    by (rule update_callback [OF hold Some])
  define ac1 where "ac1 = with_subs pvariant d ac"
  define off where "off \<longleftrightarrow> n = Unsubscribed \<and> hd rest = RInteger 0 \<and> ht_used (ac_channels ac1) = 0 \<and> ht_used (ac_patterns ac1) = 0"
  have ac1: "holds M (ac_channels ac1) ?mc" "holds M (ac_patterns ac1) ?mp" "flag ac1 REDIS_SUBSCRIBED" "ac_c ac1 = ac_c ac"
    "ac_replies ac1 = ac_replies ac" "ac_invalid ac1 = ac_invalid ac"
    using d(2) assms(2) unfolding ac1_def by (cases pvariant; simp add: with_subs_def subscriptions_def flag_def)+
  have "off \<longleftrightarrow> n = Unsubscribed \<and> hd rest = RInteger 0 \<and> ?mc = Map.empty \<and> ?mp = Map.empty"
    using holds_empty [OF ac1(1)] holds_empty [OF ac1(2)] by (simp only: off_def)
  then have P: "cb' = notified n cb" "P' = (\<not> off, ?mc, ?mp)" using assms(3,4) by (simp_all add: Let_def)
  have call: "notice_entry (notice_cell h k pvariant n ch rest) (h @ layout (length h) (notice_reply k pvariant n ch rest)) pvariant n ch cb ac
      = Some (REDIS_OK, cb', if off then clear_flag REDIS_SUBSCRIBED ac1 else ac1)"
  proof (cases "n = Unsubscribed")
    case True
    obtain i vs where rest: "rest = RInteger i # vs" using assms(1) True by (auto simp: notice_ok_def)
    have same: "notified n cb = cb" using True by (simp add: notified_def)
    show ?thesis
      using notice_parts(3,4) [of h k pvariant n ch] d(1) True unfolding same P(1) rest off_def ac1_def
      by (cases "cb_pending_subs cb = 0") (simp_all add: notice_entry_def notified_def Let_def reply_type_defs)
  next
    case False
    then show ?thesis using d(1) unfolding P(1) off_def ac1_def by (simp add: notice_entry_def)
  qed
  have "(x AND NOT y) AND y = 0" for x y :: "32 word" by (rule bit_word_eqI) (auto simp: bit_and_iff bit_not_iff)
  then show ?thesis using call ac1 P(2)
    by (intro that [OF call]; cases pvariant; simp add: subscriptions_def clear_flag_def flag_def has_flag_def)
qed

lemma subscribe_callback:
  fixes h :: heap
  assumes "\<forall>n. granted M n" and "notice_ok k n ch rest" and "subscriptions M ac (True, mc, mp)"
    and "heard pvariant n ch rest dst (True, mc, mp) = (cb', P')"
  obtains ac' where "redisGetSubscribeCallback M (notice_cell h k pvariant n ch rest) dst
      (h @ layout (length h) (notice_reply k pvariant n ch rest)) ac = Some (REDIS_OK, cb', ac')"
    and "subscriptions M ac' P'" and "ac_replies ac' = ac_replies ac" and "ac_invalid ac' = ac_invalid ac"
    and "ac_c ac' = ac_c (if fst P' then ac else clear_flag REDIS_SUBSCRIBED ac)"
proof -
  have hold: "holds M (subs_of pvariant ac) (if pvariant then mp else mc)" using assms(3) by (simp add: subscriptions_def subs_of_def)
  note look = callback_lookup [OF assms(1,2) hold, of h dst]
  show ?thesis
  proof (cases "(if pvariant then mp else mc) ch")
    case None
    then have P: "(if pvariant then mp ch else mc ch) = None" by (simp split: if_splits)
    then have "cb' = dst" "P' = (True, mc, mp)" using assms(4) by simp_all
    then show ?thesis using look assms(3) unfolding None by (intro that [of ac]) simp_all
  next
    case (Some cb)
    then have e: "(if pvariant then mp ch else mc ch) = Some cb" by (simp split: if_splits)
    obtain ac' where "notice_entry (notice_cell h k pvariant n ch rest) (h @ layout (length h) (notice_reply k pvariant n ch rest))
        pvariant n ch cb ac = Some (REDIS_OK, cb', ac')"
      "subscriptions M ac' P'" "ac_replies ac' = ac_replies ac" "ac_invalid ac' = ac_invalid ac"
      "ac_c ac' = ac_c (if fst P' then ac else clear_flag REDIS_SUBSCRIBED ac)"
      by (rule entry_heard [OF assms(2,3) e assms(4)])
    with look show ?thesis unfolding Some by (intro that [of ac']) simp_all
  qed
qed

text \<open>C9: Messages and confirmations change the subscriptions as they should. For every (p)message, (p)subscribe
  and (p)unsubscribe notice \<open>__redisGetSubscribeCallback\<close> implements the abstract step \<open>heard\<close> on the maps of
  channels and patterns: a confirmation lowers the number of pending ones, an unsubscription removes
  the entry when none is pending, and the last one with both maps empty ends the subscribed mode; the
  callback of the channel is chosen, or that of the notice before if the channel has none.\<close>

theorem redisGetSubscribeCallback_refines:
  fixes h :: heap
  assumes "\<forall>n. granted M n" and "notice_ok k n ch rest" and "subscriptions M ac (True, mc, mp)"
    and "heard pvariant n ch rest dst (True, mc, mp) = (cb', P')"
  shows "\<exists>cell ac'. hget (h @ layout (length h) (notice_reply k pvariant n ch rest)) (Ref (length h)) = Some cell
    \<and> redisGetSubscribeCallback M cell dst (h @ layout (length h) (notice_reply k pvariant n ch rest)) ac = Some (REDIS_OK, cb', ac')
    \<and> subscriptions M ac' P' \<and> ac_replies ac' = ac_replies ac \<and> ac_invalid ac' = ac_invalid ac
    \<and> ac_c ac' = ac_c (if fst P' then ac else clear_flag REDIS_SUBSCRIBED ac)"
proof -
  obtain ac' where "redisGetSubscribeCallback M (notice_cell h k pvariant n ch rest) dst
      (h @ layout (length h) (notice_reply k pvariant n ch rest)) ac = Some (REDIS_OK, cb', ac')"
    "subscriptions M ac' P'" "ac_replies ac' = ac_replies ac" "ac_invalid ac' = ac_invalid ac"
    "ac_c ac' = ac_c (if fst P' then ac else clear_flag REDIS_SUBSCRIBED ac)"
    by (rule subscribe_callback [OF assms])
  then show ?thesis using hget_notice by blast
qed

section \<open>A subscribed client\<close>

type_synonym notification = "aggr \<times> bool \<times> notice \<times> bytes \<times> resp list"

definition note_reply :: "notification \<Rightarrow> resp" where
  "note_reply = (\<lambda>(k, pvariant, n, ch, rest). notice_reply k pvariant n ch rest)"

text \<open>Confirmations of unsubscribing that come as push messages go to the push callback instead.\<close>

definition note_ok :: "notification \<Rightarrow> bool" where
  "note_ok = (\<lambda>(k, pvariant, n, ch, rest). notice_ok k n ch rest \<and> (k = Push \<longrightarrow> n \<noteq> Unsubscribed))"

definition hear :: "notification \<Rightarrow> ('f, 'p) redisCallback \<Rightarrow> ('f, 'p) subscriptions \<Rightarrow> ('f, 'p) redisCallback \<times> ('f, 'p) subscriptions" where
  "hear = (\<lambda>(k, pvariant, n, ch, rest). heard pvariant n ch rest)"

text \<open>Notices one after the other: the calls they cause, the last callback, the subscriptions at the end. There is
  no result for a notice when the client is no longer subscribed.\<close>

fun hears :: "heap \<Rightarrow> ('f, 'p) redisCallback \<Rightarrow> ('f, 'p) subscriptions \<Rightarrow> notification list
    \<Rightarrow> (('f \<times> heap \<times> ptr \<times> 'p option) list \<times> ('f, 'p) redisCallback \<times> ('f, 'p) subscriptions) option" where
  "hears h cb P [] = Some ([], cb, P)"
| "hears h cb P (x # xs) =
     (if \<not> fst P then None
      else
        let (cb, P) = hear x cb P
        in map_option (\<lambda>(out, r). (serve h [cb] [note_reply x] @ out, r)) (hears (released h [note_reply x]) cb P xs))"

lemma not_spontaneous:
  assumes "note_ok (k, pvariant, n, ch, rest)"
  shows "redisIsSpontaneousPushReply (notice_cell h k pvariant n ch rest)
      (h @ layout (length h) (notice_reply k pvariant n ch rest)) = Some False"
proof (cases "k = Push")
  case False
  then have "rr_type (notice_cell h k pvariant n ch rest) \<noteq> REDIS_REPLY_PUSH"
    using assms by (auto simp: note_ok_def notice_ok_def notice_cell_def aggr_cell_def reply_type_defs)
  then show ?thesis by (simp add: redisIsSpontaneousPushReply_def)
next
  case True
  have n: "n = Message \<or> n = Subscribed" using assms True by (cases n) (auto simp: note_ok_def)
  have "redisIsSubscribeReply (notice_cell h k pvariant n ch rest) (h @ layout (length h) (notice_reply k pvariant n ch rest)) = Some True"
    using notice_parts(1,4) [of h k pvariant n ch rest] n
    by (cases pvariant; elim disjE; simp add: redisIsSubscribeReply_def notice_name_def notice_word_def strncaseeq_def
        char0_def tolower_def byte_code_def cstr_def Let_def)
  then show ?thesis by (simp add: redisIsSpontaneousPushReply_def)
qed

text \<open>One notice: it leaves the parser, changes the subscriptions, and its callback is called.\<close>

lemma loop_notice:
  assumes "quiet L E" and "in_service False True ac" and "rc_reader (ac_c ac) = Some r" and "ac_replies ac = []"
    and "subscriptions (en_mem E) ac P" and "fst P" and "note_ok x" and "hear x cb P = (cb', P')"
    and "redisReaderGetReply (lc_strtod L) (\<lambda>_. en_mem E) True (r, wd_heap g)
      = Some (REDIS_OK, Ref (length h0), r', h0 @ layout (length h0) (note_reply x))"
  obtains ac' g' where "callbacks_loop E cb (ac, g) = callbacks_loop E cb' (ac', g')" and "in_service False (fst P') ac'"
    and "rc_reader (ac_c ac') = Some r'" and "ac_replies ac' = []" and "subscriptions (en_mem E) ac' P'"
    and "wd_heap g' = released h0 [note_reply x]" and "wd_os g' = wd_os g" and "served g' = served g @ serve h0 [cb'] [note_reply x]"
proof -
  obtain k pvariant n ch rest where x: "x = (k, pvariant, n, ch, rest)" by (cases x)
  obtain mc mp where P: "P = (True, mc, mp)" using assms(6) by (cases P) auto
  let ?v = "notice_reply k pvariant n ch rest" and ?cell = "notice_cell h0 k pvariant n ch rest"
  let ?ac = "ac\<lparr>ac_c := (ac_c ac)\<lparr>rc_reader := Some r'\<rparr>\<rparr>" and ?g = "g\<lparr>wd_heap := h0 @ layout (length h0) ?v\<rparr>"
  have v: "note_reply x = ?v" and ok: "notice_ok k n ch rest" using assms(7) by (simp_all add: x note_reply_def note_ok_def)
  have M: "\<forall>n. granted (en_mem E) n" using assms(1) by (simp add: quiet_def)
  have nb: "\<not> flag ac REDIS_BLOCK" using assms(2) by (simp add: in_service_def)
  have get: "get_reply E (ac, g) = Some (REDIS_OK, Ref (length h0), ?ac, ?g)"
    using get_reply_reader [OF assms(1) nb assms(3,9)] v by simp
  have srv: "in_service False True ?ac" using assms(2) by (simp add: in_service_def flag_def has_flag_def)
  have sub: "subscriptions (en_mem E) ?ac (True, mc, mp)" using assms(5) by (simp add: P subscriptions_def flag_def has_flag_def)
  have hd: "heard pvariant n ch rest cb (True, mc, mp) = (cb', P')" using assms(8) by (simp add: x P hear_def)
  obtain ac1 where cbk: "redisGetSubscribeCallback (en_mem E) ?cell cb (h0 @ layout (length h0) ?v) ?ac = Some (REDIS_OK, cb', ac1)"
    "subscriptions (en_mem E) ac1 P'" "ac_replies ac1 = ac_replies ?ac" "ac_c ac1 = ac_c (if fst P' then ?ac else clear_flag REDIS_SUBSCRIBED ?ac)"
    by (rule subscribe_callback [OF M ok sub hd])
  have fl: "flag ac1 f = flag ?ac f" if "f \<noteq> REDIS_SUBSCRIBED" "f AND REDIS_SUBSCRIBED = 0" for f
  proof (cases "fst P'")
    case False
    have "(x AND NOT s) AND f = x AND f" if "f AND s = 0" for x s f :: "32 word"
      using that by (intro bit_word_eqI) (auto simp: bit_simps bit_eq_iff)
    with False that cbk(4) show ?thesis by (simp add: flag_def has_flag_def clear_flag_def)
  qed (use cbk(4) in \<open>simp add: flag_def\<close>)
  have srv1: "in_service False (fst P') ac1"
    using srv cbk(2,4) fl by (cases P') (auto simp: in_service_def subscriptions_def clear_flag_def redis_flags REDIS_SUBSCRIBED_def REDIS_MONITORING_def)
  have hp: "wd_heap ?g = h0 @ layout (length h0) ?v" by simp
  obtain ac2 g2 where dl: "deliver E (Ref (length h0)) cb' (ac1, ?g) = Some (Again cb' (ac2, g2))" "in_service False (fst P') ac2"
    "ac_replies ac2 = ac_replies ac1" "rc_reader (ac_c ac2) = rc_reader (ac_c ac1)" "same_subs ac2 ac1"
    "wd_heap g2 = released h0 [?v]" "wd_os g2 = wd_os ?g" "served g2 = served ?g @ serve h0 [cb'] [?v]"
    by (rule deliver_quiet [OF assms(1) srv1 hp])
  have "rr_type ?cell \<noteq> REDIS_REPLY_ERROR" using notice_parts(5) [OF ok, of h0 pvariant] by (auto simp: reply_type_defs)
  moreover have "flag ?ac REDIS_SUBSCRIBED" using srv by (simp add: in_service_def)
  moreover have "redisIsSpontaneousPushReply ?cell (h0 @ layout (length h0) ?v) = Some False"
    using not_spontaneous assms(7) x by simp
  ultimately have "process_reply E (Ref (length h0)) cb (?ac, ?g) = Some (Again cb' (ac2, g2))"
    using hget_notice [of h0 k pvariant n ch rest] assms(4) cbk(1) dl(1) by (simp add: process_reply_def)
  then have loop: "callbacks_loop E cb (ac, g) = callbacks_loop E cb' (ac2, g2)"
    by (subst callbacks_loop.simps) (simp add: get)
  have "subscriptions (en_mem E) ac2 P'"
    using cbk(2) dl(2,5) by (cases P') (simp add: subscriptions_def same_subs_def in_service_def)
  moreover have "rc_reader (ac_c ac1) = Some r'" using cbk(4) by (simp add: clear_flag_def)
  moreover have "served g2 = served g @ serve h0 [cb'] [?v]" using dl(8) by (simp add: served_def)
  ultimately show ?thesis using loop dl cbk(3) assms(4) v by (intro that [of ac2 g2]) simp_all
qed

lemma loop_hears:
  assumes "quiet L E" and "in_service False sb ac" and "rc_reader (ac_c ac) = Some r" and "ac_replies ac = []"
    and "subscriptions (en_mem E) ac P" and "fst P = sb" and "list_all note_ok xs" and "hears h0 cb P xs = Some (out, cb', P')"
    and "expects (lc_strtod L) (en_mem E) (map note_reply xs) h0 [] (r, wd_heap g)"
  obtains ac' g' r' where "callbacks_loop E cb (ac, g) = Some (Some ac', g')" and "in_service False (fst P') ac'"
    and "rc_reader (ac_c ac') = Some r'" and "between r'" and "unread r' = []"
    and "ac_replies ac' = []" and "subscriptions (en_mem E) ac' P'" and "wd_heap g' = released h0 (map note_reply xs)"
    and "served g' = served g @ out"
  using assms(2-)
proof (induction xs arbitrary: ac g r h0 cb P out sb thesis)
  case Nil
  from Nil.prems(9) have b: "between r" "unread r = []" "wd_heap g = h0" by (simp_all add: expects_def)
  obtain r' where r': "redisReaderGetReply (lc_strtod L) (\<lambda>_. en_mem E) True (r, wd_heap g) = Some (REDIS_OK, NULL, r', wd_heap g)"
    "between r'" "unread r' = []"
    by (rule between_none [OF b(1,2)])
  obtain ac' g' where l: "callbacks_loop E cb (ac, g) = Some (Some ac', g')" "in_service False sb ac'"
    "rc_reader (ac_c ac') = Some r'" "ac_replies ac' = ac_replies ac @ (if False then [cb] else [])" "wd_heap g' = wd_heap g"
    "served g' = served g" "same_subs ac' ac"
    by (rule loop_none [OF assms(1) Nil.prems(2,3) r'(1)])
  have "out = []" "P' = P" using Nil.prems(8) by simp_all
  moreover from this have "subscriptions (en_mem E) ac' P'"
    using Nil.prems(5,6) l(2,7) by (cases P) (simp add: subscriptions_def same_subs_def in_service_def)
  ultimately show ?case using l r'(2,3) b(3) Nil.prems(4,6)
    by (intro Nil.prems(1) [of ac' g' r']) (simp_all add: released_def)
next
  case (Cons x xs)
  obtain cb1 P1 where hx: "hear x cb P = (cb1, P1)" by (cases "hear x cb P")
  have on: "fst P" using Cons.prems(8) by (simp split: if_splits)
  then obtain out1 where tl: "hears (released h0 [note_reply x]) cb1 P1 xs = Some (out1, cb', P')"
    "out = serve h0 [cb1] [note_reply x] @ out1"
    using Cons.prems(8) hx by auto
  have ok: "note_ok x" "list_all note_ok xs" using Cons.prems(7) by simp_all
  have ex: "expects (lc_strtod L) (en_mem E) (note_reply x # map note_reply xs) h0 [] (r, wd_heap g)" using Cons.prems(9) by simp
  obtain r1 where r1: "redisReaderGetReply (lc_strtod L) (\<lambda>_. en_mem E) True (r, wd_heap g)
      = Some (REDIS_OK, Ref (length h0), r1, h0 @ layout (length h0) (note_reply x))"
    "reader_idle r1" "unread r1 @ [] = concat (map encode (map note_reply xs))"
    by (rule expects_get [OF ex]) auto
  have srv: "in_service False True ac" using Cons.prems(2,6) on by simp
  obtain ac1 g1 where l: "callbacks_loop E cb (ac, g) = callbacks_loop E cb1 (ac1, g1)" "in_service False (fst P1) ac1"
    "rc_reader (ac_c ac1) = Some r1" "ac_replies ac1 = []" "subscriptions (en_mem E) ac1 P1"
    "wd_heap g1 = released h0 [note_reply x]" "served g1 = served g @ serve h0 [cb1] [note_reply x]"
    by (rule loop_notice [OF assms(1) srv Cons.prems(3-5) on ok(1) hx r1(1)])
  have M: "\<forall>n. granted (en_mem E) n" using assms(1) by (simp add: quiet_def)
  have "list_all (resp_ok (lc_strtod L)) (map note_reply xs)" using ex by (simp add: expects_def)
  from expects_start [OF M this idle_between [OF r1(2)] r1(3), of "wd_heap g1"]
  have ex1: "expects (lc_strtod L) (en_mem E) (map note_reply xs) (released h0 [note_reply x]) [] (r1, wd_heap g1)" using l(6) by simp
  obtain ac' g' r' where fin: "callbacks_loop E cb1 (ac1, g1) = Some (Some ac', g')" "in_service False (fst P') ac'"
    "rc_reader (ac_c ac') = Some r'" "between r'" "unread r' = []"
    "ac_replies ac' = []" "subscriptions (en_mem E) ac' P'" "wd_heap g' = released (released h0 [note_reply x]) (map note_reply xs)"
    "served g' = served g1 @ out1"
    by (rule Cons.IH [OF _ l(2-5) refl ok(2) tl(1) ex1])
  have "released (released h0 [note_reply x]) (map note_reply xs) = released h0 (map note_reply (x # xs))"
    by (simp add: released_def replicate_add)
  with l(1,7) fin tl(2) show ?case by (intro Cons.prems(1) [of ac' g' r']) simp_all
qed

text \<open>C8: A subscribed client hears what it subscribed to. Let a readable event bring any sequence of complete
  notices (messages and confirmations for channels and patterns, as arrays or as push messages) to a
  subscribed context with no other commands pending and with callbacks that compute and return. Then
  the calls made are exactly those of the abstract client \<open>hears\<close>, which steps through the notices with
  the maps of subscriptions; afterwards the tables hold its maps, and every reply has been released.\<close>

theorem redisAsyncHandleRead_hears:
  assumes "quiet L E" and "in_service False True ac" and "rc_reader (ac_c ac) = Some r" and "between r" and "unread r = []"
    and "ac_replies ac = []" and "subscriptions (en_mem E) ac P" and "list_all note_ok xs"
    and "list_all (resp_ok (lc_strtod L)) (map note_reply xs)" and "hears (wd_heap g) null_cb P xs = Some (out, cb, P')"
    and "d = concat (map encode (map note_reply xs))" and "xs \<noteq> []" and "length d \<le> 16384" and "rd_len r + length d < 2 ^ 31"
    and "oracle_gives (wd_os g) [ret_recv d]"
  shows "\<exists>ac' g'. redisAsyncHandleRead E (ac, g) = Some (Some ac', g') \<and> served g' = served g @ out
    \<and> subscriptions (en_mem E) ac' P' \<and> in_service False (fst P') ac' \<and> ac_replies ac' = []
    \<and> wd_heap g' = released (wd_heap g) (map note_reply xs)"
proof -
  have M: "\<forall>n. granted (en_mem E) n" using assms(1) by (simp add: quiet_def)
  have "unread r @ (d @ []) = concat (map encode (map note_reply xs))" using assms(5,11) by simp
  from expects_start [OF M assms(9,4) this]
  have ex: "expects (lc_strtod L) (en_mem E) (map note_reply xs) (wd_heap g) (d @ []) (r, wd_heap g)" .
  have ne: "d \<noteq> []" using assms(11,12) encode_nonempty by (cases xs) auto
  obtain ac1 g1 r1 where e: "redisAsyncHandleRead E (ac, g) = callbacks_loop E null_cb (ac1, g1)" "in_service False True ac1"
    "rc_reader (ac_c ac1) = Some r1" "ac_replies ac1 = ac_replies ac" "served g1 = served g"
    "expects (lc_strtod L) (en_mem E) (map note_reply xs) (wd_heap g) [] (r1, wd_heap g1)" "same_subs ac1 ac"
    by (rule read_event [OF assms(1-3) ex assms(15) ne assms(13,14)])
  have q: "ac_replies ac1 = []" using e(4) assms(6) by simp
  have sub: "subscriptions (en_mem E) ac1 P"
    using assms(2,7) e(2,7) by (cases P) (simp add: subscriptions_def same_subs_def in_service_def)
  have on: "fst P = True" using assms(2,7) by (cases P) (simp add: subscriptions_def in_service_def)
  obtain ac' g' where "callbacks_loop E null_cb (ac1, g1) = Some (Some ac', g')" "in_service False (fst P') ac'"
    "ac_replies ac' = []" "subscriptions (en_mem E) ac' P'" "wd_heap g' = released (wd_heap g) (map note_reply xs)" "served g' = served g1 @ out"
    by (rule loop_hears [OF assms(1) e(2,3) q sub on assms(8,10) e(6)])
  with e(1,5) show ?thesis by auto
qed

text \<open>A client that is subscribed to one channel.\<close>

lemma subscribed_start:
  fixes cb :: "('f, 'p) redisCallback"
  obtains ac r where "in_service False True ac" and "rc_reader (ac_c ac) = Some r" and "between r" and "unread r = []"
    and "rd_len r = 0" and "ac_replies ac = []" and "subscriptions mem_ok ac (True, [''a'' \<mapsto> cb], Map.empty)"
proof -
  obtain c b r and ac :: "('f, 'p) redisAsyncContext" where c: "redisContextInit mem_ok = Some c" "redisAsyncInitialize mem_ok c = Some ac" "rc_err (ac_c ac) = 0"
    "rc_reader (ac_c ac) = Some r" "reader_idle r" "unread r = []" "rd_len r = 0"
    by (rule fresh_async)
  obtain d :: "('f, 'p) subs" where d: "holds mem_ok d [''a'' \<mapsto> cb]"
    by (rule holds_replace [OF _ holds_new, of mem_ok "''a''" cb]) auto
  let ?ac = "ac\<lparr>ac_c := (ac_c ac)\<lparr>rc_flags := REDIS_CONNECTED OR REDIS_SUBSCRIBED\<rparr>, ac_replies := [], ac_channels := d,
    ac_patterns := dictInit (callbackDict mem_ok)\<rparr>"
  have "in_service False True ?ac"
    using c(3) by (simp add: in_service_def flag_def has_flag_def redis_flags REDIS_SUBSCRIBED_def REDIS_MONITORING_def)
  with c(4-7) d show ?thesis
    by (intro that [of ?ac r])
      (simp_all add: idle_between subscriptions_def holds_new in_service_def flag_def has_flag_def)
qed

theorem redisGetSubscribeCallback_refines_witness:
  "\<exists>(ac :: (nat, nat) redisAsyncContext) cell ac'. flag ac REDIS_SUBSCRIBED
    \<and> hget (layout 0 (notice_reply Array False Unsubscribed ''a'' [RInteger 0])) (Ref 0) = Some cell
    \<and> redisGetSubscribeCallback mem_ok cell null_cb (layout 0 (notice_reply Array False Unsubscribed ''a'' [RInteger 0])) ac
      = Some (REDIS_OK, \<lparr>cb_fn = Some 7, cb_pending_subs = 0, cb_privdata = None\<rparr>, ac')
    \<and> subscriptions mem_ok ac' (False, Map.empty, Map.empty)"
proof -
  let ?cb = "\<lparr>cb_fn = Some 7, cb_pending_subs = 0, cb_privdata = None\<rparr> :: (nat, nat) redisCallback"
  obtain ac :: "(nat, nat) redisAsyncContext" where ac: "in_service False True ac" "subscriptions mem_ok ac (True, [''a'' \<mapsto> ?cb], Map.empty)"
    by (rule subscribed_start [of ?cb])
  have ok: "\<forall>n. granted mem_ok n" "notice_ok Array Unsubscribed ''a'' [RInteger 0]" by (simp_all add: notice_ok_def)
  have "heard False Unsubscribed ''a'' [RInteger 0] null_cb (True, [''a'' \<mapsto> ?cb], Map.empty) = (?cb, False, Map.empty, Map.empty)"
    by (simp add: entry_after_def notified_def Let_def)
  from redisGetSubscribeCallback_refines [OF ok ac(2) this, of "[]"] ac(1) show ?thesis
    by (auto simp: in_service_def)
qed

text \<open>Two messages arrive together: one for the channel of the client, one for another channel. The second one
  goes to the callback of the first.\<close>

theorem redisAsyncHandleRead_hears_witness:
  "\<exists>(ac :: (nat, nat) redisAsyncContext) ac' g' d. d = encode (notice_reply Array False Message ''a'' [RString ''x''])
      @ encode (notice_reply Array False Message ''b'' [RString ''y''])
   \<and> subscriptions mem_ok ac (True, [''a'' \<mapsto> \<lparr>cb_fn = Some 7, cb_pending_subs = 0, cb_privdata = None\<rparr>], Map.empty)
   \<and> redisAsyncHandleRead note_env (ac, world_of (os_of [ret_recv d]) []) = Some (Some ac', g')
   \<and> served g' = [(7, layout 0 (notice_reply Array False Message ''a'' [RString ''x'']), Ref 0, None),
       (7, replicate 4 None @ layout 4 (notice_reply Array False Message ''b'' [RString ''y'']), Ref 4, None)]"
proof -
  let ?cb = "\<lparr>cb_fn = Some 7, cb_pending_subs = 0, cb_privdata = None\<rparr> :: (nat, nat) redisCallback"
  let ?xs = "[(Array, False, Message, ''a'', [RString ''x'']), (Array, False, Message, ''b'', [RString ''y''])]"
  let ?d = "concat (map encode (map note_reply ?xs))" and ?P = "(True, [''a'' \<mapsto> ?cb], Map.empty)"
  let ?g = "world_of (os_of [ret_recv ?d]) [] :: (nat, nat, ptr list) world"
  obtain ac r where ac: "in_service False True ac" "rc_reader (ac_c ac) = Some r" "between r" "unread r = []"
    "rd_len r = 0" "ac_replies ac = []" "subscriptions mem_ok ac ?P"
    by (rule subscribed_start [of ?cb])
  have ok: "list_all note_ok ?xs" "list_all (resp_ok (lc_strtod no_libc)) (map note_reply ?xs)"
    by (simp_all add: note_ok_def notice_ok_def note_reply_def notice_reply_def notice_name_def notice_word_def)
  let ?v = "notice_reply Array False Message"
  have h: "hears (wd_heap ?g) null_cb ?P ?xs = Some ([(7, layout 0 (?v ''a'' [RString ''x'']), Ref 0, None),
       (7, replicate 4 None @ layout 4 (?v ''b'' [RString ''y'']), Ref 4, None)], ?cb, ?P)"
    by (simp add: hear_def note_reply_def entry_after_def notified_def released_def world_of_def notice_reply_def Let_def
        numeral_eq_Suc)
  have len: "length ?d < 1000"
    by (simp add: note_reply_def notice_reply_def notice_name_def notice_word_def dec_small dec_int_def aggr_count_def)
  have os: "oracle_gives (wd_os ?g) [ret_recv ?d]" using os_of_gives(1) by (simp add: world_of_def)
  have sub: "subscriptions (en_mem note_env) ac ?P" using ac(7) by (simp add: note_env_def)
  obtain ac' g' where r: "redisAsyncHandleRead note_env (ac, ?g) = Some (Some ac', g')" "served g' = served ?g @
      [(7, layout 0 (?v ''a'' [RString ''x'']), Ref 0, None), (7, replicate 4 None @ layout 4 (?v ''b'' [RString ''y'']), Ref 4, None)]"
    using redisAsyncHandleRead_hears [OF note_quiet ac(1-4,6) sub ok h refl _ _ _ os] len ac(5) by auto
  have "?d = encode (?v ''a'' [RString ''x'']) @ encode (?v ''b'' [RString ''y''])" by (simp add: note_reply_def)
  moreover have "served ?g = []" by (simp add: served_def world_of_def)
  ultimately show ?thesis using r ac(7) by (intro exI [of _ ac] exI [of _ ac'] exI [of _ g'] exI [of _ ?d]) simp
qed

text \<open>The answer to UNSUBSCRIBE of a client that has only patterns names no channel, which is asserted to be a string.\<close>

lemma unsubscribe_nil_aborts:
  fixes h :: heap
  assumes "v = RAggr Array [RString ''unsubscribe'', RNil b, RInteger i]"
  shows "\<exists>cell. hget (h @ layout (length h) v) (Ref (length h)) = Some cell
    \<and> redisGetSubscribeCallback M cell dst (h @ layout (length h) v) ac = None"
proof -
  let ?cell = "aggr_cell Array (map Ref (addrs (length h + 1) [RString ''unsubscribe'', RNil b, RInteger i]))"
  have "element (h @ layout (length h) v) ?cell 0 = Some (leaf_cell (RString ''unsubscribe''))"
    "element (h @ layout (length h) v) ?cell 1 = Some (leaf_cell (RNil b))"
    by (simp_all add: element_def aggr_cell_def assms nth_append)
  moreover have "rr_type ?cell = REDIS_REPLY_ARRAY" "rr_elements ?cell = 3" by (simp_all add: aggr_cell_def)
  ultimately have "redisGetSubscribeCallback M ?cell dst (h @ layout (length h) v) ac = None"
    by (simp add: redisGetSubscribeCallback_def str_of_def reply_type_defs Let_def zero_reply_def)
  then show ?thesis by (intro exI [of _ ?cell]) (simp add: assms)
qed

end
