(* ===== verification/RcppRedis.thy ===== *)
theory RcppRedis
  imports Context
begin

text \<open>
  The class of \<open>src/src/Redis.cpp\<close> that R programs use: each method sends one command over a
  synchronous connection, turns the reply into an R value and releases it. Serialization is R code
  and \<open>msgpack\<close> a library outside of the repository, so both are parameters. An error is a value
  that leaves the state as it is where it is raised, so a reply that is not released on the way stays
  on the heap. \<open>None\<close> is undefined behaviour: a read or write outside of an object, or a missing
  variadic argument.
\<close>

section \<open>R values and the runtime\<close>

text \<open>\<open>'x\<close> stands for the R objects that the code never looks into. A matrix is its column count and its rows.\<close>

datatype 'x robj =
    R_Nil
  | R_Raw bytes
  | R_Num "double list"
  | R_Chr "bytes list"
  | R_List "'x robj list"
  | R_Named "bytes list" "'x robj list"
  | R_Matrix nat "double list list"
  | R_Other 'x

text \<open>\<open>Stop\<close> is \<open>Rcpp::stop\<close>; \<open>R_error\<close> is an error that R or a conversion of Rcpp raises.\<close>

datatype rstop = Stop bytes | R_error

text \<open>R and Rcpp: \<open>rx_unserialize\<close>, \<open>rx_numeric\<close> and \<open>rx_rawvec\<close> fail on objects they cannot convert;
  \<open>rx_round\<close> rounds a double to \<open>int32_t\<close>, which is undefined outside of its range.\<close>

record 'x rcpp =
  rx_serialize :: "'x robj \<Rightarrow> bytes"
  rx_unserialize :: "bytes \<Rightarrow> 'x robj option"
  rx_numeric :: "'x robj \<Rightarrow> double list option"
  rx_rawvec :: "'x robj \<Rightarrow> bytes option"
  rx_double :: "int \<Rightarrow> double"
  rx_add :: "double \<Rightarrow> double \<Rightarrow> double"
  rx_round :: "double \<Rightarrow> int option"
  rx_msgpack :: "bytes \<Rightarrow> double list option"
  rx_libc :: libc
  rx_render :: render_fn
  rx_mem :: mem

type_synonym 'a act = "os hstate \<Rightarrow> ((rstop + 'a) \<times> os hstate) option"

definition give :: "'a \<Rightarrow> 'a act" where
  "give x s = Some (Inr x, s)"

definition stop :: "rstop \<Rightarrow> 'a act" where
  "stop e s = Some (Inl e, s)"

definition undefined_behaviour :: "'a act" where
  "undefined_behaviour s = None"

definition bnd :: "'a act \<Rightarrow> ('a \<Rightarrow> 'b act) \<Rightarrow> 'b act" where
  "bnd m f s = (case m s of None \<Rightarrow> None | Some (Inl e, s) \<Rightarrow> Some (Inl e, s) | Some (Inr x, s) \<Rightarrow> f x s)"

text \<open>A value that may be missing: an error of R, or undefined.\<close>

definition try_r :: "'a option \<Rightarrow> 'a act" where
  "try_r x = (case x of None \<Rightarrow> stop R_error | Some x \<Rightarrow> give x)"

definition must :: "'a option \<Rightarrow> 'a act" where
  "must x = (case x of None \<Rightarrow> undefined_behaviour | Some x \<Rightarrow> give x)"

primrec each :: "('a \<Rightarrow> 'b act) \<Rightarrow> 'a list \<Rightarrow> 'b list act" where
  "each f [] = give []"
| "each f (x # xs) = bnd (f x) (\<lambda>y. bnd (each f xs) (\<lambda>ys. give (y # ys)))"

section \<open>Replies\<close>

definition nullReplyCheck :: "ptr \<Rightarrow> unit act" where
  "nullReplyCheck reply =
     (if reply = NULL then stop (Stop ''Recieved NULL reply; potential connection loss with Redis'') else give ())"

definition redisCommandNULLSafe :: "'x rcpp \<Rightarrow> bytes \<Rightarrow> vararg list \<Rightarrow> ptr act" where
  "redisCommandNULLSafe X format ap s =
     (case redisvCommand (redisContextDefaultFuncs (rx_libc X)) (rx_libc X) (rx_render X) (rx_mem X) format ap s of
        None \<Rightarrow> None
      | Some (reply, s) \<Rightarrow> bnd (nullReplyCheck reply) (\<lambda>_. give reply) s)"

definition redisCommandArgvNULLSafe :: "'x rcpp \<Rightarrow> bytes list \<Rightarrow> ptr act" where
  "redisCommandArgvNULLSafe X argv s =
     (case redisCommandArgv (redisContextDefaultFuncs (rx_libc X)) (rx_libc X) (rx_mem X) argv (Some (map length argv)) s of
        None \<Rightarrow> None
      | Some (reply, s) \<Rightarrow> bnd (nullReplyCheck reply) (\<lambda>_. give reply) s)"

definition cell :: "ptr \<Rightarrow> redisReply act" where
  "cell p = (\<lambda>(c, h, w). must (hget h p) (c, h, w))"

definition free :: "ptr \<Rightarrow> unit act" where
  "free p = (\<lambda>(c, h, w). map_option (\<lambda>h. (Inr (), c, h, w)) (freeReplyObject h p))"

text \<open>The elements of an array, as many as it says it has.\<close>

definition elements :: "redisReply \<Rightarrow> ptr list option" where
  "elements r =
     (if rr_elements r = 0 then Some []
      else case rr_element r of
             None \<Rightarrow> None
           | Some els \<Rightarrow> if rr_elements r \<le> length els \<and> rr_elements r < 2 ^ 32 then Some (take (rr_elements r) els) else None)"

text \<open>\<open>std::string(reply->str)\<close>, also when a character vector is filled from \<open>reply->str\<close>.\<close>

definition std_string :: "redisReply \<Rightarrow> bytes option" where
  "std_string r = map_option cstr (rr_str r)"

text \<open>\<open>extract_reply\<close> and \<open>extract_array\<close>; the first argument bounds the depth. An error reply is released
  before its message is raised, its parents are not.\<close>

fun extract_reply :: "nat \<Rightarrow> 'x rcpp \<Rightarrow> heap \<Rightarrow> ptr \<Rightarrow> ((rstop + 'x robj) \<times> heap) option"
  and extract_array :: "nat \<Rightarrow> 'x rcpp \<Rightarrow> heap \<Rightarrow> ptr list \<Rightarrow> ((rstop + 'x robj list) \<times> heap) option" where
  "extract_reply 0 X h p = None"
| "extract_reply (Suc n) X h p =
     (case hget h p of
        None \<Rightarrow> None
      | Some r \<Rightarrow>
          if rr_type r = REDIS_REPLY_STRING \<or> rr_type r = REDIS_REPLY_STATUS then
            map_option (\<lambda>s. (Inr (R_Chr [s]), h)) (std_string r)
          else if rr_type r = REDIS_REPLY_ERROR then
            (case std_string r of
               None \<Rightarrow> None
             | Some errorMessage \<Rightarrow> map_option (\<lambda>h. (Inl (Stop errorMessage), h)) (freeReplyObject h p))
          else if rr_type r = REDIS_REPLY_INTEGER then Some (Inr (R_Num [rx_double X (rr_integer r)]), h)
          else if rr_type r = REDIS_REPLY_NIL then Some (Inr R_Nil, h)
          else if rr_type r = REDIS_REPLY_ARRAY then
            (case elements r of
               None \<Rightarrow> None
             | Some els \<Rightarrow> map_option (\<lambda>(x, h). (map_sum id R_List x, h)) (extract_array n X h els))
          else Some (Inl (Stop ''Unknown type''), h))"
| "extract_array n X h [] = Some (Inr [], h)"
| "extract_array n X h (p # ps) =
     (case extract_reply n X h p of
        None \<Rightarrow> None
      | Some (Inl e, h) \<Rightarrow> Some (Inl e, h)
      | Some (Inr x, h) \<Rightarrow> map_option (\<lambda>(xs, h). (map_sum id (Cons x) xs, h)) (extract_array n X h ps))"

definition extracted :: "'x rcpp \<Rightarrow> ptr \<Rightarrow> 'x robj act" where
  "extracted X p = (\<lambda>(c, h, w). map_option (\<lambda>(x, h). (x, c, h, w)) (extract_reply (length h) X h p))"

text \<open>\<open>SEXP rep = extract_reply(reply); freeReplyObject(reply); return(rep);\<close>\<close>

definition reply_value :: "'x rcpp \<Rightarrow> ptr \<Rightarrow> 'x robj act" where
  "reply_value X reply = bnd (extracted X reply) (\<lambda>rep. bnd (free reply) (\<lambda>_. give rep))"

section \<open>Types of replies\<close>

definition replyTypeToString :: "redisReply \<Rightarrow> bytes" where
  "replyTypeToString r =
     (if rr_type r = REDIS_REPLY_STRING then ''string''
      else if rr_type r = REDIS_REPLY_STATUS then ''status''
      else if rr_type r = REDIS_REPLY_INTEGER then ''integer''
      else if rr_type r = REDIS_REPLY_ERROR then ''error''
      else if rr_type r = REDIS_REPLY_NIL then ''nil''
      else if rr_type r = REDIS_REPLY_ARRAY then ''array''
      else ''unknown'')"

definition replyString_t :: int where "replyString_t = 0"
definition replyStatus_t :: int where "replyStatus_t = 1"
definition replyInteger_t :: int where "replyInteger_t = 2"
definition replyError_t :: int where "replyError_t = 3"
definition replyNil_t :: int where "replyNil_t = 4"
definition replyArray_t :: int where "replyArray_t = 5"

definition replyTypeToInteger :: "redisReply \<Rightarrow> int" where
  "replyTypeToInteger r =
     (if rr_type r = REDIS_REPLY_STRING then replyString_t
      else if rr_type r = REDIS_REPLY_STATUS then replyStatus_t
      else if rr_type r = REDIS_REPLY_INTEGER then replyInteger_t
      else if rr_type r = REDIS_REPLY_ERROR then replyError_t
      else if rr_type r = REDIS_REPLY_NIL then replyNil_t
      else if rr_type r = REDIS_REPLY_ARRAY then replyArray_t
      else -1)"

definition checkReplyType :: "redisReply \<Rightarrow> int \<Rightarrow> unit act" where
  "checkReplyType r replyType =
     (if replyType \<noteq> replyTypeToInteger r then stop (Stop (''Wrong reply type, got '' @ replyTypeToString r)) else give ())"

section \<open>Connecting\<close>

text \<open>The timeout that reaches \<open>init\<close> is always an \<open>int\<close>: there are no microseconds. When an error is raised in a
  constructor the object does not exist, so its destructor does not run.\<close>

definition Redis_init ::
  "'x rcpp \<Rightarrow> bytes \<Rightarrow> int \<Rightarrow> bytes \<Rightarrow> int \<Rightarrow> heap \<times> os \<Rightarrow> ((rstop + redisContext) \<times> heap \<times> os) option" where
  "Redis_init X host port auth timeout = (\<lambda>(h, w).
     case (if timeout = 0 then redisConnect (rx_libc X) (rx_mem X) (cstr host) port w
           else redisConnectWithTimeout (rx_libc X) (rx_mem X) (cstr host) port \<lparr>tv_sec = timeout, tv_usec = 0\<rparr> w) of
       None \<Rightarrow> None
     | Some (None, w) \<Rightarrow> None
     | Some (Some c, w) \<Rightarrow>
         if rc_err c \<noteq> 0 then Some (Inl (Stop (''Redis connection error: '' @ cstr (rc_errstr c))), h, w)
         else if auth \<noteq> [] then
           (case bnd (redisCommandNULLSafe X (cstr (''AUTH '' @ auth)) [])
                   (\<lambda>reply. bnd (cell reply) (\<lambda>r.
                      if rr_type r = REDIS_REPLY_ERROR
                      then bnd (free reply) (\<lambda>_. stop (Stop ''Redis authentication error.''))
                      else free reply)) (c, h, w) of
              None \<Rightarrow> None
            | Some (Inl e, c, h, w) \<Rightarrow> Some (Inl e, h, w)
            | Some (Inr _, c, h, w) \<Rightarrow> Some (Inr c, h, w))
         else Some (Inr c, h, w))"

definition Redis_host_port_auth ::
  "'x rcpp \<Rightarrow> bytes \<Rightarrow> int \<Rightarrow> bytes \<Rightarrow> heap \<times> os \<Rightarrow> ((rstop + redisContext) \<times> heap \<times> os) option" where
  "Redis_host_port_auth X host port auth = Redis_init X host port auth 0"

definition Redis_host_port ::
  "'x rcpp \<Rightarrow> bytes \<Rightarrow> int \<Rightarrow> heap \<times> os \<Rightarrow> ((rstop + redisContext) \<times> heap \<times> os) option" where
  "Redis_host_port X host port = Redis_init X host port [] 0"

definition Redis_host :: "'x rcpp \<Rightarrow> bytes \<Rightarrow> heap \<times> os \<Rightarrow> ((rstop + redisContext) \<times> heap \<times> os) option" where
  "Redis_host X host = Redis_init X host 6379 [] 0"

definition Redis_local :: "'x rcpp \<Rightarrow> heap \<times> os \<Rightarrow> ((rstop + redisContext) \<times> heap \<times> os) option" where
  "Redis_local X = Redis_init X ''127.0.0.1'' 6379 [] 0"

definition Redis_destroy :: "os hstate \<Rightarrow> (heap \<times> os) option" where
  "Redis_destroy s = redisFree s"

section \<open>Commands given as text\<close>

text \<open>The string is the format of \<open>redisvCommand\<close>, and there are no arguments for it.\<close>

definition exec :: "'x rcpp \<Rightarrow> bytes \<Rightarrow> 'x robj act" where
  "exec X cmd = bnd (redisCommandNULLSafe X (cstr cmd) []) (reply_value X)"

definition execv :: "'x rcpp \<Rightarrow> bytes list \<Rightarrow> 'x robj act" where
  "execv X cmd = (if cmd = [] then undefined_behaviour else bnd (redisCommandArgvNULLSafe X cmd) (reply_value X))"

definition ping :: "'x rcpp \<Rightarrow> 'x robj act" where
  "ping X = bnd (redisCommandNULLSafe X ''PING'' []) (reply_value X)"

definition exists :: "'x rcpp \<Rightarrow> bytes \<Rightarrow> 'x robj act" where
  "exists X key = exec X (''EXISTS '' @ key)"

text \<open>\<open>std::to_string\<close> of an \<open>int32_t\<close>.\<close>

definition to_string :: "int \<Rightarrow> bytes" where
  "to_string i = (if i < 0 then CHR ''-'' # dec (nat (- i)) else dec (nat i))"

definition expire :: "'x rcpp \<Rightarrow> bytes \<Rightarrow> double \<Rightarrow> 'x robj act" where
  "expire X key seconds =
     bnd (must (rx_round X seconds)) (\<lambda>i. exec X (''EXPIRE '' @ key @ '' '' @ to_string i))"

definition pexpire :: "'x rcpp \<Rightarrow> bytes \<Rightarrow> double \<Rightarrow> 'x robj act" where
  "pexpire X key milliseconds =
     bnd (must (rx_round X milliseconds)) (\<lambda>i. exec X (''EXPIRE '' @ key @ '' '' @ to_string i))"

definition del :: "'x rcpp \<Rightarrow> bytes list \<Rightarrow> 'x robj act" where
  "del X sv = bnd (redisCommandNULLSafe X (cstr (''DEL'' @ concat (map (\<lambda>s. '' '' @ s) sv))) []) (reply_value X)"

definition quit :: "'x rcpp \<Rightarrow> 'x robj act" where
  "quit X = bnd (redisCommandNULLSafe X ''QUIT'' []) (reply_value X)"

end
