(* ===== verification/RcppMethods.thy ===== *)
theory RcppMethods
  imports RcppRedis
begin

text \<open>
  The methods of \<open>src/src/Redis.cpp\<close> for keys, hashes, sets, lists, sorted sets and channels: with R
  serialization, as strings, and as numeric vectors in their binary form.
\<close>

section \<open>Binary data\<close>

definition szdb :: nat where "szdb = 8"

text \<open>The memory of a double, least significant byte first.\<close>

primrec nat_le :: "nat \<Rightarrow> nat \<Rightarrow> bytes" where
  "nat_le 0 n = []"
| "nat_le (Suc k) n = char_of (n mod 256) # nat_le k (n div 256)"

primrec le_nat :: "bytes \<Rightarrow> nat" where
  "le_nat [] = 0"
| "le_nat (c # cs) = of_char c + 256 * le_nat cs"

definition double_bytes :: "double \<Rightarrow> bytes" where
  "double_bytes d = nat_le szdb (unat d)"

definition vector_bytes :: "double list \<Rightarrow> bytes" where
  "vector_bytes x = concat (map double_bytes x)"

primrec read_doubles :: "nat \<Rightarrow> bytes \<Rightarrow> double list" where
  "read_doubles 0 s = []"
| "read_doubles (Suc n) s = word_of_nat (le_nat (take szdb s)) # read_doubles n (drop szdb s)"

text \<open>\<open>memcpy(dst, str, n)\<close> from the string of a reply, whose memory ends behind its NUL.\<close>

definition copied :: "redisReply \<Rightarrow> nat \<Rightarrow> bytes option" where
  "copied r n =
     (if n = 0 then Some []
      else case rr_str r of None \<Rightarrow> None | Some s \<Rightarrow> if n \<le> length s then Some (take n s) else None)"

text \<open>\<open>int nc = reply->len; Rcpp::RawVector res(nc); memcpy(...)\<close>: a negative length is an error of R.\<close>

definition raw_vector :: "redisReply \<Rightarrow> bytes act" where
  "raw_vector r =
     (let nc = sbits 32 (int (rr_len r)) in if nc < 0 then stop R_error else must (copied r (nat nc)))"

definition unserialized :: "'x rcpp \<Rightarrow> redisReply \<Rightarrow> 'x robj act" where
  "unserialized X r = bnd (raw_vector r) (\<lambda>res. try_r (rx_unserialize X res))"

text \<open>\<open>Rcpp::NumericVector v(n/szdb); memcpy(v.begin(), str, n)\<close>: the vector holds only whole doubles, so
  other byte counts write behind its end.\<close>

definition numeric_vector :: "redisReply \<Rightarrow> nat \<Rightarrow> double list act" where
  "numeric_vector r n =
     (if n mod szdb \<noteq> 0 then undefined_behaviour else bnd (must (copied r n)) (\<lambda>s. give (read_doubles (n div szdb) s)))"

text \<open>The same with \<open>int nc = reply->len\<close>; a negative \<open>nc\<close> is a huge byte count.\<close>

definition numeric_of :: "redisReply \<Rightarrow> double list act" where
  "numeric_of r =
     (let nc = sbits 32 (int (rr_len r)) in if nc < 0 then undefined_behaviour else numeric_vector r (nat nc))"

definition to_raw :: "'x rcpp \<Rightarrow> 'x robj \<Rightarrow> bytes" where
  "to_raw X s = (case s of R_Raw b \<Rightarrow> b | _ \<Rightarrow> rx_serialize X s)"

section \<open>Common endings\<close>

text \<open>The end of the methods that return an \<open>int\<close>, and of those that return the integer as a double.\<close>

definition integer_value :: "ptr \<Rightarrow> int act" where
  "integer_value reply =
     bnd (cell reply) (\<lambda>r. bnd (checkReplyType r replyInteger_t) (\<lambda>_.
       bnd (free reply) (\<lambda>_. give (sbits 32 (rr_integer r)))))"

definition number_value :: "'x rcpp \<Rightarrow> ptr \<Rightarrow> double act" where
  "number_value X reply =
     bnd (cell reply) (\<lambda>r. bnd (checkReplyType r replyInteger_t) (\<lambda>_.
       bnd (free reply) (\<lambda>_. give (rx_double X (rr_integer r)))))"

text \<open>The end of the methods that return the text of the reply.\<close>

definition text_value :: "ptr \<Rightarrow> bytes act" where
  "text_value reply =
     bnd (cell reply) (\<lambda>r. bnd (must (std_string r)) (\<lambda>res. bnd (free reply) (\<lambda>_. give res)))"

text \<open>Each element of the reply; the counter is an \<open>unsigned int\<close>.\<close>

definition each_element :: "redisReply \<Rightarrow> (redisReply \<Rightarrow> 'a act) \<Rightarrow> 'a list act" where
  "each_element r f =
     bnd (must (elements r)) (each (\<lambda>p. bnd (cell p) f))"

definition strings_value :: "ptr \<Rightarrow> 'x robj act" where
  "strings_value reply =
     bnd (cell reply) (\<lambda>r. bnd (each_element r (\<lambda>e. must (std_string e)))
       (\<lambda>vec. bnd (free reply) (\<lambda>_. give (R_Chr vec))))"

definition objects_value :: "'x rcpp \<Rightarrow> ptr \<Rightarrow> 'x robj act" where
  "objects_value X reply =
     bnd (cell reply) (\<lambda>r. bnd (each_element r (unserialized X))
       (\<lambda>x. bnd (free reply) (\<lambda>_. give (R_List x))))"

text \<open>A popped element: nil, or a string.\<close>

definition popped_value :: "'x rcpp \<Rightarrow> ptr \<Rightarrow> 'x robj act" where
  "popped_value X reply =
     bnd (cell reply) (\<lambda>r.
       bnd (if replyTypeToInteger r = replyNil_t then give R_Nil
            else bnd (checkReplyType r replyString_t) (\<lambda>_. unserialized X r))
         (\<lambda>obj. bnd (free reply) (\<lambda>_. give obj)))"

section \<open>Keys\<close>

definition set_key :: "'x rcpp \<Rightarrow> bytes \<Rightarrow> 'x robj \<Rightarrow> bytes act" where
  "set_key X key s = bnd (redisCommandNULLSafe X ''SET %s %b'' [VStr key, VBin (to_raw X s)]) text_value"

definition get_key :: "'x rcpp \<Rightarrow> bytes \<Rightarrow> 'x robj act" where
  "get_key X key =
     bnd (redisCommandNULLSafe X ''GET %s'' [VStr key]) (\<lambda>reply.
       bnd (cell reply) (\<lambda>r.
         bnd (if replyTypeToInteger r = replyNil_t then give R_Nil else unserialized X r)
           (\<lambda>obj. bnd (free reply) (\<lambda>_. give obj))))"

definition keys :: "'x rcpp \<Rightarrow> bytes \<Rightarrow> 'x robj act" where
  "keys X regexp = bnd (redisCommandNULLSafe X ''KEYS %s'' [VStr regexp]) strings_value"

definition setString :: "'x rcpp \<Rightarrow> bytes \<Rightarrow> bytes \<Rightarrow> bytes act" where
  "setString X key value = bnd (redisCommandNULLSafe X ''SET %s %s'' [VStr key, VStr value]) text_value"

definition getString :: "'x rcpp \<Rightarrow> bytes \<Rightarrow> bytes act" where
  "getString X key = bnd (redisCommandNULLSafe X ''GET %s'' [VStr key]) text_value"

definition setVector :: "'x rcpp \<Rightarrow> bytes \<Rightarrow> double list \<Rightarrow> bytes act" where
  "setVector X key x = bnd (redisCommandNULLSafe X ''SET %s %b'' [VStr key, VBin (vector_bytes x)]) text_value"

definition getVector :: "'x rcpp \<Rightarrow> bytes \<Rightarrow> double list act" where
  "getVector X key =
     bnd (redisCommandNULLSafe X ''GET %s'' [VStr key]) (\<lambda>reply.
       bnd (cell reply) (\<lambda>r. bnd (numeric_of r) (\<lambda>x. bnd (free reply) (\<lambda>_. give x))))"

section \<open>Hashes\<close>

definition hset :: "'x rcpp \<Rightarrow> bytes \<Rightarrow> bytes \<Rightarrow> 'x robj \<Rightarrow> int act" where
  "hset X key field s =
     bnd (redisCommandNULLSafe X ''HSET %s %s %b'' [VStr key, VStr field, VBin (to_raw X s)]) integer_value"

text \<open>The reply is released before its bytes are unserialized.\<close>

definition hget_field :: "'x rcpp \<Rightarrow> bytes \<Rightarrow> bytes \<Rightarrow> 'x robj act" where
  "hget_field X key field =
     bnd (redisCommandNULLSafe X ''HGET %s %s'' [VStr key, VStr field]) (\<lambda>reply.
       bnd (cell reply) (\<lambda>r. bnd (raw_vector r) (\<lambda>res.
         bnd (free reply) (\<lambda>_. try_r (rx_unserialize X res)))))"

definition hexists :: "'x rcpp \<Rightarrow> bytes \<Rightarrow> bytes \<Rightarrow> int act" where
  "hexists X key field = bnd (redisCommandNULLSafe X ''HEXISTS %s %s'' [VStr key, VStr field]) integer_value"

definition hdel :: "'x rcpp \<Rightarrow> bytes \<Rightarrow> bytes \<Rightarrow> int act" where
  "hdel X key field = bnd (redisCommandNULLSafe X ''HDEL %s %s'' [VStr key, VStr field]) integer_value"

definition hlen :: "'x rcpp \<Rightarrow> bytes \<Rightarrow> int act" where
  "hlen X key = bnd (redisCommandNULLSafe X ''HLEN %s'' [VStr key]) integer_value"

definition hkeys :: "'x rcpp \<Rightarrow> bytes \<Rightarrow> 'x robj act" where
  "hkeys X key = bnd (redisCommandNULLSafe X ''HKEYS %s'' [VStr key]) strings_value"

text \<open>Names and values alternate; a last name without a value is dropped.\<close>

fun pairs :: "ptr list \<Rightarrow> (ptr \<times> ptr) list" where
  "pairs (k # v # ps) = (k, v) # pairs ps"
| "pairs _ = []"

definition hgetall :: "'x rcpp \<Rightarrow> bytes \<Rightarrow> 'x robj act" where
  "hgetall X key =
     bnd (redisCommandNULLSafe X ''HGETALL %s'' [VStr key]) (\<lambda>reply.
       bnd (cell reply) (\<lambda>r. bnd (must (elements r)) (\<lambda>els.
         bnd (each (\<lambda>(k, v). bnd (cell k) (\<lambda>k. bnd (must (std_string k)) (\<lambda>name.
                 bnd (cell v) (\<lambda>v. bnd (unserialized X v) (\<lambda>obj. give (name, obj)))))) (pairs els))
           (\<lambda>nvs. bnd (free reply) (\<lambda>_. give (R_Named (map fst nvs) (map snd nvs)))))))"

section \<open>Sets\<close>

definition sadd :: "'x rcpp \<Rightarrow> bytes \<Rightarrow> 'x robj \<Rightarrow> 'x robj act" where
  "sadd X key s = bnd (redisCommandArgvNULLSafe X [''SADD'', key, to_raw X s]) (reply_value X)"

definition srem :: "'x rcpp \<Rightarrow> bytes \<Rightarrow> 'x robj \<Rightarrow> 'x robj act" where
  "srem X key s = bnd (redisCommandArgvNULLSafe X [''SREM'', key, to_raw X s]) (reply_value X)"

definition smembers :: "'x rcpp \<Rightarrow> bytes \<Rightarrow> 'x robj act" where
  "smembers X key = bnd (redisCommandNULLSafe X ''SMEMBERS %s'' [VStr key]) (objects_value X)"

section \<open>Lists\<close>

definition ltrim :: "'x rcpp \<Rightarrow> bytes \<Rightarrow> int \<Rightarrow> int \<Rightarrow> 'x robj act" where
  "ltrim X key start finish = bnd (redisCommandNULLSafe X ''LTRIM %s %d %d'' [VStr key, VInt start, VInt finish]) (reply_value X)"

definition lrem :: "'x rcpp \<Rightarrow> bytes \<Rightarrow> int \<Rightarrow> 'x robj \<Rightarrow> 'x robj act" where
  "lrem X key count s =
     bnd (redisCommandNULLSafe X ''LREM %s %d %b'' [VStr key, VInt count, VBin (to_raw X s)]) (reply_value X)"

definition lmove :: "'x rcpp \<Rightarrow> bytes \<Rightarrow> bytes \<Rightarrow> bytes \<Rightarrow> bytes \<Rightarrow> 'x robj act" where
  "lmove X src dest wherefrom whereto =
     bnd (redisCommandNULLSafe X ''LMOVE %s %s %s %s'' [VStr src, VStr dest, VStr wherefrom, VStr whereto]) (popped_value X)"

definition lrange :: "'x rcpp \<Rightarrow> bytes \<Rightarrow> int \<Rightarrow> int \<Rightarrow> 'x robj act" where
  "lrange X key start finish = bnd (redisCommandNULLSafe X ''LRANGE %s %d %d'' [VStr key, VInt start, VInt finish]) (objects_value X)"

definition llen :: "'x rcpp \<Rightarrow> bytes \<Rightarrow> double act" where
  "llen X key = bnd (redisCommandNULLSafe X ''LLEN %s'' [VStr key]) (number_value X)"

definition lpop :: "'x rcpp \<Rightarrow> bytes \<Rightarrow> 'x robj act" where
  "lpop X key = bnd (redisCommandNULLSafe X ''LPOP %s'' [VStr key]) (popped_value X)"

definition rpop :: "'x rcpp \<Rightarrow> bytes \<Rightarrow> 'x robj act" where
  "rpop X key = bnd (redisCommandNULLSafe X ''RPOP %s'' [VStr key]) (popped_value X)"

definition lpush :: "'x rcpp \<Rightarrow> bytes \<Rightarrow> 'x robj \<Rightarrow> 'x robj act" where
  "lpush X key s = bnd (redisCommandNULLSafe X ''LPUSH %s %b'' [VStr key, VBin (to_raw X s)]) (reply_value X)"

definition rpush :: "'x rcpp \<Rightarrow> bytes \<Rightarrow> 'x robj \<Rightarrow> 'x robj act" where
  "rpush X key s = bnd (redisCommandNULLSafe X ''RPUSH %s %b'' [VStr key, VBin (to_raw X s)]) (reply_value X)"

definition listRange :: "'x rcpp \<Rightarrow> bytes \<Rightarrow> int \<Rightarrow> int \<Rightarrow> 'x robj act" where
  "listRange X key start finish =
     bnd (redisCommandNULLSafe X ''LRANGE %s %d %d'' [VStr key, VInt start, VInt finish]) (\<lambda>reply.
       bnd (cell reply) (\<lambda>r. bnd (checkReplyType r replyArray_t) (\<lambda>_.
         bnd (each_element r (\<lambda>e. bnd (checkReplyType e replyString_t) (\<lambda>_. bnd (numeric_of e) (\<lambda>v. give (R_Num v)))))
           (\<lambda>x. bnd (free reply) (\<lambda>_. give (R_List x))))))"

text \<open>No command: a list of vectors becomes a matrix. \<open>Z[0]\<close> is read even if the list is empty.\<close>

definition listToMatrix :: "'x rcpp \<Rightarrow> 'x robj list \<Rightarrow> 'x robj act" where
  "listToMatrix X Z =
     (case Z of
        [] \<Rightarrow> undefined_behaviour
      | z # _ \<Rightarrow>
          bnd (try_r (rx_numeric X z)) (\<lambda>z0.
            let k = length z0
            in bnd (each (\<lambda>z. bnd (try_r (rx_numeric X z)) (\<lambda>z.
                        if length z \<noteq> k then stop (Stop ''Wrong dimension'') else give z)) Z)
                 (\<lambda>rows. give (R_Matrix k rows))))"

definition listLPop :: "'x rcpp \<Rightarrow> bytes \<Rightarrow> bytes act" where
  "listLPop X key =
     bnd (redisCommandNULLSafe X ''LPOP %s'' [VStr key]) (\<lambda>reply.
       bnd (cell reply) (\<lambda>r.
         bnd (if replyTypeToInteger r = replyNil_t then give ''(nil)''
              else bnd (checkReplyType r replyString_t) (\<lambda>_. must (std_string r)))
           (\<lambda>res. bnd (free reply) (\<lambda>_. give res))))"

text \<open>The reply is not looked at.\<close>

definition listLPush :: "'x rcpp \<Rightarrow> bytes \<Rightarrow> double list \<Rightarrow> bytes act" where
  "listLPush X key x =
     bnd (redisCommandNULLSafe X ''LPUSH %s %b'' [VStr key, VBin (vector_bytes x)]) (\<lambda>reply. bnd (free reply) (\<lambda>_. give []))"

definition listRPush :: "'x rcpp \<Rightarrow> bytes \<Rightarrow> double list \<Rightarrow> bytes act" where
  "listRPush X key x =
     bnd (redisCommandNULLSafe X ''RPUSH %s %b'' [VStr key, VBin (vector_bytes x)]) (\<lambda>reply. bnd (free reply) (\<lambda>_. give []))"

definition listRangeAsStrings :: "'x rcpp \<Rightarrow> bytes \<Rightarrow> int \<Rightarrow> int \<Rightarrow> 'x robj act" where
  "listRangeAsStrings X key start finish =
     bnd (redisCommandNULLSafe X ''LRANGE %s %d %d'' [VStr key, VInt start, VInt finish]) (\<lambda>reply.
       bnd (cell reply) (\<lambda>r. bnd (checkReplyType r replyArray_t) (\<lambda>_.
         bnd (each_element r (\<lambda>e. bnd (checkReplyType e replyString_t) (\<lambda>_. must (std_string e))))
           (\<lambda>x. bnd (free reply) (\<lambda>_. give (R_Chr x))))))"

section \<open>Sorted sets\<close>

text \<open>The sum over the rows; \<open>y[0]\<close> is read from every row.\<close>

fun zadd_rows :: "'x rcpp \<Rightarrow> bytes \<Rightarrow> double \<Rightarrow> double list list \<Rightarrow> double act" where
  "zadd_rows X key res [] = give res"
| "zadd_rows X key res (y # ys) =
     (case y of
        [] \<Rightarrow> undefined_behaviour
      | y0 # _ \<Rightarrow>
          bnd (redisCommandNULLSafe X ''ZADD %s %f %b'' [VStr key, VDouble y0, VBin (vector_bytes y)]) (\<lambda>reply.
            bnd (number_value X reply) (\<lambda>n. zadd_rows X key (rx_add X res n) ys)))"

definition zadd :: "'x rcpp \<Rightarrow> bytes \<Rightarrow> double list list \<Rightarrow> double act" where
  "zadd X key x = zadd_rows X key (rx_double X 0) x"

text \<open>The length of the first element, which is read even if there is none, is used for all of them.\<close>

definition rows_value :: "ptr \<Rightarrow> 'x robj act" where
  "rows_value reply =
     bnd (cell reply) (\<lambda>r. bnd (checkReplyType r replyArray_t) (\<lambda>_. bnd (must (elements r)) (\<lambda>els.
       case els of
         [] \<Rightarrow> undefined_behaviour
       | p # _ \<Rightarrow>
           bnd (cell p) (\<lambda>e0.
             let cols = ubits 32 (rr_len e0)
             in bnd (each_element r (\<lambda>e. bnd (checkReplyType e replyString_t) (\<lambda>_. numeric_vector e cols)))
                  (\<lambda>x. bnd (free reply) (\<lambda>_. give (R_Matrix (cols div szdb) x)))))))"

definition zrange :: "'x rcpp \<Rightarrow> bytes \<Rightarrow> int \<Rightarrow> int \<Rightarrow> 'x robj act" where
  "zrange X key lo hi = bnd (redisCommandNULLSafe X ''ZRANGE %s %d %d'' [VStr key, VInt lo, VInt hi]) rows_value"

definition zrangebyscore :: "'x rcpp \<Rightarrow> bytes \<Rightarrow> double \<Rightarrow> double \<Rightarrow> 'x robj act" where
  "zrangebyscore X key lo hi =
     bnd (redisCommandNULLSafe X ''ZRANGEBYSCORE %s %f %f'' [VStr key, VDouble lo, VDouble hi]) rows_value"

definition zremrangebyscore :: "'x rcpp \<Rightarrow> bytes list \<Rightarrow> double \<Rightarrow> double \<Rightarrow> double list act" where
  "zremrangebyscore X keyvec lo hi =
     each (\<lambda>key. bnd (redisCommandNULLSafe X ''ZREMRANGEBYSCORE %s %f %f'' [VStr key, VDouble lo, VDouble hi])
       (number_value X)) keyvec"

definition zcard :: "'x rcpp \<Rightarrow> bytes \<Rightarrow> double act" where
  "zcard X key = bnd (redisCommandNULLSafe X ''ZCARD %s'' [VStr key]) (number_value X)"

definition zcount :: "'x rcpp \<Rightarrow> bytes \<Rightarrow> double \<Rightarrow> double \<Rightarrow> double act" where
  "zcount X key lo hi = bnd (redisCommandNULLSafe X ''ZCOUNT %s %f %f'' [VStr key, VDouble lo, VDouble hi]) (number_value X)"

text \<open>Matrices packed with \<open>msgpack\<close>: all rows are cut to the length of the first one, which must be there.\<close>

definition matrix_of :: "double list list \<Rightarrow> 'x robj act" where
  "matrix_of vecs =
     (case vecs of
        [] \<Rightarrow> undefined_behaviour
      | v # _ \<Rightarrow>
          if \<forall>row \<in> set vecs. length v \<le> length row then give (R_Matrix (length v) (map (take (length v)) vecs))
          else undefined_behaviour)"

definition unpacked :: "'x rcpp \<Rightarrow> redisReply \<Rightarrow> double list act" where
  "unpacked X e = bnd (must (copied e (rr_len e))) (\<lambda>s. try_r (rx_msgpack X s))"

definition msgPackMatrix :: "'x rcpp \<Rightarrow> bytes \<Rightarrow> int \<Rightarrow> int \<Rightarrow> 'x robj act" where
  "msgPackMatrix X key start finish =
     bnd (redisCommandNULLSafe X ''LRANGE %s %d %d'' [VStr key, VInt start, VInt finish]) (\<lambda>reply.
       bnd (cell reply) (\<lambda>r. bnd (checkReplyType r replyArray_t) (\<lambda>_.
         bnd (each_element r (\<lambda>e. bnd (checkReplyType e replyString_t) (\<lambda>_. unpacked X e)))
           (\<lambda>vecs. bnd (matrix_of vecs) (\<lambda>m. bnd (free reply) (\<lambda>_. give m))))))"

definition msgPackZMatrix :: "'x rcpp \<Rightarrow> bytes \<Rightarrow> double \<Rightarrow> double \<Rightarrow> 'x robj act" where
  "msgPackZMatrix X key lo hi =
     bnd (redisCommandNULLSafe X ''ZRANGEBYSCORE %s %f %f'' [VStr key, VDouble lo, VDouble hi]) (\<lambda>reply.
       bnd (cell reply) (\<lambda>r. bnd (each_element r (unpacked X))
         (\<lambda>vecs. bnd (matrix_of vecs) (\<lambda>m. bnd (free reply) (\<lambda>_. give m)))))"

section \<open>Channels\<close>

text \<open>The message: its first two elements as R values, the others according to \<open>type\<close>. With strings only the
  first of those is read.\<close>

fun listen_elements :: "'x rcpp \<Rightarrow> bytes \<Rightarrow> nat \<Rightarrow> ptr list \<Rightarrow> 'x robj list act" where
  "listen_elements X type i [] = give []"
| "listen_elements X type i (p # ps) =
     (if i < 2 then bnd (extracted X p) (\<lambda>x. bnd (listen_elements X type (i + 1) ps) (\<lambda>xs. give (x # xs)))
      else if type = ''string'' then
        bnd (cell p) (\<lambda>e. bnd (must (std_string e)) (\<lambda>s. give (R_Chr [s] # replicate (length ps) R_Nil)))
      else
        bnd (cell p) (\<lambda>e. bnd (raw_vector e) (\<lambda>res.
          bnd (if type = ''raw'' then give (R_Raw res) else try_r (rx_unserialize X res)) (\<lambda>x.
            bnd (listen_elements X type (i + 1) ps) (\<lambda>xs. give (x # xs))))))"

text \<open>The status of \<open>redisGetReply\<close> is ignored: on an error the pointer has no value.\<close>

definition listen :: "'x rcpp \<Rightarrow> bytes \<Rightarrow> 'x robj act" where
  "listen X type s =
     (case redisGetReply (redisContextDefaultFuncs (rx_libc X)) (rx_libc X) (rx_mem X) True s of
        None \<Rightarrow> None
      | Some (rc, reply, s) \<Rightarrow>
          if rc \<noteq> REDIS_OK then None
          else bnd (cell reply) (\<lambda>r. bnd (must (elements r)) (\<lambda>els.
                 bnd (listen_elements X type 0 els) (\<lambda>vec. bnd (free reply) (\<lambda>_. give (R_List vec))))) s)"

definition subscribe_proto :: "'x rcpp \<Rightarrow> bytes list \<Rightarrow> bytes \<Rightarrow> 'x robj act" where
  "subscribe_proto X channels type =
     bnd (each (\<lambda>key. bnd (redisCommandNULLSafe X ''%s %s'' [VStr type, VStr key]) (reply_value X)) channels)
       (\<lambda>vec. give (R_List vec))"

definition subscribe :: "'x rcpp \<Rightarrow> bytes list \<Rightarrow> 'x robj act" where
  "subscribe X channels = subscribe_proto X channels ''SUBSCRIBE''"

definition psubscribe :: "'x rcpp \<Rightarrow> bytes list \<Rightarrow> 'x robj act" where
  "psubscribe X channels = subscribe_proto X channels ''PSUBSCRIBE''"

definition unsubscribe :: "'x rcpp \<Rightarrow> bytes list \<Rightarrow> 'x robj act" where
  "unsubscribe X channels = subscribe_proto X channels ''UNSUBSCRIBE''"

text \<open>A string is a character vector of length one.\<close>

definition as_string :: "'x robj \<Rightarrow> bytes option" where
  "as_string s = (case s of R_Chr [m] \<Rightarrow> Some m | _ \<Rightarrow> None)"

definition publish :: "'x rcpp \<Rightarrow> bytes \<Rightarrow> 'x robj \<Rightarrow> bytes \<Rightarrow> 'x robj act" where
  "publish X channel s type =
     (if type = ''string'' then
        bnd (try_r (as_string s)) (\<lambda>msg.
          bnd (redisCommandNULLSafe X ''PUBLISH %s %s'' [VStr channel, VStr msg]) (reply_value X))
      else if type = ''rds'' then
        bnd (redisCommandNULLSafe X ''PUBLISH %s %b'' [VStr channel, VBin (rx_serialize X s)]) (reply_value X)
      else if type = ''raw'' then
        bnd (try_r (rx_rawvec X s)) (\<lambda>x.
          bnd (redisCommandNULLSafe X ''PUBLISH %s %b'' [VStr channel, VBin x]) (reply_value X))
      else give R_Nil)"

text \<open>The module: the names that R knows and the methods behind them.\<close>

definition module_methods :: "(bytes \<times> bytes) list" where
  "module_methods =
    [(''exec'', ''exec''), (''execv'', ''execv''), (''ping'', ''ping''), (''exists'', ''exists''), (''expire'', ''expire''),
     (''pexpire'', ''pexpire''), (''del'', ''del''), (''set'', ''set''), (''get'', ''get''), (''hset'', ''hset''),
     (''hget'', ''hget''), (''hexists'', ''hexists''), (''hdel'', ''hdel''), (''hlen'', ''hlen''), (''hkeys'', ''hkeys''),
     (''hgetall'', ''hgetall''), (''sadd'', ''sadd''), (''srem'', ''srem''), (''smembers'', ''smembers''),
     (''lpop'', ''lpop''), (''rpop'', ''rpop''), (''lpush'', ''lpush''), (''rpush'', ''rpush''), (''keys'', ''keys''),
     (''lrange'', ''lrange''), (''llen'', ''llen''), (''ltrim'', ''ltrim''), (''lrem'', ''lrem''), (''lmove'', ''lmove''),
     (''setString'', ''setString''), (''getString'', ''getString''), (''setVector'', ''setVector''),
     (''getVector'', ''getVector''), (''listLPop'', ''listLPop''), (''listLPush'', ''listLPush''),
     (''listRPush'', ''listRPush''), (''listRange'', ''listRange''), (''zadd'', ''zadd''), (''zrange'', ''zrange''),
     (''zrangebyscore'', ''zrangebyscore''), (''zremrangebyscore'', ''zremrangebyscore''), (''zcard'', ''zcard''),
     (''zcount'', ''zcount''), (''listToMatrix'', ''listToMatrix''), (''listRangeAsStrings'', ''listRangeAsStrings''),
     (''quit'', ''quit''), (''publish'', ''publish''), (''subscribe'', ''subscribe''), (''psubscribe'', ''subscribe''),
     (''unsubscribe'', ''subscribe''), (''listen'', ''listen''), (''msgPackMatrix'', ''msgPackMatrix''),
     (''msgPackZMatrix'', ''msgPackZMatrix'')]"

text \<open>What R runs for the methods for channels.\<close>

definition channel_method :: "bytes \<Rightarrow> ('x rcpp \<Rightarrow> bytes list \<Rightarrow> 'x robj act) option" where
  "channel_method name =
     (case map_of module_methods name of
        None \<Rightarrow> None
      | Some m \<Rightarrow>
          if m = ''subscribe'' then Some subscribe
          else if m = ''psubscribe'' then Some psubscribe
          else if m = ''unsubscribe'' then Some unsubscribe
          else None)"

end
