(* ===== verification/RcppSpec.thy ===== *)
theory RcppSpec
  imports RcppMethods ContextSpec
begin

text \<open>
  What the methods of \<open>Redis.cpp\<close> do with a server that answers: the command that is sent, the R value
  that comes back, what is released, and the inputs that they cannot handle.
\<close>

section \<open>One command and its reply\<close>

text \<open>The results of \<open>send\<close> and \<open>recv\<close> while a command goes out and a reply comes in, in pieces of any size.\<close>

definition exchange_script :: "bytes \<Rightarrow> resp \<Rightarrow> sysret list \<Rightarrow> bool" where
  "exchange_script cmd v scr \<longleftrightarrow>
     (\<exists>ns ds. scr = map ret_send ns @ map ret_recv ds \<and> sum_list ns = length cmd \<and> 0 \<notin> set ns
       \<and> concat ds = encode v \<and> (\<forall>d \<in> set ds. d \<noteq> [] \<and> length d \<le> 16384))"

text \<open>The server answers the next command with \<open>v\<close>, a reply that is not a push message.\<close>

definition answers :: "'x rcpp \<Rightarrow> bytes \<Rightarrow> resp \<Rightarrow> sysret list \<Rightarrow> bool" where
  "answers X cmd v scr \<longleftrightarrow> (\<forall>n. granted (rx_mem X) n) \<and> length cmd + 1 < 2 ^ 31 \<and> resp_ok (lc_strtod (rx_libc X)) v
     \<and> not_push v \<and> length (encode v) < 2 ^ 30 \<and> exchange_script cmd v scr"

lemma block_exchange:
  assumes "answers X cmd v scr" and "conn_idle c" and "oracle_gives w (scr @ rs)"
    and "sds_wf b" and "sdsval b = cmd"
  obtains c' w' where "redisBlockForReply (redisContextDefaultFuncs (rx_libc X)) (rx_libc X) (rx_mem X) (c\<lparr>rc_obuf := Some b\<rparr>, h, w)
      = Some (Ref (length h), c', h @ layout (length h) v, w')"
    and "conn_idle c'" and "sent_bytes w' = sent_bytes w @ cmd" and "oracle_gives w' rs"
proof -
  obtain ns ds where scr: "scr = map ret_send ns @ map ret_recv ds" "sum_list ns = length cmd" "0 \<notin> set ns"
    "concat ds = encode v" "\<forall>d \<in> set ds. d \<noteq> [] \<and> length d \<le> 16384"
    using assms(1) by (auto simp: answers_def exchange_script_def)
  have a: "\<forall>n. granted (rx_mem X) n" "resp_ok (lc_strtod (rx_libc X)) v" "not_push v" "length cmd < 2 ^ 31"
    "length (encode v) < 2 ^ 30"
    using assms(1) by (simp_all add: answers_def)
  let ?c = "c\<lparr>rc_obuf := Some b\<rparr>"
  obtain r where c: "has_flag ?c REDIS_BLOCK" "rc_err ?c = 0" "rc_obuf ?c = Some b" "rc_reader ?c = Some r" "reader_idle r"
    "unread r = []" "rd_len r < 2 ^ 30"
    using assms(2) by (auto simp: conn_idle_def has_flag_def)
  have len: "rd_len r + length (encode v) < 2 ^ 31" using c(7) a(5) by simp
  have os: "oracle_gives w (map ret_send ns @ map ret_recv ds @ rs)" using assms(3) scr(1) by simp
  obtain e r' w' where "redisBlockForReply (redisContextDefaultFuncs (rx_libc X)) (rx_libc X) (rx_mem X) (?c, h, w)
      = Some (Ref (length h), ?c\<lparr>rc_obuf := Some e, rc_reader := Some r'\<rparr>, h @ layout (length h) v, w')"
    "sds_wf e" "sdsval e = []" "reader_idle r'" "unread r' = []" "rd_len r' < 1024"
    "sent_bytes w' = sent_bytes w @ cmd" "oracle_gives w' rs"
    by (rule blockForReply_exchange [OF a(1-3) c(1-3) assms(4,5) a(4) c(4-6) scr(4,5) len scr(2,3) os])
  then show ?thesis using c(1,2)
    by (intro that [of "?c\<lparr>rc_obuf := Some e, rc_reader := Some r'\<rparr>" w']) (auto simp: conn_idle_def has_flag_def)
qed

text \<open>A command of format words, and one of an argument vector.\<close>

definition words_cmd :: "'x rcpp \<Rightarrow> fword list \<Rightarrow> bytes" where
  "words_cmd X ws = command_text (map (word_val (rx_render X)) ws)"

lemma nullsafe_words:
  assumes "ws \<noteq> []" and "\<forall>w \<in> set ws. word_ok w" and "NUL \<notin> set (words_fmt ws)"
    and "answers X (words_cmd X ws) v scr" and "conn_idle c" and "oracle_gives w (scr @ rs)"
  obtains c' w' where "redisCommandNULLSafe X (words_fmt ws) (concat (map word_ap ws)) (c, h, w)
      = Some (Inr (Ref (length h)), c', h @ layout (length h) v, w')"
    and "conn_idle c'" and "sent_bytes w' = sent_bytes w @ words_cmd X ws" and "oracle_gives w' rs"
proof -
  obtain b where b: "rc_obuf c = Some b" "sds_wf b" "sdsval b = []" using assms(5) by (auto simp: conn_idle_def)
  have l: "sdslen b < 2 ^ 31" using b length_sdsval [OF b(2)] by simp
  have g: "\<forall>n. granted (rx_mem X) n" "length (words_cmd X ws) + 1 < 2 ^ 31" using assms(4) by (simp_all add: answers_def)
  obtain b' where b': "redisvAppendCommand (rx_render X) (rx_mem X) (words_fmt ws) (concat (map word_ap ws)) c
      = Some (REDIS_OK, c\<lparr>rc_obuf := Some b'\<rparr>)" "sds_wf b'" "sdsval b' = sdsval b @ words_cmd X ws"
    by (rule appendCommand_words [OF g(1) assms(1-3) words_cmd_def g(2) b(1,2) l])
  have v: "sdsval b' = words_cmd X ws" using b'(3) b(3) by simp
  obtain c' w' where "redisBlockForReply (redisContextDefaultFuncs (rx_libc X)) (rx_libc X) (rx_mem X) (c\<lparr>rc_obuf := Some b'\<rparr>, h, w)
      = Some (Ref (length h), c', h @ layout (length h) v, w')"
    "conn_idle c'" "sent_bytes w' = sent_bytes w @ words_cmd X ws" "oracle_gives w' rs"
    by (rule block_exchange [OF assms(4-6) b'(2) v])
  with b'(1) that show ?thesis
    by (simp add: redisCommandNULLSafe_def redisvCommand_def bnd_def nullReplyCheck_def give_def)
qed

lemma nullsafe_argv:
  assumes "argv \<noteq> []" and "answers X (command_text argv) v scr" and "conn_idle c" and "oracle_gives w (scr @ rs)"
  obtains c' w' where "redisCommandArgvNULLSafe X argv (c, h, w)
      = Some (Inr (Ref (length h)), c', h @ layout (length h) v, w')"
    and "conn_idle c'" and "sent_bytes w' = sent_bytes w @ command_text argv" and "oracle_gives w' rs"
proof -
  obtain b where b: "rc_obuf c = Some b" "sds_wf b" "sdsval b = []" using assms(3) by (auto simp: conn_idle_def)
  have l: "sdslen b = 0" using b length_sdsval [OF b(2)] by simp
  have g: "\<forall>n. granted (rx_mem X) n" "length (command_text argv) + 1 < 2 ^ 31" using assms(2) by (simp_all add: answers_def)
  have ab: "argv = arg_bytes argv (Some (map length argv))"
    by (induction argv) (simp_all add: arg_bytes_def)
  obtain s where s: "redisFormatSdsCommandArgv (rx_mem X) argv (Some (map length argv))
      = Some (Inr (int (length (command_text argv)), s))" "sds_wf s" "sdsval s = command_text argv"
    by (rule sds_command_text [OF g(1) ab g(2)])
  obtain b' where b': "sdscatlen (rx_mem X) b (command_text argv) = Some b'" using sdscatlen_granted [OF g(1)] by blast
  have w: "sds_wf b'" "sdsval b' = command_text argv" using sdscatlen_wf [OF b(2) b'] l g(2) b(3) by simp_all
  have "take (length (command_text argv)) (sds_buf s) = command_text argv"
    using s(3) length_sdsval [OF s(2)] by (simp add: sdsval_def)
  then have ap: "redisAppendCommandArgv (rx_mem X) argv (Some (map length argv)) c = Some (REDIS_OK, c\<lparr>rc_obuf := Some b'\<rparr>)"
    using s(1) b(1) b' by (simp add: redisAppendCommandArgv_def redisAppendCommand_raw_def)
  obtain c' w' where "redisBlockForReply (redisContextDefaultFuncs (rx_libc X)) (rx_libc X) (rx_mem X) (c\<lparr>rc_obuf := Some b'\<rparr>, h, w)
      = Some (Ref (length h), c', h @ layout (length h) v, w')"
    "conn_idle c'" "sent_bytes w' = sent_bytes w @ command_text argv" "oracle_gives w' rs"
    by (rule block_exchange [OF assms(2-4) w])
  with ap that show ?thesis
    by (simp add: redisCommandArgvNULLSafe_def redisCommandArgv_def bnd_def nullReplyCheck_def give_def)
qed

section \<open>The value of a reply\<close>

fun r_value :: "'x rcpp \<Rightarrow> resp \<Rightarrow> rstop + 'x robj" and r_values :: "'x rcpp \<Rightarrow> resp list \<Rightarrow> rstop + 'x robj list" where
  "r_value X (RStatus s) = Inr (R_Chr [cstr s])"
| "r_value X (RString s) = Inr (R_Chr [cstr s])"
| "r_value X (RError s) = Inl (Stop (cstr s))"
| "r_value X (RInteger i) = Inr (R_Num [rx_double X i])"
| "r_value X (RNil _) = Inr R_Nil"
| "r_value X (RAggr k vs) = (if k = Array then map_sum id R_List (r_values X vs) else Inl (Stop ''Unknown type''))"
| "r_value X _ = Inl (Stop ''Unknown type'')"
| "r_values X [] = Inr []"
| "r_values X (v # vs) = (case r_value X v of Inl e \<Rightarrow> Inl e | Inr x \<Rightarrow> map_sum id (Cons x) (r_values X vs))"

lemma elements_aggr:
  assumes "length els < 2 ^ 32" shows "elements (aggr_cell k els) = Some els"
  using assms by (simp add: elements_def aggr_cell_def)

lemma extract_leaf:
  assumes "\<forall>k vs. v \<noteq> RAggr k vs" and "1 \<le> n"
  shows "\<exists>h'. extract_reply n X (h @ Some (leaf_cell v) # t) (Ref (length h)) = Some (r_value X v, h')
    \<and> (\<not> isl (r_value X v) \<longrightarrow> h' = h @ Some (leaf_cell v) # t)"
proof -
  obtain m where m: "n = Suc m" using assms(2) by (cases n) auto
  have fr: "freeReplyObject (h @ Some c # t) (Ref (length h)) = Some (h @ None # t)" if "\<not> is_aggregate (rr_type c)" for c
    unfolding freeReplyObject_def using that by (rule free_leaf) simp
  show ?thesis
  proof (cases v)
    case (RError s)
    then show ?thesis using fr [of "leaf_cell (RError s)"]
      by (simp add: m reply_type_defs zero_reply_def std_string_def is_aggregate_def)
  qed (use assms(1) in \<open>simp_all add: m reply_type_defs zero_reply_def std_string_def\<close>)
qed

lemma extract_layout:
  "nodes v \<le> n \<Longrightarrow> resp_ok strtod v \<Longrightarrow>
     \<exists>h'. extract_reply n X (h @ layout (length h) v @ t) (Ref (length h)) = Some (r_value X v, h')
       \<and> (\<not> isl (r_value X v) \<longrightarrow> h' = h @ layout (length h) v @ t)"
  and extract_layouts:
  "(\<And>v. v \<in> set vs \<Longrightarrow> nodes v \<le> n) \<Longrightarrow> (\<And>v. v \<in> set vs \<Longrightarrow> resp_ok strtod v) \<Longrightarrow>
     \<exists>h'. extract_array n X (h @ layouts (length h) vs @ t) (map Ref (addrs (length h) vs)) = Some (r_values X vs, h')
       \<and> (\<not> isl (r_values X vs) \<longrightarrow> h' = h @ layouts (length h) vs @ t)"
proof (induction "length h" v and "length h" vs arbitrary: n h t and n h t rule: layout_layouts.induct)
  case (1 k vs)
  then obtain m where m: "n = Suc m" by (cases n) auto
  have le: "nodes v \<le> m" if "v \<in> set vs" for v
    using "1.prems"(1) m that member_le_sum_list [of "nodes v" "map nodes vs"] by simp
  let ?c = "aggr_cell k (map Ref (addrs (length h + 1) vs))"
  have len: "length (map Ref (addrs (length h + 1) vs)) < 2 ^ 32" using "1.prems"(2) by simp
  have "\<exists>h'. extract_array m X ((h @ [Some ?c]) @ layouts (length (h @ [Some ?c])) vs @ t)
      (map Ref (addrs (length (h @ [Some ?c])) vs)) = Some (r_values X vs, h')
    \<and> (\<not> isl (r_values X vs) \<longrightarrow> h' = (h @ [Some ?c]) @ layouts (length (h @ [Some ?c])) vs @ t)"
    using le "1.prems"(2) by (intro "1.hyps") simp_all
  then obtain h' where h': "extract_array m X (h @ Some ?c # layouts (length h + 1) vs @ t) (map Ref (addrs (length h + 1) vs))
      = Some (r_values X vs, h')" "\<not> isl (r_values X vs) \<Longrightarrow> h' = h @ Some ?c # layouts (length h + 1) vs @ t"
    by auto
  have ty: "rr_type ?c = aggr_type k" by (simp add: aggr_cell_def)
  show ?case
  proof (cases "k = Array")
    case True
    then have "rr_type ?c = REDIS_REPLY_ARRAY" using ty by simp
    then have "extract_reply n X (h @ layout (length h) (RAggr k vs) @ t) (Ref (length h)) = Some (map_sum id R_List (r_values X vs), h')"
      using h'(1) elements_aggr [OF len, of k] by (simp add: m reply_type_defs)
    with True h'(2) show ?thesis by (cases "r_values X vs") simp_all
  next
    case False
    then show ?thesis using ty by (cases k) (simp_all add: m reply_type_defs)
  qed
next
  case (4 v vs)
  let ?l = "layouts (length h + nodes v) vs"
  have "\<exists>h'. extract_reply n X (h @ layout (length h) v @ ?l @ t) (Ref (length h)) = Some (r_value X v, h')
      \<and> (\<not> isl (r_value X v) \<longrightarrow> h' = h @ layout (length h) v @ ?l @ t)"
    using "4.prems" by (intro "4.hyps") simp_all
  then obtain h1 where h1: "extract_reply n X (h @ layout (length h) v @ ?l @ t) (Ref (length h)) = Some (r_value X v, h1)"
    "\<not> isl (r_value X v) \<Longrightarrow> h1 = h @ layout (length h) v @ ?l @ t" by blast
  have "\<exists>h'. extract_array n X ((h @ layout (length h) v) @ layouts (length (h @ layout (length h) v)) vs @ t)
      (map Ref (addrs (length (h @ layout (length h) v)) vs)) = Some (r_values X vs, h')
    \<and> (\<not> isl (r_values X vs) \<longrightarrow> h' = (h @ layout (length h) v) @ layouts (length (h @ layout (length h) v)) vs @ t)"
    using "4.prems" by (intro "4.hyps") simp_all
  then obtain h2 where h2: "extract_array n X (h @ layout (length h) v @ ?l @ t) (map Ref (addrs (length h + nodes v) vs))
      = Some (r_values X vs, h2)" "\<not> isl (r_values X vs) \<Longrightarrow> h2 = h @ layout (length h) v @ ?l @ t" by auto
  show ?case
  proof (cases "r_value X v")
    case (Inl e)
    with h1 show ?thesis by simp
  next
    case (Inr x)
    with h1 h2 show ?thesis by (cases "r_values X vs") simp_all
  qed
qed (simp_all only: layout.simps append.simps nodes.simps extract_leaf resp.distinct not_False_eq_True simp_thms,
    simp_all)

section \<open>Steps of a method\<close>

lemma act_simps [simp]: "bnd (give x) f = f x" "bnd (stop e) f = stop e" "must (Some x) = give x" "try_r (Some x) = give x"
  "try_r None = stop R_error"
  by (simp_all add: fun_eq_iff bnd_def give_def stop_def must_def try_r_def)

lemma bnd_ok: "m s = Some (Inr x, s') \<Longrightarrow> bnd m f s = f x s'"
  and bnd_stop: "m s = Some (Inl e, s') \<Longrightarrow> bnd m f s = Some (Inl e, s')"
  and bnd_undefined: "m s = None \<Longrightarrow> bnd m f s = None"
  by (simp_all add: bnd_def)

lemma command_step:
  "redisCommandNULLSafe X format ap s = Some (Inr p, s') \<Longrightarrow> bnd (redisCommandNULLSafe X format ap) f s = f p s'"
  by (rule bnd_ok)

text \<open>The cell at the root of a reply.\<close>

fun root :: "nat \<Rightarrow> resp \<Rightarrow> redisReply" where
  "root a (RAggr k vs) = aggr_cell k (map Ref (addrs (a + 1) vs))"
| "root a v = leaf_cell v"

lemma cell_root: "bnd (cell (Ref (length h))) f (c, h @ layout (length h) v @ t, w) = f (root (length h) v) (c, h @ layout (length h) v @ t, w)"
  by (cases v) (simp_all add: cell_def bnd_def must_def give_def)

lemma free_root: "bnd (free (Ref (length h))) f (c, h @ layout (length h) v @ t, w) = f () (c, h @ replicate (nodes v) None @ t, w)"
  using free_layout [of v "length (h @ layout (length h) v @ t)" h t]
  by (simp add: free_def bnd_def freeReplyObject_def)

lemmas cell_root' = cell_root [where t = "[]", simplified]
lemmas reply_steps = cell_root' free_root [where t = "[]", simplified]

lemma reply_value_layout:
  assumes "resp_ok strtod v"
  obtains h' where "reply_value X (Ref (length h)) (c, h @ layout (length h) v, w) = Some (r_value X v, c, h', w)"
    and "\<not> isl (r_value X v) \<longrightarrow> h' = h @ replicate (nodes v) None"
proof -
  obtain h' where h': "extract_reply (length (h @ layout (length h) v)) X (h @ layout (length h) v) (Ref (length h)) = Some (r_value X v, h')"
    "\<not> isl (r_value X v) \<longrightarrow> h' = h @ layout (length h) v"
    using extract_layout(1) [OF _ assms, of "length (h @ layout (length h) v)" X h "[]"] by auto
  then have e: "extracted X (Ref (length h)) (c, h @ layout (length h) v, w) = Some (r_value X v, c, h', w)"
    by (simp add: extracted_def)
  show ?thesis
  proof (cases "r_value X v")
    case (Inl err)
    with e that show ?thesis by (simp add: reply_value_def bnd_def)
  next
    case (Inr x)
    with e h'(2) have "reply_value X (Ref (length h)) (c, h @ layout (length h) v, w)
        = bnd (free (Ref (length h))) (\<lambda>_. give x) (c, h @ layout (length h) v, w)"
      by (simp add: reply_value_def bnd_ok)
    also have "\<dots> = Some (Inr x, c, h @ replicate (nodes v) None, w)" by (simp add: reply_steps give_def)
    finally show ?thesis using Inr by (intro that) simp_all
  qed
qed

section \<open>Binary data\<close>

lemma le_nat_le: "le_nat (nat_le k n @ s) = n mod 256 ^ k + 256 ^ k * le_nat s"
proof (induction k arbitrary: n)
  case (Suc k)
  have "n mod 256 + 256 * (n div 256 mod 256 ^ k) = n mod 256 ^ Suc k" by (simp add: mod_mult2_eq)
  with Suc show ?case by (simp add: algebra_simps)
qed simp

lemma length_nat_le [simp]: "length (nat_le k n) = k"
  by (induction k arbitrary: n) simp_all

lemma double_bytes_length [simp]: "length (double_bytes d) = szdb"
  by (simp add: double_bytes_def)

lemma double_roundtrip: "word_of_nat (le_nat (double_bytes d)) = d"
proof -
  have "unat d < 2 ^ LENGTH(64)" by (rule unsigned_less)
  then have "unat d < 256 ^ szdb" by (simp add: szdb_def)
  then have "le_nat (double_bytes d) = unat d" using le_nat_le [of szdb "unat d" "[]"] by (simp add: double_bytes_def)
  then show ?thesis by simp
qed

lemma length_vector_bytes [simp]: "length (vector_bytes x) = szdb * length x"
  by (induction x) (simp_all add: vector_bytes_def)

lemma read_vector: "read_doubles (length x) (vector_bytes x @ s) = x"
  by (induction x) (simp_all add: vector_bytes_def double_roundtrip)

section \<open>Text commands\<close>

text \<open>Words joined by blanks, none of them with a blank, a percent sign or a NUL.\<close>

fun unwords :: "bytes list \<Rightarrow> bytes" where
  "unwords [] = []"
| "unwords [a] = a"
| "unwords (a # as) = a @ '' '' @ unwords as"

definition plain_word :: "bytes \<Rightarrow> bool" where
  "plain_word a \<longleftrightarrow> a \<noteq> [] \<and> set a \<inter> {CHR '' '', CHR ''%'', NUL} = {}"

definition literal :: "bytes \<Rightarrow> fword" where
  "literal a = map PLit a"

lemma literal_simps [simp]: "word_fmt (literal a) = a" "word_ap (literal a) = []" "word_val render (literal a) = a"
  by (induction a) (simp_all add: literal_def word_fmt_def word_ap_def word_val_def)

lemma literal_ok: "plain_word a \<Longrightarrow> word_ok (literal a)"
  by (auto simp: plain_word_def word_ok_def literal_def)

lemma words_literal: "words_fmt (map literal as) = unwords as" "concat (map word_ap (map literal as)) = []"
  "map (word_val render) (map literal as) = as"
  by (induction as rule: unwords.induct) simp_all

lemma unwords_NUL: "\<forall>a \<in> set as. plain_word a \<Longrightarrow> NUL \<notin> set (unwords as)"
  by (induction as rule: unwords.induct) (auto simp: plain_word_def)

lemma literals_exchange:
  assumes "as \<noteq> []" and "\<forall>a \<in> set as. plain_word a" and "answers X (command_text as) v scr" and "conn_idle c"
    and "oracle_gives w (scr @ rs)"
  obtains c' w' where "redisCommandNULLSafe X (unwords as) [] (c, h, w) = Some (Inr (Ref (length h)), c', h @ layout (length h) v, w')"
    and "conn_idle c'" and "sent_bytes w' = sent_bytes w @ command_text as" and "oracle_gives w' rs"
proof -
  let ?ws = "map literal as"
  have ws: "?ws \<noteq> []" "\<forall>w \<in> set ?ws. word_ok w" "NUL \<notin> set (words_fmt ?ws)"
    using assms(1,2) unwords_NUL literal_ok by (simp_all add: words_literal)
  have cmd: "words_cmd X ?ws = command_text as" by (simp only: words_cmd_def words_literal)
  then have "answers X (words_cmd X ?ws) v scr" using assms(3) by simp
  then obtain c' w' where "redisCommandNULLSafe X (words_fmt ?ws) (concat (map word_ap ?ws)) (c, h, w)
      = Some (Inr (Ref (length h)), c', h @ layout (length h) v, w')"
    "conn_idle c'" "sent_bytes w' = sent_bytes w @ words_cmd X ?ws" "oracle_gives w' rs"
    by (rule nullsafe_words [OF ws _ assms(4,5)])
  with cmd that show ?thesis unfolding words_literal by simp
qed

text \<open>C4: \<open>exec\<close> turns any reply into the R value of its shape. For a command of words the server gets exactly
  their encoding, and whatever it answers (any reply that is not a push message, nested to any
  depth) the result is the value of the reply: strings and states as text, integers as doubles, nil
  as \<open>NULL\<close>, arrays as lists of values, an error as an R error with its message, the types of newer
  protocols as an R error; never undefined behaviour. Without an error every cell is released.\<close>

theorem exec_value:
  assumes "as \<noteq> []" and "\<forall>a \<in> set as. plain_word a" and "answers X (command_text as) v scr" and "conn_idle c"
    and "oracle_gives w scr"
  shows "\<exists>c' h' w'. exec X (unwords as) (c, h, w) = Some (r_value X v, c', h', w') \<and> conn_idle c'
    \<and> sent_bytes w' = sent_bytes w @ command_text as \<and> (\<not> isl (r_value X v) \<longrightarrow> h' = h @ replicate (nodes v) None)"
proof -
  have os: "oracle_gives w (scr @ [])" using assms(5) by simp
  obtain c' w' where e: "redisCommandNULLSafe X (unwords as) [] (c, h, w) = Some (Inr (Ref (length h)), c', h @ layout (length h) v, w')"
    "conn_idle c'" "sent_bytes w' = sent_bytes w @ command_text as"
    by (rule literals_exchange [OF assms(1-4) os])
  have ok: "resp_ok (lc_strtod (rx_libc X)) v" using assms(3) by (simp add: answers_def)
  obtain h' where h': "reply_value X (Ref (length h)) (c', h @ layout (length h) v, w') = Some (r_value X v, c', h', w')"
    "\<not> isl (r_value X v) \<longrightarrow> h' = h @ replicate (nodes v) None"
    by (rule reply_value_layout [OF ok, of X h c' w'])
  have "cstr (unwords as) = unwords as" using unwords_NUL [OF assms(2)] by (rule cstr_id)
  then have "exec X (unwords as) (c, h, w) = Some (r_value X v, c', h', w')"
    using e(1) h'(1) by (simp add: exec_def bnd_ok)
  with e(2,3) h'(2) show ?thesis by blast
qed

text \<open>A runtime for examples: R objects are numbers, written as that many bytes.\<close>

definition demo_rcpp :: "nat rcpp" where
  "demo_rcpp = \<lparr>rx_serialize = (\<lambda>s. case s of R_Other n \<Rightarrow> replicate n CHR ''x'' | _ \<Rightarrow> []),
     rx_unserialize = (\<lambda>b. Some (R_Other (length b))), rx_numeric = (\<lambda>s. case s of R_Num x \<Rightarrow> Some x | _ \<Rightarrow> None),
     rx_rawvec = (\<lambda>s. case s of R_Raw b \<Rightarrow> Some b | _ \<Rightarrow> None), rx_double = word_of_int, rx_add = (+),
     rx_round = (\<lambda>d. Some (uint d)), rx_msgpack = (\<lambda>b. None), rx_libc = no_libc, rx_render = (\<lambda>_ _. []), rx_mem = mem_ok\<rparr>"

lemma demo_answers:
  assumes "resp_ok (lc_strtod no_libc) v" and "not_push v" and "length cmd + 1 < 2 ^ 31" and "length (encode v) \<le> 16384" and "cmd \<noteq> []"
  shows "answers demo_rcpp cmd v [ret_send (length cmd), ret_recv (encode v)]"
proof -
  have "[ret_send (length cmd), ret_recv (encode v)] = map ret_send [length cmd] @ map ret_recv [encode v]" by simp
  then have "exchange_script cmd v [ret_send (length cmd), ret_recv (encode v)]"
    unfolding exchange_script_def using assms(4,5) encode_nonempty
    by (intro exI [of _ "[length cmd]"] exI [of _ "[encode v]"]) auto
  then show ?thesis using assms by (simp add: answers_def demo_rcpp_def)
qed

lemma demo_idle:
  obtains c where "redisContextInit mem_ok = Some c" and "conn_idle (c\<lparr>rc_flags := REDIS_BLOCK\<rparr>)"
proof -
  obtain c b r where c: "redisContextInit mem_ok = Some c" "rc_err c = 0" "rc_obuf c = Some b" "sds_wf b" "sdsval b = []"
    "rc_reader c = Some r" "reader_idle r" "unread r = []" "rd_len r = 0"
    by (rule fresh_context)
  then have "conn_idle (c\<lparr>rc_flags := REDIS_BLOCK\<rparr>)" by (simp add: conn_idle_def has_flag_def REDIS_BLOCK_def)
  with c(1) that show ?thesis by blast
qed

theorem exec_value_witness:
  "\<exists>c c' h' w'. redisContextInit mem_ok = Some c \<and>
     exec demo_rcpp ''LRANGE k 0 1'' (c\<lparr>rc_flags := REDIS_BLOCK\<rparr>, [],
       os_of [ret_send (length (command_text [''LRANGE'', ''k'', ''0'', ''1''])), ret_recv (encode (RAggr Array [RInteger 7, RString ''a b'']))])
     = Some (Inr (R_List [R_Num [7], R_Chr [''a b'']]), c', [None, None, None], w')"
proof -
  let ?as = "[''LRANGE'', ''k'', ''0'', ''1'']" and ?v = "RAggr Array [RInteger 7, RString ''a b'']"
  let ?scr = "[ret_send (length (command_text ?as)), ret_recv (encode ?v)]"
  obtain c where c: "redisContextInit mem_ok = Some c" "conn_idle (c\<lparr>rc_flags := REDIS_BLOCK\<rparr>)" by (rule demo_idle)
  have an: "answers demo_rcpp (command_text ?as) ?v ?scr"
    by (rule demo_answers)
      (simp_all add: not_push_def LLONG_MIN_def LLONG_MAX_def command_text_def bulk_def dec_small dec_int_def aggr_count_def)
  have as: "?as \<noteq> []" "\<forall>a \<in> set ?as. plain_word a" by (simp_all add: plain_word_def)
  obtain c' h' w' where "exec demo_rcpp (unwords ?as) (c\<lparr>rc_flags := REDIS_BLOCK\<rparr>, [], os_of ?scr)
      = Some (r_value demo_rcpp ?v, c', h', w')" "\<not> isl (r_value demo_rcpp ?v) \<longrightarrow> h' = [] @ replicate (nodes ?v) None"
    using exec_value [OF as an c(2) os_of_gives(1), of "[]"] by blast
  moreover have "r_value demo_rcpp ?v = Inr (R_List [R_Num [7], R_Chr [''a b'']])" by (simp add: demo_rcpp_def cstr_def)
  moreover have "unwords ?as = ''LRANGE k 0 1''" by simp
  ultimately have "exec demo_rcpp ''LRANGE k 0 1'' (c\<lparr>rc_flags := REDIS_BLOCK\<rparr>, [], os_of ?scr)
      = Some (Inr (R_List [R_Num [7], R_Chr [''a b'']]), c', [None, None, None], w')"
    by (simp add: numeral_3_eq_3)
  with c(1) show ?thesis by blast
qed

section \<open>Objects and vectors\<close>

text \<open>The commands with a key, and with a key and binary data.\<close>

lemma key_exchange:
  assumes "plain_word name" and "answers X (command_text [name, cstr key]) v scr" and "conn_idle c" and "oracle_gives w (scr @ rs)"
  obtains c' w' where "redisCommandNULLSafe X (name @ '' %s'') [VStr key] (c, h, w) = Some (Inr (Ref (length h)), c', h @ layout (length h) v, w')"
    and "conn_idle c'" and "sent_bytes w' = sent_bytes w @ command_text [name, cstr key]" and "oracle_gives w' rs"
proof -
  let ?ws = "[literal name, [PStr key]]"
  have f: "words_fmt ?ws = name @ '' %s''" "concat (map word_ap ?ws) = [VStr key]" by (simp_all add: word_fmt_def word_ap_def flip: literal_def)
    (simp_all add: literal_def comp_def)
  have ok: "?ws \<noteq> []" "\<forall>w \<in> set ?ws. word_ok w" using literal_ok [OF assms(1)] by (simp_all add: word_ok_def)
  have nul: "NUL \<notin> set (words_fmt ?ws)" unfolding f using assms(1) by (auto simp: plain_word_def)
  have cmd: "words_cmd X ?ws = command_text [name, cstr key]" by (simp add: words_cmd_def word_val_def [of _ "[PStr key]"])
  then have "answers X (words_cmd X ?ws) v scr" using assms(2) by simp
  from nullsafe_words [OF ok nul this assms(3,4)] cmd f that show ?thesis by metis
qed

lemma key_data_exchange:
  assumes "plain_word name" and "answers X (command_text [name, cstr key, x]) v scr" and "conn_idle c" and "oracle_gives w (scr @ rs)"
  obtains c' w' where "redisCommandNULLSafe X (name @ '' %s %b'') [VStr key, VBin x] (c, h, w)
      = Some (Inr (Ref (length h)), c', h @ layout (length h) v, w')"
    and "conn_idle c'" and "sent_bytes w' = sent_bytes w @ command_text [name, cstr key, x]" and "oracle_gives w' rs"
proof -
  let ?ws = "[literal name, [PStr key], [PBin x]]"
  have f: "words_fmt ?ws = name @ '' %s %b''" "concat (map word_ap ?ws) = [VStr key, VBin x]"
    by (simp_all add: word_fmt_def word_ap_def flip: literal_def) (simp_all add: literal_def comp_def)
  have ok: "?ws \<noteq> []" "\<forall>w \<in> set ?ws. word_ok w" using literal_ok [OF assms(1)] by (simp_all add: word_ok_def)
  have nul: "NUL \<notin> set (words_fmt ?ws)" unfolding f using assms(1) by (auto simp: plain_word_def)
  have cmd: "words_cmd X ?ws = command_text [name, cstr key, x]"
    by (simp add: words_cmd_def word_val_def [of _ "[PStr key]"] word_val_def [of _ "[PBin x]"])
  then have "answers X (words_cmd X ?ws) v scr" using assms(2) by simp
  from nullsafe_words [OF ok nul this assms(3,4)] cmd f that show ?thesis by metis
qed

text \<open>SET and GET with the bytes of a value.\<close>

lemma set_bytes:
  assumes "answers X (command_text [''SET'', cstr key, x]) (RStatus st) scr" and "conn_idle c" and "oracle_gives w (scr @ rs)"
  obtains c' w' where "bnd (redisCommandNULLSafe X ''SET %s %b'' [VStr key, VBin x]) text_value (c, h, w)
      = Some (Inr (cstr st), c', h @ [None], w')"
    and "conn_idle c'" and "sent_bytes w' = sent_bytes w @ command_text [''SET'', cstr key, x]" and "oracle_gives w' rs"
proof -
  have p: "plain_word ''SET''" by (simp add: plain_word_def)
  obtain c' w' where e: "redisCommandNULLSafe X (''SET'' @ '' %s %b'') [VStr key, VBin x] (c, h, w)
      = Some (Inr (Ref (length h)), c', h @ layout (length h) (RStatus st), w')"
    "conn_idle c'" "sent_bytes w' = sent_bytes w @ command_text [''SET'', cstr key, x]" "oracle_gives w' rs"
    by (rule key_data_exchange [OF p assms])
  have "text_value (Ref (length h)) (c', h @ layout (length h) (RStatus st), w') = Some (Inr (cstr st), c', h @ [None], w')"
    unfolding text_value_def reply_steps by (simp add: std_string_def reply_steps [of h _ _ "RStatus st", simplified] give_def)
  with e that show ?thesis by (simp add: bnd_ok)
qed

lemma get_exchange:
  assumes "answers X (command_text [''GET'', cstr key]) v scr" and "conn_idle c" and "oracle_gives w (scr @ rs)"
  obtains c' w' where "redisCommandNULLSafe X ''GET %s'' [VStr key] (c, h, w) = Some (Inr (Ref (length h)), c', h @ layout (length h) v, w')"
    and "conn_idle c'" and "sent_bytes w' = sent_bytes w @ command_text [''GET'', cstr key]" and "oracle_gives w' rs"
proof -
  have p: "plain_word ''GET''" by (simp add: plain_word_def)
  obtain c' w' where "redisCommandNULLSafe X (''GET'' @ '' %s'') [VStr key] (c, h, w)
      = Some (Inr (Ref (length h)), c', h @ layout (length h) v, w')"
    "conn_idle c'" "sent_bytes w' = sent_bytes w @ command_text [''GET'', cstr key]" "oracle_gives w' rs"
    by (rule key_exchange [OF p assms])
  with that show ?thesis by simp
qed

lemma raw_string:
  assumes "length x < 2 ^ 31" shows "raw_vector (leaf_cell (RString x)) = give x"
  using assms by (cases "x = []") (simp_all add: raw_vector_def Let_def copied_def sbits_id)

lemma numeric_string:
  assumes "length x < 2 ^ 31"
  shows "numeric_of (leaf_cell (RString x))
    = (if length x mod szdb = 0 then give (read_doubles (length x div szdb) x) else undefined_behaviour)"
  using assms by (cases "x = []") (simp_all add: numeric_of_def numeric_vector_def Let_def copied_def sbits_id)

text \<open>C5: What \<open>set\<close> stores \<open>get\<close> returns. For any key and any R object that is not a raw vector and that R
  can serialize and read back: \<open>set\<close> sends the key and the serialized object as two arguments
  whatever bytes they contain, and if the server answers the following GET of that key with the
  bytes that were sent, \<open>get\<close> returns the object; both replies are released.\<close>

theorem set_get_roundtrip:
  assumes "\<forall>b. s \<noteq> R_Raw b" and "rx_unserialize X (rx_serialize X s) = Some s" and "conn_idle c"
    and "answers X (command_text [''SET'', cstr key, rx_serialize X s]) (RStatus ''OK'') scr1"
    and "answers X (command_text [''GET'', cstr key]) (RString (rx_serialize X s)) scr2"
    and "oracle_gives w (scr1 @ scr2)"
  shows "\<exists>c1 w1 c2 w2. set_key X key s (c, h, w) = Some (Inr ''OK'', c1, h @ [None], w1)
    \<and> get_key X key (c1, h @ [None], w1) = Some (Inr s, c2, h @ [None, None], w2)
    \<and> sent_bytes w2 = sent_bytes w @ command_text [''SET'', cstr key, rx_serialize X s] @ command_text [''GET'', cstr key]
    \<and> conn_idle c2"
proof -
  let ?x = "rx_serialize X s" and ?h = "h @ [None]"
  obtain c1 w1 where s1: "bnd (redisCommandNULLSafe X ''SET %s %b'' [VStr key, VBin ?x]) text_value (c, h, w)
      = Some (Inr (cstr ''OK''), c1, ?h, w1)"
    "conn_idle c1" "sent_bytes w1 = sent_bytes w @ command_text [''SET'', cstr key, ?x]" "oracle_gives w1 scr2"
    by (rule set_bytes [OF assms(4,3,6)])
  have "to_raw X s = ?x" using assms(1) by (cases s) (simp_all add: to_raw_def)
  then have set: "set_key X key s (c, h, w) = Some (Inr ''OK'', c1, ?h, w1)"
    using s1(1) by (simp add: set_key_def cstr_def)
  have os: "oracle_gives w1 (scr2 @ [])" using s1(4) by simp
  obtain c2 w2 where g: "redisCommandNULLSafe X ''GET %s'' [VStr key] (c1, ?h, w1) = Some (Inr (Ref (length ?h)), c2, ?h @ layout (length ?h) (RString ?x), w2)"
    "conn_idle c2" "sent_bytes w2 = sent_bytes w1 @ command_text [''GET'', cstr key]"
    by (rule get_exchange [OF assms(5) s1(2) os, where h = ?h])
  have len: "length ?x < 2 ^ 31" using assms(5) by (simp add: answers_def)
  have ty: "replyTypeToInteger (leaf_cell (RString ?x)) \<noteq> replyNil_t"
    by (simp add: replyTypeToInteger_def zero_reply_def replyString_t_def replyNil_t_def)
  have un: "unserialized X (leaf_cell (RString ?x)) = give s"
    unfolding unserialized_def raw_string [OF len] by (simp add: assms(2))
  have "get_key X key (c1, ?h, w1) = bnd (free (Ref (length ?h))) (\<lambda>_. give s) (c2, ?h @ layout (length ?h) (RString ?x), w2)"
    unfolding get_key_def command_step [OF g(1)] cell_root' root.simps un using ty by simp
  also have "\<dots> = Some (Inr s, c2, h @ [None, None], w2)" unfolding reply_steps by (simp add: give_def)
  finally show ?thesis using set g(2,3) s1(3) by simp
qed

theorem set_get_roundtrip_witness:
  "\<exists>c c1 w1 c2 w2. redisContextInit mem_ok = Some c \<and>
     set_key demo_rcpp ''a key'' (R_Other 3) (c\<lparr>rc_flags := REDIS_BLOCK\<rparr>, [],
       os_of ([ret_send (length (command_text [''SET'', ''a key'', ''xxx''])), ret_recv (encode (RStatus ''OK''))]
         @ [ret_send (length (command_text [''GET'', ''a key''])), ret_recv (encode (RString ''xxx''))]))
       = Some (Inr ''OK'', c1, [None], w1)
   \<and> get_key demo_rcpp ''a key'' (c1, [None], w1) = Some (Inr (R_Other 3), c2, [None, None], w2)"
proof -
  let ?c1 = "command_text [''SET'', cstr ''a key'', ''xxx'']" and ?c2 = "command_text [''GET'', cstr ''a key'']"
  let ?s1 = "[ret_send (length ?c1), ret_recv (encode (RStatus ''OK''))]"
  let ?s2 = "[ret_send (length ?c2), ret_recv (encode (RString ''xxx''))]"
  obtain c where c: "redisContextInit mem_ok = Some c" "conn_idle (c\<lparr>rc_flags := REDIS_BLOCK\<rparr>)" by (rule demo_idle)
  have k: "cstr ''a key'' = ''a key''" by (simp add: cstr_def)
  have x: "rx_serialize demo_rcpp (R_Other 3) = ''xxx''" "rx_unserialize demo_rcpp ''xxx'' = Some (R_Other 3)"
    by (simp_all add: demo_rcpp_def numeral_3_eq_3)
  have a1: "answers demo_rcpp ?c1 (RStatus ''OK'') ?s1"
    by (rule demo_answers) (simp_all add: not_push_def command_text_def bulk_def dec_small k)
  have a2: "answers demo_rcpp ?c2 (RString ''xxx'') ?s2"
    by (rule demo_answers) (simp_all add: not_push_def command_text_def bulk_def dec_small dec_int_def k)
  have r: "\<forall>b. R_Other 3 \<noteq> R_Raw b" by simp
  have x': "rx_unserialize demo_rcpp (rx_serialize demo_rcpp (R_Other 3)) = Some (R_Other 3)"
    "answers demo_rcpp (command_text [''SET'', cstr ''a key'', rx_serialize demo_rcpp (R_Other 3)]) (RStatus ''OK'') ?s1"
    "answers demo_rcpp ?c2 (RString (rx_serialize demo_rcpp (R_Other 3))) ?s2"
    unfolding x(1) by (rule x(2), rule a1, rule a2)
  from set_get_roundtrip [OF r x'(1) c(2) x'(2,3) os_of_gives(1), of "[]"] c(1)
  show ?thesis unfolding k append_Nil by blast
qed



text \<open>The bytes behind the last whole double of a value are written outside of the vector.\<close>

theorem getVector_overflow:
  assumes "conn_idle c" and "answers X (command_text [''GET'', cstr key]) (RString x) scr" and "oracle_gives w scr"
    and "length x mod 8 \<noteq> 0"
  shows "getVector X key (c, h, w) = None"
proof -
  have os: "oracle_gives w (scr @ [])" using assms(3) by simp
  obtain c2 w2 where g: "redisCommandNULLSafe X ''GET %s'' [VStr key] (c, h, w) = Some (Inr (Ref (length h)), c2, h @ layout (length h) (RString x), w2)"
    by (rule get_exchange [OF assms(2,1) os, where h = h])
  have len: "length x < 2 ^ 31" using assms(2) by (simp add: answers_def)
  have "numeric_of (leaf_cell (RString x)) = undefined_behaviour"
    unfolding numeric_string [OF len] using assms(4) by (simp add: szdb_def)
  then show ?thesis unfolding getVector_def command_step [OF g] cell_root' root.simps by (simp add: bnd_def undefined_behaviour_def)
qed

theorem getVector_overflow_witness:
  "\<exists>c scr. redisContextInit mem_ok = Some c \<and> exchange_script (command_text [''GET'', ''v'']) (RString ''hello'') scr
    \<and> getVector demo_rcpp ''v'' (c\<lparr>rc_flags := REDIS_BLOCK\<rparr>, [], os_of scr) = None"
proof -
  let ?c = "command_text [''GET'', cstr ''v'']"
  let ?s = "[ret_send (length ?c), ret_recv (encode (RString ''hello''))]"
  obtain c where c: "redisContextInit mem_ok = Some c" "conn_idle (c\<lparr>rc_flags := REDIS_BLOCK\<rparr>)" by (rule demo_idle)
  have k: "cstr ''v'' = ''v''" by (simp add: cstr_def)
  have a: "answers demo_rcpp ?c (RString ''hello'') ?s"
    by (rule demo_answers) (simp_all add: not_push_def command_text_def bulk_def dec_small dec_int_def k)
  have "getVector demo_rcpp ''v'' (c\<lparr>rc_flags := REDIS_BLOCK\<rparr>, [], os_of ?s) = None"
    by (rule getVector_overflow [OF c(2) a os_of_gives(1)]) simp
  moreover have "exchange_script ?c (RString ''hello'') ?s" using a by (simp add: answers_def)
  ultimately show ?thesis using c(1) unfolding k by blast
qed

text \<open>C39: \<open>getVector\<close> returns the doubles whose binary form is the value of the key, whatever the bytes are, if
  their number is a multiple of eight. Otherwise it writes outside of its vector, which is made for the whole
  doubles only while all bytes are copied into it.\<close>

theorem getVector_bytes:
  assumes "conn_idle c" and "answers X (command_text [''GET'', cstr key]) (RString x) scr" and "oracle_gives w scr"
  shows "if length x mod 8 = 0
    then \<exists>c' w'. getVector X key (c, h, w) = Some (Inr (read_doubles (length x div 8) x), c', h @ [None], w') \<and> conn_idle c'
    else getVector X key (c, h, w) = None"
proof (cases "length x mod 8 = 0")
  case True
  have os: "oracle_gives w (scr @ [])" using assms(3) by simp
  obtain c' w' where g: "redisCommandNULLSafe X ''GET %s'' [VStr key] (c, h, w)
      = Some (Inr (Ref (length h)), c', h @ layout (length h) (RString x), w')" "conn_idle c'"
    by (rule get_exchange [OF assms(2,1) os, where h = h])
  have len: "length x < 2 ^ 31" using assms(2) by (simp add: answers_def)
  have num: "numeric_of (leaf_cell (RString x)) = give (read_doubles (length x div 8) x)"
    unfolding numeric_string [OF len] using True by (simp add: szdb_def)
  have "getVector X key (c, h, w) = bnd (free (Ref (length h))) (\<lambda>_. give (read_doubles (length x div 8) x))
      (c', h @ layout (length h) (RString x), w')"
    unfolding getVector_def command_step [OF g(1)] cell_root' root.simps num by simp
  also have "\<dots> = Some (Inr (read_doubles (length x div 8) x), c', h @ [None], w')" unfolding reply_steps by (simp add: give_def)
  finally show ?thesis using True g(2) by simp
qed (simp add: getVector_overflow [OF assms])

theorem getVector_bytes_witness:
  "\<exists>c scr scr' c' w'. redisContextInit mem_ok = Some c
    \<and> getVector demo_rcpp ''v'' (c\<lparr>rc_flags := REDIS_BLOCK\<rparr>, [], os_of scr) = Some (Inr [0x6867666564636261], c', [None], w')
    \<and> getVector demo_rcpp ''v'' (c\<lparr>rc_flags := REDIS_BLOCK\<rparr>, [], os_of scr') = None"
proof -
  let ?c = "command_text [''GET'', cstr ''v'']"
  let ?s = "\<lambda>x. [ret_send (length ?c), ret_recv (encode (RString x))]"
  obtain c where c: "redisContextInit mem_ok = Some c" "conn_idle (c\<lparr>rc_flags := REDIS_BLOCK\<rparr>)" by (rule demo_idle)
  have k: "cstr ''v'' = ''v''" by (simp add: cstr_def)
  have a: "answers demo_rcpp ?c (RString ''abcdefgh'') (?s ''abcdefgh'')" "answers demo_rcpp ?c (RString ''hello'') (?s ''hello'')"
    by (rule demo_answers; simp add: not_push_def command_text_def bulk_def dec_small dec_int_def k)+
  have "read_doubles 1 ''abcdefgh'' = [0x6867666564636261]" by (simp add: szdb_def)
  with getVector_bytes [OF c(2) a(1) os_of_gives(1), of "[]"] getVector_bytes [OF c(2) a(2) os_of_gives(1), of "[]"] c(1)
  show ?thesis by auto
qed

section \<open>Checked replies\<close>

fun type_name :: "resp \<Rightarrow> bytes" where
  "type_name (RString _) = ''string''"
| "type_name (RStatus _) = ''status''"
| "type_name (RInteger _) = ''integer''"
| "type_name (RError _) = ''error''"
| "type_name (RNil _) = ''nil''"
| "type_name (RAggr k _) = (if k = Array then ''array'' else ''unknown'')"
| "type_name _ = ''unknown''"

lemma root_type: "replyTypeToString (root a v) = type_name v" "replyTypeToInteger (root a v) = replyInteger_t \<longleftrightarrow> (\<exists>i. v = RInteger i)"
proof -
  note defs = replyTypeToString_def replyTypeToInteger_def zero_reply_def reply_type_defs aggr_cell_def
    replyString_t_def replyStatus_t_def replyInteger_t_def replyError_t_def replyNil_t_def replyArray_t_def
  have "replyTypeToString (root a (RAggr k vs)) = type_name (RAggr k vs)"
    "replyTypeToInteger (root a (RAggr k vs)) \<noteq> replyInteger_t" for k vs
    by (cases k; simp add: defs)+
  then show "replyTypeToString (root a v) = type_name v"
    "replyTypeToInteger (root a v) = replyInteger_t \<longleftrightarrow> (\<exists>i. v = RInteger i)"
    by (cases v; simp add: defs)+
qed

lemma integer_value_layout:
  "integer_value (Ref (length h)) (c, h @ layout (length h) v, w) =
     (case v of
        RInteger i \<Rightarrow> Some (Inr (sbits 32 i), c, h @ [None], w)
      | _ \<Rightarrow> Some (Inl (Stop (''Wrong reply type, got '' @ type_name v)), c, h @ layout (length h) v, w))"
proof (cases "\<exists>i. v = RInteger i")
  case True
  then obtain i where v: "v = RInteger i" by blast
  have ch: "checkReplyType (root (length h) v) replyInteger_t = give ()"
    using root_type(2) [of "length h" v] v by (simp add: checkReplyType_def)
  have "integer_value (Ref (length h)) (c, h @ layout (length h) v, w)
      = bnd (free (Ref (length h))) (\<lambda>_. give (sbits 32 (rr_integer (root (length h) v)))) (c, h @ layout (length h) v, w)"
    unfolding integer_value_def cell_root' ch by simp
  also have "\<dots> = give (sbits 32 (rr_integer (root (length h) v))) (c, h @ replicate (nodes v) None, w)" by (rule reply_steps)
  finally show ?thesis by (simp add: v give_def)
next
  case False
  have ch: "checkReplyType (root (length h) v) replyInteger_t = stop (Stop (''Wrong reply type, got '' @ type_name v))"
    using root_type [of "length h" v] False by (simp add: checkReplyType_def)
  have "integer_value (Ref (length h)) (c, h @ layout (length h) v, w)
      = Some (Inl (Stop (''Wrong reply type, got '' @ type_name v)), c, h @ layout (length h) v, w)"
    unfolding integer_value_def cell_root' ch by (simp add: stop_def)
  with False show ?thesis by (cases v) simp_all
qed



section \<open>Arrays\<close>

text \<open>Reading the elements of an array: the first error ends it.\<close>

definition outcome :: "rstop + 'a \<Rightarrow> 'a act" where
  "outcome r s = Some (r, s)"

primrec gather :: "('b \<Rightarrow> rstop + 'a) \<Rightarrow> 'b list \<Rightarrow> rstop + 'a list" where
  "gather g [] = Inr []"
| "gather g (v # vs) = (case g v of Inl e \<Rightarrow> Inl e | Inr x \<Rightarrow> map_sum id (Cons x) (gather g vs))"

lemma gather_give: "(\<And>v. v \<in> set vs \<Longrightarrow> g v = Inr (f v)) \<Longrightarrow> gather g vs = Inr (map f vs)"
  by (induction vs) simp_all

lemma cell_at: "hget h p = Some r \<Longrightarrow> bnd (cell p) f (c, h, w) = f r (c, h, w)"
  by (simp add: cell_def bnd_def give_def)

lemma each_layouts:
  assumes "\<And>a v. v \<in> set vs \<Longrightarrow> f (root a v) = outcome (g v)"
  shows "each (\<lambda>p. bnd (cell p) f) (map Ref (addrs (length h) vs)) (c, h @ layouts (length h) vs, w)
    = Some (gather g vs, c, h @ layouts (length h) vs, w)"
  using assms
proof (induction vs arbitrary: h)
  case (Cons v vs)
  let ?l = "layouts (length h + nodes v) vs" and ?e = "each (\<lambda>p. bnd (cell p) f) (map Ref (addrs (length h + nodes v) vs))"
  let ?s = "(c, h @ layout (length h) v @ ?l, w)"
  have ih: "?e ?s = Some (gather g vs, ?s)"
    using Cons.IH [of "h @ layout (length h) v"] Cons.prems by simp
  have hd: "bnd (cell (Ref (length h))) f ?s = Some (g v, ?s)"
    using cell_root [of h f c v ?l w] Cons.prems [of v "length h"] by (simp add: outcome_def)
  have "each (\<lambda>p. bnd (cell p) f) (map Ref (addrs (length h) (v # vs))) ?s
    = (case g v of Inl e \<Rightarrow> Some (Inl e, ?s) | Inr x \<Rightarrow> bnd ?e (\<lambda>ys. give (x # ys)) ?s)"
    by (simp add: bnd_def [of "bnd _ _"] hd split: sum.split)
  also have "\<dots> = Some (gather g (v # vs), ?s)"
    by (simp add: bnd_def ih give_def split: sum.split)
  finally show ?case by simp
qed (simp add: give_def)

lemma each_element_layout:
  assumes "\<And>a v. v \<in> set vs \<Longrightarrow> f (root a v) = outcome (g v)" and "length vs < 2 ^ 32"
  shows "each_element (root (length h) (RAggr k vs)) f (c, h @ layout (length h) (RAggr k vs), w)
    = Some (gather g vs, c, h @ layout (length h) (RAggr k vs), w)"
proof -
  let ?c = "aggr_cell k (map Ref (addrs (length h + 1) vs))"
  have el: "elements (root (length h) (RAggr k vs)) = Some (map Ref (addrs (length h + 1) vs))" using elements_aggr assms(2) by simp
  have "each (\<lambda>p. bnd (cell p) f) (map Ref (addrs (length (h @ [Some ?c])) vs)) (c, (h @ [Some ?c]) @ layouts (length (h @ [Some ?c])) vs, w)
    = Some (gather g vs, c, (h @ [Some ?c]) @ layouts (length (h @ [Some ?c])) vs, w)"
    by (rule each_layouts) (rule assms(1))
  then show ?thesis unfolding each_element_def el by simp
qed

text \<open>The rows of a matrix.\<close>

lemma string_typed: "checkReplyType (leaf_cell (RString x)) replyString_t = give ()"
  by (simp add: checkReplyType_def replyTypeToInteger_def zero_reply_def)

lemma numeric_row: "numeric_vector (leaf_cell (RString (vector_bytes y))) (szdb * length y) = give y"
proof -
  have "copied (leaf_cell (RString (vector_bytes y))) (szdb * length y) = Some (vector_bytes y)"
    by (cases "y = []") (simp add: copied_def vector_bytes_def, simp add: copied_def zero_reply_def szdb_def)
  then show ?thesis using read_vector [of y "[]"] by (simp add: numeric_vector_def szdb_def)
qed

definition rows_reply :: "double list list \<Rightarrow> resp" where
  "rows_reply ys = RAggr Array (map (\<lambda>y. RString (vector_bytes y)) ys)"

lemma rows_nodes [simp]: "nodes (rows_reply ys) = length ys + 1"
  by (induction ys) (simp_all add: rows_reply_def)

lemma rows_value_layout:
  assumes "y \<in> set ys" and "\<forall>y \<in> set ys. length y = k" and "length ys < 2 ^ 32" and "szdb * k < 2 ^ 32"
  shows "rows_value (Ref (length h)) (c, h @ layout (length h) (rows_reply ys), w)
    = Some (Inr (R_Matrix k ys), c, h @ replicate (nodes (rows_reply ys)) None, w)"
proof -
  obtain y0 ys' where ys: "ys = y0 # ys'" using assms(1) by (cases ys) auto
  let ?vs = "map (\<lambda>y. RString (vector_bytes y)) ys" and ?a = "length h + 1"
  let ?f = "\<lambda>e. bnd (checkReplyType e replyString_t) (\<lambda>_. numeric_vector e (szdb * k))"
  let ?s = "(c, h @ layout (length h) (RAggr Array ?vs), w)" and ?r = "root (length h) (RAggr Array ?vs)"
  have ch: "checkReplyType ?r replyArray_t = give ()"
    by (simp add: checkReplyType_def replyTypeToInteger_def replyArray_t_def aggr_cell_def reply_type_defs)
  have el: "elements ?r = Some (map Ref (addrs ?a ?vs))" using elements_aggr assms(3) by simp
  let ?g = "\<lambda>v. Inr (case v of RString x \<Rightarrow> read_doubles k x) :: rstop + double list"
  have row: "?f (root a v) = outcome (?g v)" if "v \<in> set ?vs" for a v
  proof -
    from that obtain y where y: "y \<in> set ys" "v = RString (vector_bytes y)" by auto
    then have "length y = k" using assms(2) by blast
    then show ?thesis using y(2) numeric_row [of y] read_vector [of y "[]"]
      by (simp add: string_typed outcome_def give_def fun_eq_iff del: leaf_cell.simps)
  qed
  have "gather ?g ?vs = Inr (map (\<lambda>v. case v of RString x \<Rightarrow> read_doubles k x) ?vs)" by (rule gather_give) simp
  also have "map (\<lambda>v. case v of RString x \<Rightarrow> read_doubles k x) ?vs = ys"
  proof -
    have "read_doubles k (vector_bytes y) = y" if "y \<in> set ys" for y using read_vector [of y "[]"] assms(2) that by auto
    then show ?thesis by (simp add: map_idI comp_def)
  qed
  finally have all: "each_element ?r ?f ?s = Some (Inr ys, ?s)"
    using each_element_layout [of ?vs ?f ?g h Array c w] row assms(3) by simp
  have next_row: "bnd (each_element ?r ?f) m ?s = m ys ?s" for m :: "double list list \<Rightarrow> 'b robj act" using all by (rule bnd_ok)
  have hd: "hget (h @ layout (length h) (RAggr Array ?vs)) (Ref ?a) = Some (leaf_cell (RString (vector_bytes y0)))"
    by (simp add: ys nth_append)
  have len: "ubits 32 (rr_len (leaf_cell (RString (vector_bytes y0)))) = szdb * k"
    using assms(2,4) by (simp add: ys zero_reply_def ubits_id)
  have "rows_value (Ref (length h)) ?s = bnd (cell (Ref ?a)) (\<lambda>e0. let cols = ubits 32 (rr_len e0)
      in bnd (each_element ?r (\<lambda>e. bnd (checkReplyType e replyString_t) (\<lambda>_. numeric_vector e cols)))
         (\<lambda>x. bnd (free (Ref (length h))) (\<lambda>_. give (R_Matrix (cols div szdb) x)))) ?s"
    unfolding rows_value_def cell_root' ch act_simps el by (simp add: ys del: root.simps)
  also have "\<dots> = bnd (free (Ref (length h))) (\<lambda>_. give (R_Matrix (szdb * k div szdb) ys)) ?s"
    unfolding cell_at [OF hd] len Let_def by (rule next_row)
  also have "\<dots> = Some (Inr (R_Matrix k ys), c, h @ replicate (nodes (RAggr Array ?vs)) None, w)"
    unfolding reply_steps by (simp add: give_def szdb_def)
  finally show ?thesis by (simp only: rows_reply_def)
qed

section \<open>Inputs that the methods cannot handle\<close>

lemma rows_value_empty: "rows_value (Ref (length h)) (c, h @ layout (length h) (RAggr Array []), w) = None"
proof -
  have ch: "checkReplyType (root (length h) (RAggr Array [])) replyArray_t = give ()"
    by (simp add: checkReplyType_def replyTypeToInteger_def replyArray_t_def aggr_cell_def reply_type_defs)
  have el: "elements (root (length h) (RAggr Array [])) = Some []" by (simp add: elements_def aggr_cell_def)
  show ?thesis unfolding rows_value_def cell_root' ch by (simp add: el undefined_behaviour_def del: root.simps)
qed

lemma zrange_words:
  assumes "answers X (command_text [''ZRANGE'', cstr key, cstr (rx_render X ''%d'' (VInt lo)), cstr (rx_render X ''%d'' (VInt hi))]) v scr"
    and "conn_idle c" and "oracle_gives w (scr @ rs)"
  obtains c' w' where "redisCommandNULLSafe X ''ZRANGE %s %d %d'' [VStr key, VInt lo, VInt hi] (c, h, w)
      = Some (Inr (Ref (length h)), c', h @ layout (length h) v, w')"
    and "conn_idle c'"
proof -
  let ?d = "\<lambda>i. [PConv CHR ''d'' (VInt i)]"
  let ?ws = "[literal ''ZRANGE'', [PStr key], ?d lo, ?d hi]"
  have f: "words_fmt ?ws = ''ZRANGE %s %d %d''" "concat (map word_ap ?ws) = [VStr key, VInt lo, VInt hi]"
    by (simp_all add: word_fmt_def word_ap_def literal_def)
  have p: "plain_word ''ZRANGE''" by (simp add: plain_word_def)
  have ok: "?ws \<noteq> []" "\<forall>w \<in> set ?ws. word_ok w" using literal_ok [OF p] by (simp_all add: word_ok_def)
  have nul: "NUL \<notin> set (words_fmt ?ws)" unfolding f by simp
  have "words_cmd X ?ws = command_text [''ZRANGE'', cstr key, cstr (rx_render X ''%d'' (VInt lo)), cstr (rx_render X ''%d'' (VInt hi))]"
    by (simp add: words_cmd_def word_val_def [of _ "[PStr key]"] word_val_def [of _ "?d _"])
  then have "answers X (words_cmd X ?ws) v scr" using assms(1) by simp
  from nullsafe_words [OF ok nul this assms(2,3)] f that show ?thesis by metis
qed

text \<open>The length of the first element is read even if there is none.\<close>

theorem zrange_empty:
  assumes "conn_idle c" and "oracle_gives w scr"
    and "answers X (command_text [''ZRANGE'', cstr key, cstr (rx_render X ''%d'' (VInt lo)), cstr (rx_render X ''%d'' (VInt hi))])
      (RAggr Array []) scr"
  shows "zrange X key lo hi (c, h, w) = None"
proof -
  have os: "oracle_gives w (scr @ [])" using assms(2) by simp
  obtain c' w' where "redisCommandNULLSafe X ''ZRANGE %s %d %d'' [VStr key, VInt lo, VInt hi] (c, h, w)
      = Some (Inr (Ref (length h)), c', h @ layout (length h) (RAggr Array []), w')"
    by (rule zrange_words [OF assms(3,1) os])
  then show ?thesis unfolding zrange_def by (simp only: bnd_ok rows_value_empty)
qed

theorem zrange_empty_witness:
  "\<exists>c scr. redisContextInit mem_ok = Some c \<and> length scr = 2
    \<and> zrange demo_rcpp ''k'' 0 1 (c\<lparr>rc_flags := REDIS_BLOCK\<rparr>, [], os_of scr) = None"
proof -
  let ?d = "\<lambda>i. cstr (rx_render demo_rcpp ''%d'' (VInt i))"
  let ?c = "command_text [''ZRANGE'', cstr ''k'', ?d 0, ?d 1]" and ?v = "RAggr Array []"
  let ?s = "[ret_send (length ?c), ret_recv (encode ?v)]"
  obtain c where c: "redisContextInit mem_ok = Some c" "conn_idle (c\<lparr>rc_flags := REDIS_BLOCK\<rparr>)" by (rule demo_idle)
  have k: "cstr ''k'' = ''k''" "?d i = []" for i by (simp_all add: cstr_def demo_rcpp_def)
  have a: "answers demo_rcpp ?c ?v ?s"
    unfolding k by (rule demo_answers) (simp_all add: not_push_def command_text_def bulk_def dec_small dec_int_def aggr_count_def)
  have "zrange demo_rcpp ''k'' 0 1 (c\<lparr>rc_flags := REDIS_BLOCK\<rparr>, [], os_of ?s) = None"
    by (rule zrange_empty [OF c(2) os_of_gives(1) a])
  with c(1) show ?thesis by (intro exI [of _ c] exI [of _ ?s]) simp
qed

text \<open>C38: Rows of equal length come back from \<open>zrange\<close> as the rows of a matrix, bit by bit and in the order of
  the server, with all cells of the reply released. But an empty range crashes it: when the server answers
  with an empty array (the key does not exist or no element lies in the range) the code reads the
  length of the first element, which is not there.\<close>

theorem zrange_rows:
  assumes "conn_idle c" and "oracle_gives w scr"
    and "answers X (command_text [''ZRANGE'', cstr key, cstr (rx_render X ''%d'' (VInt lo)), cstr (rx_render X ''%d'' (VInt hi))])
      (rows_reply ys) scr"
    and "\<forall>y \<in> set ys. length y = k"
  shows "if ys = [] then zrange X key lo hi (c, h, w) = None
    else \<exists>c' w'. zrange X key lo hi (c, h, w) = Some (Inr (R_Matrix k ys), c', h @ replicate (length ys + 1) None, w') \<and> conn_idle c'"
proof (cases ys)
  case Nil
  then show ?thesis using zrange_empty [OF assms(1,2)] assms(3) by (simp add: rows_reply_def)
next
  case (Cons y0 ys')
  have os: "oracle_gives w (scr @ [])" using assms(2) by simp
  obtain c' w' where e: "redisCommandNULLSafe X ''ZRANGE %s %d %d'' [VStr key, VInt lo, VInt hi] (c, h, w)
      = Some (Inr (Ref (length h)), c', h @ layout (length h) (rows_reply ys), w')" "conn_idle c'"
    by (rule zrange_words [OF assms(3,1) os])
  have y0: "y0 \<in> set ys" "length y0 = k" using Cons assms(4) by simp_all
  have n: "length ys < 2 ^ 32" using assms(3) by (simp add: answers_def rows_reply_def)
  have "length (vector_bytes y0) \<le> length (encode (rows_reply ys))" by (simp add: rows_reply_def Cons)
  then have "szdb * k < 2 ^ 32" using assms(3) y0(2) by (simp add: answers_def)
  from rows_value_layout [OF y0(1) assms(4) n this, of h c' w'] e(1)
  have "zrange X key lo hi (c, h, w) = Some (Inr (R_Matrix k ys), c', h @ replicate (length ys + 1) None, w')"
    unfolding zrange_def rows_nodes by (simp only: bnd_ok)
  with e(2) have "\<exists>c' w'. zrange X key lo hi (c, h, w) = Some (Inr (R_Matrix k ys), c', h @ replicate (length ys + 1) None, w') \<and> conn_idle c'"
    by blast
  then show ?thesis using Cons by simp
qed

theorem zrange_rows_witness:
  "\<exists>c c' w' scr. redisContextInit mem_ok = Some c
    \<and> zrange demo_rcpp ''k'' 0 1 (c\<lparr>rc_flags := REDIS_BLOCK\<rparr>, [], os_of scr)
      = Some (Inr (R_Matrix 2 [[1, 2], [3, 0x8000000000000000]]), c', [None, None, None], w')"
proof -
  let ?ys = "[[1, 2], [3, 0x8000000000000000]] :: double list list"
  let ?d = "\<lambda>i. cstr (rx_render demo_rcpp ''%d'' (VInt i))"
  let ?c = "command_text [''ZRANGE'', cstr ''k'', ?d 0, ?d 1]" and ?v = "rows_reply ?ys"
  let ?s = "[ret_send (length ?c), ret_recv (encode ?v)]"
  obtain c where c: "redisContextInit mem_ok = Some c" "conn_idle (c\<lparr>rc_flags := REDIS_BLOCK\<rparr>)" by (rule demo_idle)
  have k: "cstr ''k'' = ''k''" "?d i = []" for i by (simp_all add: cstr_def demo_rcpp_def)
  have d: "length (dec 16) = 2" by (simp add: dec.simps)
  have a: "answers demo_rcpp ?c ?v ?s"
    unfolding k by (rule demo_answers)
      (simp_all add: rows_reply_def not_push_def command_text_def bulk_def dec_small dec_int_def aggr_count_def szdb_def d)
  have n: "\<forall>y \<in> set ?ys. length y = 2" by simp
  from zrange_rows [OF c(2) os_of_gives(1) a n, of "[]"] c(1)
  show ?thesis by (auto simp: numeral_eq_Suc)
qed

lemma length_dec_bound: "length (dec n) \<le> n + 1"
  using length_dec_le [of n n] power_gt_expt [of 10 "Suc n"] by simp

text \<open>A conversion without an argument.\<close>

lemma format_missing:
  assumes "\<forall>n. granted M n" and "as \<noteq> []" and "\<forall>a \<in> set as. plain_word a" and "length (command_text as) < 2 ^ 31"
    and "NUL \<notin> set f"
  shows "redisvFormatCommand render M (unwords as @ ''%s'' @ f) [] = None"
proof -
  obtain e where e: "sdsempty M = Some e" using sdsnewlen_granted [OF assms(1)] by (auto simp: sdsempty_def)
  let ?s = "\<lparr>f_curarg = e, f_touched = False, f_argv = [], f_totlen = 0\<rparr>" and ?ws = "map literal as"
  have s: "fstate_ok ?s [] []" "\<not> f_touched ?s" using sdsempty_wf [OF e] by (simp_all add: fstate_ok_def)
  have ws: "?ws \<noteq> []" "\<forall>w \<in> set ?ws. word_ok w" using assms(2,3) literal_ok by auto
  have len: "length (concat (map bulk ([] @ map (word_val render) ?ws))) < 2 ^ 31"
    using assms(4) unfolding words_literal by (simp add: command_text_def)
  obtain s' where "format_loop render M ?s (words_fmt ?ws @ ''%s'' @ f) (concat (map word_ap ?ws) @ []) = format_loop render M s' (''%s'' @ f) []"
    by (rule words_step [OF assms(1) ws s len, of "''%s'' @ f" "[]"])
  then have "format_loop render M ?s (unwords as @ ''%s'' @ f) [] = FUndef"
    unfolding words_literal by (simp add: format_loop.simps directive_def)
  moreover have "NUL \<notin> set (unwords as @ ''%s'' @ f)" using unwords_NUL [OF assms(3)] assms(5) by simp
  then have "cstr (unwords as @ ''%s'' @ f) = unwords as @ ''%s'' @ f" by (rule cstr_id)
  ultimately show ?thesis by (simp add: redisvFormatCommand_def e)
qed

text \<open>C37: Keys are taken for format strings. \<open>exists\<close>, like \<open>expire\<close>, \<open>del\<close> and the password of the constructor,
  pastes its argument into the format of \<open>redisvCommand\<close>, so a key that contains \<open>%s\<close> makes it read an
  argument that was never passed.\<close>

theorem exists_format:
  assumes "\<forall>n. granted (rx_mem X) n" and "plain_word k" and "length k < 2 ^ 29" and "NUL \<notin> set f"
  shows "exists X (k @ ''%s'' @ f) s = None"
proof -
  let ?as = "[''EXISTS'', k]"
  have as: "?as \<noteq> []" "\<forall>a \<in> set ?as. plain_word a" using assms(2) by (simp_all add: plain_word_def)
  have "length (dec (length k)) \<le> length k + 1" by (rule length_dec_bound)
  then have len: "length (command_text ?as) < 2 ^ 31"
    using assms(3) by (simp add: command_text_def bulk_def dec_small)
  have cmd: "''EXISTS '' @ k @ ''%s'' @ f = unwords ?as @ ''%s'' @ f" by simp
  have "NUL \<notin> set (''EXISTS '' @ k @ ''%s'' @ f)" using assms(2,4) by (simp add: plain_word_def)
  then have c: "cstr (''EXISTS '' @ k @ ''%s'' @ f) = unwords ?as @ ''%s'' @ f" unfolding cmd by (rule cstr_id)
  have "redisvFormatCommand (rx_render X) (rx_mem X) (unwords ?as @ ''%s'' @ f) [] = None"
    by (rule format_missing [OF assms(1) as len assms(4)])
  then show ?thesis
    unfolding exists_def exec_def c
    by (cases s) (simp add: redisCommandNULLSafe_def redisvCommand_def redisvAppendCommand_def bnd_def)
qed

theorem exists_format_witness:
  "\<exists>c. redisContextInit mem_ok = Some c
    \<and> exists demo_rcpp ''user%sname'' (c\<lparr>rc_flags := REDIS_BLOCK\<rparr>, [], os_of []) = None"
proof -
  obtain c where c: "redisContextInit mem_ok = Some c" "conn_idle (c\<lparr>rc_flags := REDIS_BLOCK\<rparr>)" by (rule demo_idle)
  have "\<forall>n. granted (rx_mem demo_rcpp) n" "plain_word ''user''" "length ''user'' < 2 ^ 29" "NUL \<notin> set ''name''"
    by (simp_all add: plain_word_def demo_rcpp_def)
  from exists_format [OF this, of "(c\<lparr>rc_flags := REDIS_BLOCK\<rparr>, [], os_of [])"] c(1) show ?thesis by auto
qed

section \<open>The module\<close>

text \<open>Every name stands for the method of that name, but for two: what R calls \<open>psubscribe\<close> and \<open>unsubscribe\<close> sends SUBSCRIBE.\<close>

lemma module_misbound:
  "filter (\<lambda>(name, method). name \<noteq> method) module_methods = [(''psubscribe'', ''subscribe''), (''unsubscribe'', ''subscribe'')]"
  "channel_method ''psubscribe'' = Some subscribe" "channel_method ''unsubscribe'' = Some subscribe"
  by (simp_all add: module_methods_def channel_method_def)

end
