(* ===== verification/Sockcompat.thy ===== *)
theory Sockcompat
  imports Net
begin

text \<open>
  The Windows side of \<open>src/src/hiredis/sockcompat.c\<close>: wrappers that give Winsock calls the names, results
  and error numbers of the socket calls that \<open>net.c\<close> is written for. Winsock is a parameter: the calls
  with their results, and the error of the last call. \<open>long\<close> has 32 bits here. \<open>None\<close> is undefined behaviour.
\<close>

section \<open>Error numbers\<close>

text \<open>The codes of \<open>winsock2.h\<close> and \<open>ws2tcpip.h\<close> that the code names.\<close>

definition SOCKET_ERROR :: int where "SOCKET_ERROR = -1"
definition INVALID_SOCKET :: int where "INVALID_SOCKET = -1"
definition WSAEFAULT :: int where "WSAEFAULT = 10014"
definition WSAEINVAL :: int where "WSAEINVAL = 10022"
definition WSAEWOULDBLOCK :: int where "WSAEWOULDBLOCK = 10035"
definition WSAEINPROGRESS :: int where "WSAEINPROGRESS = 10036"
definition WSAEALREADY :: int where "WSAEALREADY = 10037"
definition WSAENOTSOCK :: int where "WSAENOTSOCK = 10038"
definition WSAEDESTADDRREQ :: int where "WSAEDESTADDRREQ = 10039"
definition WSAEMSGSIZE :: int where "WSAEMSGSIZE = 10040"
definition WSAEPROTOTYPE :: int where "WSAEPROTOTYPE = 10041"
definition WSAENOPROTOOPT :: int where "WSAENOPROTOOPT = 10042"
definition WSAEPROTONOSUPPORT :: int where "WSAEPROTONOSUPPORT = 10043"
definition WSAESOCKTNOSUPPORT :: int where "WSAESOCKTNOSUPPORT = 10044"
definition WSAEOPNOTSUPP :: int where "WSAEOPNOTSUPP = 10045"
definition WSAEAFNOSUPPORT :: int where "WSAEAFNOSUPPORT = 10047"
definition WSAEADDRINUSE :: int where "WSAEADDRINUSE = 10048"
definition WSAEADDRNOTAVAIL :: int where "WSAEADDRNOTAVAIL = 10049"
definition WSAENETDOWN :: int where "WSAENETDOWN = 10050"
definition WSAENETUNREACH :: int where "WSAENETUNREACH = 10051"
definition WSAENETRESET :: int where "WSAENETRESET = 10052"
definition WSAECONNABORTED :: int where "WSAECONNABORTED = 10053"
definition WSAECONNRESET :: int where "WSAECONNRESET = 10054"
definition WSAENOBUFS :: int where "WSAENOBUFS = 10055"
definition WSAEISCONN :: int where "WSAEISCONN = 10056"
definition WSAENOTCONN :: int where "WSAENOTCONN = 10057"
definition WSAETIMEDOUT :: int where "WSAETIMEDOUT = 10060"
definition WSAECONNREFUSED :: int where "WSAECONNREFUSED = 10061"
definition WSAELOOP :: int where "WSAELOOP = 10062"
definition WSAENAMETOOLONG :: int where "WSAENAMETOOLONG = 10063"
definition WSAEHOSTUNREACH :: int where "WSAEHOSTUNREACH = 10065"
definition WSAENOTEMPTY :: int where "WSAENOTEMPTY = 10066"
definition WSATRY_AGAIN :: int where "WSATRY_AGAIN = 11002"
definition WSANO_RECOVERY :: int where "WSANO_RECOVERY = 11003"
definition WSA_NOT_ENOUGH_MEMORY :: int where "WSA_NOT_ENOUGH_MEMORY = 8"
definition WSAHOST_NOT_FOUND :: int where "WSAHOST_NOT_FOUND = 11001"
definition WSATYPE_NOT_FOUND :: int where "WSATYPE_NOT_FOUND = 10109"

text \<open>The resolver's codes under their POSIX names; \<open>ws2tcpip.h\<close> defines them as those above.\<close>

definition EAI_AGAIN :: int where "EAI_AGAIN = WSATRY_AGAIN"
definition EAI_BADFLAGS :: int where "EAI_BADFLAGS = WSAEINVAL"
definition EAI_FAIL :: int where "EAI_FAIL = WSANO_RECOVERY"
definition EAI_FAMILY :: int where "EAI_FAMILY = WSAEAFNOSUPPORT"
definition EAI_MEMORY :: int where "EAI_MEMORY = WSA_NOT_ENOUGH_MEMORY"
definition EAI_NONAME :: int where "EAI_NONAME = WSAHOST_NOT_FOUND"
definition EAI_SERVICE :: int where "EAI_SERVICE = WSATYPE_NOT_FOUND"
definition EAI_SOCKTYPE :: int where "EAI_SOCKTYPE = WSAESOCKTNOSUPPORT"

lemmas wsa_codes = SOCKET_ERROR_def INVALID_SOCKET_def WSAEFAULT_def WSAEINVAL_def WSAEWOULDBLOCK_def WSAEINPROGRESS_def
  WSAEALREADY_def WSAENOTSOCK_def WSAEDESTADDRREQ_def WSAEMSGSIZE_def WSAEPROTOTYPE_def WSAENOPROTOOPT_def
  WSAEPROTONOSUPPORT_def WSAESOCKTNOSUPPORT_def WSAEOPNOTSUPP_def WSAEAFNOSUPPORT_def WSAEADDRINUSE_def
  WSAEADDRNOTAVAIL_def WSAENETDOWN_def WSAENETUNREACH_def WSAENETRESET_def WSAECONNABORTED_def WSAECONNRESET_def
  WSAENOBUFS_def WSAEISCONN_def WSAENOTCONN_def WSAETIMEDOUT_def WSAECONNREFUSED_def WSAELOOP_def WSAENAMETOOLONG_def
  WSAEHOSTUNREACH_def WSAENOTEMPTY_def WSATRY_AGAIN_def WSANO_RECOVERY_def WSA_NOT_ENOUGH_MEMORY_def
  WSAHOST_NOT_FOUND_def WSATYPE_NOT_FOUND_def
lemmas eai_codes = EAI_AGAIN_def EAI_BADFLAGS_def EAI_FAIL_def EAI_FAMILY_def EAI_MEMORY_def EAI_NONAME_def
  EAI_SERVICE_def EAI_SOCKTYPE_def

text \<open>The numbers of \<open>errno.h\<close> that have no name in \<open>net.c\<close>.\<close>

definition EIO :: errno where "EIO = EOTHER 5"
definition ENAMETOOLONG :: errno where "ENAMETOOLONG = EOTHER 38"
definition ENOTEMPTY :: errno where "ENOTEMPTY = EOTHER 41"
definition EADDRINUSE :: errno where "EADDRINUSE = EOTHER 100"
definition EAFNOSUPPORT :: errno where "EAFNOSUPPORT = EOTHER 102"
definition ECONNABORTED :: errno where "ECONNABORTED = EOTHER 106"
definition ECONNREFUSED :: errno where "ECONNREFUSED = EOTHER 107"
definition ECONNRESET :: errno where "ECONNRESET = EOTHER 108"
definition EDESTADDRREQ :: errno where "EDESTADDRREQ = EOTHER 109"
definition ELOOP :: errno where "ELOOP = EOTHER 114"
definition EMSGSIZE :: errno where "EMSGSIZE = EOTHER 115"
definition ENETDOWN :: errno where "ENETDOWN = EOTHER 116"
definition ENETRESET :: errno where "ENETRESET = EOTHER 117"
definition ENETUNREACH :: errno where "ENETUNREACH = EOTHER 118"
definition ENOBUFS :: errno where "ENOBUFS = EOTHER 119"
definition ENOPROTOOPT :: errno where "ENOPROTOOPT = EOTHER 123"
definition ENOTCONN :: errno where "ENOTCONN = EOTHER 126"
definition ENOTSOCK :: errno where "ENOTSOCK = EOTHER 128"
definition EOPNOTSUPP :: errno where "EOPNOTSUPP = EOTHER 130"
definition EPROTONOSUPPORT :: errno where "EPROTONOSUPPORT = EOTHER 135"
definition EPROTOTYPE :: errno where "EPROTOTYPE = EOTHER 136"

lemmas errno_codes = EIO_def ENAMETOOLONG_def ENOTEMPTY_def EADDRINUSE_def EAFNOSUPPORT_def ECONNABORTED_def
  ECONNREFUSED_def ECONNRESET_def EDESTADDRREQ_def ELOOP_def EMSGSIZE_def ENETDOWN_def ENETRESET_def ENETUNREACH_def
  ENOBUFS_def ENOPROTOOPT_def ENOTCONN_def ENOTSOCK_def EOPNOTSUPP_def EPROTONOSUPPORT_def EPROTOTYPE_def

text \<open>The cases of \<open>_wsaErrorToErrno\<close>.\<close>

definition wsa_errnos :: "(int \<times> errno) list" where
  "wsa_errnos =
     [(WSAEWOULDBLOCK, EWOULDBLOCK), (WSAEINPROGRESS, EINPROGRESS), (WSAEALREADY, EALREADY), (WSAENOTSOCK, ENOTSOCK),
      (WSAEDESTADDRREQ, EDESTADDRREQ), (WSAEMSGSIZE, EMSGSIZE), (WSAEPROTOTYPE, EPROTOTYPE),
      (WSAENOPROTOOPT, ENOPROTOOPT), (WSAEPROTONOSUPPORT, EPROTONOSUPPORT), (WSAEOPNOTSUPP, EOPNOTSUPP),
      (WSAEAFNOSUPPORT, EAFNOSUPPORT), (WSAEADDRINUSE, EADDRINUSE), (WSAEADDRNOTAVAIL, EADDRNOTAVAIL),
      (WSAENETDOWN, ENETDOWN), (WSAENETUNREACH, ENETUNREACH), (WSAENETRESET, ENETRESET),
      (WSAECONNABORTED, ECONNABORTED), (WSAECONNRESET, ECONNRESET), (WSAENOBUFS, ENOBUFS), (WSAEISCONN, EISCONN),
      (WSAENOTCONN, ENOTCONN), (WSAETIMEDOUT, ETIMEDOUT), (WSAECONNREFUSED, ECONNREFUSED), (WSAELOOP, ELOOP),
      (WSAENAMETOOLONG, ENAMETOOLONG), (WSAEHOSTUNREACH, EHOSTUNREACH), (WSAENOTEMPTY, ENOTEMPTY)]"

definition wsaErrorToErrno :: "int \<Rightarrow> errno" where
  "wsaErrorToErrno err = (case map_of wsa_errnos err of Some e \<Rightarrow> e | None \<Rightarrow> EIO)"

section \<open>Winsock\<close>

datatype wscall =
    Ws_getaddrinfo "bytes option" "bytes option"
  | Ws_socket int int int
  | Ws_ioctlsocket int nat nat
  | Ws_bind int bytes
  | Ws_connect int bytes
  | Ws_getsockopt int int int nat
  | Ws_setsockopt int int int bytes
  | Ws_closesocket int
  | Ws_recv int int int
  | Ws_send int bytes int int
  | Ws_poll "int list" int

text \<open>A result: the value, and the bytes, or addresses, that were written through the pointers.\<close>

record wsret =
  wr_val :: int
  wr_data :: bytes
  wr_addrs :: "addrinfo list"

record 'w winsock =
  ws_startup :: "'w \<Rightarrow> int \<times> 'w"
  ws_call :: "wscall \<Rightarrow> 'w \<Rightarrow> wsret \<times> 'w"
  ws_last_error :: "'w \<Rightarrow> int"
  ws_gai_strerror :: "int \<Rightarrow> bytes"

text \<open>\<open>errno\<close> (\<open>None\<close> is 0), the static variable of \<open>_initWinsock\<close>, and Winsock.\<close>

record 'w win =
  wn_errno :: "errno option"
  wn_initialized :: bool
  wn_ws :: 'w

definition updateErrno :: "'w winsock \<Rightarrow> bool \<Rightarrow> 'w win \<Rightarrow> 'w win" where
  "updateErrno W success s =
     s\<lparr>wn_errno := (if success then None else Some (wsaErrorToErrno (ws_last_error W (wn_ws s))))\<rparr>"

definition initWinsock :: "'w winsock \<Rightarrow> 'w win \<Rightarrow> bool \<times> 'w win" where
  "initWinsock W s =
     (if \<not> wn_initialized s then
        let (err, w) = ws_startup W (wn_ws s); s = s\<lparr>wn_ws := w\<rparr>
        in if err \<noteq> 0 then (False, s\<lparr>wn_errno := Some (wsaErrorToErrno err)\<rparr>)
           else (True, s\<lparr>wn_initialized := True\<rparr>)
      else (True, s))"

text \<open>One call, then \<open>_updateErrno(ret != SOCKET_ERROR)\<close> and \<open>ret != SOCKET_ERROR ? ret : -1\<close>.\<close>

definition winsock_call :: "'w winsock \<Rightarrow> wscall \<Rightarrow> 'w win \<Rightarrow> wsret \<times> 'w win" where
  "winsock_call W k s =
     (let (r, w) = ws_call W k (wn_ws s); s = updateErrno W (wr_val r \<noteq> SOCKET_ERROR) (s\<lparr>wn_ws := w\<rparr>)
      in (r\<lparr>wr_val := (if wr_val r \<noteq> SOCKET_ERROR then wr_val r else -1)\<rparr>, s))"

section \<open>The wrappers\<close>

definition win32_getaddrinfo :: "'w winsock \<Rightarrow> bytes option \<Rightarrow> bytes option \<Rightarrow> 'w win \<Rightarrow> (int \<times> addrinfo list) \<times> 'w win" where
  "win32_getaddrinfo W node service s =
     (let (ok, s) = initWinsock W s
      in if \<not> ok then ((EAI_FAIL, []), s)
         else
           let (r, w) = ws_call W (Ws_getaddrinfo node service) (wn_ws s); e = wr_val r
           in ((if e = 0 then 0
                else if e = WSATRY_AGAIN then EAI_AGAIN
                else if e = WSAEINVAL then EAI_BADFLAGS
                else if e = WSAEAFNOSUPPORT then EAI_FAMILY
                else if e = WSA_NOT_ENOUGH_MEMORY then EAI_MEMORY
                else if e = WSAHOST_NOT_FOUND then EAI_NONAME
                else if e = WSATYPE_NOT_FOUND then EAI_SERVICE
                else if e = WSAESOCKTNOSUPPORT then EAI_SOCKTYPE
                else EAI_FAIL, wr_addrs r), s\<lparr>wn_ws := w\<rparr>))"

definition win32_gai_strerror :: "'w winsock \<Rightarrow> int \<Rightarrow> bytes" where
  "win32_gai_strerror W errcode = ws_gai_strerror W
     (if errcode = 0 then 0
      else if errcode = EAI_AGAIN then WSATRY_AGAIN
      else if errcode = EAI_BADFLAGS then WSAEINVAL
      else if errcode = EAI_FAMILY then WSAEAFNOSUPPORT
      else if errcode = EAI_MEMORY then WSA_NOT_ENOUGH_MEMORY
      else if errcode = EAI_NONAME then WSAHOST_NOT_FOUND
      else if errcode = EAI_SERVICE then WSATYPE_NOT_FOUND
      else if errcode = EAI_SOCKTYPE then WSAESOCKTNOSUPPORT
      else WSANO_RECOVERY)"

definition win32_socket :: "'w winsock \<Rightarrow> int \<Rightarrow> int \<Rightarrow> int \<Rightarrow> 'w win \<Rightarrow> int \<times> 'w win" where
  "win32_socket W domain type protocol s =
     (let (ok, s) = initWinsock W s
      in if \<not> ok then (INVALID_SOCKET, s)
         else
           let (r, w) = ws_call W (Ws_socket domain type protocol) (wn_ws s)
           in (wr_val r, updateErrno W (wr_val r \<noteq> INVALID_SOCKET) (s\<lparr>wn_ws := w\<rparr>)))"

definition win32_ioctl :: "'w winsock \<Rightarrow> int \<Rightarrow> nat \<Rightarrow> nat \<Rightarrow> 'w win \<Rightarrow> wsret \<times> 'w win" where
  "win32_ioctl W fd request arg = winsock_call W (Ws_ioctlsocket fd request arg)"

definition win32_bind :: "'w winsock \<Rightarrow> int \<Rightarrow> bytes \<Rightarrow> 'w win \<Rightarrow> wsret \<times> 'w win" where
  "win32_bind W sockfd addr = winsock_call W (Ws_bind sockfd addr)"

definition win32_connect :: "'w winsock \<Rightarrow> int \<Rightarrow> bytes \<Rightarrow> 'w win \<Rightarrow> wsret \<times> 'w win" where
  "win32_connect W sockfd addr s =
     (let (r, s) = winsock_call W (Ws_connect sockfd addr) s
      in (r, if wn_errno s = Some EWOULDBLOCK then s\<lparr>wn_errno := Some EINPROGRESS\<rparr> else s))"

definition win32_close :: "'w winsock \<Rightarrow> int \<Rightarrow> 'w win \<Rightarrow> wsret \<times> 'w win" where
  "win32_close W fd = winsock_call W (Ws_closesocket fd)"

text \<open>The length is converted to \<open>int\<close>.\<close>

definition win32_recv :: "'w winsock \<Rightarrow> int \<Rightarrow> nat \<Rightarrow> int \<Rightarrow> 'w win \<Rightarrow> wsret \<times> 'w win" where
  "win32_recv W sockfd len flags = winsock_call W (Ws_recv sockfd (sbits 32 (int len)) flags)"

definition win32_send :: "'w winsock \<Rightarrow> int \<Rightarrow> bytes \<Rightarrow> int \<Rightarrow> 'w win \<Rightarrow> wsret \<times> 'w win" where
  "win32_send W sockfd buf flags = winsock_call W (Ws_send sockfd buf (sbits 32 (int (length buf))) flags)"

definition win32_poll :: "'w winsock \<Rightarrow> int list \<Rightarrow> int \<Rightarrow> 'w win \<Rightarrow> wsret \<times> 'w win" where
  "win32_poll W fds timeout = winsock_call W (Ws_poll fds timeout)"

text \<open>Options; timeouts are converted between \<open>struct timeval\<close> and milliseconds in a \<open>DWORD\<close>.\<close>

definition SOL_SOCKET :: int where "SOL_SOCKET = 0xffff"
definition OPT_SNDTIMEO :: int where "OPT_SNDTIMEO = 0x1005"
definition OPT_RCVTIMEO :: int where "OPT_RCVTIMEO = 0x1006"

primrec le_bytes :: "nat \<Rightarrow> nat \<Rightarrow> bytes" where
  "le_bytes 0 n = []"
| "le_bytes (Suc k) n = char_of (n mod 256) # le_bytes k (n div 256)"

primrec bytes_le :: "bytes \<Rightarrow> nat" where
  "bytes_le [] = 0"
| "bytes_le (c # cs) = of_char c + 256 * bytes_le cs"

datatype optarg = Opt_bytes bytes | Opt_timeval timeval

text \<open>A \<open>timeval\<close> is two \<open>long\<close>s, so eight bytes.\<close>

definition win32_getsockopt ::
  "'w winsock \<Rightarrow> int \<Rightarrow> int \<Rightarrow> int \<Rightarrow> nat \<Rightarrow> 'w win \<Rightarrow> (int \<times> optarg option \<times> nat) \<times> 'w win" where
  "win32_getsockopt W sockfd level optname optlen s =
     (if level = SOL_SOCKET \<and> (optname = OPT_RCVTIMEO \<or> optname = OPT_SNDTIMEO) then
        let (ret, tv, s) =
              (if 8 \<le> optlen then
                 let (r, w) = ws_call W (Ws_getsockopt sockfd level optname 0) (wn_ws s);
                     timeout = bytes_le (take 4 (wr_data r))
                 in (wr_val r, Some (Opt_timeval \<lparr>tv_sec = int (timeout div 1000),
                       tv_usec = int (ubits 32 (timeout * 1000) mod 1000000)\<rparr>), s\<lparr>wn_ws := w\<rparr>)
               else (WSAEFAULT, None, s));
            s = updateErrno W (ret \<noteq> SOCKET_ERROR) s
        in ((if ret \<noteq> SOCKET_ERROR then ret else -1, tv, 8), s)
      else
        let (r, s) = winsock_call W (Ws_getsockopt sockfd level optname optlen) s
        in ((wr_val r, Some (Opt_bytes (wr_data r)), length (wr_data r)), s))"

definition win32_setsockopt ::
  "'w winsock \<Rightarrow> int \<Rightarrow> int \<Rightarrow> int \<Rightarrow> optarg \<Rightarrow> 'w win \<Rightarrow> (wsret \<times> 'w win) option" where
  "win32_setsockopt W sockfd level optname optval s =
     (if level = SOL_SOCKET \<and> (optname = OPT_RCVTIMEO \<or> optname = OPT_SNDTIMEO) then
        (case optval of
           Opt_bytes b \<Rightarrow> None
         | Opt_timeval tv \<Rightarrow>
             let ms = tv_sec tv * 1000 + tv_usec tv sdiv 1000
             in if sbits 32 (tv_sec tv * 1000) \<noteq> tv_sec tv * 1000 \<or> sbits 32 ms \<noteq> ms then None
                else Some (winsock_call W (Ws_setsockopt sockfd level optname (le_bytes 4 (nat (ms mod 2 ^ 32)))) s))
      else
        (case optval of
           Opt_bytes b \<Rightarrow> Some (winsock_call W (Ws_setsockopt sockfd level optname b) s)
         | Opt_timeval tv \<Rightarrow> None))"

section \<open>Calls as POSIX has them\<close>

text \<open>The contract of a wrapped call: it fails with -1 and an error number of \<open>errno.h\<close> exactly when Winsock
  reports \<open>SOCKET_ERROR\<close>. \<open>adjust\<close> is what a wrapper changes about the number.\<close>

locale bsd_call =
  fixes W :: "'w winsock" and k :: wscall and adjust :: "errno \<Rightarrow> errno" and call :: "'w win \<Rightarrow> wsret \<times> 'w win"
  assumes failed: "ws_call W k (wn_ws s) = (r, w) \<Longrightarrow> wr_val r = SOCKET_ERROR \<Longrightarrow>
      call s = (r\<lparr>wr_val := -1\<rparr>, s\<lparr>wn_ws := w, wn_errno := Some (adjust (wsaErrorToErrno (ws_last_error W w)))\<rparr>)"
    and succeeded: "ws_call W k (wn_ws s) = (r, w) \<Longrightarrow> wr_val r \<noteq> SOCKET_ERROR \<Longrightarrow>
      call s = (r, s\<lparr>wn_ws := w, wn_errno := None\<rparr>)"
begin

lemma fails_iff: "wr_val (fst (call s)) = -1 \<longleftrightarrow> wr_val (fst (ws_call W k (wn_ws s))) = SOCKET_ERROR"
  and errno_iff: "wn_errno (snd (call s)) = None \<longleftrightarrow> wr_val (fst (call s)) \<noteq> -1"
  and errno_is: "wn_errno (snd (call s)) = Some e
    \<longleftrightarrow> wr_val (fst (call s)) = -1 \<and> adjust (wsaErrorToErrno (ws_last_error W (wn_ws (snd (call s))))) = e"
  and keeps: "wn_initialized (snd (call s)) = wn_initialized s"
proof -
  obtain r w where rw: "ws_call W k (wn_ws s) = (r, w)" by force
  show "wr_val (fst (call s)) = -1 \<longleftrightarrow> wr_val (fst (ws_call W k (wn_ws s))) = SOCKET_ERROR"
    "wn_errno (snd (call s)) = None \<longleftrightarrow> wr_val (fst (call s)) \<noteq> -1"
    "wn_errno (snd (call s)) = Some e
      \<longleftrightarrow> wr_val (fst (call s)) = -1 \<and> adjust (wsaErrorToErrno (ws_last_error W (wn_ws (snd (call s))))) = e"
    "wn_initialized (snd (call s)) = wn_initialized s"
    using failed [OF rw] succeeded [OF rw] rw
    by (cases "wr_val r = SOCKET_ERROR"; simp add: SOCKET_ERROR_def)+
qed

end

lemma winsock_call_law: "bsd_call W k id (winsock_call W k)"
  by unfold_locales (simp_all add: winsock_call_def updateErrno_def)

definition connecting :: "errno \<Rightarrow> errno" where
  "connecting e = (if e = EWOULDBLOCK then EINPROGRESS else e)"

interpretation ioctl_call: bsd_call W "Ws_ioctlsocket fd request arg" id "win32_ioctl W fd request arg" for W fd request arg
  unfolding win32_ioctl_def by (rule winsock_call_law)

interpretation bind_call: bsd_call W "Ws_bind sockfd addr" id "win32_bind W sockfd addr" for W sockfd addr
  unfolding win32_bind_def by (rule winsock_call_law)

interpretation connect_call: bsd_call W "Ws_connect sockfd addr" connecting "win32_connect W sockfd addr" for W sockfd addr
  by unfold_locales (simp_all add: win32_connect_def winsock_call_def updateErrno_def connecting_def)

interpretation close_call: bsd_call W "Ws_closesocket fd" id "win32_close W fd" for W fd
  unfolding win32_close_def by (rule winsock_call_law)

interpretation recv_call: bsd_call W "Ws_recv sockfd (sbits 32 (int len)) flags" id "win32_recv W sockfd len flags" for W sockfd len flags
  unfolding win32_recv_def by (rule winsock_call_law)

interpretation send_call: bsd_call W "Ws_send sockfd buf (sbits 32 (int (length buf))) flags" id "win32_send W sockfd buf flags"
  for W sockfd buf flags
  unfolding win32_send_def by (rule winsock_call_law)

interpretation poll_call: bsd_call W "Ws_poll fds timeout" id "win32_poll W fds timeout" for W fds timeout
  unfolding win32_poll_def by (rule winsock_call_law)

text \<open>Each error has its own number, and \<open>EIO\<close> stands for the rest.\<close>

lemma wsa_errnos_distinct: "distinct (map fst wsa_errnos)" "distinct (map snd wsa_errnos)" "EIO \<notin> set (map snd wsa_errnos)"
  by (simp_all add: wsa_errnos_def wsa_codes errno_codes)

lemma wsaErrorToErrno_iff:
  assumes "(a, e) \<in> set wsa_errnos" shows "wsaErrorToErrno b = e \<longleftrightarrow> b = a"
proof
  assume "b = a"
  then show "wsaErrorToErrno b = e" using map_of_is_SomeI [OF wsa_errnos_distinct(1) assms] by (simp add: wsaErrorToErrno_def)
next
  assume b: "wsaErrorToErrno b = e"
  have "e \<noteq> EIO" using wsa_errnos_distinct(3) assms by (force simp: image_iff)
  then obtain "map_of wsa_errnos b = Some e" using b by (auto simp: wsaErrorToErrno_def split: option.splits)
  then have "(b, e) \<in> set wsa_errnos" by (rule map_of_SomeD)
  with assms show "b = a" using wsa_errnos_distinct(2) by (metis distinct_map eq_key_imp_eq_value inj_onD snd_conv prod.inject)
qed



section \<open>Name resolution and timeouts\<close>

text \<open>The text of an error of the resolver is that of the Winsock error it came from, if that has a name.\<close>

lemma win32_gai_roundtrip:
  assumes "win32_getaddrinfo W node service s = ((code, as), s')" and "wn_initialized s"
    and "ws_call W (Ws_getaddrinfo node service) (wn_ws s) = (r, w)"
  shows "win32_gai_strerror W code = ws_gai_strerror W
    (if wr_val r \<in> {0, WSATRY_AGAIN, WSAEINVAL, WSAEAFNOSUPPORT, WSA_NOT_ENOUGH_MEMORY, WSAHOST_NOT_FOUND, WSATYPE_NOT_FOUND,
       WSAESOCKTNOSUPPORT} then wr_val r else WSANO_RECOVERY)"
  using assms by (auto simp: win32_getaddrinfo_def win32_gai_strerror_def initWinsock_def eai_codes wsa_codes)

text \<open>A timeout below a millisecond is passed on as 0, which is no timeout at all.\<close>

lemma win32_short_timeout:
  assumes "0 \<le> tv_usec tv" and "tv_usec tv < 1000" and "tv_sec tv = 0" and "opt = OPT_RCVTIMEO \<or> opt = OPT_SNDTIMEO"
  shows "win32_setsockopt W fd SOL_SOCKET opt (Opt_timeval tv) s = Some (winsock_call W (Ws_setsockopt fd SOL_SOCKET opt (le_bytes 4 0)) s)"
proof -
  have "tv_usec tv sdiv 1000 = 0" using assms(1,2) by (simp add: signed_divide_int_def)
  then show ?thesis using assms(3,4) by (auto simp: win32_setsockopt_def)
qed

text \<open>Reading a timeout back gives 0 when Winsock writes no more bytes than it has room for, because the length
  passed to it is 0.\<close>

lemma win32_timeout_unread:
  assumes "8 \<le> len" and "opt = OPT_RCVTIMEO \<or> opt = OPT_SNDTIMEO"
    and "length (wr_data (fst (ws_call W (Ws_getsockopt fd SOL_SOCKET opt 0) (wn_ws s)))) \<le> 0"
  shows "fst (snd (fst (win32_getsockopt W fd SOL_SOCKET opt len s))) = Some (Opt_timeval \<lparr>tv_sec = 0, tv_usec = 0\<rparr>)"
  using assms by (auto simp: win32_getsockopt_def split: prod.splits)

end
