(* ===== verification/Alloc.thy ===== *)
theory Alloc
  imports Prelude
begin

text \<open>
  The allocator hooks of \<open>alloc.c\<close> and \<open>alloc.h\<close>: a global table of function pointers, by default those of the
  C library, which the program may exchange. The memory is of any type \<open>'m\<close> and pointers of any type
  \<open>'p\<close>, \<open>None\<close> is NULL; the functions of the C library are a parameter. The other theories call the hooks through
  \<open>mem\<close>, which says what a request is answered with.
\<close>

section \<open>The table\<close>

record ('p, 'm) hiredisAllocFuncs =
  mallocFn :: "nat \<Rightarrow> 'm \<Rightarrow> 'p option \<times> 'm"
  callocFn :: "nat \<Rightarrow> nat \<Rightarrow> 'm \<Rightarrow> 'p option \<times> 'm"
  reallocFn :: "'p option \<Rightarrow> nat \<Rightarrow> 'm \<Rightarrow> 'p option \<times> 'm"
  strdupFn :: "'p \<Rightarrow> 'm \<Rightarrow> 'p option \<times> 'm"
  freeFn :: "'p option \<Rightarrow> 'm \<Rightarrow> 'm"

record ('p, 'm) process =
  hiredisAllocFns :: "('p, 'm) hiredisAllocFuncs"
  memory :: 'm

definition alloc_start :: "('p, 'm) hiredisAllocFuncs \<Rightarrow> 'm \<Rightarrow> ('p, 'm) process" where
  "alloc_start libc m = \<lparr>hiredisAllocFns = libc, memory = m\<rparr>"

definition hiredisSetAllocators ::
  "('p, 'm) hiredisAllocFuncs \<Rightarrow> ('p, 'm) process \<Rightarrow> ('p, 'm) hiredisAllocFuncs \<times> ('p, 'm) process" where
  "hiredisSetAllocators override s = (let orig = hiredisAllocFns s in (orig, s\<lparr>hiredisAllocFns := override\<rparr>))"

definition hiredisResetAllocators :: "('p, 'm) hiredisAllocFuncs \<Rightarrow> ('p, 'm) process \<Rightarrow> ('p, 'm) process" where
  "hiredisResetAllocators libc s = s\<lparr>hiredisAllocFns := libc\<rparr>"

section \<open>The calls\<close>

definition hi_malloc :: "nat \<Rightarrow> ('p, 'm) process \<Rightarrow> 'p option \<times> ('p, 'm) process" where
  "hi_malloc sz s = (let (p, m) = mallocFn (hiredisAllocFns s) sz (memory s) in (p, s\<lparr>memory := m\<rparr>))"

definition hi_calloc :: "nat \<Rightarrow> nat \<Rightarrow> ('p, 'm) process \<Rightarrow> 'p option \<times> ('p, 'm) process" where
  "hi_calloc nmemb sz s = (let (p, m) = callocFn (hiredisAllocFns s) nmemb sz (memory s) in (p, s\<lparr>memory := m\<rparr>))"

definition hi_realloc :: "'p option \<Rightarrow> nat \<Rightarrow> ('p, 'm) process \<Rightarrow> 'p option \<times> ('p, 'm) process" where
  "hi_realloc ptr sz s = (let (p, m) = reallocFn (hiredisAllocFns s) ptr sz (memory s) in (p, s\<lparr>memory := m\<rparr>))"

definition hi_strdup :: "'p \<Rightarrow> ('p, 'm) process \<Rightarrow> 'p option \<times> ('p, 'm) process" where
  "hi_strdup str s = (let (p, m) = strdupFn (hiredisAllocFns s) str (memory s) in (p, s\<lparr>memory := m\<rparr>))"

definition hi_free :: "'p option \<Rightarrow> ('p, 'm) process \<Rightarrow> ('p, 'm) process" where
  "hi_free ptr s = s\<lparr>memory := freeFn (hiredisAllocFns s) ptr (memory s)\<rparr>"

section \<open>Programs\<close>

text \<open>What a program does with the hooks.\<close>

datatype ('p, 'm) acall =
    A_set "('p, 'm) hiredisAllocFuncs"
  | A_reset
  | A_malloc nat
  | A_calloc nat nat
  | A_realloc "'p option" nat
  | A_strdup 'p
  | A_free "'p option"

fun alloc_step :: "('p, 'm) hiredisAllocFuncs \<Rightarrow> ('p, 'm) acall \<Rightarrow> ('p, 'm) process \<Rightarrow> ('p, 'm) process" where
  "alloc_step libc (A_set f) s = snd (hiredisSetAllocators f s)"
| "alloc_step libc A_reset s = hiredisResetAllocators libc s"
| "alloc_step libc (A_malloc n) s = snd (hi_malloc n s)"
| "alloc_step libc (A_calloc n k) s = snd (hi_calloc n k s)"
| "alloc_step libc (A_realloc p n) s = snd (hi_realloc p n s)"
| "alloc_step libc (A_strdup p) s = snd (hi_strdup p s)"
| "alloc_step libc (A_free p) s = hi_free p s"

abbreviation alloc_run :: "('p, 'm) hiredisAllocFuncs \<Rightarrow> ('p, 'm) acall list \<Rightarrow> ('p, 'm) process \<Rightarrow> ('p, 'm) process" where
  "alloc_run libc \<equiv> fold (alloc_step libc)"

lemmas alloc_defs = hiredisSetAllocators_def hiredisResetAllocators_def hi_malloc_def hi_calloc_def hi_realloc_def hi_strdup_def
  hi_free_def

text \<open>Memory that every function of a table leaves as it should be.\<close>

definition table_keeps :: "('m \<Rightarrow> bool) \<Rightarrow> ('p, 'm) hiredisAllocFuncs \<Rightarrow> bool" where
  "table_keeps I f \<longleftrightarrow> (\<forall>m n k p str. I m \<longrightarrow> I (snd (mallocFn f n m)) \<and> I (snd (callocFn f n k m))
     \<and> I (snd (reallocFn f p n m)) \<and> I (snd (strdupFn f str m)) \<and> I (freeFn f p m))"

definition process_keeps :: "('m \<Rightarrow> bool) \<Rightarrow> ('p, 'm) process \<Rightarrow> bool" where
  "process_keeps I s \<longleftrightarrow> I (memory s) \<and> table_keeps I (hiredisAllocFns s)"

lemma alloc_step_keeps:
  assumes "process_keeps I s" and "table_keeps I libc" and "\<And>f. k = A_set f \<Longrightarrow> table_keeps I f"
  shows "process_keeps I (alloc_step libc k s)"
  using assms by (cases k) (auto simp: process_keeps_def alloc_defs table_keeps_def case_prod_beta)

text \<open>What the functions of all tables keep, the program keeps, however it exchanges them.\<close>

lemma alloc_run_keeps:
  assumes "process_keeps I s" and "table_keeps I libc" and "\<forall>f. A_set f \<in> set ks \<longrightarrow> table_keeps I f"
  shows "process_keeps I (alloc_run libc ks s)"
  using assms
proof (induction ks arbitrary: s)
  case (Cons k ks)
  from Cons.prems have "process_keeps I (alloc_step libc k s)" by (intro alloc_step_keeps) auto
  with Cons show ?case by simp
qed simp

lemma alloc_step_table: "k \<noteq> A_reset \<Longrightarrow> \<forall>f. k \<noteq> A_set f \<Longrightarrow> hiredisAllocFns (alloc_step libc k s) = hiredisAllocFns s"
  by (cases k) (simp_all add: alloc_defs case_prod_beta)

lemma alloc_run_table:
  "A_reset \<notin> set ks \<Longrightarrow> \<forall>f. A_set f \<notin> set ks \<Longrightarrow> hiredisAllocFns (alloc_run libc ks s) = hiredisAllocFns s"
proof (induction ks arbitrary: s)
  case (Cons k ks)
  from Cons.prems have "hiredisAllocFns (alloc_step libc k s) = hiredisAllocFns s" by (intro alloc_step_table) auto
  with Cons show ?case by simp
qed simp

text \<open>The result of \<open>hiredisSetAllocators\<close> undoes it: all calls in between go to the new table, and the old one
  is back behind them.\<close>

lemma hiredisSetAllocators_restores:
  assumes "hiredisSetAllocators f s = (orig, s1)" and "A_reset \<notin> set ks" and "\<forall>f. A_set f \<notin> set ks"
  shows "hiredisAllocFns (alloc_run libc ks s1) = f"
    and "hiredisAllocFns (snd (hiredisSetAllocators orig (alloc_run libc ks s1))) = hiredisAllocFns s"
  using assms(1) alloc_run_table [OF assms(2,3), of libc s1] by (auto simp: hiredisSetAllocators_def Let_def)

end
