(* ===== verification/Spec2Isabelle.thy ===== *)
theory Spec2Isabelle
  imports SdsText ReaderWait FormatSpec Dict ContextSpec AsyncPubSub RcppSpec Sockcompat Alloc
begin

text \<open>
  RcppRedis connects R to Redis. Its core is the C client library hiredis, kept under
  \<open>src/src/hiredis\<close>; \<open>src/src/Redis.cpp\<close> wraps it for R. A client formats commands, puts them into
  the output buffer of a connection, writes the buffer to a socket, feeds what it reads to an
  incremental parser and gets replies back as trees. The synchronous interface waits for each reply,
  the asynchronous one is driven by an event loop and calls back. This development models that path
  from the strings below to the methods that R programs call.

  The program's parts and the theories that model them:
  \<^item> \<open>sds.c\<close>, \<open>sds.h\<close> (dynamic strings): \<open>Sds\<close> has the five header types as one record with the
    header fields cut to their widths, creation, growth, and the in-place operations; \<open>SdsText\<close> has
    number conversion, formatting, joining, splitting and quoting. Invariant \<open>sds_wf\<close>, contents \<open>sdsval\<close>.
  \<^item> \<open>read.c\<close> (lexical part): \<open>ReadLex\<close>, with \<open>string2ll\<close> and \<open>seekNewline\<close>.
  \<^item> \<open>hiredis.c\<close> (reply objects): \<open>Reply\<close> has the object functions on an explicit heap of cells;
    \<open>ReplyTree\<close> has reply values, their encoding and their layout on the heap. The locale
    \<open>reply_builder\<close> is the interface between parser and object functions; the default functions
    interpret it (\<open>default_builder\<close>).
  \<^item> \<open>read.c\<close> (reader): \<open>Reader\<close> has the task stack, the item processors, feeding and extraction on the
    sds buffer. \<open>ReaderSpec\<close> has a reference parser on plain bytes and the refinement;
    \<open>ReaderFeed\<close> the public calls and their histories; \<open>ReaderTrip\<close> the parsing of encodings;
    \<open>ReaderWait\<close> a reply that arrives in pieces, \<open>ReaderStream\<close> a stream of them.
  \<^item> \<open>hiredis.c\<close> (command formatting): \<open>Format\<close> has the three formatters, \<open>FormatSpec\<close> what they write.
  \<^item> \<open>dict.c\<close>, \<open>dict.h\<close> (hash table): \<open>Dict\<close>, with the locale \<open>kv_table\<close> for its contract and its
    interpretation \<open>dict_table\<close>.
  \<^item> \<open>net.c\<close> (sockets): \<open>Net\<close> has the connection record and every call, over an operating system that is
    an oracle with a trace; \<open>NetSpec\<close> has the descriptors and timeouts.
  \<^item> \<open>sockcompat.c\<close> (sockets on Windows): \<open>Sockcompat\<close> has the wrappers over Winsock, with the locale
    \<open>bsd_call\<close> for what \<open>net.c\<close> expects of a call and an interpretation for each wrapper.
  \<^item> \<open>hiredis.c\<close> (synchronous interface): \<open>Context\<close>, with the transport functions as a parameter;
    \<open>ContextSpec\<close> has the locale \<open>transport\<close>, its interpretation \<open>net_transport\<close> on the socket functions, and
    the properties of buffers, replies, errors and descriptors.
  \<^item> \<open>async.c\<close>, \<open>async_private.h\<close> (asynchronous interface): \<open>Async\<close> has the context, its callback queues and
    tables of subscriptions, and the commands; \<open>AsyncRun\<close> running callbacks, freeing, disconnecting,
    distributing replies and the event handlers. \<open>AsyncSpec\<close> has the histories \<open>async_run\<close> of a context and
    the accounts of its callbacks, with the locale \<open>prog_law\<close> for invariants of user programs (interpreted as
    \<open>books_prog\<close> and, in \<open>AsyncSafe\<close>, as \<open>closing_prog\<close>); \<open>AsyncSubs\<close> the arguments of commands and the
    tables as maps; \<open>AsyncSafe\<close> that freeing ends; \<open>AsyncFlow\<close> replies from the socket to the callbacks;
    \<open>AsyncPubSub\<close> messages and confirmations of subscriptions.
  \<^item> \<open>Redis.cpp\<close> (the class for R): \<open>RcppRedis\<close> has R values, errors, the conversion of replies, connecting
    and the commands given as text; \<open>RcppMethods\<close> all other methods and the table of the module;
    \<open>RcppSpec\<close> what they do with a server that answers.
  \<^item> \<open>alloc.c\<close>, \<open>alloc.h\<close> (allocator hooks): \<open>Alloc\<close> has the table of functions, its exchange and the calls
    through it; the other theories see only what a request is answered with (\<open>mem\<close> of \<open>Prelude\<close>).

  Conventions. Bytes are characters, a pointer with a length is a list of bytes, C strings end at
  the first NUL. \<open>size_t\<close> and \<open>int\<close> arithmetic is on \<open>nat\<close> and \<open>int\<close> with the wrap-around written out
  (\<open>ubits\<close>, \<open>usub\<close>, \<open>sbits\<close>), flag words are 32-bit words. The allocator, the C library texts
  (\<open>strerror\<close>, \<open>vsnprintf\<close>, \<open>strtod\<close>) and the operating system are parameters. A failed assertion,
  undefined behaviour and a loop without end are the value \<open>None\<close>, so a theorem with a result
  excludes all three. Bounds: the parsing loop gets one round more than there are bytes, which is
  proved to be enough; the release of a reply and its conversion to R get as many levels as there are
  cells; the loops of \<open>redisGetReply\<close> and of \<open>async.c\<close> are partial functions and their termination is
  proved for the histories they are used on.

  In the asynchronous part a callback of the user is a program of calls of the interface, which may
  depend on the reply, the data of the callback and a state of the user. A context that has been freed
  is gone from the state, so nothing can be done with it. What the user and the event loop see (accepted
  commands, calls of callbacks, changes of the registered events, the release) is recorded in a log. An
  iterator over a table that a callback changes has no result. \<open>redisAsyncRead\<close> and \<open>redisAsyncWrite\<close> stand for the
  functions of that name in the table of transport functions.

  In the R part an operation returns a value or an error of R with the state. An error leaves the state as
  it is, so a reply that the code does not release before raising it stays on the heap. Serialization,
  conversions between R objects, arithmetic on doubles and \<open>msgpack\<close> are parameters.

  What the lemmas show, by group: every string operation keeps \<open>sds_wf\<close> and has its effect on
  \<open>sdsval\<close>; the reader refines the reference parser, is insensitive to how input is cut, keeps its
  invariant under any failure, and inverts the encoding; releasing a reply releases exactly its
  cells; formatters write the encoding of their arguments and cannot be made to split them; the
  hash table is a map under every growth; connections leak no descriptor, corrupt no output;
  every accepted asynchronous command gets its callback exactly once, replies reach the callbacks that wait
  for them and messages those that are subscribed, and freeing a context ends with nobody left waiting; R
  objects and vectors come back as they were stored; and (below) a command is sent and its reply returned.
  Some theorems state where the code fails: each gives the input and the failure.

  Not modelled: \<open>win32.h\<close> and \<open>fmacros.h\<close>, shims for compilers; \<open>init.c\<close>, which registers functions with R; the adapters of
  event loops (the hooks are flags and their calls are in the log; \<open>delRead\<close> is never called by the code); TLS.
  Private data and its destructor (\<open>privdata\<close>, \<open>free_privdata\<close>) belong to the user and are left out, as are
  changes that a connect or disconnect callback makes to its constant context, and allocations of R that fail.
\<close>

section \<open>A command from end to end\<close>

text \<open>C1: A command reaches the server and its reply reaches the caller. On an idle blocking connection
  \<open>redisCommand\<close> with a format of words sends exactly the protocol encoding of the arguments,
  whatever sizes the socket accepts in each \<open>send\<close>, then returns a pointer to the tree of the
  server's reply (any well-formed reply that is not a push message) however its encoding is cut
  into pieces by \<open>recv\<close>, and leaves the connection idle again.\<close>

theorem redisCommand_exchange:
  assumes "\<forall>n. granted M n" and "conn_idle c"
    and "ws \<noteq> []" and "\<forall>w \<in> set ws. word_ok w" and "NUL \<notin> set (words_fmt ws)"
    and "cmd = encode (RAggr Array (map RString (map (word_val render) ws)))" and "length cmd + 1 < 2 ^ 31"
    and "resp_ok (lc_strtod L) v" and "not_push v" and "concat ds = encode v" and "length (encode v) < 2 ^ 30"
    and "\<forall>d \<in> set ds. d \<noteq> [] \<and> length d \<le> 16384" and "sum_list ns = length cmd" and "0 \<notin> set ns"
    and "oracle_gives w (map ret_send ns @ map ret_recv ds)"
  shows "\<exists>c' w'. redisCommand (redisContextDefaultFuncs L) L render M (words_fmt ws) (concat (map word_ap ws)) (c, h, w)
      = Some (Ref (length h), c', h @ layout (length h) v, w')
    \<and> sent_bytes w' = sent_bytes w @ cmd \<and> rc_err c' = 0
    \<and> (\<exists>b r. rc_obuf c' = Some b \<and> sdsval b = [] \<and> rc_reader c' = Some r \<and> reader_idle r \<and> unread r = [])"
proof -
  obtain b r where c: "has_flag c REDIS_BLOCK" "rc_err c = 0" "rc_obuf c = Some b" "sds_wf b" "sdsval b = []"
    "rc_reader c = Some r" "reader_idle r" "unread r = []" "rd_len r < 2 ^ 30"
    using assms(2) by (auto simp: conn_idle_def)
  have cmd: "cmd = command_text (map (word_val render) ws)" by (simp only: assms(6) command_text_encode)
  have "sdslen b < 2 ^ 31" using length_sdsval [OF c(4)] c(5) by simp
  then obtain b' where b': "redisvAppendCommand render M (words_fmt ws) (concat (map word_ap ws)) c
      = Some (REDIS_OK, c\<lparr>rc_obuf := Some b'\<rparr>)" "sds_wf b'" "sdsval b' = cmd"
    using appendCommand_words [OF assms(1,3-5) cmd assms(7) c(3,4)] c(5) by auto
  let ?c = "c\<lparr>rc_obuf := Some b'\<rparr>"
  have "has_flag ?c REDIS_BLOCK" "rc_err ?c = 0" "rc_obuf ?c = Some b'" "rc_reader ?c = Some r"
    using c by (simp_all add: has_flag_def)
  moreover have "length cmd < 2 ^ 31" "rd_len r + length (encode v) < 2 ^ 31" using assms(7,11) c(9) by simp_all
  moreover have "oracle_gives w (map ret_send ns @ map ret_recv ds @ [])" using assms(15) by simp
  ultimately obtain e r' w' where "redisBlockForReply (redisContextDefaultFuncs L) L M (?c, h, w)
      = Some (Ref (length h), ?c\<lparr>rc_obuf := Some e, rc_reader := Some r'\<rparr>, h @ layout (length h) v, w')"
    "sdsval e = []" "reader_idle r'" "unread r' = []" "sent_bytes w' = sent_bytes w @ cmd"
    using blockForReply_exchange [OF assms(1,8,9), of ?c b' cmd r ds ns w "[]" h] b'(2,3) c(7,8) assms(10,12-14)
    by metis
  with b'(1) c(2) show ?thesis by (auto simp: redisCommand_def redisvCommand_def)
qed

theorem redisCommand_exchange_witness:
  "\<exists>c c' w'. redisContextInit mem_ok = Some c \<and>
    redisCommand (redisContextDefaultFuncs no_libc) no_libc (\<lambda>_ _. []) mem_ok ''PING'' [] (c\<lparr>rc_flags := REDIS_BLOCK\<rparr>, [],
      os_of [ret_send 4, ret_send 10, ret_recv ''+PO'', ret_recv (''NG'' @ CRLF)])
      = Some (Ref 0, c', layout 0 (RStatus ''PONG''), w')
    \<and> sent_bytes w' = ''*1'' @ CRLF @ ''$4'' @ CRLF @ ''PING'' @ CRLF"
proof -
  let ?ws = "[[PLit CHR ''P'', PLit CHR ''I'', PLit CHR ''N'', PLit CHR ''G'']]"
  let ?ns = "[4, 10 :: nat]" and ?ds = "[''+PO'', ''NG'' @ CRLF]"
  let ?w = "os_of [ret_send 4, ret_send 10, ret_recv ''+PO'', ret_recv (''NG'' @ CRLF)]"
  define cmd where "cmd = encode (RAggr Array (map RString (map (word_val (\<lambda>_ _. [])) ?ws)))"
  have d4: "dec 4 = ''4''" by (simp add: dec_small digit_char_def char_of_eq_iff)
  have d1: "dec (Suc 0) = ''1''" by (subst dec_small) (simp_all add: digit_char_def char_of_eq_iff)
  have cmd: "cmd = ''*1'' @ CRLF @ ''$4'' @ CRLF @ ''PING'' @ CRLF"
    unfolding cmd_def by (simp add: dec_int_def aggr_count_def d1 d4 word_val_def)
  have f: "words_fmt ?ws = ''PING''" "concat (map word_ap ?ws) = []" by (simp_all add: word_fmt_def word_ap_def)
  obtain c b r where c: "redisContextInit mem_ok = Some c" "rc_err c = 0" "rc_obuf c = Some b" "sds_wf b" "sdsval b = []"
    "rc_reader c = Some r" "reader_idle r" "unread r = []" "rd_len r = 0"
    by (rule fresh_context)
  have idle: "conn_idle (c\<lparr>rc_flags := REDIS_BLOCK\<rparr>)" using c by (simp add: conn_idle_def has_flag_def REDIS_BLOCK_def)
  have "oracle_gives ?w (map ret_send ?ns @ map ret_recv ?ds)" using os_of_gives(1) by simp
  moreover have "concat ?ds = encode (RStatus ''PONG'')" "\<forall>d \<in> set ?ds. d \<noteq> [] \<and> length d \<le> 16384"
    "sum_list ?ns = length cmd" "0 \<notin> set ?ns" "length cmd + 1 < 2 ^ 31" "length (encode (RStatus ''PONG'')) < 2 ^ 30"
    by (simp_all add: cmd)
  moreover have "resp_ok (lc_strtod no_libc) (RStatus ''PONG'')" "not_push (RStatus ''PONG'')" "\<forall>n. granted mem_ok n"
    "?ws \<noteq> []" "\<forall>w \<in> set ?ws. word_ok w" "NUL \<notin> set (words_fmt ?ws)"
    by (simp_all add: not_push_def word_ok_def word_fmt_def)
  ultimately have "\<exists>c' w'. redisCommand (redisContextDefaultFuncs no_libc) no_libc (\<lambda>_ _. []) mem_ok (words_fmt ?ws)
      (concat (map word_ap ?ws)) (c\<lparr>rc_flags := REDIS_BLOCK\<rparr>, [], ?w)
      = Some (Ref (length ([] :: heap)), c', [] @ layout (length ([] :: heap)) (RStatus ''PONG''), w')
    \<and> sent_bytes w' = sent_bytes ?w @ cmd"
    using redisCommand_exchange [OF _ idle _ _ _ cmd_def, of mem_ok no_libc "RStatus ''PONG''" ?ds ?ns ?w "[]"] by blast
  then show ?thesis using c(1) os_of_gives(2) unfolding f cmd by auto
qed

end
